(* ===== verification/Prelude.thy ===== *)
theory Prelude
  imports Main "HOL-Library.Multiset"
begin

text \<open>
  Shared vocabulary of the development: Python exceptions as values, the error monad the
  models of the fallible operations are written in, Python slices, and the lemmas on lists
  (strided slices, prefixes) that several components use.
\<close>

section \<open>Results\<close>

text \<open>
  Every exception the modelled code can raise is a constructor. \<open>Diverges\<close> is no Python
  exception: it is the value of a loop whose bound ran out, so that "the loop ends" is a
  statement the theorems make.
\<close>

datatype py_error =
    AssertionError | IndexError | KeyError | RuntimeError | ValueError
  | NotImplementedError | KeyboardInterrupt | StopIteration | RequestAllFinished
  | ZeroDivisionError | AttributeError | TypeError | ImportError | BackendError | SystemExit | ArgumentTypeError | Diverges

type_synonym 'a res = "py_error + 'a"

definition rbind :: "'a res \<Rightarrow> ('a \<Rightarrow> 'b res) \<Rightarrow> 'b res" where
  "rbind m f = (case m of Inl e \<Rightarrow> Inl e | Inr x \<Rightarrow> f x)"

definition py_assert :: "bool \<Rightarrow> unit res" where
  "py_assert b = (if b then Inr () else Inl AssertionError)"

named_theorems res_simps "unfolding the error monad"

lemma rbind_Inl [simp, res_simps]: "rbind (Inl e) f = Inl e"
  by (simp add: rbind_def)

lemma rbind_Inr [simp, res_simps]: "rbind (Inr x) f = f x"
  by (simp add: rbind_def)

lemma rbind_eq_Inr: "rbind m f = Inr y \<longleftrightarrow> (\<exists>x. m = Inr x \<and> f x = Inr y)"
  by (cases m) auto

lemma rbind_eq_Inl: "rbind m f = Inl e \<longleftrightarrow> m = Inl e \<or> (\<exists>x. m = Inr x \<and> f x = Inl e)"
  by (cases m) auto

lemma rbindE:
  assumes "rbind m f = Inr y"
  obtains x where "m = Inr x" and "f x = Inr y"
  using assms by (auto simp: rbind_eq_Inr)

lemma rbind_cong [fundef_cong]:
  "m = m' \<Longrightarrow> (\<And>x. m' = Inr x \<Longrightarrow> f x = f' x) \<Longrightarrow> rbind m f = rbind m' f'"
  by (cases m') auto

lemma rbind_assoc: "rbind (rbind m f) g = rbind m (\<lambda>x. rbind (f x) g)"
  by (cases m) auto

lemma py_assert_True [simp, res_simps]: "py_assert True = Inr ()"
  by (simp add: py_assert_def)

lemma py_assert_False [simp, res_simps]: "py_assert False = Inl AssertionError"
  by (simp add: py_assert_def)

lemma py_assert_Inr [simp]: "py_assert b = Inr u \<longleftrightarrow> b"
  by (simp add: py_assert_def)

fun res_map :: "('a \<Rightarrow> 'b res) \<Rightarrow> 'a list \<Rightarrow> 'b list res" where
  "res_map f [] = Inr []"
| "res_map f (x # xs) = rbind (f x) (\<lambda>y. rbind (res_map f xs) (\<lambda>ys. Inr (y # ys)))"

lemma res_map_total:
  "(\<And>x. x \<in> set xs \<Longrightarrow> f x = Inr (g x)) \<Longrightarrow> res_map f xs = Inr (map g xs)"
  by (induction xs) auto

lemma length_res_map: "res_map f xs = Inr ys \<Longrightarrow> length ys = length xs"
  by (induction xs arbitrary: ys) (auto simp: rbind_eq_Inr)

fun res_fold :: "('a \<Rightarrow> 's \<Rightarrow> 's res) \<Rightarrow> 'a list \<Rightarrow> 's \<Rightarrow> 's res" where
  "res_fold f [] s = Inr s"
| "res_fold f (x # xs) s = rbind (f x s) (res_fold f xs)"

lemma res_fold_append: "res_fold f (xs @ ys) s = rbind (res_fold f xs s) (res_fold f ys)"
proof (induction xs arbitrary: s)
  case (Cons x xs)
  have "res_fold f ((x # xs) @ ys) s = rbind (f x s) (\<lambda>t. rbind (res_fold f xs t) (res_fold f ys))"
    using Cons by (simp cong: rbind_cong)
  then show ?case by (simp add: rbind_assoc)
qed simp

lemma res_fold_invariant:
  assumes "P s" and "res_fold f xs s = Inr t"
    and "\<And>x s t. x \<in> set xs \<Longrightarrow> P s \<Longrightarrow> f x s = Inr t \<Longrightarrow> P t"
  shows "P t"
  using assms by (induction xs arbitrary: s) (auto elim!: rbindE)

section \<open>Python slices\<close>

text \<open>A slice bound as Python reads it: negative bounds count from the end, all are clipped.\<close>

definition py_clip :: "nat \<Rightarrow> int \<Rightarrow> nat" where
  "py_clip n i = (if i < 0 then nat (int n + i) else min n (nat i))"

definition py_slice :: "'a list \<Rightarrow> int \<Rightarrow> int \<Rightarrow> 'a list" where
  "py_slice xs a b = drop (py_clip (length xs) a) (take (py_clip (length xs) b) xs)"

definition py_index :: "'a list \<Rightarrow> int \<Rightarrow> 'a res" where
  "py_index xs i =
     (if i \<ge> 0 then (if nat i < length xs then Inr (xs ! nat i) else Inl IndexError)
      else if nat (- i) \<le> length xs then Inr (xs ! (length xs - nat (- i))) else Inl IndexError)"

text \<open>The slice \<open>xs[a:b]\<close> with bounds that are counts.\<close>

definition slice :: "nat \<Rightarrow> nat \<Rightarrow> 'a list \<Rightarrow> 'a list" where
  "slice a b xs = drop a (take b xs)"

lemma py_slice_nat: "py_slice xs (int a) (int b) = slice a b xs"
proof (cases "a \<le> length xs")
  case True
  then show ?thesis
    by (cases "b \<le> length xs") (simp_all add: py_slice_def slice_def py_clip_def)
next
  case False
  then show ?thesis by (simp add: py_slice_def slice_def py_clip_def)
qed

lemma length_slice [simp]: "length (slice a b xs) = min b (length xs) - a"
  by (simp add: slice_def min.commute)

lemma slice_0 [simp]: "slice 0 b xs = take b xs"
  by (simp add: slice_def)

lemma slice_split: "a \<le> b \<Longrightarrow> b \<le> c \<Longrightarrow> slice a c xs = slice a b xs @ slice b c xs"
proof -
  assume ab: "a \<le> b" and bc: "b \<le> c"
  have "take c xs = take b xs @ drop b (take c xs)"
    using bc by (metis append_take_drop_id min.absorb1 take_take)
  then have "slice a c xs = drop a (take b xs) @ drop (a - length (take b xs)) (drop b (take c xs))"
    unfolding slice_def by (metis drop_append)
  moreover have "drop (a - length (take b xs)) (drop b (take c xs)) = drop b (take c xs)"
    using ab by (cases "b \<le> length xs") auto
  ultimately show ?thesis by (simp add: slice_def)
qed

lemma slice_take: "b \<le> c \<Longrightarrow> slice a b (take c xs) = slice a b xs"
  by (simp add: slice_def min_def)

lemma slice_empty [simp]: "b \<le> a \<Longrightarrow> slice a b xs = []"
  by (simp add: slice_def)

section \<open>Strided slices\<close>

text \<open>
  \<open>xs[::p]\<close>: every \<open>p\<close>-th element. The cache keeps one slot number per page this way.
\<close>

function stride :: "nat \<Rightarrow> 'a list \<Rightarrow> 'a list" where
  "stride p [] = []"
| "stride p (x # xs) = x # stride p (drop (p - 1) xs)"
  by pat_completeness auto
termination
  by (relation "measure (\<lambda>(p, xs). length xs)") auto

lemma stride_1 [simp]: "stride (Suc 0) xs = xs"
  by (induction xs) auto

lemma stride_Cons_drop: "xs \<noteq> [] \<Longrightarrow> 0 < p \<Longrightarrow> stride p xs = hd xs # stride p (drop p xs)"
  by (cases xs) (auto simp: drop_Cons split: nat.splits)

lemma stride_eq_Nil [simp]: "stride p xs = [] \<longleftrightarrow> xs = []"
  by (cases xs) auto

lemma stride_append:
  assumes "0 < p" and "p dvd length xs"
  shows "stride p (xs @ ys) = stride p xs @ stride p ys"
  using assms
proof (induction p xs rule: stride.induct)
  case (1 p)
  then show ?case by simp
next
  case (2 p x xs)
  then have len: "p \<le> Suc (length xs)" by (auto dest: dvd_imp_le)
  have "length (drop (p - 1) xs) = Suc (length xs) - p"
    using 2 by simp
  with 2 have "p dvd length (drop (p - 1) xs)"
    by (metis dvd_diff_nat dvd_refl length_Cons)
  with 2 have "stride p (drop (p - 1) xs @ ys) = stride p (drop (p - 1) xs) @ stride p ys"
    by blast
  moreover have "drop (p - 1) (xs @ ys) = drop (p - 1) xs @ ys"
    using len by simp
  ultimately show ?case by simp
qed

lemma length_stride:
  assumes "0 < p" and "p dvd length xs"
  shows "p * length (stride p xs) = length xs"
  using assms
proof (induction p xs rule: stride.induct)
  case (1 p)
  then show ?case by simp
next
  case (2 p x xs)
  then have len: "p \<le> Suc (length xs)" by (auto dest: dvd_imp_le)
  with 2 have "p dvd length (drop (p - 1) xs)"
    by (metis Suc_pred diff_Suc_1 dvd_diff_nat dvd_refl length_Cons length_drop diff_Suc_Suc)
  with 2 have "p * length (stride p (drop (p - 1) xs)) = length (drop (p - 1) xs)"
    by blast
  with len 2 show ?case by (simp add: algebra_simps)
qed

lemma set_stride_subset: "set (stride p xs) \<subseteq> set xs"
  by (induction p xs rule: stride.induct) (auto dest: in_set_dropD)

section \<open>Common prefixes\<close>

text \<open>The length of the longest common prefix, as the comparison kernel counts it.\<close>

fun common_len :: "'a list \<Rightarrow> 'a list \<Rightarrow> nat" where
  "common_len (x # xs) (y # ys) = (if x = y then Suc (common_len xs ys) else 0)"
| "common_len _ _ = 0"

lemma common_len_le: "common_len xs ys \<le> length xs" "common_len xs ys \<le> length ys"
  by (induction xs ys rule: common_len.induct) auto

lemma take_common_len: "n \<le> common_len xs ys \<Longrightarrow> take n xs = take n ys"
proof (induction xs ys arbitrary: n rule: common_len.induct)
  case (1 x xs y ys)
  then show ?case by (cases n) (auto split: if_splits)
qed auto

lemma common_len_ge:
  "n \<le> length xs \<Longrightarrow> n \<le> length ys \<Longrightarrow> take n xs = take n ys \<Longrightarrow> n \<le> common_len xs ys"
proof (induction xs ys arbitrary: n rule: common_len.induct)
  case (1 x xs y ys)
  then show ?case by (cases n) auto
qed auto

lemma common_len_commute: "common_len xs ys = common_len ys xs"
  by (induction xs ys rule: common_len.induct) auto

end
