(* ===== verification/CacheBase.thy ===== *)
theory CacheBase
  imports Prelude "HOL-Library.Sublist"
begin

text \<open>
  \<^verbatim>\<open>kvcache/base.py\<close>: cache handles, the result tuples and the abstract class
  \<^verbatim>\<open>BasePrefixCache\<close>. A cache object is a value of type \<open>'c\<close>; its class is the record of its
  methods, so that \<^verbatim>\<open>CacheManager\<close>, which only knows the abstract class, is written over any
  such record.
\<close>

type_synonym tok = int
type_synonym slot = int
type_synonym nid = nat

text \<open>
  The concrete handle classes. \<open>RadixHandle\<close> has the node's identity; \<open>NaiveHandle\<close> always has
  \<^verbatim>\<open>cached_len = 0\<close>.
\<close>

datatype handle = RadixHandle nat nid | NaiveHandle

fun handle_len :: "handle \<Rightarrow> nat" where
  "handle_len (RadixHandle n _) = n"
| "handle_len NaiveHandle = 0"

record size_info =
  si_evictable :: int
  si_protected :: int

definition total_size :: "size_info \<Rightarrow> int" where
  "total_size i = si_evictable i + si_protected i"

record 'c prefix_cache_class =
  pc_lock_handle :: "'c \<Rightarrow> handle \<Rightarrow> bool \<Rightarrow> 'c res"
  pc_match_prefix :: "'c \<Rightarrow> tok list \<Rightarrow> (handle \<times> 'c) res"
  pc_insert_prefix :: "'c \<Rightarrow> tok list \<Rightarrow> slot list \<Rightarrow> ((nat \<times> handle) \<times> 'c) res"
  pc_evict :: "'c \<Rightarrow> nat \<Rightarrow> (slot list \<times> 'c) res"
  pc_reset :: "'c \<Rightarrow> 'c res"
  pc_size_info :: "'c \<Rightarrow> size_info"
  pc_check_integrity :: "'c \<Rightarrow> unit res"
  pc_matched_indices :: "'c \<Rightarrow> handle \<Rightarrow> slot list res"

text \<open>The prefixes of some token sequences that consist of whole pages.\<close>

definition page_prefixes :: "nat \<Rightarrow> tok list set \<Rightarrow> tok list set" where
  "page_prefixes p X = {ys. ys \<noteq> [] \<and> p dvd length ys \<and> (\<exists>xs\<in>X. prefix ys xs)}"

lemma page_prefixes_finite: "finite X \<Longrightarrow> finite (page_prefixes p X)"
  by (rule finite_subset [of _ "\<Union>xs\<in>X. set (prefixes xs)"]) (auto simp: page_prefixes_def)

lemma page_prefixes_mono: "X \<subseteq> Y \<Longrightarrow> page_prefixes p X \<subseteq> page_prefixes p Y"
  by (auto simp: page_prefixes_def)

text \<open>Extending one of the sequences adds at most one prefix per added token.\<close>

lemma card_page_prefixes_extend:
  assumes "finite X" and "m \<le> n" and "n \<le> length ids"
  shows "card (page_prefixes p (insert (take n ids) X)) \<le> card (page_prefixes p (insert (take m ids) X)) + (n - m)"
proof -
  let ?A = "page_prefixes p (insert (take m ids) X)"
  have fin: "finite ?A" using assms(1) by (intro page_prefixes_finite) simp
  have "ys \<in> ?A \<union> (\<lambda>k. take k ids) ` {m<..n}" if ys: "ys \<in> page_prefixes p (insert (take n ids) X)" for ys
  proof (cases "prefix ys (take n ids)")
    case True
    have len: "length ys \<le> n" using prefix_length_le [OF True] assms(3) by simp
    have "ys = take (length ys) (take n ids)" using True by (metis append_eq_conv_conj prefix_def)
    then have y: "ys = take (length ys) ids" using len by (simp add: min.absorb1)
    show ?thesis
    proof (cases "length ys \<le> m")
      case True
      then have "prefix ys (take m ids)" using y(1) by (metis min.absorb1 take_is_prefix take_take)
      then show ?thesis using ys by (auto simp: page_prefixes_def)
    next
      case False
      then show ?thesis using y len by force
    qed
  next
    case False
    then show ?thesis using ys by (auto simp: page_prefixes_def)
  qed
  then have "card (page_prefixes p (insert (take n ids) X)) \<le> card (?A \<union> (\<lambda>k. take k ids) ` {m<..n})"
    using fin by (intro card_mono) auto
  also have "\<dots> \<le> card ?A + card ((\<lambda>k. take k ids) ` {m<..n})" by (rule card_Un_le)
  also have "card ((\<lambda>k. take k ids) ` {m<..n}) \<le> n - m" using card_image_le [of "{m<..n}"] by simp
  finally show ?thesis by simp
qed

end
