(* ===== verification/PyInt.thy ===== *)
theory PyInt
  imports Prelude
begin

text \<open>
  The integer helpers of \<^verbatim>\<open>utils/misc.py\<close> and \<^verbatim>\<open>engine/engine.py\<close>. Python's integers are
  unbounded and \<^verbatim>\<open>//\<close> rounds towards minus infinity, as \<open>div\<close> on \<^typ>\<open>int\<close> does.
\<close>

definition div_even :: "int \<Rightarrow> int \<Rightarrow> bool \<Rightarrow> int res" where
  "div_even a b allow_replicate =
     (if allow_replicate \<and> b > a then
        if a = 0 then Inl ZeroDivisionError
        else if b mod a = 0 then Inr 1 else Inl AssertionError
      else if b = 0 then Inl ZeroDivisionError
      else if a mod b = 0 then Inr (a div b) else Inl AssertionError)"

definition div_ceil :: "int \<Rightarrow> int \<Rightarrow> int" where
  "div_ceil a b = (a + b - 1) div b"

definition align_ceil :: "int \<Rightarrow> int \<Rightarrow> int" where
  "align_ceil a b = div_ceil a b * b"

definition align_down :: "int \<Rightarrow> int \<Rightarrow> int" where
  "align_down a b = (a div b) * b"

definition align_up_32 :: "int \<Rightarrow> int" where
  "align_up_32 num = (num + 31) div 32 * 32"

end
