(* ===== verification/Radix.thy ===== *)
theory Radix
  imports CacheBase PyInt "HOL-Library.AList"
begin

text \<open>
  \<^verbatim>\<open>kvcache/radix_cache.py\<close>. Nodes are mutable objects shared by parent pointers, child
  dictionaries and handles, so they live in an explicit store indexed by the node's \<^verbatim>\<open>uuid\<close>,
  which the class counter hands out. A one-dimensional tensor of token ids or slots is a list.
  Every loop carries a bound; the invariant proofs show that the bounds are never reached.
\<close>

section \<open>Nodes\<close>

datatype dict_key = KItem tok | KTuple "tok list"

record radix_node =
  children :: "(dict_key \<times> nid) list"
  parent_ptr :: "nid option"
  ref_count :: int
  timestamp :: int
  node_key :: "tok list"
  node_value :: "slot list"

record radix =
  rpage_size :: nat
  store :: "nid \<Rightarrow> radix_node option"
  next_uuid :: nat
  root_node :: nid
  evictable_size :: int
  protected_size :: int
  clock :: "nat \<Rightarrow> int"
  ticks :: nat

text \<open>\<^verbatim>\<open>time.monotonic_ns()\<close>: the \<open>k\<close>-th reading of the clock is \<open>clock k\<close>.\<close>

definition monotonic_ns :: "radix \<Rightarrow> int \<times> radix" where
  "monotonic_ns s = (clock s (ticks s), s\<lparr>ticks := Suc (ticks s)\<rparr>)"

definition get_node :: "radix \<Rightarrow> nid \<Rightarrow> radix_node res" where
  "get_node s n = (case store s n of None \<Rightarrow> Inl KeyError | Some x \<Rightarrow> Inr x)"

definition put_node :: "nid \<Rightarrow> radix_node \<Rightarrow> radix \<Rightarrow> radix" where
  "put_node n x s = s\<lparr>store := (store s)(n \<mapsto> x)\<rparr>"

definition node_length :: "radix_node \<Rightarrow> nat" where
  "node_length x = length (node_key x)"

definition is_root :: "radix_node \<Rightarrow> bool" where
  "is_root x \<longleftrightarrow> parent_ptr x = None"

definition is_leaf :: "radix_node \<Rightarrow> bool" where
  "is_leaf x \<longleftrightarrow> length (children x) = 0"

definition node_parent :: "radix_node \<Rightarrow> nid res" where
  "node_parent x = (case parent_ptr x of None \<Rightarrow> Inl AssertionError | Some p \<Rightarrow> Inr p)"

definition get_key_fn :: "nat \<Rightarrow> tok list \<Rightarrow> dict_key res" where
  "get_key_fn page_size x =
     (if page_size = 1 then (case x of [] \<Rightarrow> Inl IndexError | t # _ \<Rightarrow> Inr (KItem t))
      else Inr (KTuple (take page_size x)))"

text \<open>\<^verbatim>\<open>fast_compare_key\<close> counts the positions before the first difference.\<close>

definition fast_compare_key :: "tok list \<Rightarrow> tok list \<Rightarrow> nat" where
  "fast_compare_key x y = common_len x y"

definition get_match_len :: "radix_node \<Rightarrow> tok list \<Rightarrow> nat" where
  "get_match_len x ids = fast_compare_key (node_key x) ids"

text \<open>
  The constructor: \<^verbatim>\<open>tic or time.monotonic_ns()\<close> reads the clock when no timestamp, or a zero
  one, is given.
\<close>

definition new_node :: "int option \<Rightarrow> radix \<Rightarrow> nid \<times> radix" where
  "new_node tic s =
     (let (ts, s) = (case tic of Some t \<Rightarrow> if t = 0 then monotonic_ns s else (t, s)
                               | None \<Rightarrow> monotonic_ns s);
          u = next_uuid s;
          x = \<lparr>children = [], parent_ptr = None, ref_count = 0, timestamp = ts,
               node_key = [], node_value = []\<rparr>
      in (u, (put_node u x s)\<lparr>next_uuid := Suc u\<rparr>))"

definition set_key_value :: "nid \<Rightarrow> tok list \<Rightarrow> slot list \<Rightarrow> radix \<Rightarrow> radix res" where
  "set_key_value n k v s =
     rbind (py_assert (length k = length v)) (\<lambda>_.
     rbind (get_node s n) (\<lambda>x.
     Inr (put_node n (x\<lparr>node_key := k, node_value := v\<rparr>) s)))"

definition set_parent :: "nid \<Rightarrow> nid \<Rightarrow> radix \<Rightarrow> radix res" where
  "set_parent n p s =
     rbind (get_node s n) (\<lambda>x.
     let s = put_node n (x\<lparr>parent_ptr := Some p\<rparr>) s in
     rbind (get_key_fn (rpage_size s) (node_key x)) (\<lambda>k.
     rbind (get_node s p) (\<lambda>y.
     Inr (put_node p (y\<lparr>children := AList.update k n (children y)\<rparr>) s))))"

definition split_at :: "nid \<Rightarrow> nat \<Rightarrow> radix \<Rightarrow> (nid \<times> radix) res" where
  "split_at n pos s =
     rbind (get_node s n) (\<lambda>x.
     rbind (py_assert (0 < pos \<and> pos < node_length x)) (\<lambda>_.
     rbind (node_parent x) (\<lambda>p.
     let (m, s) = new_node (Some (timestamp x)) s in
     rbind (set_key_value m (take pos (node_key x)) (take pos (node_value x)) s) (\<lambda>s.
     rbind (set_parent m p s) (\<lambda>s.
     rbind (get_node s m) (\<lambda>y.
     let s = put_node m (y\<lparr>ref_count := ref_count x\<rparr>) s in
     rbind (set_key_value n (drop pos (node_key x)) (drop pos (node_value x)) s) (\<lambda>s.
     rbind (set_parent n m s) (\<lambda>s.
     Inr (m, s)))))))))"

section \<open>The cache\<close>

definition radix_init :: "nat \<Rightarrow> (nat \<Rightarrow> int) \<Rightarrow> radix" where
  "radix_init page_size clk =
     (let s = \<lparr>rpage_size = page_size, store = Map.empty, next_uuid = 0, root_node = 0,
               evictable_size = 0, protected_size = 0, clock = clk, ticks = 0\<rparr>;
          (r, s) = new_node None s
      in (case store s r of
            None \<Rightarrow> s
          | Some x \<Rightarrow> (put_node r (x\<lparr>ref_count := 1\<rparr>) s)\<lparr>root_node := r\<rparr>))"

definition align_page :: "nat \<Rightarrow> nat \<Rightarrow> nat" where
  "align_page n page_size = nat (align_down (int n) (int page_size))"

text \<open>
  The loop of \<^verbatim>\<open>_tree_walk\<close>. Each round matches at least one token, so one round per token of
  the input bounds it.
\<close>

fun tree_walk_loop ::
  "nat \<Rightarrow> tok list \<Rightarrow> int \<Rightarrow> nid \<Rightarrow> nat \<Rightarrow> radix \<Rightarrow> ((nid \<times> nat) \<times> radix) res" where
  "tree_walk_loop fuel ids tic node prefix_len s =
     (if prefix_len < length ids then
        (case fuel of 0 \<Rightarrow> Inl Diverges | Suc fuel' \<Rightarrow>
          rbind (get_node s node) (\<lambda>x.
          rbind (get_key_fn (rpage_size s) (drop prefix_len ids)) (\<lambda>k.
          case map_of (children x) k of
            None \<Rightarrow> Inr ((node, prefix_len), s)
          | Some node \<Rightarrow>
              rbind (get_node s node) (\<lambda>y.
              let match_len = align_page (get_match_len y (drop prefix_len ids)) (rpage_size s);
                  prefix_len = prefix_len + match_len in
              if match_len \<noteq> node_length y then
                rbind (split_at node match_len s) (\<lambda>(m, s).
                rbind (get_node s m) (\<lambda>z.
                Inr ((m, prefix_len), put_node m (z\<lparr>timestamp := tic\<rparr>) s)))
              else
                tree_walk_loop fuel' ids tic node prefix_len
                  (put_node node (y\<lparr>timestamp := tic\<rparr>) s)))))
      else Inr ((node, prefix_len), s))"

declare tree_walk_loop.simps [simp del]

definition tree_walk :: "tok list \<Rightarrow> radix \<Rightarrow> ((nid \<times> nat) \<times> radix) res" where
  "tree_walk ids s =
     (let (tic, s) = monotonic_ns s
      in tree_walk_loop (length ids) ids tic (root_node s) 0 s)"

definition match_prefix :: "radix \<Rightarrow> tok list \<Rightarrow> (handle \<times> radix) res" where
  "match_prefix s ids =
     rbind (tree_walk ids s) (\<lambda>((node, prefix_len), s). Inr (RadixHandle prefix_len node, s))"

definition insert_prefix ::
  "radix \<Rightarrow> tok list \<Rightarrow> slot list \<Rightarrow> ((nat \<times> handle) \<times> radix) res" where
  "insert_prefix s ids indices =
     (let insert_len = align_page (length ids) (rpage_size s);
          ids = take insert_len ids; indices = take insert_len indices in
      rbind (tree_walk ids s) (\<lambda>((node, prefix_len), s).
      if prefix_len \<noteq> insert_len then
        let (m, s) = new_node None s in
        rbind (set_key_value m (drop prefix_len ids) (drop prefix_len indices) s) (\<lambda>s.
        rbind (set_parent m node s) (\<lambda>s.
        rbind (get_node s m) (\<lambda>y.
        Inr ((prefix_len, RadixHandle insert_len m),
             s\<lparr>evictable_size := evictable_size s + int (node_length y)\<rparr>))))
      else Inr ((prefix_len, RadixHandle insert_len node), s)))"

text \<open>
  The two loops of \<^verbatim>\<open>lock_handle\<close> and the loop of \<^verbatim>\<open>get_matched_indices\<close> climb from the handle's
  node to the root. Every key on the way is non-empty, so \<^verbatim>\<open>cached_len\<close> rounds and one for the
  root are enough.
\<close>

fun unlock_loop :: "nat \<Rightarrow> nid \<Rightarrow> radix \<Rightarrow> radix res" where
  "unlock_loop fuel n s =
     rbind (get_node s n) (\<lambda>x.
     if is_root x then Inr s
     else (case fuel of 0 \<Rightarrow> Inl Diverges | Suc fuel' \<Rightarrow>
       let x = x\<lparr>ref_count := ref_count x - 1\<rparr> in
       rbind (py_assert (ref_count x \<ge> 0)) (\<lambda>_.
       let s = put_node n x s;
           s = (if ref_count x = 0
                then s\<lparr>evictable_size := evictable_size s + int (node_length x),
                       protected_size := protected_size s - int (node_length x)\<rparr>
                else s) in
       rbind (node_parent x) (\<lambda>p. unlock_loop fuel' p s))))"

fun lock_loop :: "nat \<Rightarrow> nid \<Rightarrow> radix \<Rightarrow> radix res" where
  "lock_loop fuel n s =
     rbind (get_node s n) (\<lambda>x.
     if is_root x then Inr s
     else (case fuel of 0 \<Rightarrow> Inl Diverges | Suc fuel' \<Rightarrow>
       let s = (if ref_count x = 0
                then s\<lparr>evictable_size := evictable_size s - int (node_length x),
                       protected_size := protected_size s + int (node_length x)\<rparr>
                else s);
           s = put_node n (x\<lparr>ref_count := ref_count x + 1\<rparr>) s in
       rbind (node_parent x) (\<lambda>p. lock_loop fuel' p s)))"

declare unlock_loop.simps [simp del] lock_loop.simps [simp del]

definition lock_handle :: "radix \<Rightarrow> handle \<Rightarrow> bool \<Rightarrow> radix res" where
  "lock_handle s h unlock =
     (case h of NaiveHandle \<Rightarrow> Inl AssertionError
      | RadixHandle len n \<Rightarrow>
          if unlock then unlock_loop (Suc len) n s else lock_loop (Suc len) n s)"

fun matched_loop :: "nat \<Rightarrow> nid \<Rightarrow> radix \<Rightarrow> slot list list \<Rightarrow> slot list list res" where
  "matched_loop fuel n s value_list =
     rbind (get_node s n) (\<lambda>x.
     if is_root x then Inr value_list
     else (case fuel of 0 \<Rightarrow> Inl Diverges | Suc fuel' \<Rightarrow>
       rbind (node_parent x) (\<lambda>p. matched_loop fuel' p s (value_list @ [node_value x]))))"

declare matched_loop.simps [simp del]

text \<open>\<^verbatim>\<open>torch.cat\<close> of an empty list raises.\<close>

definition torch_cat :: "'a list list \<Rightarrow> 'a list res" where
  "torch_cat xss = (if xss = [] then Inl RuntimeError else Inr (concat xss))"

definition get_matched_indices :: "radix \<Rightarrow> handle \<Rightarrow> slot list res" where
  "get_matched_indices s h =
     (case h of NaiveHandle \<Rightarrow> Inr []
      | RadixHandle len n \<Rightarrow>
          rbind (matched_loop (Suc len) n s []) (\<lambda>value_list. torch_cat (rev value_list)))"

section \<open>Eviction\<close>

text \<open>
  \<^verbatim>\<open>heapq\<close> on nodes compared by timestamp: popping takes out a node no other one is older than.
  Of several oldest nodes the model takes the first of the list; nothing below depends on it.
\<close>

definition node_lt :: "radix \<Rightarrow> nid \<Rightarrow> nid \<Rightarrow> bool" where
  "node_lt s a b = (case (store s a, store s b) of
      (Some x, Some y) \<Rightarrow> timestamp x < timestamp y | _ \<Rightarrow> False)"

fun heap_min :: "radix \<Rightarrow> nid \<Rightarrow> nid list \<Rightarrow> nid" where
  "heap_min s m [] = m"
| "heap_min s m (n # ns) = (if node_lt s n m then heap_min s n ns else heap_min s m ns)"

definition heappop :: "radix \<Rightarrow> nid list \<Rightarrow> (nid \<times> nid list) res" where
  "heappop s ns = (case ns of [] \<Rightarrow> Inl IndexError
     | n # rest \<Rightarrow> let m = heap_min s n rest in Inr (m, remove1 m ns))"

definition heappush :: "nid list \<Rightarrow> nid \<Rightarrow> nid list" where
  "heappush ns n = ns @ [n]"

text \<open>The stack of the search grows at its end; each round takes one node off.\<close>

fun collect_loop :: "nat \<Rightarrow> radix \<Rightarrow> nid list \<Rightarrow> nid list \<Rightarrow> nid list res" where
  "collect_loop fuel s nodes leave_nodes =
     (if length nodes > 0 then
        (case fuel of 0 \<Rightarrow> Inl Diverges | Suc fuel' \<Rightarrow>
          let node = last nodes; nodes = butlast nodes in
          rbind (get_node s node) (\<lambda>x.
          if is_leaf x then
            collect_loop fuel' s nodes
              (if ref_count x = 0 then leave_nodes @ [node] else leave_nodes)
          else collect_loop fuel' s (nodes @ map snd (children x)) leave_nodes))
      else Inr leave_nodes)"

declare collect_loop.simps [simp del]

definition collect_leave_nodes_for_evict :: "radix \<Rightarrow> nid list res" where
  "collect_leave_nodes_for_evict s = collect_loop (next_uuid s) s [root_node s] []"

fun evict_loop ::
  "nat \<Rightarrow> nat \<Rightarrow> nid list \<Rightarrow> slot list list \<Rightarrow> nat \<Rightarrow> radix \<Rightarrow> (slot list list \<times> radix) res" where
  "evict_loop fuel need leave_nodes evicted_indices evicted_size s =
     (if evicted_size < need then
        (case fuel of 0 \<Rightarrow> Inl Diverges | Suc fuel' \<Rightarrow>
          rbind (py_assert (leave_nodes \<noteq> [])) (\<lambda>_.
          rbind (heappop s leave_nodes) (\<lambda>(node, leave_nodes).
          rbind (get_node s node) (\<lambda>x.
          rbind (py_assert (ref_count x = 0 \<and> is_leaf x \<and> \<not> is_root x)) (\<lambda>_.
          let evicted_size = evicted_size + node_length x;
              evicted_indices = evicted_indices @ [node_value x];
              s = s\<lparr>evictable_size := evictable_size s - int (node_length x)\<rparr> in
          rbind (node_parent x) (\<lambda>p.
          rbind (get_node s p) (\<lambda>y.
          rbind (get_key_fn (rpage_size s) (node_key x)) (\<lambda>k.
          rbind (if k \<in> fst ` set (children y) then Inr () else Inl KeyError) (\<lambda>_.
          let y = y\<lparr>children := AList.delete k (children y)\<rparr>;
              s = put_node p y s in
          evict_loop fuel' need
            (if is_leaf y \<and> ref_count y = 0 then heappush leave_nodes p else leave_nodes)
            evicted_indices evicted_size s)))))))))
      else Inr (evicted_indices, s))"

declare evict_loop.simps [simp del]

definition evict :: "radix \<Rightarrow> nat \<Rightarrow> (slot list \<times> radix) res" where
  "evict s need =
     (if need = 0 then Inr ([], s)
      else rbind (py_assert (int need \<le> evictable_size s)) (\<lambda>_.
           rbind (collect_leave_nodes_for_evict s) (\<lambda>leave_nodes.
           rbind (evict_loop need need leave_nodes [] 0 s) (\<lambda>(evicted_indices, s).
           rbind (torch_cat evicted_indices) (\<lambda>ev. Inr (ev, s))))))"

definition radix_size_info :: "radix \<Rightarrow> size_info" where
  "radix_size_info s = \<lparr>si_evictable = evictable_size s, si_protected = protected_size s\<rparr>"

definition radix_class :: "radix prefix_cache_class" where
  "radix_class = \<lparr>
     pc_lock_handle = lock_handle,
     pc_match_prefix = match_prefix,
     pc_insert_prefix = insert_prefix,
     pc_evict = evict,
     pc_reset = (\<lambda>s. Inl NotImplementedError),
     pc_size_info = radix_size_info,
     pc_check_integrity = (\<lambda>s. Inr ()),
     pc_matched_indices = get_matched_indices\<rparr>"

end
