(* ===== verification/RadixInv.thy ===== *)
theory RadixInv
  imports Radix "HOL-Library.Sublist"
begin

text \<open>
  What a well-formed radix tree is. \<open>spells s n xs vs\<close> is the abstraction: following child links
  from the root to node \<open>n\<close> spells the tokens \<open>xs\<close> and the slots \<open>vs\<close>. \<open>tree_ok s A pk pv\<close> is the
  structural invariant over the set \<open>A\<close> of nodes in the tree, with \<open>pk\<close> and \<open>pv\<close> giving what each
  node spells; \<open>ref_ok\<close> says that a node's reference count is the number of locked handles at or
  below it; \<open>size_ok\<close> that the two counters are the sums of the key lengths they stand for.
\<close>

section \<open>Definitions\<close>

abbreviation nd :: "radix \<Rightarrow> nid \<Rightarrow> radix_node" where
  "nd s n \<equiv> the (store s n)"

definition dkey :: "nat \<Rightarrow> tok list \<Rightarrow> dict_key" where
  "dkey ps x = (if ps = 1 then KItem (hd x) else KTuple (take ps x))"

inductive spells :: "radix \<Rightarrow> nid \<Rightarrow> tok list \<Rightarrow> slot list \<Rightarrow> bool" for s where
  root: "spells s (root_node s) [] []"
| child: "spells s p xs vs \<Longrightarrow> (k, n) \<in> set (children (nd s p)) \<Longrightarrow>
    spells s n (xs @ node_key (nd s n)) (vs @ node_value (nd s n))"

definition down_ok :: "radix \<Rightarrow> nid set \<Rightarrow> nid \<Rightarrow> bool" where
  "down_ok s A n \<longleftrightarrow> distinct (map fst (children (nd s n))) \<and>
     (\<forall>(k, c) \<in> set (children (nd s n)).
        c \<in> A \<and> parent_ptr (nd s c) = Some n \<and> k = dkey (rpage_size s) (node_key (nd s c)))"

definition up_ok ::
  "radix \<Rightarrow> nid set \<Rightarrow> (nid \<Rightarrow> tok list) \<Rightarrow> (nid \<Rightarrow> slot list) \<Rightarrow> nid \<Rightarrow> nid \<Rightarrow> bool" where
  "up_ok s A pk pv n p \<longleftrightarrow>
     p \<in> A \<and> parent_ptr (nd s n) = Some p \<and>
     (dkey (rpage_size s) (node_key (nd s n)), n) \<in> set (children (nd s p)) \<and>
     pk n = pk p @ node_key (nd s n) \<and> pv n = pv p @ node_value (nd s n) \<and>
     node_key (nd s n) \<noteq> [] \<and> rpage_size s dvd length (node_key (nd s n)) \<and>
     length (node_value (nd s n)) = length (node_key (nd s n))"

definition root_ok :: "radix \<Rightarrow> (nid \<Rightarrow> tok list) \<Rightarrow> (nid \<Rightarrow> slot list) \<Rightarrow> bool" where
  "root_ok s pk pv \<longleftrightarrow>
     pk (root_node s) = [] \<and> pv (root_node s) = [] \<and> parent_ptr (nd s (root_node s)) = None \<and>
     node_key (nd s (root_node s)) = [] \<and> node_value (nd s (root_node s)) = []"

definition tree_ok :: "radix \<Rightarrow> nid set \<Rightarrow> (nid \<Rightarrow> tok list) \<Rightarrow> (nid \<Rightarrow> slot list) \<Rightarrow> bool" where
  "tree_ok s A pk pv \<longleftrightarrow>
     0 < rpage_size s \<and> A \<subseteq> dom (store s) \<and> dom (store s) \<subseteq> {..<next_uuid s} \<and>
     root_node s \<in> A \<and> root_ok s pk pv \<and>
     (\<forall>n\<in>A. down_ok s A n) \<and>
     (\<forall>n\<in>A. n \<noteq> root_node s \<longrightarrow> (\<exists>p. up_ok s A pk pv n p))"

definition ref_ok :: "radix \<Rightarrow> nid set \<Rightarrow> (nid \<Rightarrow> tok list) \<Rightarrow> nid multiset \<Rightarrow> bool" where
  "ref_ok s A pk L \<longleftrightarrow> set_mset L \<subseteq> A \<and> ref_count (nd s (root_node s)) = 1 \<and>
     (\<forall>n\<in>A. n \<noteq> root_node s \<longrightarrow>
        ref_count (nd s n) = int (size (filter_mset (\<lambda>h. prefix (pk n) (pk h)) L)))"

definition unlocked_nodes :: "radix \<Rightarrow> nid set \<Rightarrow> nid set" where
  "unlocked_nodes s A = {n \<in> A. n \<noteq> root_node s \<and> ref_count (nd s n) = 0}"

definition locked_nodes :: "radix \<Rightarrow> nid set \<Rightarrow> nid set" where
  "locked_nodes s A = {n \<in> A. n \<noteq> root_node s \<and> ref_count (nd s n) \<noteq> 0}"

definition size_ok :: "radix \<Rightarrow> nid set \<Rightarrow> bool" where
  "size_ok s A \<longleftrightarrow>
     evictable_size s = (\<Sum>n\<in>unlocked_nodes s A. int (node_length (nd s n))) \<and>
     protected_size s = (\<Sum>n\<in>locked_nodes s A. int (node_length (nd s n)))"

definition tree_pages :: "radix \<Rightarrow> nid set \<Rightarrow> slot multiset" where
  "tree_pages s A = (\<Sum>n\<in>A. mset (stride (rpage_size s) (node_value (nd s n))))"

definition tree_nodes :: "radix \<Rightarrow> nid set" where
  "tree_nodes s = {n. \<exists>xs vs. spells s n xs vs}"

definition radix_inv :: "radix \<Rightarrow> nid multiset \<Rightarrow> bool" where
  "radix_inv s L \<longleftrightarrow> (\<exists>A pk pv. tree_ok s A pk pv \<and> ref_ok s A pk L \<and> size_ok s A)"

section \<open>Keys of the child dictionaries\<close>

lemma get_key_fn_ok: "x \<noteq> [] \<Longrightarrow> get_key_fn ps x = Inr (dkey ps x)"
  by (auto simp: get_key_fn_def dkey_def split: list.splits)

lemma dkey_eq:
  assumes "0 < ps" and "ps \<le> length x" and "y \<noteq> []"
  shows "dkey ps x = dkey ps y \<longleftrightarrow> ps \<le> length y \<and> take ps x = take ps y"
proof (cases "ps = 1")
  case True
  with assms show ?thesis by (cases x; cases y) (auto simp: dkey_def)
next
  case False
  have "take ps x = take ps y \<Longrightarrow> ps \<le> length y"
    using assms by (metis length_take min.absorb2 min.cobounded1)
  with False show ?thesis by (auto simp: dkey_def)
qed

lemma dkey_take: "0 < ps \<Longrightarrow> ps \<le> n \<Longrightarrow> ps \<le> length x \<Longrightarrow> dkey ps (take n x) = dkey ps x"
  by (cases x) (auto simp: dkey_def min_def hd_conv_nth)

section \<open>Structure of the tree\<close>

lemma tree_okD:
  assumes "tree_ok s A pk pv"
  shows tree_ok_ps: "0 < rpage_size s"
    and tree_ok_root: "root_node s \<in> A"
    and tree_ok_root_ok: "root_ok s pk pv"
    and tree_ok_down: "n \<in> A \<Longrightarrow> down_ok s A n"
    and tree_ok_store: "n \<in> A \<Longrightarrow> store s n = Some (nd s n)"
    and tree_ok_bound: "A \<subseteq> {..<next_uuid s}"
    and tree_ok_fresh_store: "store s (next_uuid s) = None"
proof -
  note * = assms [unfolded tree_ok_def]
  show "0 < rpage_size s" "root_node s \<in> A" "root_ok s pk pv" using * by blast+
  show "n \<in> A \<Longrightarrow> down_ok s A n" using * by blast
  show "n \<in> A \<Longrightarrow> store s n = Some (nd s n)" using * by auto
  show "A \<subseteq> {..<next_uuid s}" using * by blast
  show "store s (next_uuid s) = None" using * by blast
qed

lemma tree_ok_finite: "tree_ok s A pk pv \<Longrightarrow> finite A"
  by (meson finite_lessThan finite_subset tree_ok_bound)

lemma tree_ok_card: "tree_ok s A pk pv \<Longrightarrow> card A \<le> next_uuid s"
  by (metis card_lessThan card_mono finite_lessThan tree_ok_bound)

lemma tree_ok_fresh: "tree_ok s A pk pv \<Longrightarrow> next_uuid s \<notin> A"
  by (auto dest: tree_ok_bound)

lemma tree_ok_up:
  assumes "tree_ok s A pk pv" and "n \<in> A" and "n \<noteq> root_node s"
  obtains p where "up_ok s A pk pv n p"
  using assms unfolding tree_ok_def by blast

lemma get_node_ok: "tree_ok s A pk pv \<Longrightarrow> n \<in> A \<Longrightarrow> get_node s n = Inr (nd s n)"
  unfolding get_node_def by (metis option.simps(5) tree_ok_store)

lemma is_root_iff:
  assumes t: "tree_ok s A pk pv" and n: "n \<in> A"
  shows "is_root (nd s n) \<longleftrightarrow> n = root_node s"
proof (cases "n = root_node s")
  case True
  then show ?thesis using tree_ok_root_ok [OF t] by (simp add: is_root_def root_ok_def)
next
  case False
  then obtain p where "up_ok s A pk pv n p" using t n by (blast elim: tree_ok_up)
  with False show ?thesis by (auto simp: is_root_def up_ok_def)
qed

lemma up_ok_length:
  assumes "tree_ok s A pk pv" and "up_ok s A pk pv n p"
  shows "rpage_size s \<le> length (node_key (nd s n))" and "length (pk p) < length (pk n)"
  using assms(2) by (auto simp: up_ok_def intro: dvd_imp_le)

lemma up_ok_unique: "up_ok s A pk pv n p \<Longrightarrow> up_ok s A pk pv n q \<Longrightarrow> p = q"
  by (auto simp: up_ok_def)

lemma child_up_ok:
  assumes t: "tree_ok s A pk pv" and p: "p \<in> A" and c: "(k, c) \<in> set (children (nd s p))"
  shows "c \<in> A" and "up_ok s A pk pv c p" and "c \<noteq> root_node s"
    and "k = dkey (rpage_size s) (node_key (nd s c))"
proof -
  have d: "c \<in> A \<and> parent_ptr (nd s c) = Some p \<and> k = dkey (rpage_size s) (node_key (nd s c))"
    using tree_ok_down [OF t p] c by (auto simp: down_ok_def)
  then show "c \<in> A" "k = dkey (rpage_size s) (node_key (nd s c))" by auto
  show nr: "c \<noteq> root_node s" using d tree_ok_root_ok [OF t] by (auto simp: root_ok_def)
  obtain q where "up_ok s A pk pv c q" using tree_ok_up [OF t _ nr] d by blast
  with d show "up_ok s A pk pv c p" by (auto simp: up_ok_def)
qed

lemma up_ok_map_of:
  assumes "tree_ok s A pk pv" and "up_ok s A pk pv n p"
  shows "map_of (children (nd s p)) (dkey (rpage_size s) (node_key (nd s n))) = Some n"
proof -
  have "p \<in> A" using assms by (auto simp: up_ok_def)
  then have "distinct (map fst (children (nd s p)))"
    using assms(1) by (auto simp: down_ok_def dest: tree_ok_down)
  with assms(2) show ?thesis by (auto simp: up_ok_def)
qed

lemma page_dvd_length:
  assumes t: "tree_ok s A pk pv"
  shows "n \<in> A \<Longrightarrow> rpage_size s dvd length (pk n) \<and> length (pk n) = length (pv n)"
proof (induction "length (pk n)" arbitrary: n rule: less_induct)
  case less
  show ?case
  proof (cases "n = root_node s")
    case True
    then show ?thesis using tree_ok_root_ok [OF t] by (simp add: root_ok_def)
  next
    case False
    with less t obtain p where p: "up_ok s A pk pv n p" by (blast elim: tree_ok_up)
    then have "rpage_size s dvd length (pk p) \<and> length (pk p) = length (pv p)"
      using less up_ok_length(2) [OF t p] by (simp add: up_ok_def)
    with p show ?thesis unfolding up_ok_def by (metis dvd_add length_append)
  qed
qed

lemma page_dvd_pk: "tree_ok s A pk pv \<Longrightarrow> n \<in> A \<Longrightarrow> rpage_size s dvd length (pk n)"
  and length_pk_pv: "tree_ok s A pk pv \<Longrightarrow> n \<in> A \<Longrightarrow> length (pk n) = length (pv n)"
  using page_dvd_length by blast+

lemma node_facts:
  assumes t: "tree_ok s A pk pv" and n: "n \<in> A"
  shows page_dvd_key: "rpage_size s dvd length (node_key (nd s n))"
    and length_value_key: "length (node_value (nd s n)) = length (node_key (nd s n))"
    and pk_Nil_iff: "pk n = [] \<longleftrightarrow> n = root_node s"
proof -
  show "rpage_size s dvd length (node_key (nd s n))"
    "length (node_value (nd s n)) = length (node_key (nd s n))" "pk n = [] \<longleftrightarrow> n = root_node s"
    using tree_ok_root_ok [OF t] tree_ok_up [OF t n]
    by (cases "n = root_node s"; fastforce simp: root_ok_def up_ok_def)+
qed

text \<open>The abstraction relation agrees with the labels of the invariant.\<close>

lemma spells_imp:
  assumes t: "tree_ok s A pk pv" and "spells s n xs vs"
  shows "n \<in> A \<and> xs = pk n \<and> vs = pv n"
  using assms(2)
proof (induction rule: spells.induct)
  case root
  then show ?case using t by (auto simp: tree_ok_root root_ok_def dest: tree_ok_root_ok)
next
  case (child p xs vs k n)
  then show ?case using child_up_ok [OF t _ child(2)] by (auto simp: up_ok_def)
qed

lemma spells_intro:
  assumes t: "tree_ok s A pk pv"
  shows "n \<in> A \<Longrightarrow> spells s n (pk n) (pv n)"
proof (induction "length (pk n)" arbitrary: n rule: less_induct)
  case less
  show ?case
  proof (cases "n = root_node s")
    case True
    then show ?thesis using tree_ok_root_ok [OF t] spells.root [of s] by (simp add: root_ok_def)
  next
    case False
    with less t obtain p where p: "up_ok s A pk pv n p" by (blast elim: tree_ok_up)
    then have "spells s p (pk p) (pv p)"
      using less up_ok_length [OF t p] by (auto simp: up_ok_def)
    with p show ?thesis by (auto simp: up_ok_def intro: spells.child)
  qed
qed

lemma spells_iff:
  "tree_ok s A pk pv \<Longrightarrow> spells s n xs vs \<longleftrightarrow> n \<in> A \<and> xs = pk n \<and> vs = pv n"
  using spells_imp spells_intro by blast

lemma tree_nodes_eq: "tree_ok s A pk pv \<Longrightarrow> tree_nodes s = A"
  by (auto simp: tree_nodes_def spells_iff)

section \<open>Ancestors are prefixes\<close>

definition par :: "radix \<Rightarrow> nid set \<Rightarrow> nid \<Rightarrow> nid \<Rightarrow> bool" where
  "par s A n p \<longleftrightarrow> n \<in> A \<and> p \<in> A \<and> n \<noteq> root_node s \<and> parent_ptr (nd s n) = Some p"

lemma par_up_ok:
  assumes t: "tree_ok s A pk pv"
  shows "par s A n p \<longleftrightarrow> n \<in> A \<and> n \<noteq> root_node s \<and> up_ok s A pk pv n p" (is "?l \<longleftrightarrow> ?r")
proof
  assume l: ?l
  then obtain q where "up_ok s A pk pv n q" using t unfolding par_def by (blast elim: tree_ok_up)
  with l show ?r by (metis par_def up_ok_def option.inject)
qed (simp add: par_def up_ok_def)

lemma anc_prefix:
  assumes t: "tree_ok s A pk pv" and "(par s A)\<^sup>*\<^sup>* b a"
  shows "prefix (pk a) (pk b)"
  using assms(2)
proof (induction rule: rtranclp_induct)
  case (step y z)
  then have "prefix (pk z) (pk y)" using t by (auto simp: par_up_ok up_ok_def)
  with step show ?case by (meson prefix_order.trans)
qed simp

lemma anc_cases:
  assumes "(par s A)\<^sup>*\<^sup>* b a" and "b \<noteq> a" and "par s A b p"
  shows "(par s A)\<^sup>*\<^sup>* p a"
  using assms by (metis converse_rtranclpE par_def option.inject)

lemma root_anc:
  assumes t: "tree_ok s A pk pv"
  shows "b \<in> A \<Longrightarrow> (par s A)\<^sup>*\<^sup>* b (root_node s)"
proof (induction "length (pk b)" arbitrary: b rule: less_induct)
  case less
  show ?case
  proof (cases "b = root_node s")
    case False
    then obtain p where p: "up_ok s A pk pv b p" using less t by (blast elim: tree_ok_up)
    then have "(par s A)\<^sup>*\<^sup>* p (root_node s)"
      using less up_ok_length [OF t p] by (auto simp: up_ok_def)
    moreover have "par s A b p" using p False less t by (simp add: par_up_ok)
    ultimately show ?thesis by (rule converse_rtranclp_into_rtranclp [rotated])
  qed simp
qed

lemma siblings_eq:
  assumes t: "tree_ok s A pk pv" and a: "up_ok s A pk pv a p" and b: "up_ok s A pk pv b p"
    and pre: "prefix (pk a) (pk b)"
  shows "a = b"
proof -
  have "prefix (node_key (nd s a)) (node_key (nd s b))"
    using a b pre by (auto simp: up_ok_def)
  then have "take (rpage_size s) (node_key (nd s a)) = take (rpage_size s) (node_key (nd s b))"
    using up_ok_length(1) [OF t a] by (auto simp: prefix_def)
  then have "dkey (rpage_size s) (node_key (nd s a)) = dkey (rpage_size s) (node_key (nd s b))"
    using dkey_eq [OF tree_ok_ps [OF t] up_ok_length(1) [OF t a]] up_ok_length(1) [OF t b] b
    unfolding up_ok_def by blast
  with up_ok_map_of [OF t a] up_ok_map_of [OF t b] show ?thesis by (metis option.inject)
qed

lemma prefix_anc:
  assumes t: "tree_ok s A pk pv"
  shows "a \<in> A \<Longrightarrow> b \<in> A \<Longrightarrow> prefix (pk a) (pk b) \<Longrightarrow> (par s A)\<^sup>*\<^sup>* b a"
proof (induction "length (pk a) + length (pk b)" arbitrary: a b rule: less_induct)
  case less
  note lp = up_ok_length(2) [OF t]
  show ?case
  proof (cases "a = root_node s")
    case True
    with root_anc [OF t] less show ?thesis by simp
  next
    case False
    then have "b \<noteq> root_node s"
      using less(2-4) pk_Nil_iff [OF t] by (metis prefix_Nil)
    then obtain pa pb where pa: "up_ok s A pk pv a pa" and pb: "up_ok s A pk pv b pb"
      using less False t by (metis tree_ok_up)
    have parb: "par s A b pb" using pb less \<open>b \<noteq> root_node s\<close> t by (simp add: par_up_ok)
    have inA: "pa \<in> A" "pb \<in> A" using pa pb by (auto simp: up_ok_def)
    have pre: "prefix (pk pa) (pk a)" "prefix (pk pb) (pk b)" using pa pb by (auto simp: up_ok_def)
    have same: "prefix (pk a) (pk pb) \<or> prefix (pk pb) (pk a)"
      using less(4) pre(2) by (rule prefix_same_cases)
    show ?thesis
    proof (cases "prefix (pk a) (pk pb)")
      case True
      then have "(par s A)\<^sup>*\<^sup>* pb a" using less inA lp [OF pb] by auto
      with parb show ?thesis by (rule converse_rtranclp_into_rtranclp)
    next
      case False
      with same have "prefix (pk pb) (pk a)" by simp
      then have "(par s A)\<^sup>*\<^sup>* a pb" using less inA lp [OF pb] by auto
      moreover have "a \<noteq> pb" using False by auto
      moreover have "par s A a pa" using pa less \<open>a \<noteq> root_node s\<close> t by (simp add: par_up_ok)
      ultimately have "(par s A)\<^sup>*\<^sup>* pa pb" by (rule anc_cases)
      then have le: "prefix (pk pb) (pk pa)" by (rule anc_prefix [OF t])
      have "prefix (pk pa) (pk b)" using pre(1) less(4) by (meson prefix_order.trans)
      then have "(par s A)\<^sup>*\<^sup>* b pa" using less inA lp [OF pa] by auto
      moreover have "b \<noteq> pa"
        using lp [OF pa] prefix_length_le [OF less(4)] by auto
      ultimately have "(par s A)\<^sup>*\<^sup>* pb pa" using parb by (rule anc_cases)
      then have "prefix (pk pa) (pk pb)" by (rule anc_prefix [OF t])
      with le have "pk pa = pk pb" by (simp add: prefix_order.antisym)
      have "(par s A)\<^sup>*\<^sup>* pb pa" by fact
      moreover have "pb = pa"
      proof (rule ccontr)
        assume ne: "pb \<noteq> pa"
        have "pb \<noteq> root_node s"
          using ne \<open>pk pa = pk pb\<close> inA pk_Nil_iff [OF t] by metis
        then obtain q where q: "up_ok s A pk pv pb q" using inA t by (metis tree_ok_up)
        then have "par s A pb q" using inA \<open>pb \<noteq> root_node s\<close> t by (simp add: par_up_ok)
        with ne \<open>(par s A)\<^sup>*\<^sup>* pb pa\<close> have "(par s A)\<^sup>*\<^sup>* q pa" by (blast intro: anc_cases)
        then have "prefix (pk pa) (pk q)" by (rule anc_prefix [OF t])
        with lp [OF q] \<open>pk pa = pk pb\<close> show False by (auto dest: prefix_length_le)
      qed
      ultimately have "a = b" using siblings_eq [OF t pa _ less(4)] pb by simp
      then show ?thesis by simp
    qed
  qed
qed

lemma pk_inj: "tree_ok s A pk pv \<Longrightarrow> a \<in> A \<Longrightarrow> b \<in> A \<Longrightarrow> pk a = pk b \<Longrightarrow> a = b"
proof (rule ccontr)
  assume t: "tree_ok s A pk pv" and ab: "a \<in> A" "b \<in> A" "pk a = pk b" "a \<noteq> b"
  then have "b \<noteq> root_node s" using pk_Nil_iff [OF t] by metis
  then obtain p where p: "up_ok s A pk pv b p" using t ab by (metis tree_ok_up)
  then have "par s A b p" using ab \<open>b \<noteq> root_node s\<close> t by (simp add: par_up_ok)
  moreover have "(par s A)\<^sup>*\<^sup>* b a" using prefix_anc [OF t] ab by simp
  ultimately have "prefix (pk a) (pk p)" using ab anc_cases anc_prefix [OF t] by metis
  with up_ok_length(2) [OF t p] ab show False by (auto dest: prefix_length_le)
qed

lemma prefix_parent:
  assumes t: "tree_ok s A pk pv" and "m \<in> A" and "n \<in> A" and p: "up_ok s A pk pv n p"
    and "n \<noteq> root_node s" and "prefix (pk m) (pk n)" and "m \<noteq> n"
  shows "prefix (pk m) (pk p)"
proof -
  have "par s A n p" using assms by (simp add: par_up_ok)
  moreover have "(par s A)\<^sup>*\<^sup>* n m" using prefix_anc [OF t] assms by simp
  ultimately have "(par s A)\<^sup>*\<^sup>* p m" using assms anc_cases by metis
  then show ?thesis by (rule anc_prefix [OF t])
qed

lemma prefix_child:
  assumes t: "tree_ok s A pk pv" and "n \<in> A" and "m \<in> A" and "strict_prefix (pk n) (pk m)"
  obtains c where "c \<in> A" and "c \<noteq> root_node s" and "up_ok s A pk pv c n" and "prefix (pk c) (pk m)"
proof -
  have "(par s A)\<^sup>*\<^sup>* m n" and "m \<noteq> n" using prefix_anc [OF t] assms by auto
  then obtain c where "(par s A)\<^sup>*\<^sup>* m c" and "par s A c n" by (metis rtranclp.cases)
  then show ?thesis using that anc_prefix [OF t] by (auto simp: par_up_ok [OF t])
qed

end
