(* ===== verification/RadixUpd.thy ===== *)
theory RadixUpd
  imports RadixInv
begin

text \<open>
  How the invariant of the radix tree reacts to the updates of the store the operations are made
  of: updates that leave the shape alone (timestamps, reference counts), splitting a node, adding
  a leaf and cutting a leaf off.
\<close>

section \<open>Child dictionaries\<close>

lemma set_AList_update:
  "distinct (map fst xs) \<Longrightarrow>
     (k', c) \<in> set (AList.update k v xs) \<longleftrightarrow> (k' = k \<and> c = v) \<or> (k' \<noteq> k \<and> (k', c) \<in> set xs)"
  using map_of_eq_Some_iff [of "AList.update k v xs" k' c] map_of_eq_Some_iff [of xs k' c]
    distinct_update [of xs k v]
  by (auto simp: update_conv' split: if_splits)

lemma set_AList_delete:
  "(k', c) \<in> set (AList.delete k xs) \<longleftrightarrow> k' \<noteq> k \<and> (k', c) \<in> set xs"
  by (auto simp: AList.delete_eq)

lemma sum_split_node:
  fixes f f' :: "'a \<Rightarrow> 'b::comm_monoid_add"
  assumes "finite A" and "n \<in> A" and "m \<notin> A"
    and "\<And>a. a \<in> A \<Longrightarrow> a \<noteq> n \<Longrightarrow> f' a = f a" and "f' m + f' n = f n"
  shows "sum f' (insert m A) = sum f A"
proof -
  have "sum f' (insert m A) = f' m + (f' n + sum f' (A - {n}))"
    using assms by (simp add: sum.remove [of A n])
  also have "sum f' (A - {n}) = sum f (A - {n})" using assms by (intro sum.cong) auto
  also have "f' m + (f' n + sum f (A - {n})) = f n + sum f (A - {n})"
    using assms(5) by (simp add: add.assoc [symmetric])
  also have "\<dots> = sum f A" using assms by (simp add: sum.remove [of A n])
  finally show ?thesis .
qed

section \<open>Updates that keep the shape\<close>

definition shape where
  "shape x = (children x, parent_ptr x, node_key x, node_value x)"

definition same_shape :: "radix \<Rightarrow> radix \<Rightarrow> bool" where
  "same_shape s t \<longleftrightarrow>
     root_node t = root_node s \<and> rpage_size t = rpage_size s \<and> next_uuid t = next_uuid s \<and>
     (\<forall>a. map_option shape (store t a) = map_option shape (store s a))"

lemma same_shape_refl [simp]: "same_shape s s"
  by (simp add: same_shape_def)

lemma same_shape_trans: "same_shape s t \<Longrightarrow> same_shape t u \<Longrightarrow> same_shape s u"
  by (simp add: same_shape_def)

lemma same_shapeD:
  assumes "same_shape s t"
  shows "root_node t = root_node s" "rpage_size t = rpage_size s" "next_uuid t = next_uuid s"
    and "dom (store t) = dom (store s)"
    and "children (nd t a) = children (nd s a)" "parent_ptr (nd t a) = parent_ptr (nd s a)"
    and "node_key (nd t a) = node_key (nd s a)" "node_value (nd t a) = node_value (nd s a)"
    and "node_length (nd t a) = node_length (nd s a)"
proof -
  have eq: "map_option shape (store t a) = map_option shape (store s a)" for a
    using assms by (simp add: same_shape_def)
  show "root_node t = root_node s" "rpage_size t = rpage_size s" "next_uuid t = next_uuid s"
    using assms by (auto simp: same_shape_def)
  show "dom (store t) = dom (store s)"
    using eq by (metis (no_types, lifting) domIff map_option_is_None subsetI subset_antisym)
  have "shape (nd t a) = shape (nd s a)"
    using eq [of a] by (cases "store t a"; cases "store s a") auto
  then show "children (nd t a) = children (nd s a)" "parent_ptr (nd t a) = parent_ptr (nd s a)"
    "node_key (nd t a) = node_key (nd s a)" "node_value (nd t a) = node_value (nd s a)"
    "node_length (nd t a) = node_length (nd s a)"
    by (auto simp: shape_def node_length_def)
qed

lemma same_shape_tree_ok: "same_shape s t \<Longrightarrow> tree_ok t A pk pv \<longleftrightarrow> tree_ok s A pk pv"
  by (simp add: tree_ok_def root_ok_def down_ok_def up_ok_def same_shapeD)

lemma same_shape_tree_pages: "same_shape s t \<Longrightarrow> tree_pages t A = tree_pages s A"
  by (simp add: tree_pages_def same_shapeD)

lemma same_shape_spells: "same_shape s t \<Longrightarrow> spells t n xs vs \<longleftrightarrow> spells s n xs vs"
proof -
  have *: "spells t n xs vs" if "same_shape s t" "spells s n xs vs" for s t n xs vs
    using that(2)
  proof (induction rule: spells.induct)
    case root
    show ?case using spells.root [of t] that(1) by (simp add: same_shapeD)
  next
    case (child p xs vs k n)
    then show ?case using spells.child [of t p xs vs k n] that(1) by (simp add: same_shapeD)
  qed
  assume "same_shape s t"
  moreover from this have "same_shape t s" by (simp add: same_shape_def)
  ultimately show ?thesis using * by blast
qed

lemma same_shape_put:
  "store s n = Some x \<Longrightarrow> shape y = shape x \<Longrightarrow> same_shape s (put_node n y s)"
  by (auto simp: same_shape_def put_node_def)

lemma same_shape_sizes [simp]:
  "same_shape s (t\<lparr>evictable_size := e\<rparr>) = same_shape s t"
  "same_shape s (t\<lparr>protected_size := e\<rparr>) = same_shape s t"
  "same_shape s (t\<lparr>ticks := k\<rparr>) = same_shape s t"
  by (simp_all add: same_shape_def)

text \<open>\<open>frame_ok\<close>: also the reference counts and the counters are the same.\<close>

definition same_refs :: "radix \<Rightarrow> radix \<Rightarrow> bool" where
  "same_refs s t \<longleftrightarrow> same_shape s t \<and> (\<forall>a. ref_count (nd t a) = ref_count (nd s a)) \<and>
     evictable_size t = evictable_size s \<and> protected_size t = protected_size s"

lemma same_refs_inv:
  assumes "same_refs s t"
  shows "tree_ok t A pk pv \<longleftrightarrow> tree_ok s A pk pv" and "ref_ok t A pk L \<longleftrightarrow> ref_ok s A pk L"
    and "size_ok t A \<longleftrightarrow> size_ok s A" and "tree_pages t A = tree_pages s A"
  using assms same_shape_tree_ok [of s t] same_shape_tree_pages [of s t]
  by (auto simp: same_refs_def ref_ok_def size_ok_def unlocked_nodes_def locked_nodes_def same_shapeD)

lemma same_refs_touch:
  assumes "store s n = Some x"
  shows "same_refs s (put_node n (x\<lparr>timestamp := t\<rparr>) s)"
proof -
  have "same_shape s (put_node n (x\<lparr>timestamp := t\<rparr>) s)"
    using assms by (intro same_shape_put [of _ _ x]) (simp_all add: shape_def)
  then show ?thesis using assms by (auto simp: same_refs_def put_node_def)
qed

lemma same_refs_ticks: "same_refs s (s\<lparr>ticks := k\<rparr>)"
  by (simp add: same_refs_def)

section \<open>Splitting a node\<close>

definition split_state :: "radix \<Rightarrow> nid \<Rightarrow> nid \<Rightarrow> nat \<Rightarrow> int \<Rightarrow> nat \<Rightarrow> radix" where
  "split_state s n p pos ts tk =
     (let x = nd s n; m = next_uuid s; ps = rpage_size s in
      s\<lparr>store := (store s)
          (p \<mapsto> (nd s p)\<lparr>children :=
                  AList.update (dkey ps (take pos (node_key x))) m (children (nd s p))\<rparr>,
           n \<mapsto> x\<lparr>parent_ptr := Some m, node_key := drop pos (node_key x),
                    node_value := drop pos (node_value x)\<rparr>,
           m \<mapsto> \<lparr>children = [(dkey ps (drop pos (node_key x)), n)], parent_ptr = Some p,
                  ref_count = ref_count x, timestamp = ts,
                  node_key = take pos (node_key x), node_value = take pos (node_value x)\<rparr>),
        next_uuid := Suc m, ticks := tk\<rparr>)"

lemma split_distinct:
  assumes t: "tree_ok s A pk pv" and "n \<in> A" and p: "up_ok s A pk pv n p"
  shows "p \<noteq> n" and "next_uuid s \<noteq> n" and "next_uuid s \<noteq> p"
  using up_ok_length(2) [OF t p] tree_ok_fresh [OF t] assms(2) p by (auto simp: up_ok_def)

lemma split_at_eq:
  assumes t: "tree_ok s A pk pv" and n: "n \<in> A" and p: "up_ok s A pk pv n p"
    and pos: "0 < pos" "pos < node_length (nd s n)"
  obtains ts tk where "split_at n pos s = Inr (next_uuid s, split_state s n p pos ts tk)"
proof -
  define ts where "ts = (if timestamp (nd s n) = 0 then clock s (ticks s) else timestamp (nd s n))"
  define tk where "tk = (if timestamp (nd s n) = 0 then Suc (ticks s) else ticks s)"
  have sn: "store s n = Some (nd s n)" and sp: "store s p = Some (nd s p)"
    using n p tree_ok_store [OF t] unfolding up_ok_def by blast+
  then obtain x y where x: "store s n = Some x" "nd s n = x" and y: "store s p = Some y" "nd s p = y"
    by simp
  have par: "parent_ptr x = Some p" and len: "length (node_key x) = length (node_value x)"
    using p x by (auto simp: up_ok_def)
  have ne: "p \<noteq> n" "next_uuid s \<noteq> n" "next_uuid s \<noteq> p" using split_distinct [OF t n p] by auto
  have k1: "get_key_fn (rpage_size s) (take pos (node_key x)) = Inr (dkey (rpage_size s) (take pos (node_key x)))"
    using pos x by (intro get_key_fn_ok) (auto simp: node_length_def)
  have k2: "get_key_fn (rpage_size s) (drop pos (node_key x)) = Inr (dkey (rpage_size s) (drop pos (node_key x)))"
    using pos x by (intro get_key_fn_ok) (auto simp: node_length_def)
  have "split_at n pos s = Inr (next_uuid s, split_state s n p pos ts tk)"
    using pos x y par len ne k1 k2
    by (cases s) (auto simp: split_at_def get_node_def node_parent_def new_node_def monotonic_ns_def
        put_node_def set_key_value_def set_parent_def split_state_def ts_def tk_def Let_def
        fun_upd_twist)
  then show ?thesis by (rule that)
qed

lemma nd_split:
  fixes s n p pos ts tk a
  assumes "p \<noteq> n" and "next_uuid s \<noteq> n" and "next_uuid s \<noteq> p"
  defines "t \<equiv> split_state s n p pos ts tk"
  shows "nd t (next_uuid s) = \<lparr>children = [(dkey (rpage_size s) (drop pos (node_key (nd s n))), n)],
       parent_ptr = Some p, ref_count = ref_count (nd s n), timestamp = ts,
       node_key = take pos (node_key (nd s n)), node_value = take pos (node_value (nd s n))\<rparr>"
    and "nd t n = (nd s n)\<lparr>parent_ptr := Some (next_uuid s), node_key := drop pos (node_key (nd s n)),
       node_value := drop pos (node_value (nd s n))\<rparr>"
    and "nd t p = (nd s p)\<lparr>children := AList.update
       (dkey (rpage_size s) (take pos (node_key (nd s n)))) (next_uuid s) (children (nd s p))\<rparr>"
    and "a \<noteq> n \<Longrightarrow> a \<noteq> p \<Longrightarrow> a \<noteq> next_uuid s \<Longrightarrow> nd t a = nd s a"
    and "rpage_size t = rpage_size s" "root_node t = root_node s" "next_uuid t = Suc (next_uuid s)"
    and "evictable_size t = evictable_size s" "protected_size t = protected_size s"
    and "dom (store t) = insert p (insert n (insert (next_uuid s) (dom (store s))))"
  using assms by (auto simp: split_state_def Let_def)

text \<open>The new node sits between \<open>p\<close> and \<open>n\<close> and spells the first \<open>pos\<close> tokens of \<open>n\<close>'s key.\<close>

lemma split_tree_ok:
  assumes t: "tree_ok s A pk pv" and n: "n \<in> A" and nr: "n \<noteq> root_node s" and p: "up_ok s A pk pv n p"
    and pos: "0 < pos" "pos < node_length (nd s n)" "rpage_size s dvd pos"
  defines "m \<equiv> next_uuid s"
  shows "tree_ok (split_state s n p pos ts tk) (insert m A)
     (pk(m := pk p @ take pos (node_key (nd s n)))) (pv(m := pv p @ take pos (node_value (nd s n))))"
    (is "tree_ok ?t ?A ?pk ?pv")
proof -
  note ne = split_distinct [OF t n p, folded m_def]
  note view = nd_split [OF ne(1) ne(2,3) [unfolded m_def], where pos = pos and ts = ts and tk = tk, folded m_def]
  have pA: "p \<in> A" and mA: "m \<notin> A" using p tree_ok_fresh [OF t] by (auto simp: up_ok_def m_def)
  have psz: "0 < rpage_size s" by (rule tree_ok_ps [OF t])
  have pk1: "dkey (rpage_size s) (take pos (node_key (nd s n))) = dkey (rpage_size s) (node_key (nd s n))"
    using pos psz up_ok_length(1) [OF t p] by (intro dkey_take) (auto intro: dvd_imp_le)
  have childne: "c \<noteq> n" if "(k, c) \<in> set (children (nd s a))" "a \<in> A" "a \<noteq> p" for k c a
    using child_up_ok(2) [OF t that(2,1)] up_ok_unique [OF p] that(3) by auto
  have childm: "c \<in> A \<and> c \<noteq> m" if "(k, c) \<in> set (children (nd s a))" "a \<in> A" for k c a
    using child_up_ok(1) [OF t that(2,1)] mA by auto
  have view_par: "parent_ptr (nd ?t a) = parent_ptr (nd s a) \<and> node_key (nd ?t a) = node_key (nd s a) \<and>
      node_value (nd ?t a) = node_value (nd s a)" if "a \<noteq> n" "a \<noteq> m" for a
    using that view(3) view(4) [of a] by (cases "a = p") auto
  have view_ch: "children (nd ?t a) = children (nd s a)" if "a \<noteq> p" "a \<noteq> m" for a
    using that view(2) view(4) [of a] by (cases "a = n") auto
  have chp: "(k, c) \<in> set (children (nd ?t p)) \<longleftrightarrow>
      (k = dkey (rpage_size s) (node_key (nd s n)) \<and> c = m) \<or>
      (k \<noteq> dkey (rpage_size s) (node_key (nd s n)) \<and> (k, c) \<in> set (children (nd s p)))" for k c
    using tree_ok_down [OF t pA] view(3) pk1 by (simp add: down_ok_def set_AList_update)
  have notn: "c \<noteq> n" if "k \<noteq> dkey (rpage_size s) (node_key (nd s n))" "(k, c) \<in> set (children (nd s p))" for k c
    using child_up_ok(4) [OF t pA that(2)] that(1) by auto
  have down: "down_ok ?t ?A a" if a: "a \<in> ?A" for a
  proof (cases "a = m")
    case True
    then show ?thesis using view(1,2,5) n by (simp add: down_ok_def)
  next
    case False
    with a have aA: "a \<in> A" by simp
    note da = tree_ok_down [OF t aA, unfolded down_ok_def]
    show ?thesis
    proof (cases "a = p")
      case True
      have "distinct (map fst (children (nd ?t p)))"
        using da True view(3) by (simp add: distinct_update)
      moreover have "c \<in> ?A \<and> parent_ptr (nd ?t c) = Some p \<and> k = dkey (rpage_size s) (node_key (nd ?t c))"
        if kc: "(k, c) \<in> set (children (nd ?t p))" for k c
      proof (cases "c = m")
        case True
        then show ?thesis using kc view(1) chp [of k c] childm [OF _ pA] pk1 by auto
      next
        case False
        with kc have kc': "k \<noteq> dkey (rpage_size s) (node_key (nd s n))" "(k, c) \<in> set (children (nd s p))"
          using chp by auto
        then have "c \<noteq> n" by (rule notn)
        then show ?thesis using view_par [OF _ False] da kc' True by auto
      qed
      ultimately show ?thesis using True view(5) by (auto simp: down_ok_def)
    next
      case False
      have "c \<in> ?A \<and> parent_ptr (nd ?t c) = Some a \<and> k = dkey (rpage_size s) (node_key (nd ?t c))"
        if kc: "(k, c) \<in> set (children (nd s a))" for k c
        using view_par [of c] childne [OF kc aA False] childm [OF kc aA] da kc by auto
      then show ?thesis using view_ch [OF False \<open>a \<noteq> m\<close>] da view(5) by (auto simp: down_ok_def)
    qed
  qed
  have up: "\<exists>q. up_ok ?t ?A ?pk ?pv a q" if a: "a \<in> ?A" "a \<noteq> root_node s" for a
  proof -
    consider "a = m" | "a = n" | "a \<in> A" "a \<noteq> n" "a \<noteq> m" using a mA n by blast
    then show ?thesis
    proof cases
      case 1
      have "up_ok ?t ?A ?pk ?pv m p"
        using view(1,5) pA ne pos p chp [of "dkey (rpage_size s) (node_key (nd s n))" m] pk1
        by (auto simp: up_ok_def node_length_def min_def)
      with 1 show ?thesis by blast
    next
      case 2
      have "up_ok ?t ?A ?pk ?pv n m"
        using view(1,2,5) ne pos p
        by (auto simp: up_ok_def node_length_def dvd_diff_nat)
      with 2 show ?thesis by blast
    next
      case 3
      then obtain q where q: "up_ok s A pk pv a q" using tree_ok_up [OF t] a(2) by blast
      have qA: "q \<in> A" "q \<noteq> m" using q mA by (auto simp: up_ok_def)
      have "(dkey (rpage_size s) (node_key (nd s a)), a) \<in> set (children (nd ?t q))"
      proof (cases "q = p")
        case True
        have "dkey (rpage_size s) (node_key (nd s a)) \<noteq> dkey (rpage_size s) (node_key (nd s n))"
          using up_ok_map_of [OF t q] up_ok_map_of [OF t p] True 3(2) by auto
        then show ?thesis using chp q True by (simp add: up_ok_def)
      next
        case False
        then show ?thesis using view_ch [OF False qA(2)] q by (simp add: up_ok_def)
      qed
      then have "up_ok ?t ?A ?pk ?pv a q"
        using q qA 3 view_par [OF 3(2,3)] view(5) by (simp add: up_ok_def)
      then show ?thesis by blast
    qed
  qed
  have "root_ok ?t ?pk ?pv"
    using tree_ok_root_ok [OF t] view_par [of "root_node s"] nr tree_ok_root [OF t] mA view(6)
    by (auto simp: root_ok_def)
  moreover have "?A \<subseteq> dom (store ?t)" "dom (store ?t) \<subseteq> {..<next_uuid ?t}"
    using t pA n view(7,10) tree_ok_bound [OF t] unfolding tree_ok_def m_def
    by (auto simp: less_Suc_eq)
  ultimately show ?thesis
    unfolding tree_ok_def using psz down up tree_ok_root [OF t] view(5,6) by auto
qed

lemma split_prefix_iff:
  assumes t: "tree_ok s A pk pv" and n: "n \<in> A" and p: "up_ok s A pk pv n p"
    and pos: "0 < pos" "pos < node_length (nd s n)" "rpage_size s dvd pos" and h: "h \<in> A"
  shows "prefix (pk p @ take pos (node_key (nd s n))) (pk h) \<longleftrightarrow> prefix (pk n) (pk h)"
proof
  let ?u = "take pos (node_key (nd s n))"
  have pkn: "pk n = pk p @ node_key (nd s n)" and pA: "p \<in> A" using p by (auto simp: up_ok_def)
  {
    assume "prefix (pk n) (pk h)"
    then show "prefix (pk p @ ?u) (pk h)"
      using pkn by (metis append_take_drop_id append_assoc prefix_def)
  }
  assume pre: "prefix (pk p @ ?u) (pk h)"
  have psz: "0 < rpage_size s" by (rule tree_ok_ps [OF t])
  have u: "?u \<noteq> []" "rpage_size s \<le> length ?u"
    using pos psz by (auto simp: node_length_def intro: dvd_imp_le)
  have "strict_prefix (pk p) (pk h)" using pre u(1) by (auto simp: prefix_def strict_prefix_def)
  then obtain c where c: "up_ok s A pk pv c p" "prefix (pk c) (pk h)"
    using prefix_child [OF t pA h] by metis
  have lc: "rpage_size s \<le> length (node_key (nd s c))" by (rule up_ok_length(1) [OF t c(1)])
  obtain r where r: "pk h = pk p @ ?u @ r" using pre by (auto simp: prefix_def)
  obtain q where q: "pk h = pk p @ node_key (nd s c) @ q" using c by (auto simp: prefix_def up_ok_def)
  have "take (rpage_size s) (?u @ r) = take (rpage_size s) (node_key (nd s c) @ q)"
    using r q by simp
  then have "take (rpage_size s) ?u = take (rpage_size s) (node_key (nd s c))"
    using u(2) lc by simp
  then have "dkey (rpage_size s) ?u = dkey (rpage_size s) (node_key (nd s c))"
    using dkey_eq [OF psz u(2), of "node_key (nd s c)"] lc psz by fastforce
  moreover have "dkey (rpage_size s) ?u = dkey (rpage_size s) (node_key (nd s n))"
    using pos psz up_ok_length(1) [OF t p] by (intro dkey_take) (auto intro: dvd_imp_le)
  ultimately have "c = n" using up_ok_map_of [OF t c(1)] up_ok_map_of [OF t p] by (metis option.inject)
  with c(2) show "prefix (pk n) (pk h)" by simp
qed

lemma split_ref_ok:
  assumes t: "tree_ok s A pk pv" and n: "n \<in> A" and nr: "n \<noteq> root_node s" and p: "up_ok s A pk pv n p"
    and pos: "0 < pos" "pos < node_length (nd s n)" "rpage_size s dvd pos"
    and r: "ref_ok s A pk L"
  shows "ref_ok (split_state s n p pos ts tk) (insert (next_uuid s) A)
     (pk(next_uuid s := pk p @ take pos (node_key (nd s n)))) L"
proof -
  note ne = split_distinct [OF t n p]
  note view = nd_split [OF ne, where pos = pos and ts = ts and tk = tk]
  have L: "set_mset L \<subseteq> A" using r by (simp add: ref_ok_def)
  have fresh: "next_uuid s \<notin> A" by (rule tree_ok_fresh [OF t])
  have ref: "ref_count (nd (split_state s n p pos ts tk) a) = ref_count (nd s a)" if "a \<in> A" for a
  proof -
    have "a \<noteq> next_uuid s" using that fresh by auto
    then show ?thesis using view(2,3) view(4) [of a] by (cases "a = n"; cases "a = p") auto
  qed
  have filt: "filter_mset (\<lambda>h. prefix x ((pk(next_uuid s := y)) h)) L = filter_mset (\<lambda>h. prefix x (pk h)) L" for x y
    using L fresh by (intro filter_mset_cong) auto
  have "filter_mset (\<lambda>h. prefix (pk p @ take pos (node_key (nd s n))) (pk h)) L
      = filter_mset (\<lambda>h. prefix (pk n) (pk h)) L"
    using split_prefix_iff [OF t n p pos] L by (intro filter_mset_cong) auto
  then show ?thesis
    using r ref fresh tree_ok_root [OF t] n nr unfolding ref_ok_def view(6) filt
    by (auto simp: view(1))
qed

lemma size_ok_alt:
  "finite A \<Longrightarrow> size_ok s A \<longleftrightarrow>
     evictable_size s = (\<Sum>n\<in>A. if n \<noteq> root_node s \<and> ref_count (nd s n) = 0 then int (node_length (nd s n)) else 0) \<and>
     protected_size s = (\<Sum>n\<in>A. if n \<noteq> root_node s \<and> ref_count (nd s n) \<noteq> 0 then int (node_length (nd s n)) else 0)"
  unfolding size_ok_def unlocked_nodes_def locked_nodes_def by (simp add: sum.inter_filter)

lemma split_sizes:
  assumes t: "tree_ok s A pk pv" and n: "n \<in> A" and nr: "n \<noteq> root_node s" and p: "up_ok s A pk pv n p"
    and pos: "0 < pos" "pos < node_length (nd s n)" "rpage_size s dvd pos"
  shows "size_ok s A \<Longrightarrow> size_ok (split_state s n p pos ts tk) (insert (next_uuid s) A)"
    and "tree_pages (split_state s n p pos ts tk) (insert (next_uuid s) A) = tree_pages s A"
proof -
  note ne = split_distinct [OF t n p]
  note view = nd_split [OF ne, where pos = pos and ts = ts and tk = tk]
  let ?t = "split_state s n p pos ts tk"
  have fin: "finite A" by (rule tree_ok_finite [OF t])
  have fresh: "next_uuid s \<notin> A" by (rule tree_ok_fresh [OF t])
  have fr: "next_uuid s \<noteq> root_node s" using fresh tree_ok_root [OF t] by auto
  have same: "ref_count (nd ?t a) = ref_count (nd s a) \<and> node_length (nd ?t a) = node_length (nd s a) \<and>
      node_value (nd ?t a) = node_value (nd s a)" if "a \<in> A" "a \<noteq> n" for a
  proof -
    have "a \<noteq> next_uuid s" using that fresh by auto
    then show ?thesis using that view(3) view(4) [of a] by (cases "a = p") (auto simp: node_length_def)
  qed
  have sum: "(\<Sum>a\<in>insert (next_uuid s) A. if a \<noteq> root_node s \<and> P (ref_count (nd ?t a)) then int (node_length (nd ?t a)) else 0)
     = (\<Sum>a\<in>A. if a \<noteq> root_node s \<and> P (ref_count (nd s a)) then int (node_length (nd s a)) else 0)" for P
    using fin n fresh same pos nr fr
    by (intro sum_split_node) (auto simp: view(1,2) node_length_def)
  then show "size_ok s A \<Longrightarrow> size_ok ?t (insert (next_uuid s) A)"
    using fin sum [of "\<lambda>r. r = 0"] sum [of "\<lambda>r. r \<noteq> 0"]
    by (simp add: size_ok_alt view(6,8,9))
  have "length (take pos (node_value (nd s n))) = pos"
    using pos p by (auto simp: up_ok_def node_length_def)
  then have "stride (rpage_size s) (node_value (nd s n)) =
      stride (rpage_size s) (take pos (node_value (nd s n))) @ stride (rpage_size s) (drop pos (node_value (nd s n)))"
    using stride_append [OF tree_ok_ps [OF t], of "take pos (node_value (nd s n))" "drop pos (node_value (nd s n))"] pos
    by simp
  then have "(\<Sum>a\<in>insert (next_uuid s) A. mset (stride (rpage_size s) (node_value (nd ?t a))))
     = (\<Sum>a\<in>A. mset (stride (rpage_size s) (node_value (nd s a))))"
    using fin n fresh same by (intro sum_split_node) (auto simp: view(1,2))
  then show "tree_pages ?t (insert (next_uuid s) A) = tree_pages s A"
    by (simp add: tree_pages_def view(5))
qed

section \<open>Adding a leaf\<close>

definition leaf_state ::
  "radix \<Rightarrow> nid \<Rightarrow> tok list \<Rightarrow> slot list \<Rightarrow> int \<Rightarrow> nat \<Rightarrow> radix" where
  "leaf_state s p k v ts tk =
     s\<lparr>store := (store s)
          (p \<mapsto> (nd s p)\<lparr>children := AList.update (dkey (rpage_size s) k) (next_uuid s) (children (nd s p))\<rparr>,
           next_uuid s \<mapsto> \<lparr>children = [], parent_ptr = Some p, ref_count = 0, timestamp = ts,
                           node_key = k, node_value = v\<rparr>),
       next_uuid := Suc (next_uuid s), ticks := tk,
       evictable_size := evictable_size s + int (length k)\<rparr>"

lemma nd_leaf:
  fixes s p k v ts tk a
  assumes "next_uuid s \<noteq> p"
  defines "t \<equiv> leaf_state s p k v ts tk"
  shows "nd t (next_uuid s) = \<lparr>children = [], parent_ptr = Some p, ref_count = 0, timestamp = ts,
       node_key = k, node_value = v\<rparr>"
    and "nd t p = (nd s p)\<lparr>children := AList.update (dkey (rpage_size s) k) (next_uuid s) (children (nd s p))\<rparr>"
    and "a \<noteq> p \<Longrightarrow> a \<noteq> next_uuid s \<Longrightarrow> nd t a = nd s a"
    and "rpage_size t = rpage_size s" "root_node t = root_node s" "next_uuid t = Suc (next_uuid s)"
    and "evictable_size t = evictable_size s + int (length k)" "protected_size t = protected_size s"
    and "dom (store t) = insert p (insert (next_uuid s) (dom (store s)))"
  using assms by (auto simp: leaf_state_def)

lemma leaf_view:
  assumes t: "tree_ok s A pk pv" and p: "p \<in> A" and a: "a \<in> A"
  shows "parent_ptr (nd (leaf_state s p k v ts tk) a) = parent_ptr (nd s a)"
    and "node_key (nd (leaf_state s p k v ts tk) a) = node_key (nd s a)"
    and "node_value (nd (leaf_state s p k v ts tk) a) = node_value (nd s a)"
    and "ref_count (nd (leaf_state s p k v ts tk) a) = ref_count (nd s a)"
    and "a \<noteq> p \<Longrightarrow> children (nd (leaf_state s p k v ts tk) a) = children (nd s a)"
proof -
  have "next_uuid s \<noteq> p" "a \<noteq> next_uuid s" using tree_ok_fresh [OF t] p a by auto
  note view = nd_leaf [OF this(1), where k = k and v = v and ts = ts and tk = tk]
  show "parent_ptr (nd (leaf_state s p k v ts tk) a) = parent_ptr (nd s a)"
    "node_key (nd (leaf_state s p k v ts tk) a) = node_key (nd s a)"
    "node_value (nd (leaf_state s p k v ts tk) a) = node_value (nd s a)"
    "ref_count (nd (leaf_state s p k v ts tk) a) = ref_count (nd s a)"
    "a \<noteq> p \<Longrightarrow> children (nd (leaf_state s p k v ts tk) a) = children (nd s a)"
    using view(2) view(3) [of a] \<open>a \<noteq> next_uuid s\<close> by (cases "a = p"; simp)+
qed

lemma leaf_tree_ok:
  assumes t: "tree_ok s A pk pv" and p: "p \<in> A"
    and fresh: "map_of (children (nd s p)) (dkey (rpage_size s) k) = None"
    and k: "k \<noteq> []" "rpage_size s dvd length k" "length v = length k"
  shows "tree_ok (leaf_state s p k v ts tk) (insert (next_uuid s) A)
     (pk(next_uuid s := pk p @ k)) (pv(next_uuid s := pv p @ v))"
    (is "tree_ok ?t ?A ?pk ?pv")
proof -
  let ?m = "next_uuid s"
  have mA: "?m \<notin> A" by (rule tree_ok_fresh [OF t])
  then have mp: "?m \<noteq> p" using p by auto
  note view = nd_leaf [OF mp, where k = k and v = v and ts = ts and tk = tk]
  note same = leaf_view [OF t p, where k = k and v = v and ts = ts and tk = tk]
  have ch: "(k', c) \<in> set (children (nd ?t p)) \<longleftrightarrow>
      (k' = dkey (rpage_size s) k \<and> c = ?m) \<or> (k', c) \<in> set (children (nd s p))" for k' c
    using tree_ok_down [OF t p] fresh view(2)
    by (force simp: down_ok_def set_AList_update map_of_eq_None_iff)
  have down: "down_ok ?t ?A a" if "a \<in> ?A" for a
  proof (cases "a = ?m")
    case True
    then show ?thesis using view(1) by (simp add: down_ok_def)
  next
    case False
    with that have aA: "a \<in> A" by simp
    note da = tree_ok_down [OF t aA, unfolded down_ok_def]
    have old: "c \<in> ?A \<and> parent_ptr (nd ?t c) = Some a \<and> k' = dkey (rpage_size s) (node_key (nd ?t c))"
      if "(k', c) \<in> set (children (nd s a))" for k' c
      using da that same [of c] by auto
    show ?thesis
    proof (cases "a = p")
      case True
      have "distinct (map fst (children (nd ?t p)))"
        using da True view(2) by (simp add: distinct_update)
      then show ?thesis using True old view(1,4) ch by (auto simp: down_ok_def)
    next
      case False
      then show ?thesis using old same(5) [OF aA] da view(4) by (auto simp: down_ok_def)
    qed
  qed
  have up: "\<exists>q. up_ok ?t ?A ?pk ?pv a q" if a: "a \<in> ?A" "a \<noteq> root_node s" for a
  proof (cases "a = ?m")
    case True
    have "up_ok ?t ?A ?pk ?pv ?m p"
      using view(1,4) p mp k ch by (auto simp: up_ok_def)
    with True show ?thesis by blast
  next
    case False
    with a have aA: "a \<in> A" by simp
    then obtain q where q: "up_ok s A pk pv a q" using tree_ok_up [OF t] a(2) by blast
    then have qA: "q \<in> A" "q \<noteq> ?m" using mA by (auto simp: up_ok_def)
    have "(dkey (rpage_size s) (node_key (nd s a)), a) \<in> set (children (nd ?t q))"
      using q ch same(5) [OF qA(1)] by (cases "q = p") (auto simp: up_ok_def)
    then have "up_ok ?t ?A ?pk ?pv a q"
      using q qA False same [OF aA] view(4) by (simp add: up_ok_def)
    then show ?thesis by blast
  qed
  have "root_ok ?t ?pk ?pv"
    using tree_ok_root_ok [OF t] same [OF tree_ok_root [OF t]] tree_ok_root [OF t] mA view(5)
    by (auto simp: root_ok_def)
  moreover have "?A \<subseteq> dom (store ?t)" "dom (store ?t) \<subseteq> {..<next_uuid ?t}"
    using t p view(6,9) tree_ok_bound [OF t] unfolding tree_ok_def by (auto simp: less_Suc_eq)
  ultimately show ?thesis
    unfolding tree_ok_def using tree_ok_ps [OF t] down up tree_ok_root [OF t] view(4,5) by auto
qed

text \<open>No node of the tree extends what the new leaf spells.\<close>

lemma no_prefix_of_fresh:
  assumes t: "tree_ok s A pk pv" and p: "p \<in> A" and h: "h \<in> A"
    and fresh: "map_of (children (nd s p)) (dkey (rpage_size s) k) = None"
    and k: "rpage_size s \<le> length k" and pre: "prefix (pk p @ take n k) (pk h)" and n: "rpage_size s \<le> n"
  shows False
proof -
  have psz: "0 < rpage_size s" by (rule tree_ok_ps [OF t])
  let ?u = "take n k"
  have u: "rpage_size s \<le> length ?u" using k n by simp
  then have "?u \<noteq> []" using psz by auto
  with pre have "strict_prefix (pk p) (pk h)" by (auto simp: prefix_def strict_prefix_def)
  then obtain c where c: "up_ok s A pk pv c p" "prefix (pk c) (pk h)"
    using prefix_child [OF t p h] by metis
  have lc: "rpage_size s \<le> length (node_key (nd s c))" by (rule up_ok_length(1) [OF t c(1)])
  obtain r where r: "pk h = pk p @ ?u @ r" using pre by (auto simp: prefix_def)
  obtain q where q: "pk h = pk p @ node_key (nd s c) @ q" using c by (auto simp: prefix_def up_ok_def)
  have "take (rpage_size s) (?u @ r) = take (rpage_size s) (node_key (nd s c) @ q)"
    using r q by simp
  then have "take (rpage_size s) ?u = take (rpage_size s) (node_key (nd s c))"
    using u lc by simp
  then have "dkey (rpage_size s) ?u = dkey (rpage_size s) (node_key (nd s c))"
    using dkey_eq [OF psz u, of "node_key (nd s c)"] lc psz by fastforce
  moreover have "dkey (rpage_size s) ?u = dkey (rpage_size s) k"
    by (rule dkey_take [OF psz n k])
  ultimately show False using up_ok_map_of [OF t c(1)] fresh by simp
qed

lemma leaf_ref_ok:
  assumes t: "tree_ok s A pk pv" and p: "p \<in> A"
    and fresh: "map_of (children (nd s p)) (dkey (rpage_size s) k) = None"
    and k: "k \<noteq> []" "rpage_size s dvd length k" and r: "ref_ok s A pk L"
  shows "ref_ok (leaf_state s p k v ts tk) (insert (next_uuid s) A) (pk(next_uuid s := pk p @ k)) L"
proof -
  have mA: "next_uuid s \<notin> A" by (rule tree_ok_fresh [OF t])
  then have mp: "next_uuid s \<noteq> p" using p by auto
  note view = nd_leaf [OF mp, where k = k and v = v and ts = ts and tk = tk]
  note same = leaf_view [OF t p, where k = k and v = v and ts = ts and tk = tk]
  have L: "set_mset L \<subseteq> A" using r by (simp add: ref_ok_def)
  have filt: "filter_mset (\<lambda>h. prefix x ((pk(next_uuid s := y)) h)) L = filter_mset (\<lambda>h. prefix x (pk h)) L" for x y
    using L mA by (intro filter_mset_cong) auto
  have "\<not> prefix (pk p @ k) (pk h)" if "h \<in># L" for h
    using no_prefix_of_fresh [OF t p _ fresh, of h "length k"] L that k
    by (auto intro: dvd_imp_le)
  then have "filter_mset (\<lambda>h. prefix (pk p @ k) (pk h)) L = {#}"
    by (metis (no_types, lifting) filter_mset_eq_conv empty_iff mem_Collect_eq multiset_nonemptyE set_mset_empty set_mset_filter)
  then show ?thesis
    using r mA tree_ok_root [OF t] same(4) unfolding ref_ok_def view(5) filt
    by (auto simp: view(1))
qed

lemma leaf_sizes:
  assumes t: "tree_ok s A pk pv" and p: "p \<in> A"
  shows "size_ok s A \<Longrightarrow> size_ok (leaf_state s p k v ts tk) (insert (next_uuid s) A)"
    and "tree_pages (leaf_state s p k v ts tk) (insert (next_uuid s) A) =
         tree_pages s A + mset (stride (rpage_size s) v)"
proof -
  let ?t = "leaf_state s p k v ts tk"
  have mA: "next_uuid s \<notin> A" by (rule tree_ok_fresh [OF t])
  then have mp: "next_uuid s \<noteq> p" using p by auto
  have mr: "next_uuid s \<noteq> root_node s" using mA tree_ok_root [OF t] by auto
  have fin: "finite A" by (rule tree_ok_finite [OF t])
  note view = nd_leaf [OF mp, where k = k and v = v and ts = ts and tk = tk]
  note same = leaf_view [OF t p, where k = k and v = v and ts = ts and tk = tk]
  have sum: "(\<Sum>a\<in>A. if a \<noteq> root_node s \<and> P (ref_count (nd ?t a)) then int (node_length (nd ?t a)) else 0)
     = (\<Sum>a\<in>A. if a \<noteq> root_node s \<and> P (ref_count (nd s a)) then int (node_length (nd s a)) else 0)" for P
    using same by (intro sum.cong) (auto simp: node_length_def)
  show "size_ok s A \<Longrightarrow> size_ok ?t (insert (next_uuid s) A)"
    using fin mA mr sum [of "\<lambda>r. r = 0"] sum [of "\<lambda>r. r \<noteq> 0"]
    by (simp add: size_ok_alt view(1,5,7,8) node_length_def)
  have "(\<Sum>a\<in>A. mset (stride (rpage_size s) (node_value (nd ?t a)))) = tree_pages s A"
    unfolding tree_pages_def using same by (intro sum.cong) auto
  then show "tree_pages ?t (insert (next_uuid s) A) = tree_pages s A + mset (stride (rpage_size s) v)"
    using fin mA by (simp add: tree_pages_def [of ?t] view(1,4))
qed

section \<open>Cutting a leaf off\<close>

definition cut_state :: "radix \<Rightarrow> nid \<Rightarrow> nid \<Rightarrow> radix" where
  "cut_state s n p =
     s\<lparr>evictable_size := evictable_size s - int (node_length (nd s n)),
       store := (store s)(p \<mapsto> (nd s p)\<lparr>children :=
         AList.delete (dkey (rpage_size s) (node_key (nd s n))) (children (nd s p))\<rparr>)\<rparr>"

lemma nd_cut:
  fixes s n p a
  defines "t \<equiv> cut_state s n p"
  shows "children (nd t p) = AList.delete (dkey (rpage_size s) (node_key (nd s n))) (children (nd s p))"
    and "a \<noteq> p \<Longrightarrow> children (nd t a) = children (nd s a)"
    and "parent_ptr (nd t a) = parent_ptr (nd s a)" "node_key (nd t a) = node_key (nd s a)"
    and "node_value (nd t a) = node_value (nd s a)" "ref_count (nd t a) = ref_count (nd s a)"
    and "node_length (nd t a) = node_length (nd s a)"
    and "rpage_size t = rpage_size s" "root_node t = root_node s" "next_uuid t = next_uuid s"
    and "evictable_size t = evictable_size s - int (node_length (nd s n))"
    and "protected_size t = protected_size s"
    and "dom (store t) = insert p (dom (store s))"
  by (auto simp: t_def cut_state_def node_length_def)

lemma leaf_not_parent:
  assumes t: "tree_ok s A pk pv" and n: "n \<in> A" and leaf: "children (nd s n) = []"
  shows "\<not> up_ok s A pk pv c n"
  using leaf by (auto simp: up_ok_def)

lemma cut_tree_ok:
  assumes t: "tree_ok s A pk pv" and n: "n \<in> A" and nr: "n \<noteq> root_node s"
    and p: "up_ok s A pk pv n p" and leaf: "children (nd s n) = []"
  shows "tree_ok (cut_state s n p) (A - {n}) pk pv"
proof -
  let ?t = "cut_state s n p"
  note view = nd_cut [where s = s and n = n and p = p]
  have pA: "p \<in> A" using p by (simp add: up_ok_def)
  have pn: "p \<noteq> n" using up_ok_length(2) [OF t p] by auto
  have ch: "(k, c) \<in> set (children (nd ?t p)) \<longleftrightarrow>
      k \<noteq> dkey (rpage_size s) (node_key (nd s n)) \<and> (k, c) \<in> set (children (nd s p))" for k c
    using view(1) by (simp add: set_AList_delete)
  have down: "down_ok ?t (A - {n}) a" if a: "a \<in> A" for a
  proof -
    note da = tree_ok_down [OF t a, unfolded down_ok_def]
    have "distinct (map fst (children (nd ?t a)))"
      using da view(1) view(2) [of a] by (cases "a = p") (auto simp: distinct_delete)
    moreover have "c \<in> A - {n} \<and> parent_ptr (nd ?t c) = Some a \<and> k = dkey (rpage_size ?t) (node_key (nd ?t c))"
      if kc: "(k, c) \<in> set (children (nd ?t a))" for k c
    proof -
      have old: "(k, c) \<in> set (children (nd s a))" using kc ch view(2) [of a] by (cases "a = p") auto
      have "c \<noteq> n"
      proof
        assume "c = n"
        with child_up_ok [OF t a old] have "a = p" "k = dkey (rpage_size s) (node_key (nd s n))"
          using up_ok_unique [OF p] by auto
        with kc ch show False by simp
      qed
      with da old show ?thesis by (auto simp: view(3,4,8))
    qed
    ultimately show ?thesis by (auto simp: down_ok_def)
  qed
  have up: "\<exists>q. up_ok ?t (A - {n}) pk pv a q" if a: "a \<in> A" "a \<noteq> n" "a \<noteq> root_node s" for a
  proof -
    obtain q where q: "up_ok s A pk pv a q" using tree_ok_up [OF t a(1,3)] .
    then have "q \<noteq> n" using leaf_not_parent [OF t n leaf] by auto
    have "(dkey (rpage_size s) (node_key (nd s a)), a) \<in> set (children (nd ?t q))"
    proof (cases "q = p")
      case True
      have "dkey (rpage_size s) (node_key (nd s a)) \<noteq> dkey (rpage_size s) (node_key (nd s n))"
        using up_ok_map_of [OF t q] up_ok_map_of [OF t p] True a(2) by auto
      then show ?thesis using ch q True by (simp add: up_ok_def)
    next
      case False
      then show ?thesis using view(2) [OF False] q by (simp add: up_ok_def)
    qed
    then have "up_ok ?t (A - {n}) pk pv a q"
      using q \<open>q \<noteq> n\<close> by (simp add: up_ok_def view(3,4,5,8))
    then show ?thesis by blast
  qed
  have "root_ok ?t pk pv" using tree_ok_root_ok [OF t] by (simp add: root_ok_def view(3,4,5,9))
  moreover have "A - {n} \<subseteq> dom (store ?t)" "dom (store ?t) \<subseteq> {..<next_uuid ?t}"
    using t pA tree_ok_bound [OF t] unfolding tree_ok_def by (auto simp: view(10,13))
  ultimately show ?thesis
    unfolding tree_ok_def using tree_ok_ps [OF t] down up tree_ok_root [OF t] nr
    by (auto simp: view(8,9))
qed

lemma cut_ref_ok:
  assumes r: "ref_ok s A pk L" and n: "n \<in> A" and nr: "n \<noteq> root_node s" and z: "ref_count (nd s n) = 0"
  shows "ref_ok (cut_state s n p) (A - {n}) pk L" and "n \<notin># L"
proof -
  have "size (filter_mset (\<lambda>h. prefix (pk n) (pk h)) L) = 0" using r n nr z by (auto simp: ref_ok_def)
  then show "n \<notin># L" by (auto simp: filter_mset_eq_conv)
  then show "ref_ok (cut_state s n p) (A - {n}) pk L"
    using r nr by (auto simp: ref_ok_def nd_cut(6,9))
qed

lemma cut_sizes:
  assumes t: "tree_ok s A pk pv" and n: "n \<in> A" and nr: "n \<noteq> root_node s" and z: "ref_count (nd s n) = 0"
  shows "size_ok s A \<Longrightarrow> size_ok (cut_state s n p) (A - {n})"
    and "tree_pages s A = tree_pages (cut_state s n p) (A - {n}) + mset (stride (rpage_size s) (node_value (nd s n)))"
proof -
  have fin: "finite A" by (rule tree_ok_finite [OF t])
  show "size_ok s A \<Longrightarrow> size_ok (cut_state s n p) (A - {n})"
    using fin n nr z
    by (simp add: size_ok_alt nd_cut(6,9,11,12) nd_cut(7) [where s = s and n = n and p = p]
        sum.remove [of A n] cong: if_cong)
  show "tree_pages s A = tree_pages (cut_state s n p) (A - {n}) + mset (stride (rpage_size s) (node_value (nd s n)))"
    using fin n by (simp add: tree_pages_def nd_cut(5,8) sum.remove [of A n])
qed

end
