(* ===== verification/RadixWalk.thy ===== *)
theory RadixWalk
  imports RadixUpd
begin

text \<open>
  The walk down the tree: it always returns, keeps the invariant, the page contents and the
  counters, and ends at the node that spells the longest page-aligned prefix of the input in the
  tree. \<open>match_prefix\<close> and \<open>insert_prefix\<close> are read off it.
\<close>

definition full_ok ::
  "radix \<Rightarrow> nid set \<Rightarrow> (nid \<Rightarrow> tok list) \<Rightarrow> (nid \<Rightarrow> slot list) \<Rightarrow> nid multiset \<Rightarrow> bool" where
  "full_ok s A pk pv L \<longleftrightarrow> tree_ok s A pk pv \<and> ref_ok s A pk L \<and> size_ok s A"

text \<open>The tree may have gained nodes, but what it stores and what each old node spells is the same.\<close>

definition grows where
  "grows s A pk pv t A' pk' pv' \<longleftrightarrow>
     rpage_size t = rpage_size s \<and> evictable_size t = evictable_size s \<and>
     protected_size t = protected_size s \<and> A \<subseteq> A' \<and>
     (\<forall>a\<in>A. pk' a = pk a \<and> pv' a = pv a) \<and> tree_pages t A' = tree_pages s A"

lemma grows_refl [simp]: "grows s A pk pv s A pk pv"
  by (simp add: grows_def)

lemma grows_trans:
  "grows s A pk pv t A' pk' pv' \<Longrightarrow> grows t A' pk' pv' u A'' pk'' pv'' \<Longrightarrow>
     grows s A pk pv u A'' pk'' pv''"
  by (auto simp: grows_def)

lemma same_refs_full_ok:
  "same_refs s t \<Longrightarrow> full_ok t A pk pv L \<longleftrightarrow> full_ok s A pk pv L"
  by (simp add: full_ok_def same_refs_inv)

lemma same_refs_grows: "same_refs s t \<Longrightarrow> grows s A pk pv t A pk pv"
  by (simp add: grows_def same_refs_inv) (simp add: same_refs_def same_shapeD)

lemma align_page_eq: "align_page n p = n div p * p"
  by (simp add: align_page_def align_down_def nat_mult_distrib div_int_pos_iff zdiv_int [symmetric]
      flip: of_nat_mult)

lemma align_page_facts:
  assumes "0 < p"
  shows "align_page n p \<le> n" and "p dvd align_page n p" and "n < align_page n p + p"
    and "p \<le> n \<Longrightarrow> p \<le> align_page n p"
proof -
  have "n < n div p * p + p" using assms mod_less_divisor [OF assms, of n] div_mult_mod_eq [of n p] by linarith
  then show "n < align_page n p + p" by (simp add: align_page_eq)
  show "align_page n p \<le> n" "p dvd align_page n p" by (simp_all add: align_page_eq)
  show "p \<le> align_page n p" if "p \<le> n"
    using assms that by (simp add: align_page_eq div_greater_zero_iff Suc_le_eq)
qed

lemma split_full_ok:
  assumes f: "full_ok s A pk pv L" and n: "n \<in> A" and nr: "n \<noteq> root_node s"
    and p: "up_ok s A pk pv n p" and pos: "0 < pos" "pos < node_length (nd s n)" "rpage_size s dvd pos"
  obtains t m where "split_at n pos s = Inr (m, t)"
    and "full_ok t (insert m A) (pk(m := pk p @ take pos (node_key (nd s n))))
           (pv(m := pv p @ take pos (node_value (nd s n)))) L"
    and "grows s A pk pv t (insert m A) (pk(m := pk p @ take pos (node_key (nd s n))))
           (pv(m := pv p @ take pos (node_value (nd s n))))"
    and "children (nd t m) = [(dkey (rpage_size s) (drop pos (node_key (nd s n))), n)]"
proof -
  have t: "tree_ok s A pk pv" and r: "ref_ok s A pk L" and z: "size_ok s A"
    using f by (auto simp: full_ok_def)
  let ?m = "next_uuid s"
  obtain ts tk where eq: "split_at n pos s = Inr (?m, split_state s n p pos ts tk)"
    using split_at_eq [OF t n p pos(1,2)] .
  note view = nd_split [OF split_distinct [OF t n p], where pos = pos and ts = ts and tk = tk]
  have fresh: "?m \<notin> A" by (rule tree_ok_fresh [OF t])
  show ?thesis
  proof (rule that [OF eq])
    show "full_ok (split_state s n p pos ts tk) (insert ?m A)
        (pk(?m := pk p @ take pos (node_key (nd s n)))) (pv(?m := pv p @ take pos (node_value (nd s n)))) L"
      unfolding full_ok_def
      using split_tree_ok [OF t n nr p pos] split_ref_ok [OF t n nr p pos r] split_sizes(1) [OF t n nr p pos z]
      by blast
    show "grows s A pk pv (split_state s n p pos ts tk) (insert ?m A)
        (pk(?m := pk p @ take pos (node_key (nd s n)))) (pv(?m := pv p @ take pos (node_value (nd s n))))"
      using fresh split_sizes(2) [OF t n nr p pos] by (auto simp: grows_def view(5,8,9))
  qed (simp add: view(1))
qed

text \<open>What one round of the walk finds: the child whose first page is the next page of the input.\<close>

lemma walk_child:
  assumes t: "tree_ok s A pk pv" and node: "node \<in> A" and pk: "pk node = take plen ids"
    and less: "plen < length ids"
    and c: "map_of (children (nd s node)) (dkey (rpage_size s) (drop plen ids)) = Some c"
  defines "ml \<equiv> align_page (get_match_len (nd s c) (drop plen ids)) (rpage_size s)"
  shows "c \<in> A" and "up_ok s A pk pv c node" and "c \<noteq> root_node s" and "rpage_size s \<le> ml"
    and "ml \<le> node_length (nd s c)" and "plen + ml \<le> length ids" and "rpage_size s dvd ml"
    and "take ml (node_key (nd s c)) = take ml (drop plen ids)"
proof -
  let ?rest = "drop plen ids" and ?key = "node_key (nd s c)"
  have psz: "0 < rpage_size s" by (rule tree_ok_ps [OF t])
  have mem: "(dkey (rpage_size s) ?rest, c) \<in> set (children (nd s node))"
    using c by (rule map_of_SomeD)
  note cu = child_up_ok [OF t node mem]
  show "c \<in> A" "up_ok s A pk pv c node" "c \<noteq> root_node s" by (rule cu)+
  have lk: "rpage_size s \<le> length ?key" using up_ok_length(1) [OF t cu(2)] .
  have "rpage_size s \<le> length ?rest \<and> take (rpage_size s) ?key = take (rpage_size s) ?rest"
    using dkey_eq [OF psz lk, of ?rest] cu(4) less by simp
  then have cl: "rpage_size s \<le> common_len ?key ?rest" using lk by (intro common_len_ge) auto
  have ml: "ml = align_page (common_len ?key ?rest) (rpage_size s)"
    by (simp add: ml_def get_match_len_def fast_compare_key_def)
  note al = align_page_facts [OF psz, of "common_len ?key ?rest", folded ml]
  show "rpage_size s \<le> ml" "rpage_size s dvd ml" using al cl by auto
  show "ml \<le> node_length (nd s c)"
    using al(1) common_len_le(1) [of ?key ?rest] by (simp add: node_length_def)
  show "plen + ml \<le> length ids" using al(1) common_len_le(2) [of ?key ?rest] less by simp
  show "take ml ?key = take ml ?rest" using al(1) by (rule take_common_len)
qed

lemma walk_split_fresh:
  assumes t: "tree_ok s A pk pv" and c: "c \<in> A" and nr: "c \<noteq> root_node s"
    and up: "up_ok s A pk pv c node"
    and ml: "ml = align_page (get_match_len (nd s c) rest) (rpage_size s)"
    and ne: "ml < node_length (nd s c)" and more: "ml < length rest"
  shows "dkey (rpage_size s) (drop ml (node_key (nd s c))) \<noteq> dkey (rpage_size s) (drop ml rest)"
proof
  let ?key = "node_key (nd s c)"
  assume eq: "dkey (rpage_size s) (drop ml ?key) = dkey (rpage_size s) (drop ml rest)"
  have psz: "0 < rpage_size s" by (rule tree_ok_ps [OF t])
  have ml': "ml = align_page (common_len ?key rest) (rpage_size s)"
    using ml by (simp add: get_match_len_def fast_compare_key_def)
  note al = align_page_facts [OF psz, of "common_len ?key rest", folded ml']
  have "rpage_size s dvd length ?key - ml"
    using al(2) page_dvd_key [OF t c] by (rule dvd_diff_nat [rotated])
  then have lk: "rpage_size s \<le> length (drop ml ?key)"
    using ne by (auto simp: node_length_def intro: dvd_imp_le)
  have "drop ml rest \<noteq> []" using more by simp
  then have "rpage_size s \<le> length (drop ml rest)"
    "take (rpage_size s) (drop ml ?key) = take (rpage_size s) (drop ml rest)"
    using dkey_eq [OF psz lk] eq by blast+
  moreover have "take ml ?key = take ml rest" using al(1) by (rule take_common_len)
  ultimately have "take (ml + rpage_size s) ?key = take (ml + rpage_size s) rest"
    by (simp add: take_add)
  moreover have "ml + rpage_size s \<le> length ?key" "ml + rpage_size s \<le> length rest"
    using lk \<open>rpage_size s \<le> length (drop ml rest)\<close> ne more by (auto simp: node_length_def)
  ultimately have "ml + rpage_size s \<le> common_len ?key rest" by (intro common_len_ge)
  with al(3) show False by simp
qed

definition walk_post where
  "walk_post ids s A pk pv L m q t A' pk' pv' \<longleftrightarrow>
     full_ok t A' pk' pv' L \<and> grows s A pk pv t A' pk' pv' \<and> m \<in> A' \<and> q \<le> length ids \<and>
     pk' m = take q ids \<and>
     (q < length ids \<longrightarrow> map_of (children (nd t m)) (dkey (rpage_size t) (drop q ids)) = None)"

lemma tree_walk_loop_ok:
  assumes "full_ok s A pk pv L" and "node \<in> A" and "pk node = take plen ids" and "plen \<le> length ids"
    and "length ids - plen \<le> fuel"
  shows "\<exists>m q t A' pk' pv'. tree_walk_loop fuel ids tic node plen s = Inr ((m, q), t) \<and>
           walk_post ids s A pk pv L m q t A' pk' pv'"
  using assms
proof (induction fuel arbitrary: node plen s)
  case 0
  then have "tree_walk_loop 0 ids tic node plen s = Inr ((node, plen), s)"
    by (simp add: tree_walk_loop.simps)
  moreover have "walk_post ids s A pk pv L node plen s A pk pv"
    using 0 by (simp add: walk_post_def)
  ultimately show ?case by blast
next
  case (Suc fuel)
  have t: "tree_ok s A pk pv" using Suc.prems(1) by (simp add: full_ok_def)
  show ?case
  proof (cases "plen < length ids")
    case False
    then have "tree_walk_loop (Suc fuel) ids tic node plen s = Inr ((node, plen), s)"
      by (simp add: tree_walk_loop.simps)
    moreover have "walk_post ids s A pk pv L node plen s A pk pv"
      using Suc.prems False by (simp add: walk_post_def)
    ultimately show ?thesis by blast
  next
    case less: True
    let ?rest = "drop plen ids"
    have key: "get_key_fn (rpage_size s) ?rest = Inr (dkey (rpage_size s) ?rest)"
      using less by (intro get_key_fn_ok) simp
    note gn = get_node_ok [OF t Suc.prems(2)]
    show ?thesis
    proof (cases "map_of (children (nd s node)) (dkey (rpage_size s) ?rest)")
      case None
      then have "tree_walk_loop (Suc fuel) ids tic node plen s = Inr ((node, plen), s)"
        using less key gn by (simp add: tree_walk_loop.simps)
      moreover have "walk_post ids s A pk pv L node plen s A pk pv"
        using Suc.prems None by (simp add: walk_post_def)
      ultimately show ?thesis by blast
    next
      case (Some c)
      define ml where "ml = align_page (get_match_len (nd s c) ?rest) (rpage_size s)"
      note wc = walk_child [OF t Suc.prems(2,3) less Some, folded ml_def]
      have psz: "0 < rpage_size s" by (rule tree_ok_ps [OF t])
      note gc = get_node_ok [OF t wc(1)]
      have lenpk: "take plen ids @ take ml ?rest = take (plen + ml) ids" by (simp add: take_add)
      show ?thesis
      proof (cases "ml = node_length (nd s c)")
        case True
        let ?s = "put_node c ((nd s c)\<lparr>timestamp := tic\<rparr>) s"
        have touch: "same_refs s ?s" using tree_ok_store [OF t wc(1)] by (rule same_refs_touch)
        have eq: "tree_walk_loop (Suc fuel) ids tic node plen s
            = tree_walk_loop fuel ids tic c (plen + ml) ?s"
          using less key gn Some gc True
          by (simp add: tree_walk_loop.simps [of "Suc fuel"] ml_def [symmetric])
        have "pk c = take (plen + ml) ids"
          using wc(2,8) Suc.prems(3) lenpk True by (simp add: up_ok_def node_length_def)
        then have "\<exists>m q t A' pk' pv'. tree_walk_loop fuel ids tic c (plen + ml) ?s = Inr ((m, q), t) \<and>
            walk_post ids ?s A pk pv L m q t A' pk' pv'"
          using Suc.prems wc psz same_refs_full_ok [OF touch] by (intro Suc.IH) auto
        then obtain m q t' A' pk' pv' where
          post: "tree_walk_loop fuel ids tic c (plen + ml) ?s = Inr ((m, q), t')"
            "walk_post ids ?s A pk pv L m q t' A' pk' pv'" by blast
        then have "walk_post ids s A pk pv L m q t' A' pk' pv'"
          using grows_trans [OF same_refs_grows [OF touch]] by (auto simp: walk_post_def)
        with post eq show ?thesis by auto
      next
        case False
        then have ne: "ml < node_length (nd s c)" using wc(5) by simp
        have mlpos: "0 < ml" using wc(4) psz by simp
        obtain t' m where sp: "split_at c ml s = Inr (m, t')"
          and f: "full_ok t' (insert m A) (pk(m := pk node @ take ml (node_key (nd s c))))
             (pv(m := pv node @ take ml (node_value (nd s c)))) L"
          and g: "grows s A pk pv t' (insert m A) (pk(m := pk node @ take ml (node_key (nd s c))))
             (pv(m := pv node @ take ml (node_value (nd s c))))"
          and ch: "children (nd t' m) = [(dkey (rpage_size s) (drop ml (node_key (nd s c))), c)]"
          by (rule split_full_ok [OF Suc.prems(1) wc(1,3,2) mlpos ne wc(7)])
        have t': "tree_ok t' (insert m A) (pk(m := pk node @ take ml (node_key (nd s c))))
             (pv(m := pv node @ take ml (node_value (nd s c))))" using f by (simp add: full_ok_def)
        have gm: "get_node t' m = Inr (nd t' m)" and sm: "store t' m = Some (nd t' m)"
          using get_node_ok [OF t'] tree_ok_store [OF t'] by blast+
        let ?u = "put_node m ((nd t' m)\<lparr>timestamp := tic\<rparr>) t'"
        have touch: "same_refs t' ?u" using sm by (rule same_refs_touch)
        have eq: "tree_walk_loop (Suc fuel) ids tic node plen s = Inr ((m, plen + ml), ?u)"
          using less key gn Some gc False sp gm
          by (simp add: tree_walk_loop.simps [of "Suc fuel"] ml_def [symmetric])
        have "map_of (children (nd ?u m)) (dkey (rpage_size ?u) (drop (plen + ml) ids)) = None"
          if "plen + ml < length ids"
        proof -
          have "dkey (rpage_size s) (drop ml (node_key (nd s c))) \<noteq> dkey (rpage_size s) (drop ml ?rest)"
            using walk_split_fresh [OF t wc(1,3,2) ml_def ne] that by simp
          then show ?thesis using ch g by (simp add: put_node_def grows_def add.commute)
        qed
        moreover have "pk node @ take ml (node_key (nd s c)) = take (plen + ml) ids"
          using wc(8) Suc.prems(3) lenpk by simp
        ultimately have "walk_post ids s A pk pv L m (plen + ml) ?u (insert m A)
            (pk(m := pk node @ take ml (node_key (nd s c))))
            (pv(m := pv node @ take ml (node_value (nd s c))))"
          using f wc(6) same_refs_full_ok [OF touch] grows_trans [OF g same_refs_grows [OF touch]]
          by (simp add: walk_post_def)
        with eq show ?thesis by blast
      qed
    qed
  qed
qed

lemma tree_walk_ok:
  assumes "full_ok s A pk pv L"
  obtains m q t A' pk' pv' where "tree_walk ids s = Inr ((m, q), t)"
    and "walk_post ids s A pk pv L m q t A' pk' pv'"
proof -
  let ?s = "s\<lparr>ticks := Suc (ticks s)\<rparr>"
  have t: "tree_ok s A pk pv" using assms by (simp add: full_ok_def)
  have same: "same_refs s ?s" by (rule same_refs_ticks)
  have "full_ok ?s A pk pv L" using assms same_refs_full_ok [OF same] by simp
  moreover have "root_node s \<in> A" "pk (root_node s) = take 0 ids"
    using tree_ok_root [OF t] tree_ok_root_ok [OF t] by (auto simp: root_ok_def)
  ultimately obtain m q t' A' pk' pv' where
    "tree_walk_loop (length ids) ids (clock s (ticks s)) (root_node s) 0 ?s = Inr ((m, q), t')"
    "walk_post ids ?s A pk pv L m q t' A' pk' pv'"
    using tree_walk_loop_ok [of ?s A pk pv L "root_node s" 0 ids "length ids"] by (metis diff_zero order_refl zero_le)
  moreover have "walk_post ids s A pk pv L m q t' A' pk' pv'"
    using calculation(2) grows_trans [OF same_refs_grows [OF same]] by (auto simp: walk_post_def)
  ultimately show ?thesis
    by (intro that [of m q t' A' pk' pv']) (simp_all add: tree_walk_def monotonic_ns_def)
qed

text \<open>No node of the tree shares a longer run of whole pages with the input.\<close>

lemma walk_maximal:
  assumes post: "walk_post ids s A pk pv L m q t A' pk' pv'" and n: "n \<in> A'"
    and k: "rpage_size s dvd k" "k \<le> length ids" "k \<le> length (pk' n)" "take k (pk' n) = take k ids"
  shows "k \<le> q"
proof (rule ccontr)
  assume "\<not> k \<le> q"
  have t: "tree_ok t A' pk' pv'" and m: "m \<in> A'" and pkm: "pk' m = take q ids" and q: "q \<le> length ids"
    and ps: "rpage_size t = rpage_size s" using post by (auto simp: walk_post_def full_ok_def grows_def)
  have "q < length ids" using \<open>\<not> k \<le> q\<close> k(2) by simp
  then have fresh: "map_of (children (nd t m)) (dkey (rpage_size t) (drop q ids)) = None"
    using post by (simp add: walk_post_def)
  have "rpage_size t dvd q" using page_dvd_pk [OF t m] pkm q by simp
  then have "rpage_size t dvd k - q" using k(1) ps by (simp add: dvd_diff_nat)
  then have "rpage_size t \<le> k - q" using \<open>\<not> k \<le> q\<close> by (auto intro: dvd_imp_le)
  moreover have "prefix (pk' m @ take (k - q) (drop q ids)) (pk' n)"
  proof -
    have "pk' m @ take (k - q) (drop q ids) = take k (pk' n)"
      using pkm k(4) \<open>\<not> k \<le> q\<close> by (metis le_add_diff_inverse nat_le_linear take_add)
    then show ?thesis by (simp add: take_is_prefix)
  qed
  moreover have "rpage_size t \<le> length (drop q ids)"
    using calculation(1) k(2) by simp
  ultimately show False using no_prefix_of_fresh [OF t m n fresh] by blast
qed

section \<open>match_prefix and insert_prefix\<close>

lemma match_prefix_ok:
  assumes "full_ok s A pk pv L"
  obtains m q t A' pk' pv' where "match_prefix s ids = Inr (RadixHandle q m, t)"
    and "walk_post ids s A pk pv L m q t A' pk' pv'"
proof -
  obtain m q t A' pk' pv' where "tree_walk ids s = Inr ((m, q), t)"
    and "walk_post ids s A pk pv L m q t A' pk' pv'" by (rule tree_walk_ok [OF assms])
  then show ?thesis by (intro that) (simp_all add: match_prefix_def)
qed

text \<open>
  \<open>insert_post\<close>: the handle's node spells the whole aligned input; what was there before is kept,
  and the slots after the first \<open>q\<close> have become pages of the tree.
\<close>

definition insert_post where
  "insert_post ids indices s A pk pv L q m t A' pk' pv' \<longleftrightarrow>
     (let len = align_page (length ids) (rpage_size s) in
      full_ok t A' pk' pv' L \<and> rpage_size t = rpage_size s \<and> A \<subseteq> A' \<and>
      (\<forall>a\<in>A. pk' a = pk a \<and> pv' a = pv a) \<and> m \<in> A' \<and> q \<le> len \<and> rpage_size s dvd q \<and>
      pk' m = take len ids \<and> drop q (pv' m) = slice q len indices \<and>
      tree_pages t A' = tree_pages s A + mset (stride (rpage_size s) (slice q len indices)) \<and>
      protected_size t = protected_size s \<and>
      evictable_size t = evictable_size s + int (len - q) \<and>
      (\<forall>n\<in>A. \<forall>k. rpage_size s dvd k \<and> k \<le> len \<and> k \<le> length (pk n) \<and>
          take k (pk n) = take k ids \<longrightarrow> k \<le> q))"

lemma insert_prefix_ok:
  assumes f: "full_ok s A pk pv L" and len: "length indices = length ids"
  obtains m q t A' pk' pv' where
    "insert_prefix s ids indices = Inr ((q, RadixHandle (align_page (length ids) (rpage_size s)) m), t)"
    and "insert_post ids indices s A pk pv L q m t A' pk' pv'"
proof -
  define n where "n = align_page (length ids) (rpage_size s)"
  have t0: "tree_ok s A pk pv" using f by (simp add: full_ok_def)
  have psz: "0 < rpage_size s" by (rule tree_ok_ps [OF t0])
  have nle: "n \<le> length ids" and dvd: "rpage_size s dvd n"
    unfolding n_def by (rule align_page_facts [OF psz])+
  let ?ids = "take n ids"
  have lids: "length ?ids = n" using nle by simp
  obtain m q t A' pk' pv' where w: "tree_walk ?ids s = Inr ((m, q), t)"
    and post: "walk_post ?ids s A pk pv L m q t A' pk' pv'" by (rule tree_walk_ok [OF f])
  have ft: "full_ok t A' pk' pv' L" and g: "grows s A pk pv t A' pk' pv'" and m: "m \<in> A'"
    and q: "q \<le> n" and pkm: "pk' m = take q ?ids"
    and fresh: "q < n \<longrightarrow> map_of (children (nd t m)) (dkey (rpage_size t) (drop q ?ids)) = None"
    using post lids by (auto simp: walk_post_def)
  have t: "tree_ok t A' pk' pv'" and r: "ref_ok t A' pk' L" and z: "size_ok t A'"
    using ft by (auto simp: full_ok_def)
  have ps: "rpage_size t = rpage_size s" using g by (simp add: grows_def)
  have dq: "rpage_size s dvd q" using page_dvd_pk [OF t m] pkm q nle ps by simp
  have max: "k \<le> q" if "a \<in> A" "rpage_size s dvd k" "k \<le> n" "k \<le> length (pk a)"
    "take k (pk a) = take k ids" for a k
  proof -
    have "a \<in> A'" "pk' a = pk a" using g that(1) by (auto simp: grows_def)
    then show ?thesis using walk_maximal [OF post, of a k] that lids by (simp add: min_def)
  qed
  show ?thesis
  proof (cases "q = n")
    case True
    have "insert_prefix s ids indices = Inr ((q, RadixHandle n m), t)"
      using w True by (simp add: insert_prefix_def n_def [symmetric])
    moreover have "insert_post ids indices s A pk pv L q m t A' pk' pv'"
      unfolding insert_post_def Let_def n_def [symmetric]
      using ft g m q dq pkm True max page_dvd_length [OF t m] nle by (auto simp: grows_def)
    ultimately show ?thesis using that n_def by blast
  next
    case False
    with q have qn: "q < n" by simp
    let ?k = "drop q ?ids" and ?v = "drop q (take n indices)" and ?m = "next_uuid t"
    have sm: "store t m = Some (nd t m)" by (rule tree_ok_store [OF t m])
    then obtain y where y: "store t m = Some y" "nd t m = y" by simp
    have mm: "?m \<noteq> m" using tree_ok_fresh [OF t] m by auto
    have k: "?k \<noteq> []" "rpage_size t dvd length ?k" "length ?v = length ?k"
      using qn lids dvd dq ps len nle by (auto simp: dvd_diff_nat)
    have fr: "map_of (children (nd t m)) (dkey (rpage_size t) ?k) = None" using fresh qn by blast
    define u where "u = leaf_state t m ?k ?v (clock t (ticks t)) (Suc (ticks t))"
    have eq: "insert_prefix s ids indices = Inr ((q, RadixHandle n ?m), u)"
      using w False y mm k(1,3) get_key_fn_ok [OF k(1), of "rpage_size t"]
      by (cases t) (auto simp: insert_prefix_def n_def [symmetric] new_node_def monotonic_ns_def
          set_key_value_def set_parent_def get_node_def put_node_def u_def leaf_state_def
          node_length_def Let_def fun_upd_twist)
    let ?A = "insert ?m A'" and ?pk = "pk'(?m := pk' m @ ?k)" and ?pv = "pv'(?m := pv' m @ ?v)"
    have fu: "full_ok u ?A ?pk ?pv L"
      unfolding full_ok_def u_def
      using leaf_tree_ok [OF t m fr k] leaf_ref_ok [OF t m fr k(1,2) r] leaf_sizes(1) [OF t m z] by blast
    note view = nd_leaf [OF mm, where k = ?k and v = ?v and ts = "clock t (ticks t)" and tk = "Suc (ticks t)", folded u_def]
    have "pk' m @ ?k = take n ids" using pkm by (metis append_take_drop_id)
    moreover have "drop q (pv' m @ ?v) = slice q n indices"
      using length_pk_pv [OF t m] pkm q nle by (simp add: slice_def)
    moreover have "tree_pages u ?A = tree_pages s A + mset (stride (rpage_size s) (slice q n indices))"
      using leaf_sizes(2) [OF t m] g ps by (simp add: u_def grows_def slice_def)
    moreover have "length ?k = n - q" using lids by simp
    ultimately have "insert_post ids indices s A pk pv L q ?m u ?A ?pk ?pv"
      unfolding insert_post_def Let_def n_def [symmetric]
      using fu g q dq max tree_ok_fresh [OF t] by (auto simp: grows_def view)
    with eq show ?thesis using that n_def by blast
  qed
qed

end
