(* ===== verification/RadixLock.thy ===== *)
theory RadixLock
  imports RadixWalk
begin

text \<open>
  The climbs from a handle's node to the root: \<open>lock_handle\<close> in both directions and
  \<open>get_matched_indices\<close>. Each visits exactly the nodes whose spelling is a prefix of the handle's,
  within the bound the handle's length gives, and the counters move with the reference counts.
\<close>

definition path_nodes :: "nid \<Rightarrow> nid set \<Rightarrow> (nid \<Rightarrow> tok list) \<Rightarrow> nid \<Rightarrow> nid set" where
  "path_nodes r A pk n = {a \<in> A. a \<noteq> r \<and> prefix (pk a) (pk n)}"

lemma path_nodes_root: "tree_ok s A pk pv \<Longrightarrow> path_nodes (root_node s) A pk (root_node s) = {}"
  using tree_ok_root_ok [of s A pk pv] pk_Nil_iff [of s A pk pv]
  by (auto simp: path_nodes_def root_ok_def)

lemma path_nodes_step:
  assumes t: "tree_ok s A pk pv" and n: "n \<in> A" and nr: "n \<noteq> root_node s" and p: "up_ok s A pk pv n p"
  shows "path_nodes (root_node s) A pk n = insert n (path_nodes (root_node s) A pk p)"
    and "n \<notin> path_nodes (root_node s) A pk p"
proof -
  have "prefix (pk p) (pk n)" using p by (simp add: up_ok_def)
  then show "path_nodes (root_node s) A pk n = insert n (path_nodes (root_node s) A pk p)"
    using prefix_parent [OF t _ n p nr] n nr
    by (auto simp: path_nodes_def dest: prefix_order.trans)
  show "n \<notin> path_nodes (root_node s) A pk p"
    using up_ok_length(2) [OF t p] by (auto simp: path_nodes_def dest: prefix_length_le)
qed

lemma path_nodes_finite: "tree_ok s A pk pv \<Longrightarrow> finite (path_nodes r A pk n)"
  using tree_ok_finite [of s A pk pv] by (simp add: path_nodes_def)

lemma node_parent_ok: "up_ok s A pk pv n p \<Longrightarrow> node_parent (nd s n) = Inr p"
  by (simp add: up_ok_def node_parent_def)

definition lock_effect :: "int \<Rightarrow> int \<Rightarrow> radix \<Rightarrow> nid set \<Rightarrow> nid set \<Rightarrow> radix \<Rightarrow> bool" where
  "lock_effect d b s A P t \<longleftrightarrow>
     same_shape s t \<and> (\<forall>a\<in>A. ref_count (nd t a) = ref_count (nd s a) + (if a \<in> P then d else 0)) \<and>
     evictable_size t = evictable_size s
       - d * (\<Sum>a\<in>P. if ref_count (nd s a) = b then int (node_length (nd s a)) else 0) \<and>
     protected_size t = protected_size s
       + d * (\<Sum>a\<in>P. if ref_count (nd s a) = b then int (node_length (nd s a)) else 0)"

text \<open>One step of a climb composes with the rest of it.\<close>

lemma lock_effect_step:
  assumes P: "P = insert n Q" "n \<notin> Q" "finite Q" "Q \<subseteq> A" "n \<in> A"
    and shape: "same_shape s s'"
    and n: "ref_count (nd s' n) = ref_count (nd s n) + d"
    and others: "\<And>a. a \<in> A \<Longrightarrow> a \<noteq> n \<Longrightarrow> ref_count (nd s' a) = ref_count (nd s a)"
    and ev: "evictable_size s' = evictable_size s - d * (if ref_count (nd s n) = b then int (node_length (nd s n)) else 0)"
    and pr: "protected_size s' = protected_size s + d * (if ref_count (nd s n) = b then int (node_length (nd s n)) else 0)"
    and rest: "lock_effect d b s' A Q t"
  shows "lock_effect d b s A P t"
proof -
  have sum: "(\<Sum>a\<in>Q. if ref_count (nd s' a) = b then int (node_length (nd s' a)) else 0)
      = (\<Sum>a\<in>Q. if ref_count (nd s a) = b then int (node_length (nd s a)) else 0)"
  proof (intro sum.cong refl)
    fix x assume "x \<in> Q"
    then have "x \<in> A" "x \<noteq> n" using P by auto
    then show "(if ref_count (nd s' x) = b then int (node_length (nd s' x)) else 0)
        = (if ref_count (nd s x) = b then int (node_length (nd s x)) else 0)"
      by (simp add: others same_shapeD(9) [OF shape])
  qed
  have refs: "ref_count (nd t a) = ref_count (nd s a) + (if a \<in> P then d else 0)" if "a \<in> A" for a
    using rest n others [OF that] P that by (cases "a = n") (auto simp: lock_effect_def)
  have "same_shape s t" using shape rest same_shape_trans by (auto simp: lock_effect_def)
  moreover have "evictable_size t = evictable_size s
       - d * (\<Sum>a\<in>P. if ref_count (nd s a) = b then int (node_length (nd s a)) else 0)"
    "protected_size t = protected_size s
       + d * (\<Sum>a\<in>P. if ref_count (nd s a) = b then int (node_length (nd s a)) else 0)"
    using rest ev pr P sum by (simp_all add: lock_effect_def algebra_simps)
  ultimately show ?thesis using refs by (simp add: lock_effect_def)
qed

lemma lock_loop_ok:
  assumes "tree_ok s A pk pv" and "n \<in> A" and "length (pk n) < fuel"
  shows "\<exists>t. lock_loop fuel n s = Inr t \<and> lock_effect 1 0 s A (path_nodes (root_node s) A pk n) t"
  using assms
proof (induction fuel arbitrary: n s)
  case (Suc fuel)
  note t = Suc.prems(1) and n = Suc.prems(2)
  note gn = get_node_ok [OF t n]
  show ?case
  proof (cases "n = root_node s")
    case True
    have "lock_loop (Suc fuel) n s = Inr s"
      using gn is_root_iff [OF t n] True by (simp add: lock_loop.simps)
    moreover have "lock_effect 1 0 s A (path_nodes (root_node s) A pk n) s"
      using True path_nodes_root [OF t] by (simp add: lock_effect_def)
    ultimately show ?thesis by blast
  next
    case False
    then obtain p where p: "up_ok s A pk pv n p" using tree_ok_up [OF t n] by blast
    let ?x = "nd s n"
    define s' where "s' = put_node n (?x\<lparr>ref_count := ref_count ?x + 1\<rparr>)
       (if ref_count ?x = 0 then s\<lparr>evictable_size := evictable_size s - int (node_length ?x),
          protected_size := protected_size s + int (node_length ?x)\<rparr> else s)"
    obtain x where sn: "store s n = Some x" "?x = x" using tree_ok_store [OF t n] by simp
    have shape: "same_shape s s'"
      using sn by (auto simp: same_shape_def s'_def put_node_def shape_def)
    have refs: "ref_count (nd s' n) = ref_count ?x + 1" "\<And>a. a \<noteq> n \<Longrightarrow> ref_count (nd s' a) = ref_count (nd s a)"
      by (auto simp: s'_def put_node_def)
    have sizes: "evictable_size s' = evictable_size s - 1 * (if ref_count ?x = 0 then int (node_length ?x) else 0)"
      "protected_size s' = protected_size s + 1 * (if ref_count ?x = 0 then int (node_length ?x) else 0)"
      by (auto simp: s'_def put_node_def)
    have root: "root_node s' = root_node s" using shape by (simp add: same_shapeD)
    have "p \<in> A" "length (pk p) < fuel"
      using p up_ok_length(2) [OF t p] Suc.prems(3) by (simp_all only: up_ok_def)
    then obtain u where u: "lock_loop fuel p s' = Inr u"
      "lock_effect 1 0 s' A (path_nodes (root_node s) A pk p) u"
      using Suc.IH [of s' p] t same_shape_tree_ok [OF shape] root by auto
    have "lock_loop (Suc fuel) n s = lock_loop fuel p s'"
      using gn is_root_iff [OF t n] False node_parent_ok [OF p]
      by (subst lock_loop.simps) (auto simp: s'_def Let_def)
    moreover have "lock_effect 1 0 s A (path_nodes (root_node s) A pk n) u"
      by (rule lock_effect_step [OF path_nodes_step [OF t n False p] path_nodes_finite [OF t] _ n shape refs(1) refs(2) sizes u(2)])
        (auto simp: path_nodes_def)
    ultimately show ?thesis using u(1) by metis
  qed
qed simp

lemma unlock_loop_ok:
  assumes "tree_ok s A pk pv" and "n \<in> A" and "length (pk n) < fuel"
    and "\<And>a. a \<in> path_nodes (root_node s) A pk n \<Longrightarrow> ref_count (nd s a) \<ge> 1"
  shows "\<exists>t. unlock_loop fuel n s = Inr t \<and> lock_effect (-1) 1 s A (path_nodes (root_node s) A pk n) t"
  using assms
proof (induction fuel arbitrary: n s)
  case (Suc fuel)
  note t = Suc.prems(1) and n = Suc.prems(2)
  note gn = get_node_ok [OF t n]
  show ?case
  proof (cases "n = root_node s")
    case True
    have "unlock_loop (Suc fuel) n s = Inr s"
      using gn is_root_iff [OF t n] True by (simp add: unlock_loop.simps)
    moreover have "lock_effect (-1) 1 s A (path_nodes (root_node s) A pk n) s"
      using True path_nodes_root [OF t] by (simp add: lock_effect_def)
    ultimately show ?thesis by blast
  next
    case False
    then obtain p where p: "up_ok s A pk pv n p" using tree_ok_up [OF t n] by blast
    let ?x = "nd s n"
    note step = path_nodes_step [OF t n False p]
    have pos: "ref_count ?x \<ge> 1" using Suc.prems(4) [of n] step by simp
    define s1 where "s1 = put_node n (?x\<lparr>ref_count := ref_count ?x - 1\<rparr>) s"
    define s' where "s' = (if ref_count ?x - 1 = 0
        then s1\<lparr>evictable_size := evictable_size s1 + int (node_length ?x),
               protected_size := protected_size s1 - int (node_length ?x)\<rparr> else s1)"
    obtain x where sn: "store s n = Some x" "?x = x" using tree_ok_store [OF t n] by simp
    have shape: "same_shape s s'"
      using sn by (auto simp: same_shape_def s'_def s1_def put_node_def shape_def)
    have refs: "ref_count (nd s' n) = ref_count ?x + -1" "\<And>a. a \<noteq> n \<Longrightarrow> ref_count (nd s' a) = ref_count (nd s a)"
      by (auto simp: s'_def s1_def put_node_def)
    have sizes: "evictable_size s' = evictable_size s - (-1) * (if ref_count ?x = 1 then int (node_length ?x) else 0)"
      "protected_size s' = protected_size s + (-1) * (if ref_count ?x = 1 then int (node_length ?x) else 0)"
      by (auto simp: s'_def s1_def put_node_def)
    have root: "root_node s' = root_node s" using shape by (simp add: same_shapeD)
    have pA: "p \<in> A" "length (pk p) < fuel"
      using p up_ok_length(2) [OF t p] Suc.prems(3) by (simp_all only: up_ok_def)
    have "ref_count (nd s' a) \<ge> 1" if "a \<in> path_nodes (root_node s') A pk p" for a
    proof -
      have "a \<in> path_nodes (root_node s) A pk p" using that root by simp
      moreover from this have "a \<noteq> n" using step(2) by auto
      ultimately show ?thesis using step(1) Suc.prems(4) [of a] refs(2) [of a] by simp
    qed
    then obtain u where u: "unlock_loop fuel p s' = Inr u"
      "lock_effect (-1) 1 s' A (path_nodes (root_node s) A pk p) u"
      using Suc.IH [of s' p] pA t same_shape_tree_ok [OF shape] root by auto
    have "unlock_loop (Suc fuel) n s = unlock_loop fuel p s'"
      using gn is_root_iff [OF t n] False node_parent_ok [OF p] pos
      by (subst unlock_loop.simps) (auto simp: s'_def s1_def Let_def py_assert_def node_length_def node_parent_def)
    moreover have "lock_effect (-1) 1 s A (path_nodes (root_node s) A pk n) u"
      by (rule lock_effect_step [OF step path_nodes_finite [OF t] _ n shape refs(1) refs(2) sizes u(2)])
        (auto simp: path_nodes_def)
    ultimately show ?thesis using u(1) by metis
  qed
qed simp

section \<open>The invariant under locking and unlocking\<close>

lemma sum_over_path:
  fixes f :: "nid \<Rightarrow> int"
  assumes "finite A" and "P \<subseteq> A"
  shows "(\<Sum>a\<in>P. f a) = (\<Sum>a\<in>A. if a \<in> P then f a else 0)"
  using assms by (simp add: sum.If_cases Int_absorb1 inf.absorb_iff2)

text \<open>The counters follow when each node's contribution moves the way the path says.\<close>

lemma size_ok_move:
  fixes w :: "nid \<Rightarrow> int"
  assumes fin: "finite A" and z: "size_ok s A" and P: "P \<subseteq> A" "root_node s \<notin> P"
    and root: "root_node t = root_node s" and len: "\<And>a. node_length (nd t a) = node_length (nd s a)"
    and out: "\<And>a. a \<in> A \<Longrightarrow> a \<notin> P \<Longrightarrow> ref_count (nd t a) = 0 \<longleftrightarrow> ref_count (nd s a) = 0"
    and "in": "\<And>a. a \<in> P \<Longrightarrow> w a =
          (if ref_count (nd s a) = 0 then int (node_length (nd s a)) else 0) -
          (if ref_count (nd t a) = 0 then int (node_length (nd s a)) else 0)"
    and ev: "evictable_size t = evictable_size s - sum w P"
    and pr: "protected_size t = protected_size s + sum w P"
  shows "size_ok t A"
proof -
  have w: "sum w P = (\<Sum>a\<in>A. if a \<in> P then w a else 0)" by (rule sum_over_path [OF fin P(1)])
  have "(\<Sum>a\<in>A. if a \<noteq> root_node s \<and> ref_count (nd t a) = 0 then int (node_length (nd s a)) else 0)
      = (\<Sum>a\<in>A. (if a \<noteq> root_node s \<and> ref_count (nd s a) = 0 then int (node_length (nd s a)) else 0)
            - (if a \<in> P then w a else 0))"
    using P(2) out "in" by (intro sum.cong refl) auto
  moreover have "(\<Sum>a\<in>A. if a \<noteq> root_node s \<and> ref_count (nd t a) \<noteq> 0 then int (node_length (nd s a)) else 0)
      = (\<Sum>a\<in>A. (if a \<noteq> root_node s \<and> ref_count (nd s a) \<noteq> 0 then int (node_length (nd s a)) else 0)
            + (if a \<in> P then w a else 0))"
    using P(2) out "in" by (intro sum.cong refl) auto
  ultimately show ?thesis
    using z ev pr by (simp add: size_ok_alt [OF fin] root len w sum_subtractf sum.distrib cong: if_cong)
qed

lemma lock_effect_full_ok:
  assumes f: "full_ok s A pk pv L" and n: "n \<in> A"
    and e: "lock_effect 1 0 s A (path_nodes (root_node s) A pk n) t"
  shows "full_ok t A pk pv (add_mset n L)" and "grows s A pk pv (t\<lparr>evictable_size := evictable_size s,
      protected_size := protected_size s\<rparr>) A pk pv"
proof -
  let ?P = "path_nodes (root_node s) A pk n"
  have t: "tree_ok s A pk pv" and r: "ref_ok s A pk L" and z: "size_ok s A"
    using f by (auto simp: full_ok_def)
  have sh: "same_shape s t" using e by (simp add: lock_effect_def)
  note same = same_shapeD [OF sh]
  have fin: "finite A" by (rule tree_ok_finite [OF t])
  have PA: "?P \<subseteq> A" by (auto simp: path_nodes_def)
  have refs: "ref_count (nd t a) = ref_count (nd s a) + (if a \<in> ?P then 1 else 0)" if "a \<in> A" for a
    using e that by (auto simp: lock_effect_def)
  have nonneg: "ref_count (nd s a) \<ge> 0" if "a \<in> A" for a
    using r that by (cases "a = root_node s") (auto simp: ref_ok_def)
  have "ref_ok t A pk (add_mset n L)"
    using r n tree_ok_root [OF t] refs unfolding ref_ok_def same(1) by (auto simp: path_nodes_def)
  moreover have "size_ok t A"
  proof (rule size_ok_move [OF fin z PA _ same(1,9)])
    show "root_node s \<notin> ?P" by (simp add: path_nodes_def)
    fix a
    show "ref_count (nd t a) = 0 \<longleftrightarrow> ref_count (nd s a) = 0" if "a \<in> A" "a \<notin> ?P"
      using refs that by simp
    show "(if ref_count (nd s a) = 0 then int (node_length (nd s a)) else 0) =
        (if ref_count (nd s a) = 0 then int (node_length (nd s a)) else 0) -
        (if ref_count (nd t a) = 0 then int (node_length (nd s a)) else 0)" if "a \<in> ?P"
      using refs [of a] nonneg [of a] PA that by auto
  qed (use e in \<open>simp_all add: lock_effect_def\<close>)
  ultimately show "full_ok t A pk pv (add_mset n L)"
    using same_shape_tree_ok [OF sh] t by (simp add: full_ok_def)
  show "grows s A pk pv (t\<lparr>evictable_size := evictable_size s, protected_size := protected_size s\<rparr>) A pk pv"
    using same_shape_tree_pages [OF sh] same by (simp add: grows_def tree_pages_def)
qed

lemma unlock_effect_full_ok:
  assumes f: "full_ok s A pk pv (add_mset n L)"
    and e: "lock_effect (-1) 1 s A (path_nodes (root_node s) A pk n) t"
  shows "full_ok t A pk pv L" and "tree_pages t A = tree_pages s A" and "rpage_size t = rpage_size s"
proof -
  let ?P = "path_nodes (root_node s) A pk n"
  have t: "tree_ok s A pk pv" and r: "ref_ok s A pk (add_mset n L)" and z: "size_ok s A"
    using f by (auto simp: full_ok_def)
  have sh: "same_shape s t" using e by (simp add: lock_effect_def)
  note same = same_shapeD [OF sh]
  have fin: "finite A" by (rule tree_ok_finite [OF t])
  have PA: "?P \<subseteq> A" by (auto simp: path_nodes_def)
  have refs: "ref_count (nd t a) = ref_count (nd s a) + (if a \<in> ?P then -1 else 0)" if "a \<in> A" for a
    using e that by (auto simp: lock_effect_def)
  have pos: "ref_count (nd s a) \<ge> 1" if "a \<in> ?P" for a
    using r that by (auto simp: ref_ok_def path_nodes_def)
  have "ref_ok t A pk L"
    using r tree_ok_root [OF t] refs unfolding ref_ok_def same(1) by (auto simp: path_nodes_def)
  moreover have "size_ok t A"
  proof (rule size_ok_move [OF fin z PA _ same(1,9)])
    show "root_node s \<notin> ?P" by (simp add: path_nodes_def)
    fix a
    show "ref_count (nd t a) = 0 \<longleftrightarrow> ref_count (nd s a) = 0" if "a \<in> A" "a \<notin> ?P"
      using refs that by simp
    show "- (if ref_count (nd s a) = 1 then int (node_length (nd s a)) else 0) =
        (if ref_count (nd s a) = 0 then int (node_length (nd s a)) else 0) -
        (if ref_count (nd t a) = 0 then int (node_length (nd s a)) else 0)" if "a \<in> ?P"
      using refs [of a] pos [of a] PA that by auto
  qed (use e in \<open>simp_all add: lock_effect_def sum_negf\<close>)
  ultimately show "full_ok t A pk pv L"
    using same_shape_tree_ok [OF sh] t by (simp add: full_ok_def)
  show "tree_pages t A = tree_pages s A" "rpage_size t = rpage_size s"
    using same_shape_tree_pages [OF sh] same by auto
qed

section \<open>get_matched_indices\<close>

lemma matched_loop_ok:
  assumes t: "tree_ok s A pk pv"
  shows "n \<in> A \<Longrightarrow> length (pk n) < fuel \<Longrightarrow>
     \<exists>vs. matched_loop fuel n s acc = Inr (acc @ vs) \<and> concat (rev vs) = pv n \<and>
       (vs = [] \<longleftrightarrow> n = root_node s)"
proof (induction fuel arbitrary: n acc)
  case (Suc fuel)
  note gn = get_node_ok [OF t Suc.prems(1)] and isr = is_root_iff [OF t Suc.prems(1)]
  show ?case
  proof (cases "n = root_node s")
    case True
    then show ?thesis using gn isr tree_ok_root_ok [OF t]
      by (intro exI [of _ "[]"]) (simp add: matched_loop.simps root_ok_def)
  next
    case False
    then obtain p where p: "up_ok s A pk pv n p" using tree_ok_up [OF t Suc.prems(1)] by blast
    then have "p \<in> A" "length (pk p) < fuel"
      using p up_ok_length(2) [OF t p] Suc.prems(2) by (simp_all only: up_ok_def)
    then obtain vs where vs: "matched_loop fuel p s (acc @ [node_value (nd s n)]) = Inr ((acc @ [node_value (nd s n)]) @ vs)"
      "concat (rev vs) = pv p" using Suc.IH by blast
    have "matched_loop (Suc fuel) n s acc = Inr (acc @ (node_value (nd s n) # vs))"
      using gn isr False node_parent_ok [OF p] vs(1) by (subst matched_loop.simps) simp
    moreover have "concat (rev (node_value (nd s n) # vs)) = pv n"
      using vs(2) p by (simp add: up_ok_def)
    ultimately show ?thesis using False by blast
  qed
qed simp

lemma get_matched_indices_ok:
  assumes t: "tree_ok s A pk pv" and n: "n \<in> A"
  shows "get_matched_indices s (RadixHandle (length (pk n)) n) =
     (if n = root_node s then Inl RuntimeError else Inr (pv n))"
proof -
  obtain vs where "matched_loop (Suc (length (pk n))) n s [] = Inr vs" "concat (rev vs) = pv n"
    "vs = [] \<longleftrightarrow> n = root_node s"
    using matched_loop_ok [OF t n, of "Suc (length (pk n))" "[]"] by auto
  then show ?thesis by (auto simp: get_matched_indices_def torch_cat_def)
qed

end
