(* ===== verification/RadixEvict.thy ===== *)
theory RadixEvict
  imports RadixLock
begin

text \<open>
  Eviction. The search for evictable leaves ends within one round per node ever created and finds
  every unlocked leaf; the loop then never runs out of leaves while the counter says there is
  something to evict, because below an unlocked node everything is unlocked.
\<close>

section \<open>Collecting the leaves\<close>

lemma size_sum_list_mset:
  fixes f :: "'a \<Rightarrow> 'b multiset"
  shows "size (\<Sum>x\<leftarrow>xs. f x) = (\<Sum>x\<leftarrow>xs. size (f x))"
  by (induction xs) auto

lemma mset_set_subset_mset:
  assumes "X \<subseteq> set_mset M"
  shows "mset_set X \<subseteq># M"
proof -
  have "mset_set X \<subseteq># mset_set (set_mset M)"
    using assms by (intro subset_imp_msubset_mset_set) simp_all
  then show ?thesis using mset_set_set_mset_msubset by (rule subset_mset.order_trans)
qed

definition below :: "nid set \<Rightarrow> (nid \<Rightarrow> tok list) \<Rightarrow> nid \<Rightarrow> nid set" where
  "below A pk n = {m \<in> A. prefix (pk n) (pk m)}"

lemma below_root: "tree_ok s A pk pv \<Longrightarrow> below A pk (root_node s) = A"
  using tree_ok_root_ok [of s A pk pv] by (auto simp: below_def root_ok_def)

lemma below_finite: "tree_ok s A pk pv \<Longrightarrow> finite (below A pk n)"
  using tree_ok_finite [of s A pk pv] by (simp add: below_def)

lemma below_children:
  assumes t: "tree_ok s A pk pv" and n: "n \<in> A"
  shows "below A pk n = insert n (\<Union>c\<in>snd ` set (children (nd s n)). below A pk c)"
proof (rule set_eqI, rule iffI)
  fix m assume m: "m \<in> below A pk n"
  show "m \<in> insert n (\<Union>c\<in>snd ` set (children (nd s n)). below A pk c)"
  proof (cases "m = n")
    case False
    with m pk_inj [OF t] n have "strict_prefix (pk n) (pk m)"
      by (auto simp: below_def strict_prefix_def)
    then obtain c where "up_ok s A pk pv c n" "prefix (pk c) (pk m)"
      using prefix_child [OF t n] m by (auto simp: below_def)
    then show ?thesis using m by (force simp: below_def up_ok_def)
  qed simp
next
  fix m assume m: "m \<in> insert n (\<Union>c\<in>snd ` set (children (nd s n)). below A pk c)"
  show "m \<in> below A pk n"
  proof (cases "m = n")
    case False
    with m obtain k c where c: "(k, c) \<in> set (children (nd s n))" "m \<in> below A pk c" by auto
    then have "prefix (pk n) (pk c)" using child_up_ok(2) [OF t n c(1)] by (auto simp: up_ok_def)
    with c(2) show ?thesis by (auto simp: below_def dest: prefix_order.trans)
  qed (use n in \<open>auto simp: below_def\<close>)
qed

lemma children_ids_distinct:
  assumes t: "tree_ok s A pk pv" and n: "n \<in> A"
  shows "distinct (map snd (children (nd s n)))"
proof -
  have d: "distinct (map fst (children (nd s n)))"
    using tree_ok_down [OF t n] by (simp add: down_ok_def)
  then have "distinct (children (nd s n))" by (simp add: distinct_map)
  moreover have "inj_on snd (set (children (nd s n)))"
    using child_up_ok(4) [OF t n] by (intro inj_onI) (metis prod.collapse)
  ultimately show ?thesis by (simp add: distinct_map)
qed

lemma card_below:
  assumes t: "tree_ok s A pk pv" and n: "n \<in> A"
  shows "card (below A pk n) = Suc (\<Sum>c\<leftarrow>map snd (children (nd s n)). card (below A pk c))"
proof -
  let ?C = "snd ` set (children (nd s n))"
  have sub: "up_ok s A pk pv c n \<and> c \<in> A" if "c \<in> ?C" for c
    using that child_up_ok [OF t n] by auto
  have "n \<notin> (\<Union>c\<in>?C. below A pk c)"
    using sub up_ok_length(2) [OF t] by (fastforce simp: below_def dest: prefix_length_le)
  then have "card (below A pk n) = Suc (card (\<Union>c\<in>?C. below A pk c))"
    using below_children [OF t n] below_finite [OF t] by simp
  also have "card (\<Union>c\<in>?C. below A pk c) = (\<Sum>c\<in>?C. card (below A pk c))"
  proof (rule card_UN_disjoint)
    show "\<forall>i\<in>?C. \<forall>j\<in>?C. i \<noteq> j \<longrightarrow> below A pk i \<inter> below A pk j = {}"
    proof (intro ballI impI)
      fix i j assume ij: "i \<in> ?C" "j \<in> ?C" "i \<noteq> j"
      show "below A pk i \<inter> below A pk j = {}"
      proof (rule ccontr)
        assume "below A pk i \<inter> below A pk j \<noteq> {}"
        then obtain m where "prefix (pk i) (pk m)" "prefix (pk j) (pk m)" by (auto simp: below_def)
        then have "prefix (pk i) (pk j) \<or> prefix (pk j) (pk i)" by (rule prefix_same_cases)
        then show False using siblings_eq [OF t] sub ij by metis
      qed
    qed
  qed (use below_finite [OF t] in auto)
  also have "(\<Sum>c\<in>?C. card (below A pk c)) = (\<Sum>c\<leftarrow>map snd (children (nd s n)). card (below A pk c))"
    using children_ids_distinct [OF t n] by (simp add: sum_list_distinct_conv_sum_set del: map_map flip: set_map)
  finally show ?thesis .
qed

definition evictable_leaf :: "radix \<Rightarrow> nid \<Rightarrow> bool" where
  "evictable_leaf s n \<longleftrightarrow> children (nd s n) = [] \<and> ref_count (nd s n) = 0"

lemma is_leaf_iff: "is_leaf x \<longleftrightarrow> children x = []"
  by (simp add: is_leaf_def)

text \<open>The stack's subtrees shrink by one node a round.\<close>

lemma collect_loop_ok:
  assumes t: "tree_ok s A pk pv"
  shows "set nodes \<subseteq> A \<Longrightarrow> (\<Sum>n\<leftarrow>nodes. card (below A pk n)) \<le> fuel \<Longrightarrow>
     \<exists>ls. collect_loop fuel s nodes acc = Inr (acc @ ls) \<and>
       mset ls = filter_mset (evictable_leaf s) (\<Sum>n\<in>#mset nodes. mset_set (below A pk n))"
proof (induction fuel arbitrary: nodes acc)
  case (0 nodes)
  have "nodes = []"
  proof (rule ccontr)
    assume "nodes \<noteq> []"
    then obtain n ns where ns: "nodes = n # ns" by (cases nodes) auto
    with 0 have "below A pk n = {}" "n \<in> A" using below_finite [OF t, of n] by auto
    then show False by (auto simp: below_def)
  qed
  then show ?case by (simp add: collect_loop.simps)
next
  case (Suc fuel nodes)
  show ?case
  proof (cases "nodes = []")
    case True
    then show ?thesis by (simp add: collect_loop.simps)
  next
    case False
    then obtain ns n where nn: "nodes = ns @ [n]" by (cases nodes rule: rev_cases) auto
    have n: "n \<in> A" and ns: "set ns \<subseteq> A" using Suc.prems(1) nn by auto
    note gn = get_node_ok [OF t n] and cb = card_below [OF t n] and bc = below_children [OF t n]
    let ?ch = "children (nd s n)"
    show ?thesis
    proof (cases "?ch = []")
      case True
      let ?l = "if ref_count (nd s n) = 0 then [n] else []"
      have "(\<Sum>n\<leftarrow>ns. card (below A pk n)) \<le> fuel" using Suc.prems(2) nn cb True by simp
      then obtain ls where ls: "collect_loop fuel s ns (acc @ ?l) = Inr ((acc @ ?l) @ ls)"
        "mset ls = filter_mset (evictable_leaf s) (\<Sum>n\<in>#mset ns. mset_set (below A pk n))"
        using Suc.IH [OF ns] by blast
      have "collect_loop (Suc fuel) s nodes acc = collect_loop fuel s ns (acc @ ?l)"
        using gn nn True by (subst collect_loop.simps) (simp add: is_leaf_iff)
      moreover have "mset_set (below A pk n) = {#n#}" using bc True by simp
      then have "mset (?l @ ls) = filter_mset (evictable_leaf s) (\<Sum>n\<in>#mset nodes. mset_set (below A pk n))"
        using ls(2) nn True by (auto simp: evictable_leaf_def)
      ultimately show ?thesis using ls(1) by (metis append.assoc)
    next
      case False
      have sub: "set (ns @ map snd ?ch) \<subseteq> A" using ns child_up_ok(1) [OF t n] by auto
      have "(\<Sum>n\<leftarrow>ns @ map snd ?ch. card (below A pk n)) \<le> fuel" using Suc.prems(2) nn cb by simp
      then obtain ls where ls: "collect_loop fuel s (ns @ map snd ?ch) acc = Inr (acc @ ls)"
        "mset ls = filter_mset (evictable_leaf s) (\<Sum>n\<in>#mset (ns @ map snd ?ch). mset_set (below A pk n))"
        using Suc.IH [OF sub] by blast
      have eq: "collect_loop (Suc fuel) s nodes acc = collect_loop fuel s (ns @ map snd ?ch) acc"
        using gn nn False by (subst collect_loop.simps) (simp add: is_leaf_iff)
      have "mset_set (below A pk n) = add_mset n (\<Sum>c\<in>#mset (map snd ?ch). mset_set (below A pk c))"
      proof (rule multiset_eqI)
        fix m
        let ?D = "\<Sum>c\<in>#mset (map snd ?ch). mset_set (below A pk c)"
        have fin: "finite (below A pk c)" for c by (rule below_finite [OF t])
        have set: "set_mset ?D = (\<Union>c\<in>snd ` set ?ch. below A pk c)"
          using fin by (auto simp: in_Union_mset_iff)
        have "size (add_mset n ?D) = card (below A pk n)"
          using cb by (simp add: size_sum_list_mset comp_def sum_mset_sum_list flip: mset_map)
        then have sz: "size (mset_set (below A pk n)) = size (add_mset n ?D)" using fin by simp
        have "mset_set (below A pk n) \<subseteq># add_mset n ?D"
          using bc set by (intro mset_set_subset_mset) auto
        then show "count (mset_set (below A pk n)) m = count (add_mset n ?D) m"
          using sz by (metis mset_subset_size nat_less_le subset_mset.le_imp_less_or_eq)
      qed
      then have "filter_mset (evictable_leaf s) (mset_set (below A pk n)) =
          filter_mset (evictable_leaf s) (\<Sum>c\<in>#mset (map snd ?ch). mset_set (below A pk c))"
        using False by (simp add: evictable_leaf_def)
      then show ?thesis using ls eq nn by auto
    qed
  qed
qed

lemma collect_leave_nodes_ok:
  assumes t: "tree_ok s A pk pv"
  obtains ls where "collect_leave_nodes_for_evict s = Inr ls" and "distinct ls"
    and "set ls = {n \<in> A. evictable_leaf s n}"
proof -
  have "(\<Sum>n\<leftarrow>[root_node s]. card (below A pk n)) \<le> next_uuid s"
    using tree_ok_card [OF t] by (simp add: below_root [OF t])
  then obtain ls where ls: "collect_loop (next_uuid s) s [root_node s] [] = Inr ls"
    "mset ls = filter_mset (evictable_leaf s) (mset_set A)"
    using collect_loop_ok [OF t, of "[root_node s]" "next_uuid s" "[]"] tree_ok_root [OF t]
    by (auto simp: below_root [OF t])
  have fin: "finite A" by (rule tree_ok_finite [OF t])
  have m: "mset ls = mset_set {n \<in> A. evictable_leaf s n}"
    using ls(2) fin by (simp add: filter_mset_mset_set)
  have finE: "finite {n \<in> A. evictable_leaf s n}" using fin by simp
  have "set_mset (mset ls) = {n \<in> A. evictable_leaf s n}"
    unfolding m by (rule finite_set_mset_mset_set [OF finE])
  then have set: "set ls = {n \<in> A. evictable_leaf s n}" by simp
  have "size (mset ls) = card {n \<in> A. evictable_leaf s n}" unfolding m by simp
  then have "distinct ls" using set by (intro card_distinct) simp
  with set ls(1) show ?thesis by (intro that) (simp_all add: collect_leave_nodes_for_evict_def)
qed

section \<open>The heap\<close>

lemma heap_min_mem: "heap_min s m ns \<in> set (m # ns)"
  by (induction ns arbitrary: m) auto

lemma heap_min_least:
  assumes "\<And>x. x \<in> set (m # ns) \<Longrightarrow> store s x \<noteq> None" and "x \<in> set (m # ns)"
  shows "timestamp (nd s (heap_min s m ns)) \<le> timestamp (nd s x)"
  using assms
proof (induction ns arbitrary: m x)
  case (Cons n ns)
  obtain u v where uv: "store s n = Some u" "store s m = Some v"
    using Cons.prems(1) [of n] Cons.prems(1) [of m] by auto
  have lt: "timestamp (nd s n) < timestamp (nd s m) \<longleftrightarrow> node_lt s n m"
    by (simp add: node_lt_def uv)
  have 1: "timestamp (nd s (heap_min s n ns)) \<le> timestamp (nd s y)" if "y \<in> set (n # ns)" for y
    by (rule Cons.IH [OF _ that]) (use Cons.prems(1) in auto)
  have 2: "timestamp (nd s (heap_min s m ns)) \<le> timestamp (nd s y)" if "y \<in> set (m # ns)" for y
    by (rule Cons.IH [OF _ that]) (use Cons.prems(1) in auto)
  show ?case
  proof (cases "node_lt s n m")
    case True
    then show ?thesis using 1 [of x] 1 [of n] lt Cons.prems(2) by auto
  next
    case False
    then show ?thesis using 2 [of x] 2 [of m] lt Cons.prems(2) by auto
  qed
qed simp

lemma heappop_ok:
  assumes "ls \<noteq> []"
  obtains m where "heappop s ls = Inr (m, remove1 m ls)" and "m \<in> set ls"
    and "(\<forall>x\<in>set ls. store s x \<noteq> None) \<longrightarrow> (\<forall>x\<in>set ls. timestamp (nd s m) \<le> timestamp (nd s x))"
proof -
  obtain n rest where ls: "ls = n # rest" using assms by (cases ls) auto
  show ?thesis
    using that [of "heap_min s n rest"] heap_min_mem [of s n rest] heap_min_least [of n rest s]
    unfolding ls heappop_def by (auto simp: Let_def)
qed

section \<open>There is always a leaf to evict\<close>

lemma evictable_leaf_exists:
  assumes f: "full_ok s A pk pv L" and pos: "0 < evictable_size s"
  shows "\<exists>n\<in>A. evictable_leaf s n"
proof -
  have t: "tree_ok s A pk pv" and r: "ref_ok s A pk L" and z: "size_ok s A" using f by (auto simp: full_ok_def)
  have "unlocked_nodes s A \<noteq> {}" using z pos by (auto simp: size_ok_def)
  then obtain n where n: "n \<in> A" "n \<noteq> root_node s" "ref_count (nd s n) = 0" by (auto simp: unlocked_nodes_def)
  have fin: "finite (below A pk n)" and ne: "below A pk n \<noteq> {}"
    using below_finite [OF t] n by (auto simp: below_def)
  have "Max ((\<lambda>a. length (pk a)) ` below A pk n) \<in> (\<lambda>a. length (pk a)) ` below A pk n"
    using fin ne by (intro Max_in) auto
  then obtain m where mx: "m \<in> below A pk n" "length (pk m) = Max ((\<lambda>a. length (pk a)) ` below A pk n)"
    by (metis (no_types, lifting) imageE)
  have m: "m \<in> below A pk n" "\<And>a. a \<in> below A pk n \<Longrightarrow> length (pk a) \<le> length (pk m)"
    unfolding mx(2) using mx(1) fin by (auto intro!: Max_ge)
  have mA: "m \<in> A" "prefix (pk n) (pk m)" using m by (auto simp: below_def)
  have "children (nd s m) = []"
  proof (rule ccontr)
    assume "children (nd s m) \<noteq> []"
    then obtain k c where "(k, c) \<in> set (children (nd s m))" by (cases "children (nd s m)") auto
    note c = child_up_ok [OF t mA(1) this]
    have "prefix (pk n) (pk c)" using c(2) mA(2) by (auto simp: up_ok_def dest: prefix_order.trans)
    then have "length (pk c) \<le> length (pk m)" using c(1) by (intro m(2)) (simp add: below_def)
    with up_ok_length(2) [OF t c(2)] show False by simp
  qed
  moreover have "ref_count (nd s m) = 0"
  proof -
    have "size (filter_mset (\<lambda>h. prefix (pk m) (pk h)) L) \<le> size (filter_mset (\<lambda>h. prefix (pk n) (pk h)) L)"
      using mA(2) by (intro size_mset_mono filter_mset_mono_strong) (auto dest: prefix_order.trans)
    moreover have "m \<noteq> root_node s" using n mA pk_Nil_iff [OF t] by (metis prefix_Nil)
    moreover have rc: "ref_count (nd s a) = int (size (filter_mset (\<lambda>h. prefix (pk a) (pk h)) L))"
      if "a \<in> A" "a \<noteq> root_node s" for a using r that by (auto simp: ref_ok_def)
    note rc [OF n(1,2)]
    ultimately show ?thesis using n(3) rc [OF mA(1)] by linarith
  qed
  ultimately show ?thesis using mA(1) by (auto simp: evictable_leaf_def)
qed

section \<open>The eviction loop\<close>

lemma cut_leaves:
  assumes t: "tree_ok s A pk pv" and n: "n \<in> A" and nr: "n \<noteq> root_node s"
    and p: "up_ok s A pk pv n p" and leaf: "evictable_leaf s n"
    and ls: "distinct ls" "set ls = {a \<in> A. evictable_leaf s a}"
  defines "u \<equiv> cut_state s n p"
  defines "new \<equiv> (if children (nd u p) = [] \<and> ref_count (nd u p) = 0
     then heappush (remove1 n ls) p else remove1 n ls)"
  shows "distinct new" and "set new = {a \<in> A - {n}. evictable_leaf u a}"
proof -
  note view = nd_cut [where s = s and n = n and p = p, folded u_def]
  have pA: "p \<in> A" using p by (simp add: up_ok_def)
  have pn: "p \<noteq> n" using up_ok_length(2) [OF t p] by auto
  have pl: "p \<notin> set ls" using p ls(2) by (auto simp: up_ok_def evictable_leaf_def)
  have rem: "set (remove1 n ls) = set ls - {n}" using ls(1) by simp
  show "distinct new" using ls(1) pl rem by (auto simp: new_def heappush_def)
  have other: "evictable_leaf u a \<longleftrightarrow> evictable_leaf s a" if "a \<noteq> p" for a
    using that view(2) [of a] by (simp add: evictable_leaf_def view(6))
  have "a \<in> set new \<longleftrightarrow> a \<in> A - {n} \<and> evictable_leaf u a" for a
  proof (cases "a = p")
    case True
    then show ?thesis using pA pn pl rem by (auto simp: new_def heappush_def evictable_leaf_def)
  next
    case False
    then show ?thesis using rem ls(2) other [OF False] by (auto simp: new_def heappush_def)
  qed
  then show "set new = {a \<in> A - {n}. evictable_leaf u a}" by auto
qed

definition evict_post where
  "evict_post s A pk pv L ev t A' \<longleftrightarrow>
     full_ok t A' pk pv L \<and> A' \<subseteq> A \<and> rpage_size t = rpage_size s \<and>
     protected_size t = protected_size s \<and> evictable_size t = evictable_size s - int (length ev) \<and>
     rpage_size s dvd length ev \<and> tree_pages s A = tree_pages t A' + mset (stride (rpage_size s) ev)"

lemma evict_loop_ok:
  assumes "full_ok s A pk pv L" and "distinct ls" and "set ls = {n \<in> A. evictable_leaf s n}"
    and "need - done \<le> fuel" and "int need - int done \<le> evictable_size s"
  shows "\<exists>ev t A'. evict_loop fuel need ls acc done s = Inr (acc @ ev, t) \<and>
     evict_post s A pk pv L (concat ev) t A' \<and> need \<le> done + length (concat ev) \<and>
     (done < need \<longrightarrow> ev \<noteq> [])"
  using assms
proof (induction fuel arbitrary: s A ls acc "done")
  case 0
  then have "evict_loop 0 need ls acc done s = Inr (acc @ [], s)" by (simp add: evict_loop.simps)
  moreover have "evict_post s A pk pv L (concat []) s A" using 0 by (simp add: evict_post_def)
  ultimately show ?case using 0 by (intro exI [of _ "[]"] exI [of _ s] exI [of _ A]) simp
next
  case (Suc fuel)
  note f = Suc.prems(1)
  have t: "tree_ok s A pk pv" and r: "ref_ok s A pk L" and z: "size_ok s A" using f by (auto simp: full_ok_def)
  show ?case
  proof (cases "done < need")
    case False
    then have "evict_loop (Suc fuel) need ls acc done s = Inr (acc @ [], s)" by (simp add: evict_loop.simps)
    moreover have "evict_post s A pk pv L (concat []) s A" using f by (simp add: evict_post_def)
    ultimately show ?thesis using False by (intro exI [of _ "[]"] exI [of _ s] exI [of _ A]) simp
  next
    case less: True
    then have "0 < evictable_size s" using Suc.prems(5) by simp
    then have "ls \<noteq> []" using evictable_leaf_exists [OF f] Suc.prems(3) by auto
    then obtain n where pop: "heappop s ls = Inr (n, remove1 n ls)" and nl: "n \<in> set ls"
      by (rule heappop_ok)
    have n: "n \<in> A" and leaf: "children (nd s n) = []" and ref: "ref_count (nd s n) = 0"
      and el: "evictable_leaf s n"
      using nl Suc.prems(3) by (auto simp: evictable_leaf_def)
    have nr: "n \<noteq> root_node s" using r ref by (auto simp: ref_ok_def)
    obtain p where p: "up_ok s A pk pv n p" using tree_ok_up [OF t n nr] .
    have pA: "p \<in> A" using p by (simp add: up_ok_def)
    let ?u = "cut_state s n p" and ?A = "A - {n}"
    let ?len = "node_length (nd s n)"
    let ?new = "if children (nd ?u p) = [] \<and> ref_count (nd ?u p) = 0
      then heappush (remove1 n ls) p else remove1 n ls"
    note view = nd_cut [where s = s and n = n and p = p]
    have fu: "full_ok ?u ?A pk pv L"
      using cut_tree_ok [OF t n nr p leaf] cut_ref_ok(1) [OF r n nr ref] cut_sizes(1) [OF t n nr ref z]
      by (simp add: full_ok_def)
    have key: "get_key_fn (rpage_size s) (node_key (nd s n)) = Inr (dkey (rpage_size s) (node_key (nd s n)))"
      using p by (intro get_key_fn_ok) (simp add: up_ok_def)
    have mem: "dkey (rpage_size s) (node_key (nd s n)) \<in> fst ` set (children (nd s p))"
      using p by (force simp: up_ok_def)
    have gp: "get_node (s\<lparr>evictable_size := e\<rparr>) p = Inr (nd s p)" for e
      using get_node_ok [OF t pA] by (simp add: get_node_def)
    have eq: "evict_loop (Suc fuel) need ls acc done s =
        evict_loop fuel need ?new (acc @ [node_value (nd s n)]) (done + ?len) ?u"
      using less pop \<open>ls \<noteq> []\<close> get_node_ok [OF t n] ref leaf is_root_iff [OF t n] nr
        node_parent_ok [OF p] gp key mem
      by (subst evict_loop.simps)
        (simp add: is_leaf_iff Let_def cut_state_def put_node_def py_assert_def node_length_def)
    have lenpos: "0 < ?len" using p by (simp add: up_ok_def node_length_def)
    have "\<exists>ev t A'. evict_loop fuel need ?new (acc @ [node_value (nd s n)]) (done + ?len) ?u =
          Inr ((acc @ [node_value (nd s n)]) @ ev, t) \<and>
        evict_post ?u ?A pk pv L (concat ev) t A' \<and> need \<le> done + ?len + length (concat ev) \<and>
        (done + ?len < need \<longrightarrow> ev \<noteq> [])"
      using fu cut_leaves [OF t n nr p el Suc.prems(2,3)] Suc.prems(4,5) lenpos less view(11)
      by (intro Suc.IH) auto
    then obtain ev u A' where ev: "evict_loop fuel need ?new (acc @ [node_value (nd s n)]) (done + ?len) ?u =
          Inr (acc @ (node_value (nd s n) # ev), u)" "evict_post ?u ?A pk pv L (concat ev) u A'"
        "need \<le> done + ?len + length (concat ev)" by auto
    have vlen: "length (node_value (nd s n)) = ?len" "rpage_size s dvd ?len"
      using p by (simp_all add: up_ok_def node_length_def)
    have "evict_post s A pk pv L (concat (node_value (nd s n) # ev)) u A'"
      using ev(2) cut_sizes(2) [OF t n nr ref, of p] vlen
        stride_append [OF tree_ok_ps [OF t], of "node_value (nd s n)" "concat ev"]
      by (auto simp: evict_post_def view(8,11,12))
    then show ?thesis using ev eq vlen by (intro exI [of _ "node_value (nd s n) # ev"]) auto
  qed
qed

lemma evict_ok:
  assumes f: "full_ok s A pk pv L" and need: "int need \<le> evictable_size s"
  obtains ev t A' where "evict s need = Inr (ev, t)" and "evict_post s A pk pv L ev t A'"
    and "need \<le> length ev"
proof (cases "need = 0")
  case True
  then have "evict s need = Inr ([], s)" by (simp add: evict_def)
  moreover have "evict_post s A pk pv L [] s A" using f by (simp add: evict_post_def)
  ultimately show ?thesis using that True by simp
next
  case False
  have t: "tree_ok s A pk pv" using f by (simp add: full_ok_def)
  obtain ls where ls: "collect_leave_nodes_for_evict s = Inr ls" "distinct ls"
    "set ls = {n \<in> A. evictable_leaf s n}" using collect_leave_nodes_ok [OF t] .
  obtain ev u A' where "evict_loop need need ls [] 0 s = Inr (ev, u)"
    "evict_post s A pk pv L (concat ev) u A'" "need \<le> length (concat ev)" "ev \<noteq> []"
    using evict_loop_ok [OF f ls(2,3), of need 0 need "[]"] need False by auto
  then show ?thesis
    using that ls(1) need False by (simp add: evict_def torch_cat_def)
qed

lemma evict_too_much:
  "0 < need \<Longrightarrow> evictable_size s < int need \<Longrightarrow> evict s need = Inl AssertionError"
  by (simp add: evict_def)

end
