(* ===== verification/RadixLocked.thy ===== *)
theory RadixLocked
  imports RadixEvict
begin

text \<open>
  What \<^verbatim>\<open>protected_size\<close> counts: the page-aligned prefixes of the locked token sequences. Every such
  prefix ends inside the key of exactly one node of the tree, and that node is locked.
\<close>

definition segs :: "radix \<Rightarrow> (nid \<Rightarrow> tok list) \<Rightarrow> nid \<Rightarrow> tok list set" where
  "segs s pk n = {ys. prefix ys (pk n) \<and> length (pk n) < length ys + node_length (nd s n) \<and> rpage_size s dvd length ys}"

lemma segs_up: "up_ok s A pk pv n p \<Longrightarrow>
    segs s pk n = {ys. prefix ys (pk n) \<and> length (pk p) < length ys \<and> rpage_size s dvd length ys}"
  by (auto simp: segs_def up_ok_def node_length_def)

lemma prefix_take_iff: "prefix ys xs \<longleftrightarrow> length ys \<le> length xs \<and> ys = take (length ys) xs"
  by (metis append_eq_conv_conj prefix_def prefix_length_le take_is_prefix)

lemma card_segs:
  assumes t: "tree_ok s A pk pv" and n: "n \<in> A" "n \<noteq> root_node s"
  shows "finite (segs s pk n)" and "rpage_size s * card (segs s pk n) = node_length (nd s n)"
proof -
  let ?ps = "rpage_size s"
  obtain p where p: "up_ok s A pk pv n p" using tree_ok_up [OF t n] .
  have ps: "0 < ?ps" by (rule tree_ok_ps [OF t])
  have pA: "p \<in> A" using p by (simp add: up_ok_def)
  obtain a where a: "length (pk p) = ?ps * a" using page_dvd_pk [OF t pA] by (elim dvdE)
  obtain b where b: "length (pk n) = ?ps * b" using page_dvd_pk [OF t n(1)] by (elim dvdE)
  have "?ps * a + node_length (nd s n) = ?ps * b"
    using p unfolding a [symmetric] b [symmetric] by (simp add: up_ok_def node_length_def)
  then have len: "node_length (nd s n) = ?ps * b - ?ps * a" "?ps * a \<le> ?ps * b" by linarith+
  have "segs s pk n = (\<lambda>k. take (?ps * k) (pk n)) ` {a<..b}"
  proof (intro equalityI subsetI)
    fix ys assume "ys \<in> segs s pk n"
    then have ys: "prefix ys (pk n)" "?ps * a < length ys" "?ps dvd length ys" using a segs_up [OF p] by auto
    from ys(3) obtain k where k: "length ys = ?ps * k" by (elim dvdE)
    have "ys = take (?ps * k) (pk n)" "?ps * k \<le> ?ps * b" using ys(1) k b prefix_take_iff by metis+
    moreover have "a < k" "k \<le> b" using ys(2) k calculation(2) ps by simp_all
    ultimately show "ys \<in> (\<lambda>k. take (?ps * k) (pk n)) ` {a<..b}" by auto
  next
    fix ys assume "ys \<in> (\<lambda>k. take (?ps * k) (pk n)) ` {a<..b}"
    then obtain k where "a < k" "k \<le> b" "ys = take (?ps * k) (pk n)" by auto
    then show "ys \<in> segs s pk n" using a b ps unfolding segs_up [OF p] by (simp add: take_is_prefix min_def)
  qed
  moreover have "inj_on (\<lambda>k. take (?ps * k) (pk n)) {a<..b}"
  proof (rule inj_onI)
    fix k l assume "k \<in> {a<..b}" "l \<in> {a<..b}" "take (?ps * k) (pk n) = take (?ps * l) (pk n)"
    then have "length (take (?ps * k) (pk n)) = length (take (?ps * l) (pk n))" "?ps * k \<le> ?ps * b" "?ps * l \<le> ?ps * b"
      by auto
    then have "?ps * k = ?ps * l" unfolding length_take b by linarith
    then show "k = l" using ps by simp
  qed
  ultimately show "finite (segs s pk n)" "?ps * card (segs s pk n) = node_length (nd s n)"
    using len by (simp_all add: card_image diff_mult_distrib2)
qed

lemma seg_exists:
  assumes t: "tree_ok s A pk pv"
  shows "n \<in> A \<Longrightarrow> prefix ys (pk n) \<Longrightarrow> ys \<noteq> [] \<Longrightarrow> rpage_size s dvd length ys \<Longrightarrow>
    \<exists>m\<in>A. m \<noteq> root_node s \<and> prefix (pk m) (pk n) \<and> ys \<in> segs s pk m"
proof (induction "length (pk n)" arbitrary: n rule: less_induct)
  case less
  have nr: "n \<noteq> root_node s" using less.prems(2,3) tree_ok_root_ok [OF t] by (auto simp: root_ok_def)
  then obtain p where p: "up_ok s A pk pv n p" using tree_ok_up [OF t less.prems(1)] by blast
  show ?case
  proof (cases "length (pk p) < length ys")
    case True
    then show ?thesis using less.prems nr segs_up [OF p] by auto
  next
    case False
    have pp: "prefix (pk p) (pk n)" "p \<in> A" using p by (auto simp: up_ok_def)
    then have "prefix ys (pk p)" using False less.prems(2) by (meson not_less prefix_length_prefix)
    then obtain m where "m \<in> A" "m \<noteq> root_node s" "prefix (pk m) (pk p)" "ys \<in> segs s pk m"
      using less.hyps [OF up_ok_length(2) [OF t p] pp(2)] less.prems by blast
    then show ?thesis using pp prefix_order.trans by blast
  qed
qed

lemma seg_unique:
  assumes t: "tree_ok s A pk pv" and n: "n \<in> A" "n \<noteq> root_node s" "ys \<in> segs s pk n"
    and m: "m \<in> A" "m \<noteq> root_node s" "ys \<in> segs s pk m" and le: "length (pk n) \<le> length (pk m)"
  shows "n = m"
proof (rule ccontr)
  assume ne: "n \<noteq> m"
  obtain p where p: "up_ok s A pk pv n p" using tree_ok_up [OF t n(1,2)] .
  obtain q where q: "up_ok s A pk pv m q" using tree_ok_up [OF t m(1,2)] .
  have yn: "prefix ys (pk n)" "length (pk p) < length ys" "rpage_size s dvd length ys"
    and ym: "prefix ys (pk m)" "length (pk q) < length ys" using n(3) m(3) segs_up [OF p] segs_up [OF q] by auto
  have pA: "p \<in> A" "q \<in> A" and pre: "prefix (pk p) (pk n)" "prefix (pk q) (pk m)" using p q by (auto simp: up_ok_def)
  have "prefix (pk p) ys" "prefix (pk q) ys"
    using yn ym pre by (meson less_imp_le prefix_length_prefix)+
  then consider "prefix (pk p) (pk q)" | "prefix (pk q) (pk p)" by (meson prefix_same_cases)
  then have "pk p = pk q"
  proof cases
    case 1
    have "prefix (pk q) (pk n)" using \<open>prefix (pk q) ys\<close> yn(1) prefix_order.trans by blast
    moreover have "q \<noteq> n" using ym(2) yn(1) by (auto dest: prefix_length_le)
    ultimately have "prefix (pk q) (pk p)" using prefix_parent [OF t pA(2) n(1) p n(2)] by blast
    with 1 show ?thesis by (meson prefix_order.antisym)
  next
    case 2
    have "prefix (pk p) (pk m)" using \<open>prefix (pk p) ys\<close> ym(1) prefix_order.trans by blast
    moreover have "p \<noteq> m" using yn(2) ym(1) by (auto dest: prefix_length_le)
    ultimately have "prefix (pk p) (pk q)" using prefix_parent [OF t pA(1) m(1) q m(2)] by blast
    with 2 show ?thesis by (meson prefix_order.antisym)
  qed
  then have pq: "p = q" using pk_inj [OF t pA] by simp
  let ?ps = "rpage_size s"
  have ps: "0 < ?ps" by (rule tree_ok_ps [OF t])
  have "?ps dvd length ys - length (pk p)" using yn(3) page_dvd_pk [OF t pA(1)] by (simp add: dvd_diff_nat)
  then have long: "length (pk p) + ?ps \<le> length ys" using yn(2) by (auto dest: dvd_imp_le)
  obtain rest where rest: "ys = pk p @ rest" using \<open>prefix (pk p) ys\<close> by (elim prefixE)
  have eq: "take ?ps (node_key (nd s a)) = take ?ps rest" if "up_ok s A pk pv a p" "prefix ys (pk a)" for a
    using that long rest by (auto simp: up_ok_def prefix_def)
  have "take ?ps (node_key (nd s n)) = take ?ps (node_key (nd s m))"
    using eq [OF p yn(1)] eq [OF q [folded pq] ym(1)] by simp
  then have "dkey ?ps (node_key (nd s n)) = dkey ?ps (node_key (nd s m))"
    using dkey_eq [OF ps up_ok_length(1) [OF t p]] up_ok_length(1) [OF t q] q unfolding up_ok_def by blast
  then show False using up_ok_map_of [OF t p] up_ok_map_of [OF t q] pq ne by (metis option.inject)
qed

theorem locked_prefixes_card:
  assumes f: "full_ok s A pk pv L"
  shows "protected_size s = int (rpage_size s * card (page_prefixes (rpage_size s) (pk ` set_mset L)))"
proof -
  let ?ps = "rpage_size s" and ?K = "locked_nodes s A"
  have t: "tree_ok s A pk pv" and r: "ref_ok s A pk L" and z: "size_ok s A" using f by (auto simp: full_ok_def)
  have fin: "finite ?K" using tree_ok_finite [OF t] by (simp add: locked_nodes_def)
  have K: "n \<in> ?K \<longleftrightarrow> n \<in> A \<and> n \<noteq> root_node s \<and> (\<exists>h\<in>#L. prefix (pk n) (pk h))" for n
  proof -
    have "ref_count (nd s n) \<noteq> 0 \<longleftrightarrow> (\<exists>h\<in>#L. prefix (pk n) (pk h))" if "n \<in> A" "n \<noteq> root_node s"
      using r that by (auto simp: ref_ok_def simp flip: set_mset_eq_empty_iff)
    then show ?thesis by (auto simp: locked_nodes_def)
  qed
  have U: "page_prefixes ?ps (pk ` set_mset L) = (\<Union>n\<in>?K. segs s pk n)"
  proof (intro equalityI subsetI)
    fix ys assume "ys \<in> page_prefixes ?ps (pk ` set_mset L)"
    then obtain h where h: "h \<in># L" "ys \<noteq> []" "?ps dvd length ys" "prefix ys (pk h)" by (auto simp: page_prefixes_def)
    have "h \<in> A" using r h(1) by (auto simp: ref_ok_def)
    then obtain m where "m \<in> A" "m \<noteq> root_node s" "prefix (pk m) (pk h)" "ys \<in> segs s pk m"
      using seg_exists [OF t] h by blast
    then show "ys \<in> (\<Union>n\<in>?K. segs s pk n)" using K h(1) by blast
  next
    fix ys assume "ys \<in> (\<Union>n\<in>?K. segs s pk n)"
    then obtain n where n: "n \<in> ?K" "ys \<in> segs s pk n" by blast
    then obtain h where h: "h \<in># L" "prefix (pk n) (pk h)" using K by blast
    have "n \<in> A" "n \<noteq> root_node s" using n K by blast+
    then obtain p where "up_ok s A pk pv n p" using tree_ok_up [OF t] by metis
    then show "ys \<in> page_prefixes ?ps (pk ` set_mset L)"
      using n h prefix_order.trans by (fastforce simp: segs_up page_prefixes_def)
  qed
  have segs: "finite (segs s pk n)" "int (node_length (nd s n)) = int (?ps * card (segs s pk n))" if "n \<in> ?K" for n
    using card_segs [OF t, of n] that K by auto
  have "card (\<Union>n\<in>?K. segs s pk n) = (\<Sum>n\<in>?K. card (segs s pk n))"
  proof (rule card_UN_disjoint [OF fin])
    show "\<forall>n\<in>?K. finite (segs s pk n)" using segs by blast
    show "\<forall>n\<in>?K. \<forall>m\<in>?K. n \<noteq> m \<longrightarrow> segs s pk n \<inter> segs s pk m = {}"
    proof (intro ballI impI)
      fix n m assume nm: "n \<in> ?K" "m \<in> ?K" "n \<noteq> m"
      have False if "ys \<in> segs s pk n" "ys \<in> segs s pk m" for ys
        using seg_unique [OF t, of n ys m] seg_unique [OF t, of m ys n] nm K that
        by (cases "length (pk n) \<le> length (pk m)") auto
      then show "segs s pk n \<inter> segs s pk m = {}" by blast
    qed
  qed
  then have "int (?ps * card (page_prefixes ?ps (pk ` set_mset L))) = (\<Sum>n\<in>?K. int (?ps * card (segs s pk n)))"
    unfolding U by (simp add: sum_distrib_left)
  also have "\<dots> = (\<Sum>n\<in>?K. int (node_length (nd s n)))" using segs(2) by (intro sum.cong) auto
  finally show ?thesis using z by (simp add: size_ok_def)
qed

end
