(* ===== verification/Core.thy ===== *)
theory Core
  imports CacheBase Complex_Main
begin

text \<open>
  \<^verbatim>\<open>core.py\<close>: sampling parameters, requests, batches and the global context. A request object is
  a record value; where its identity matters (the scheduler's sets and batches) it is named by
  an index into a store. Floating point parameters are rationals. The subclass \<^verbatim>\<open>ChunkedReq\<close> of
  \<^verbatim>\<open>scheduler/prefill.py\<close> overrides two methods, so the class is a field.
\<close>

section \<open>Sampling parameters\<close>

record sampling_params =
  sp_temperature :: rat
  sp_top_k :: int
  sp_top_p :: rat
  sp_ignore_eos :: bool
  sp_max_tokens :: int
  sp_stop_token_ids :: "int list"

definition default_sampling_params :: sampling_params where
  "default_sampling_params = \<lparr>sp_temperature = 0, sp_top_k = -1, sp_top_p = 1, sp_ignore_eos = False,
     sp_max_tokens = 1024, sp_stop_token_ids = []\<rparr>"

definition is_greedy :: "sampling_params \<Rightarrow> bool" where
  "is_greedy p \<longleftrightarrow> (sp_temperature p \<le> 0 \<or> sp_top_k p = 1) \<and> sp_top_p p = 1"

section \<open>Requests\<close>

datatype req_class = PlainReq | ChunkedReq

record req =
  r_class :: req_class
  r_input_ids :: "tok list"
  r_table_idx :: nat
  r_cached_len :: nat
  r_device_len :: nat
  r_max_device_len :: int
  r_output_len :: int
  r_uid :: int
  r_sampling :: sampling_params
  r_handle :: handle

text \<open>The constructor with \<^verbatim>\<open>__post_init__\<close>.\<close>

definition new_req ::
  "req_class \<Rightarrow> tok list \<Rightarrow> nat \<Rightarrow> nat \<Rightarrow> int \<Rightarrow> int \<Rightarrow> sampling_params \<Rightarrow> handle \<Rightarrow> req res" where
  "new_req cls ids table_idx cached_len output_len u sp h =
     (let device_len = length ids; max_device_len = int (length ids) + output_len in
      rbind (py_assert (cached_len < device_len \<and> int device_len \<le> max_device_len)) (\<lambda>_.
      Inr \<lparr>r_class = cls, r_input_ids = ids, r_table_idx = table_idx, r_cached_len = cached_len,
        r_device_len = device_len, r_max_device_len = max_device_len, r_output_len = output_len,
        r_uid = u, r_sampling = sp, r_handle = h\<rparr>))"

definition remain_len :: "req \<Rightarrow> int" where
  "remain_len r = r_max_device_len r - int (r_device_len r)"

definition extend_len :: "req \<Rightarrow> int" where
  "extend_len r = int (r_device_len r) - int (r_cached_len r)"

definition complete_one :: "req \<Rightarrow> req" where
  "complete_one r = r\<lparr>r_cached_len := r_device_len r, r_device_len := r_device_len r + 1\<rparr>"

definition append_host :: "req \<Rightarrow> tok \<Rightarrow> req res" where
  "append_host r next_token = (case r_class r of
      PlainReq \<Rightarrow> Inr (r\<lparr>r_input_ids := r_input_ids r @ [next_token]\<rparr>)
    | ChunkedReq \<Rightarrow> Inl NotImplementedError)"

definition can_decode :: "req \<Rightarrow> bool" where
  "can_decode r = (case r_class r of PlainReq \<Rightarrow> 0 < remain_len r | ChunkedReq \<Rightarrow> False)"

section \<open>Batches\<close>

datatype phase = Prefill | Decode

text \<open>
  The fields the scheduler fills in later are absent until then. A row of the page or token table
  is addressed by a pair of indices; \<^verbatim>\<open>out_loc\<close> and \<^verbatim>\<open>input_ids\<close> are the values read there.
\<close>

record batch =
  b_reqs :: "nat list"
  b_phase :: phase
  b_padded_reqs :: "nat list option"
  b_input_ids :: "tok list option"
  b_positions :: "nat list option"
  b_out_loc :: "slot list option"

definition new_batch :: "nat list \<Rightarrow> phase \<Rightarrow> batch" where
  "new_batch rs ph = \<lparr>b_reqs = rs, b_phase = ph, b_padded_reqs = None, b_input_ids = None,
     b_positions = None, b_out_loc = None\<rparr>"

definition is_prefill :: "batch \<Rightarrow> bool" where
  "is_prefill b \<longleftrightarrow> b_phase b = Prefill"

definition is_decode :: "batch \<Rightarrow> bool" where
  "is_decode b \<longleftrightarrow> b_phase b = Decode"

definition batch_size :: "batch \<Rightarrow> nat" where
  "batch_size b = length (b_reqs b)"

definition padded_size :: "batch \<Rightarrow> nat res" where
  "padded_size b = (case b_padded_reqs b of None \<Rightarrow> Inl AttributeError | Some rs \<Rightarrow> Inr (length rs))"

section \<open>The context\<close>

record ctx =
  ctx_page_size :: nat
  ctx_batch :: "batch option"

definition get_batch :: "ctx \<Rightarrow> batch res" where
  "get_batch c = (case ctx_batch c of None \<Rightarrow> Inl AssertionError | Some b \<Rightarrow> Inr b)"

text \<open>
  The context manager: \<open>body\<close> is the code of the \<^verbatim>\<open>with\<close> block; it returns or raises and leaves a
  context behind. The assertion is evaluated before the \<^verbatim>\<open>try\<close>.
\<close>

definition forward_batch_ctx ::
  "batch \<Rightarrow> (ctx \<Rightarrow> 'a res \<times> ctx) \<Rightarrow> ctx \<Rightarrow> 'a res \<times> ctx" where
  "forward_batch_ctx b body c =
     (if ctx_batch c \<noteq> None then (Inl AssertionError, c)
      else (let (r, c) = body (c\<lparr>ctx_batch := Some b\<rparr>) in (r, c\<lparr>ctx_batch := None\<rparr>)))"

definition set_global_ctx :: "ctx \<Rightarrow> ctx option \<Rightarrow> ctx option res" where
  "set_global_ctx c g = rbind (py_assert (g = None)) (\<lambda>_. Inr (Some c))"

definition get_global_ctx :: "ctx option \<Rightarrow> ctx res" where
  "get_global_ctx g = (case g of None \<Rightarrow> Inl AssertionError | Some c \<Rightarrow> Inr c)"

section \<open>Lemmas\<close>

text \<open>What every request satisfies from its construction on.\<close>

definition req_ok :: "req \<Rightarrow> bool" where
  "req_ok r \<longleftrightarrow> r_cached_len r < r_device_len r \<and> int (r_device_len r) \<le> r_max_device_len r \<and>
     r_device_len r \<le> length (r_input_ids r)"

lemma new_req_Inr:
  "new_req cls ids ti cl ol u sp h = Inr r \<longleftrightarrow>
     cl < length ids \<and> 0 \<le> ol \<and>
     r = \<lparr>r_class = cls, r_input_ids = ids, r_table_idx = ti, r_cached_len = cl,
        r_device_len = length ids, r_max_device_len = int (length ids) + ol, r_output_len = ol,
        r_uid = u, r_sampling = sp, r_handle = h\<rparr>"
  by (auto simp: new_req_def Let_def rbind_eq_Inr)

lemma new_req_ok: "new_req cls ids ti cl ol u sp h = Inr r \<Longrightarrow> req_ok r"
  by (auto simp: new_req_Inr req_ok_def)

end
