(* ===== verification/PrefixCache.thy ===== *)
theory PrefixCache
  imports CacheBase
begin

text \<open>
  The contract of \<^verbatim>\<open>BasePrefixCache\<close>. \<open>inv p c H\<close>: the cache object is consistent for page size
  \<open>p\<close>, and \<open>H\<close> is the multiset of the handles locked so far. \<open>live c h xs vs\<close>: the handle stands
  for the cached prefix \<open>xs\<close> held in the slots \<open>vs\<close>. \<open>pages p c\<close>: the pages the cache owns, each
  named by its first slot. The laws say what each method returns and what it preserves; the
  docstrings of the abstract class promise them in words.
\<close>

locale prefix_cache =
  fixes cls :: "'c prefix_cache_class"
    and inv :: "nat \<Rightarrow> 'c \<Rightarrow> handle multiset \<Rightarrow> bool"
    and live :: "'c \<Rightarrow> handle \<Rightarrow> tok list \<Rightarrow> slot list \<Rightarrow> bool"
    and pages :: "nat \<Rightarrow> 'c \<Rightarrow> slot multiset"
  assumes page_pos: "inv p c H \<Longrightarrow> 0 < p"
    and total_pages: "inv p c H \<Longrightarrow> total_size (pc_size_info cls c) = int (p * size (pages p c))"
    and evictable_nonneg: "inv p c H \<Longrightarrow> 0 \<le> si_evictable (pc_size_info cls c)"
    and protected: "inv p c H \<Longrightarrow> si_protected (pc_size_info cls c) =
          int (p * card (page_prefixes p {xs. \<exists>h vs. h \<in># H \<and> live c h xs vs}))"
    and integrity: "inv p c H \<Longrightarrow> pc_check_integrity cls c = Inr ()"
    and locked_live: "inv p c H \<Longrightarrow> h \<in># H \<Longrightarrow> \<exists>xs vs. live c h xs vs"
    and live_length: "inv p c H \<Longrightarrow> live c h xs vs \<Longrightarrow> length xs = handle_len h \<and> length vs = handle_len h"
    and live_unique: "inv p c H \<Longrightarrow> live c h xs vs \<Longrightarrow> live c h xs' vs' \<Longrightarrow> xs' = xs \<and> vs' = vs"
    and live_aligned: "inv p c H \<Longrightarrow> live c h xs vs \<Longrightarrow> p dvd length xs"
    and indices: "inv p c H \<Longrightarrow> live c h xs vs \<Longrightarrow> xs \<noteq> [] \<Longrightarrow> pc_matched_indices cls c h = Inr vs"
    and match: "inv p c H \<Longrightarrow> \<exists>h c' vs. pc_match_prefix cls c ids = Inr (h, c') \<and> inv p c' H \<and>
          pages p c' = pages p c \<and> pc_size_info cls c' = pc_size_info cls c \<and>
          handle_len h \<le> length ids \<and> live c' h (take (handle_len h) ids) vs \<and>
          (\<forall>h xs vs. live c h xs vs \<longrightarrow> live c' h xs vs)"
    and lock: "inv p c H \<Longrightarrow> live c h xs vs \<Longrightarrow> \<exists>c'. pc_lock_handle cls c h False = Inr c' \<and>
          inv p c' (add_mset h H) \<and> pages p c' = pages p c \<and>
          si_evictable (pc_size_info cls c') \<le> si_evictable (pc_size_info cls c) \<and>
          (\<forall>h xs vs. live c h xs vs \<longrightarrow> live c' h xs vs)"
    and unlock: "inv p c (add_mset h H) \<Longrightarrow> \<exists>c'. pc_lock_handle cls c h True = Inr c' \<and>
          inv p c' H \<and> pages p c' = pages p c \<and>
          si_evictable (pc_size_info cls c) \<le> si_evictable (pc_size_info cls c') \<and>
          (\<forall>h xs vs. live c h xs vs \<longrightarrow> live c' h xs vs)"
    and lock_unlock: "inv p c H \<Longrightarrow> live c h xs vs \<Longrightarrow> pc_lock_handle cls c h False = Inr c' \<Longrightarrow>
          pc_lock_handle cls c' h True = Inr c'' \<Longrightarrow> pc_size_info cls c'' = pc_size_info cls c"
    and insert: "inv p c H \<Longrightarrow> length us = length ids \<Longrightarrow>
          \<exists>q h c' vs. pc_insert_prefix cls c ids us = Inr ((q, h), c') \<and> inv p c' H \<and>
          q \<le> handle_len h \<and> handle_len h \<le> length ids \<and> p dvd q \<and>
          live c' h (take (handle_len h) ids) vs \<and> drop q vs = slice q (handle_len h) us \<and>
          pages p c' = pages p c + mset (stride p (slice q (handle_len h) us)) \<and>
          (\<forall>h xs vs. live c h xs vs \<longrightarrow> live c' h xs vs) \<and>
          (\<forall>h xs vs. live c h xs vs \<longrightarrow> length xs \<le> length ids \<longrightarrow> take (length xs) ids = xs \<longrightarrow>
             length xs \<le> q)"
    and evict: "inv p c H \<Longrightarrow> int k \<le> si_evictable (pc_size_info cls c) \<Longrightarrow>
          \<exists>ev c'. pc_evict cls c k = Inr (ev, c') \<and> k \<le> length ev \<and> p dvd length ev \<and> inv p c' H \<and>
          pages p c = pages p c' + mset (stride p ev) \<and>
          si_evictable (pc_size_info cls c') = si_evictable (pc_size_info cls c) - int (length ev) \<and>
          (\<forall>h\<in>#H. \<forall>xs vs. live c h xs vs \<longrightarrow> live c' h xs vs)"
begin

definition locked_seqs :: "'c \<Rightarrow> handle multiset \<Rightarrow> tok list set" where
  "locked_seqs c H = {xs. \<exists>h vs. h \<in># H \<and> live c h xs vs}"

lemma locked_seqs_mono:
  assumes "inv p c K" and "inv p c' H'" and "H \<subseteq># K"
    and "\<forall>h\<in>#H. \<forall>xs vs. live c h xs vs \<longrightarrow> live c' h xs vs"
  shows "locked_seqs c' H = locked_seqs c H"
proof -
  have "\<exists>vs. live c h xs vs" if hm: "h \<in># H" and hl: "live c' h xs ws" for h xs ws
  proof -
    have "h \<in># K" using hm assms(3) by (rule mset_subset_eqD [rotated])
    then obtain ys vs where l: "live c h ys vs" using locked_live [OF assms(1)] by blast
    then have "live c' h ys vs" using assms(4) hm by blast
    then have "ys = xs" using live_unique [OF assms(2) _ hl] by blast
    with l show ?thesis by blast
  qed
  moreover have "\<exists>vs. live c' h xs vs" if "h \<in># H" "live c h xs ws" for h xs ws
    using that assms(4) by blast
  ultimately show ?thesis unfolding locked_seqs_def by blast
qed

lemma finite_locked_seqs:
  assumes "inv p c H" shows "finite (locked_seqs c K)"
proof -
  have "finite {xs. \<exists>vs. live c h xs vs}" for h
  proof (cases "\<exists>xs vs. live c h xs vs")
    case True
    then obtain xs vs where "live c h xs vs" by blast
    then have "{xs. \<exists>vs. live c h xs vs} \<subseteq> {xs}" using live_unique [OF assms] by blast
    then show ?thesis by (rule finite_subset) simp
  qed simp
  moreover have "locked_seqs c K = (\<Union>h\<in>set_mset K. {xs. \<exists>vs. live c h xs vs})"
    by (auto simp: locked_seqs_def)
  ultimately show ?thesis by simp
qed

lemma locked_seqs_add:
  assumes "inv p c H'" and "live c h xs vs"
  shows "locked_seqs c (add_mset h H) = insert xs (locked_seqs c H)"
proof -
  have "(\<exists>ws. live c h ys ws) \<longleftrightarrow> ys = xs" for ys
    using live_unique [OF assms] assms(2) by blast
  moreover have "locked_seqs c (add_mset h H) = {ys. \<exists>ws. live c h ys ws} \<union> locked_seqs c H"
    unfolding locked_seqs_def by auto
  ultimately show ?thesis by simp
qed

lemma integrity_pages:
  "inv p c H \<Longrightarrow> total_size (pc_size_info cls c) div int p = int (size (pages p c))"
  using total_pages [of p c H] page_pos [of p c H] by simp

text \<open>An insertion right after a lock and an unlock returns at least the locked length.\<close>

lemma insert_covers:
  assumes "inv p c H" and "live c h xs vs" and "take (length xs) ids = xs" and "length us = length ids"
    and "length xs \<le> length ids" and "pc_insert_prefix cls c ids us = Inr ((q, h'), c')"
  shows "length xs \<le> q"
  using insert [OF assms(1,4)] assms by auto

end

end
