(* ===== verification/CacheManager.thy ===== *)
theory CacheManager
  imports Core PyInt PrefixCache
begin

text \<open>
  \<^verbatim>\<open>scheduler/cache.py\<close>: the page allocator on top of a prefix cache. The free list holds one slot
  per page, its first. The cache class is a parameter \<open>cls\<close>, as the code only uses the abstract
  class. The page table is a list of rows; it is shared with the table manager and kept
  here. \<^verbatim>\<open>lazy_free_region\<close> replaces the method \<^verbatim>\<open>_free\<close> of the object for the time of the region:
  the field \<open>cm_lazy\<close> holds the list it appends to.
\<close>

section \<open>State\<close>

record 'c cache_manager =
  cm_free :: "slot list"
  cm_cache :: 'c
  cm_num_pages :: nat
  cm_page_size :: nat
  cm_table :: "slot list list"
  cm_lazy :: "slot list list option"

definition new_cache_manager :: "nat \<Rightarrow> nat \<Rightarrow> slot list list \<Rightarrow> 'c \<Rightarrow> 'c cache_manager" where
  "new_cache_manager num_pages page_size table cache =
     \<lparr>cm_free = map (\<lambda>i. int i * int page_size) [0..<num_pages], cm_cache = cache,
      cm_num_pages = num_pages, cm_page_size = page_size, cm_table = table, cm_lazy = None\<rparr>"

record allocation_token =
  tk_allocated :: "slot list"
  tk_overwrites :: "(nat \<times> nat \<times> nat \<times> slot list) list"

section \<open>Tensor indexing\<close>

text \<open>\<^verbatim>\<open>t[i, a:b]\<close>: the row index is checked, the slice is clipped.\<close>

definition table_slice :: "'a list list \<Rightarrow> nat \<Rightarrow> nat \<Rightarrow> nat \<Rightarrow> 'a list res" where
  "table_slice t i a b = (if i < length t then Inr (slice a b (t ! i)) else Inl IndexError)"

text \<open>\<^verbatim>\<open>t[i, a:b] = xs\<close>: the sizes must agree, or one value fills the slice.\<close>

definition table_assign :: "'a list list \<Rightarrow> nat \<Rightarrow> nat \<Rightarrow> nat \<Rightarrow> 'a list \<Rightarrow> 'a list list res" where
  "table_assign t i a b xs =
     (if i \<ge> length t then Inl IndexError
      else let row = t ! i; n = length (slice a b row) in
        if length xs = n then Inr (t[i := take a row @ xs @ drop (a + n) row])
        else if length xs = 1 then Inr (t[i := take a row @ replicate n (hd xs) @ drop (a + n) row])
        else Inl RuntimeError)"

definition cell_write :: "(nat \<times> nat) \<times> 'a \<Rightarrow> 'a list list \<Rightarrow> 'a list list res" where
  "cell_write c t = (case c of ((i, p), x) \<Rightarrow>
     if i < length t \<and> p < length (t ! i) then Inr (t[i := (t ! i)[p := x]]) else Inl IndexError)"

definition page_cells :: "nat \<Rightarrow> nat \<times> nat \<times> nat \<Rightarrow> (nat \<times> nat) list" where
  "page_cells page_size info = (case info of (table_idx, first_page, last_page) \<Rightarrow>
     map (\<lambda>p. (table_idx, p)) [first_page * page_size ..< last_page * page_size])"

text \<open>The two index tensors are built side by side and used to scatter the slots.\<close>

definition write_page_table ::
  "slot list list \<Rightarrow> slot list \<Rightarrow> (nat \<times> nat \<times> nat) list \<Rightarrow> nat \<Rightarrow> slot list list res" where
  "write_page_table table allocated info page_size =
     (let cells = concat (map (page_cells page_size) info) in
      rbind (py_assert (length cells = length allocated)) (\<lambda>_.
      res_fold cell_write (zip cells allocated) table))"

section \<open>Operations\<close>

definition match_req :: "'c prefix_cache_class \<Rightarrow> 'c cache_manager \<Rightarrow> tok list \<Rightarrow> (handle \<times> 'c cache_manager) res" where
  "match_req cls cm input_ids =
     (let input_len = length input_ids in
      rbind (py_assert (input_len > 0)) (\<lambda>_.
      rbind (pc_match_prefix cls (cm_cache cm) (take (input_len - 1) input_ids)) (\<lambda>(h, c).
      Inr (h, cm\<lparr>cm_cache := c\<rparr>))))"

definition available_size :: "'c prefix_cache_class \<Rightarrow> 'c cache_manager \<Rightarrow> int" where
  "available_size cls cm =
     si_evictable (pc_size_info cls (cm_cache cm)) + int (length (cm_free cm)) * int (cm_page_size cm)"

definition cm_lock :: "'c prefix_cache_class \<Rightarrow> 'c cache_manager \<Rightarrow> handle \<Rightarrow> 'c cache_manager res" where
  "cm_lock cls cm h = rbind (pc_lock_handle cls (cm_cache cm) h False) (\<lambda>c. Inr (cm\<lparr>cm_cache := c\<rparr>))"

definition cm_unlock :: "'c prefix_cache_class \<Rightarrow> 'c cache_manager \<Rightarrow> handle \<Rightarrow> 'c cache_manager res" where
  "cm_unlock cls cm h = rbind (pc_lock_handle cls (cm_cache cm) h True) (\<lambda>c. Inr (cm\<lparr>cm_cache := c\<rparr>))"

definition cm_allocate :: "'c prefix_cache_class \<Rightarrow> 'c cache_manager \<Rightarrow> nat \<Rightarrow> (slot list \<times> 'c cache_manager) res" where
  "cm_allocate cls cm needed_pages =
     (let free_pages = length (cm_free cm) in
      rbind (if needed_pages > free_pages then
          rbind (pc_evict cls (cm_cache cm) ((needed_pages - free_pages) * cm_page_size cm)) (\<lambda>(evicted, c).
          let cm = cm\<lparr>cm_cache := c, cm_free := cm_free cm @ stride (cm_page_size cm) evicted\<rparr> in
          rbind (py_assert (length (cm_free cm) \<ge> needed_pages)) (\<lambda>_. Inr cm))
        else Inr cm) (\<lambda>cm.
      Inr (take needed_pages (cm_free cm), cm\<lparr>cm_free := drop needed_pages (cm_free cm)\<rparr>)))"

definition cm_free_indices :: "'c cache_manager \<Rightarrow> slot list \<Rightarrow> 'c cache_manager" where
  "cm_free_indices cm indices = (case cm_lazy cm of
      None \<Rightarrow> if length indices > 0
        then cm\<lparr>cm_free := cm_free cm @ stride (cm_page_size cm) indices\<rparr> else cm
    | Some lazy_free_list \<Rightarrow> cm\<lparr>cm_lazy := Some (lazy_free_list @ [stride (cm_page_size cm) indices])\<rparr>)"

definition page_to_token :: "nat \<Rightarrow> slot list \<Rightarrow> slot list" where
  "page_to_token page_size pages =
     (if page_size = 1 then pages
      else concat (map (\<lambda>x. map (\<lambda>i. x + int i) [0..<page_size]) pages))"

definition page_ceil :: "nat \<Rightarrow> nat \<Rightarrow> nat" where
  "page_ceil page_size n = nat (div_ceil (int n) (int page_size))"

definition req_pages :: "nat \<Rightarrow> req \<Rightarrow> (nat \<times> nat \<times> nat) option" where
  "req_pages page_size r =
     (let first_page = page_ceil page_size (r_cached_len r); last_page = page_ceil page_size (r_device_len r)
      in if last_page > first_page then Some (r_table_idx r, first_page, last_page) else None)"

definition allocate_paged ::
  "'c prefix_cache_class \<Rightarrow> 'c cache_manager \<Rightarrow> req list \<Rightarrow> (allocation_token \<times> 'c cache_manager) res" where
  "allocate_paged cls cm reqs =
     (let ps = cm_page_size cm;
          allocation_info = List.map_filter (req_pages ps) reqs;
          needed_pages = sum_list (map (\<lambda>(_, first_page, last_page). last_page - first_page) allocation_info) in
      if needed_pages = 0 then Inr (\<lparr>tk_allocated = [], tk_overwrites = []\<rparr>, cm)
      else
        rbind (cm_allocate cls cm needed_pages) (\<lambda>(pages, cm).
        let allocated = page_to_token ps pages in
        rbind (res_map (\<lambda>(table_idx, first_page, last_page).
            let first_pos = first_page * ps; last_pos = last_page * ps in
            rbind (table_slice (cm_table cm) table_idx first_pos last_pos) (\<lambda>old_slice.
            Inr (table_idx, first_pos, last_pos, old_slice))) allocation_info) (\<lambda>overwrites.
        rbind (write_page_table (cm_table cm) allocated allocation_info ps) (\<lambda>table.
        Inr (\<lparr>tk_allocated = allocated, tk_overwrites = overwrites\<rparr>, cm\<lparr>cm_table := table\<rparr>)))))"

definition rollback_allocation :: "'c cache_manager \<Rightarrow> allocation_token \<Rightarrow> 'c cache_manager res" where
  "rollback_allocation cm token =
     rbind (res_fold (\<lambda>(table_idx, first_pos, last_pos, old_slice) table.
              table_assign table table_idx first_pos last_pos old_slice)
            (tk_overwrites token) (cm_table cm)) (\<lambda>table.
     let cm = cm\<lparr>cm_table := table\<rparr> in
     Inr (if length (tk_allocated token) > 0 then cm_free_indices cm (tk_allocated token) else cm))"

definition cache_req ::
  "'c prefix_cache_class \<Rightarrow> 'c cache_manager \<Rightarrow> req \<Rightarrow> bool \<Rightarrow> (req \<times> 'c cache_manager) res" where
  "cache_req cls cm r finished =
     (let insert_ids = take (r_cached_len r) (r_input_ids r) in
      rbind (table_slice (cm_table cm) (r_table_idx r) 0 (r_cached_len r)) (\<lambda>page_indices.
      let old_handle = r_handle r in
      rbind (pc_insert_prefix cls (cm_cache cm) insert_ids page_indices) (\<lambda>((cached_len, new_handle), c).
      let cm = cm\<lparr>cm_cache := c\<rparr> in
      rbind (cm_unlock cls cm old_handle) (\<lambda>cm.
      let cm = cm_free_indices cm (slice (handle_len old_handle) cached_len page_indices) in
      if finished then
        Inr (r, cm_free_indices cm (drop (handle_len new_handle) page_indices))
      else
        let r = r\<lparr>r_handle := new_handle\<rparr> in
        rbind (cm_lock cls cm new_handle) (\<lambda>cm. Inr (r, cm))))))"

definition check_integrity :: "'c prefix_cache_class \<Rightarrow> 'c cache_manager \<Rightarrow> unit res" where
  "check_integrity cls cm =
     rbind (pc_check_integrity cls (cm_cache cm)) (\<lambda>_.
     let cache_pages = total_size (pc_size_info cls (cm_cache cm)) div int (cm_page_size cm) in
     if int (length (cm_free cm)) + cache_pages \<noteq> int (cm_num_pages cm) then Inl RuntimeError
     else if cm_page_size cm > 1 then
       py_assert (\<forall>x\<in>set (cm_free cm). x mod int (cm_page_size cm) = 0)
     else Inr ())"

text \<open>Entering the region, and leaving it on any path (\<^verbatim>\<open>finally\<close>).\<close>

definition lazy_enter :: "'c cache_manager \<Rightarrow> 'c cache_manager" where
  "lazy_enter cm = cm\<lparr>cm_lazy := Some []\<rparr>"

definition lazy_exit :: "'c cache_manager \<Rightarrow> 'c cache_manager res" where
  "lazy_exit cm = (case cm_lazy cm of
      None \<Rightarrow> Inl AttributeError
    | Some lazy_free_list \<Rightarrow>
        Inr (cm\<lparr>cm_lazy := None, cm_free := cm_free cm @ concat lazy_free_list\<rparr>))"

end
