(* ===== verification/Queues.thy ===== *)
theory Queues
  imports CacheManager
begin

text \<open>
  \<^verbatim>\<open>scheduler/table.py\<close>, \<^verbatim>\<open>scheduler/decode.py\<close> and \<^verbatim>\<open>scheduler/prefill.py\<close>: row slots, the set of
  running requests and the admission of pending ones. Request objects are shared between the
  pending list, the running set and the batches and are updated in place, so they live in a heap: a
  list indexed by the object's identity \<open>rid\<close>, which is handed out in order of construction. A Python
  set of requests is a duplicate-free list whose order stands for the unspecified iteration order.
\<close>

type_synonym rid = nat
type_synonym heap = "req list"

section \<open>Row slots\<close>

record table_manager =
  tm_free :: "nat list"
  tm_token_pool :: "tok list list"

definition new_table_manager :: "nat \<Rightarrow> slot list list \<Rightarrow> table_manager" where
  "new_table_manager max_running_reqs page_table =
     \<lparr>tm_free = [0..<max_running_reqs], tm_token_pool = map (\<lambda>row. replicate (length row) 0) page_table\<rparr>"

definition tm_available :: "table_manager \<Rightarrow> nat" where
  "tm_available tm = length (tm_free tm)"

definition tm_allocate :: "table_manager \<Rightarrow> (nat \<times> table_manager) res" where
  "tm_allocate tm =
     (if tm_free tm = [] then Inl IndexError
      else Inr (last (tm_free tm), tm\<lparr>tm_free := butlast (tm_free tm)\<rparr>))"

definition tm_release :: "table_manager \<Rightarrow> nat \<Rightarrow> table_manager" where
  "tm_release tm slot = tm\<lparr>tm_free := tm_free tm @ [slot]\<rparr>"

section \<open>Running requests\<close>

definition set_union :: "'a list \<Rightarrow> 'a list \<Rightarrow> 'a list" where
  "set_union xs ys = fold (\<lambda>y xs. if y \<in> set xs then xs else xs @ [y]) ys xs"

definition filter_reqs :: "heap \<Rightarrow> rid list \<Rightarrow> rid list \<Rightarrow> rid list" where
  "filter_reqs hp running reqs = filter (\<lambda>r. can_decode (hp ! r)) (set_union running reqs)"

definition remove_req :: "rid list \<Rightarrow> rid \<Rightarrow> rid list" where
  "remove_req running r = remove1 r running"

definition decode_abort_req :: "heap \<Rightarrow> rid list \<Rightarrow> int \<Rightarrow> rid option \<times> rid list" where
  "decode_abort_req hp running u =
     (case List.find (\<lambda>r. r_uid (hp ! r) = u) running of
        None \<Rightarrow> (None, running) | Some r \<Rightarrow> (Some r, remove1 r running))"

definition inflight_tokens :: "nat \<Rightarrow> heap \<Rightarrow> rid list \<Rightarrow> int" where
  "inflight_tokens page_size hp running =
     (\<Sum>r\<leftarrow>running. remain_len (hp ! r)) + (int page_size - 1) * int (length running)"

definition decode_runnable :: "rid list \<Rightarrow> bool" where
  "decode_runnable running \<longleftrightarrow> length running > 0"

definition decode_next_batch :: "heap \<Rightarrow> rid list \<Rightarrow> batch option" where
  "decode_next_batch hp running =
     (if \<not> decode_runnable running then None
      else Some (new_batch (sort_key (\<lambda>r. r_uid (hp ! r)) running) Decode))"

section \<open>Pending requests\<close>

record pending_req =
  p_uid :: int
  p_input_ids :: "tok list"
  p_sampling :: sampling_params
  p_chunked :: "rid option"

definition p_input_len :: "pending_req \<Rightarrow> nat" where
  "p_input_len p = length (p_input_ids p)"

definition p_output_len :: "pending_req \<Rightarrow> int" where
  "p_output_len p = sp_max_tokens (p_sampling p)"

text \<open>What admission reads and writes: the two managers and the heap.\<close>

record 'c pools =
  pl_cm :: "'c cache_manager"
  pl_tm :: table_manager
  pl_heap :: heap

record adder =
  a_token_budget :: int
  a_reserved_size :: int

definition try_allocate_one ::
  "'c prefix_cache_class \<Rightarrow> adder \<Rightarrow> pending_req \<Rightarrow> 'c pools \<Rightarrow> ((handle \<times> nat) option \<times> 'c pools) res" where
  "try_allocate_one cls a req pl =
     (if tm_available (pl_tm pl) = 0 then Inr (None, pl)
      else
        rbind (match_req cls (pl_cm pl) (p_input_ids req)) (\<lambda>(h, cm).
        let cached_len = handle_len h;
            extend_len = int (p_input_len req) - int cached_len;
            estimated_len = extend_len + p_output_len req in
        if estimated_len + a_reserved_size a > available_size cls cm then Inr (None, pl\<lparr>pl_cm := cm\<rparr>)
        else
          rbind (cm_lock cls cm h) (\<lambda>cm.
          if estimated_len + a_reserved_size a > available_size cls cm then
            rbind (cm_unlock cls cm h) (\<lambda>cm. Inr (None, pl\<lparr>pl_cm := cm\<rparr>))
          else
            rbind (tm_allocate (pl_tm pl)) (\<lambda>(table_idx, tm).
            if cached_len > 0 then
              rbind (table_assign (tm_token_pool tm) table_idx 0 cached_len (take cached_len (p_input_ids req))) (\<lambda>pool.
              rbind (pc_matched_indices cls (cm_cache cm) h) (\<lambda>indices.
              rbind (table_assign (cm_table cm) table_idx 0 cached_len indices) (\<lambda>table.
              Inr (Some (h, table_idx),
                pl\<lparr>pl_cm := cm\<lparr>cm_table := table\<rparr>, pl_tm := tm\<lparr>tm_token_pool := pool\<rparr>\<rparr>))))
            else Inr (Some (h, table_idx), pl\<lparr>pl_cm := cm, pl_tm := tm\<rparr>)))))"

definition add_one_chunk ::
  "adder \<Rightarrow> pending_req \<Rightarrow> handle \<Rightarrow> nat \<Rightarrow> nat \<Rightarrow> 'c pools \<Rightarrow> (rid \<times> adder \<times> 'c pools) res" where
  "add_one_chunk a req h table_idx cached_len pl =
     (let remain = int (p_input_len req) - int cached_len;
          chunk_size = min (a_token_budget a) remain;
          is_chunked = chunk_size < remain;
          a = \<lparr>a_token_budget = a_token_budget a - chunk_size,
               a_reserved_size = a_reserved_size a + (remain + p_output_len req)\<rparr>;
          stop = nat (int cached_len + chunk_size) in
      rbind (table_assign (tm_token_pool (pl_tm pl)) table_idx cached_len stop
               (slice cached_len stop (p_input_ids req))) (\<lambda>pool.
      rbind (new_req (if is_chunked then ChunkedReq else PlainReq) (take stop (p_input_ids req)) table_idx
               cached_len (p_output_len req) (p_uid req) (p_sampling req) h) (\<lambda>r.
      Inr (length (pl_heap pl), a,
        pl\<lparr>pl_tm := (pl_tm pl)\<lparr>tm_token_pool := pool\<rparr>, pl_heap := pl_heap pl @ [r]\<rparr>))))"

definition try_add_one ::
  "'c prefix_cache_class \<Rightarrow> adder \<Rightarrow> pending_req \<Rightarrow> 'c pools \<Rightarrow> (rid option \<times> adder \<times> 'c pools) res" where
  "try_add_one cls a req pl =
     (if a_token_budget a \<le> 0 then Inr (None, a, pl)
      else (case p_chunked req of
        Some c \<Rightarrow>
          let chunked_req = pl_heap pl ! c in
          rbind (add_one_chunk a req (r_handle chunked_req) (r_table_idx chunked_req) (r_cached_len chunked_req) pl)
            (\<lambda>(r, a, pl). Inr (Some r, a, pl))
      | None \<Rightarrow>
          rbind (try_allocate_one cls a req pl) (\<lambda>(resource, pl).
          case resource of
            Some (h, table_idx) \<Rightarrow>
              rbind (add_one_chunk a req h table_idx (handle_len h) pl) (\<lambda>(r, a, pl). Inr (Some r, a, pl))
          | None \<Rightarrow> Inr (None, a, pl))))"

text \<open>
  The loop over the pending list: requests are added until one cannot be. It returns the new
  requests in order and the pending entries of those that were cut into a chunk.
\<close>

fun add_loop ::
  "'c prefix_cache_class \<Rightarrow> adder \<Rightarrow> pending_req list \<Rightarrow> 'c pools \<Rightarrow>
   (rid list \<times> pending_req list \<times> adder \<times> 'c pools) res" where
  "add_loop cls a [] pl = Inr ([], [], a, pl)"
| "add_loop cls a (req # rest) pl =
     rbind (try_add_one cls a req pl) (\<lambda>(res, a, pl).
     case res of
       None \<Rightarrow> Inr ([], [], a, pl)
     | Some r \<Rightarrow>
         let chunked = r_class (pl_heap pl ! r) = ChunkedReq in
         rbind (add_loop cls a rest pl) (\<lambda>(reqs, chunked_list, a, pl).
         Inr (r # reqs,
           if chunked then req\<lparr>p_chunked := Some r\<rparr> # chunked_list else chunked_list, a, pl)))"

definition prefill_runnable :: "pending_req list \<Rightarrow> bool" where
  "prefill_runnable pending \<longleftrightarrow> length pending > 0"

definition prefill_next_batch ::
  "'c prefix_cache_class \<Rightarrow> int \<Rightarrow> int \<Rightarrow> pending_req list \<Rightarrow> 'c pools \<Rightarrow>
   (batch option \<times> pending_req list \<times> 'c pools) res" where
  "prefill_next_batch cls prefill_budget inflight pending pl =
     (if length pending = 0 then Inr (None, pending, pl)
      else
        rbind (add_loop cls \<lparr>a_token_budget = prefill_budget, a_reserved_size = inflight\<rparr> pending pl)
          (\<lambda>(reqs, chunked_list, _, pl).
        if length reqs = 0 then Inr (None, pending, pl)
        else Inr (Some (new_batch reqs Prefill), chunked_list @ drop (length reqs) pending, pl)))"

definition prefill_abort_req :: "pending_req list \<Rightarrow> int \<Rightarrow> rid option \<times> pending_req list" where
  "prefill_abort_req pending u =
     (case List.extract (\<lambda>p. p_uid p = u) pending of
        None \<Rightarrow> (None, pending) | Some (xs, p, ys) \<Rightarrow> (p_chunked p, xs @ ys))"

definition prefill_add_one_req :: "pending_req list \<Rightarrow> int \<Rightarrow> tok list \<Rightarrow> sampling_params \<Rightarrow> pending_req list" where
  "prefill_add_one_req pending u ids sp =
     pending @ [\<lparr>p_uid = u, p_input_ids = ids, p_sampling = sp, p_chunked = None\<rparr>]"

end
