(* ===== verification/Sampler.thy ===== *)
theory Sampler
  imports Core "HOL-Library.Option_ord"
begin

text \<open>
  \<^verbatim>\<open>engine/sample.py\<close>. Logits are rationals; minus infinity, which masking writes, is \<open>None\<close> and the
  order of options puts it below every number. The softmax and the random draw are parameters.
\<close>

record sampling_args =
  sa_temperatures :: "rat list option"
  sa_top_k :: "int list option"
  sa_top_p :: "rat list option"

definition min_t :: rat where
  "min_t = 1 / 1000000"

definition sampler_prepare :: "int \<Rightarrow> sampling_params list \<Rightarrow> sampling_args" where
  "sampler_prepare vocab_size params =
     (if \<forall>p\<in>set params. is_greedy p then \<lparr>sa_temperatures = None, sa_top_k = None, sa_top_p = None\<rparr>
      else
        let ts = map (\<lambda>p. max (if is_greedy p then 0 else sp_temperature p) min_t) params;
            top_ks = map (\<lambda>p. if sp_top_k p \<ge> 1 then sp_top_k p else vocab_size) params;
            top_ps = map (\<lambda>p. min (max (sp_top_p p) min_t) 1) params
        in \<lparr>sa_temperatures = Some ts,
             sa_top_k = (if \<exists>k\<in>set top_ks. k \<noteq> vocab_size then Some top_ks else None),
             sa_top_p = (if \<exists>p\<in>set top_ps. p < 1 then Some top_ps else None)\<rparr>)"

section \<open>The portable sampler\<close>

type_synonym logit = "rat option"

text \<open>\<^verbatim>\<open>torch.topk(current, k).values[-1]\<close>: the \<open>k\<close>-th largest value.\<close>

definition kth_largest :: "int \<Rightarrow> logit list \<Rightarrow> logit res" where
  "kth_largest k xs =
     (if k < 0 \<or> k > int (length xs) then Inl RuntimeError
      else if k = 0 then Inl IndexError
      else Inr (rev (sort xs) ! nat (k - 1)))"

definition mask_top_k :: "int option \<Rightarrow> logit list \<Rightarrow> logit list res" where
  "mask_top_k k current = (case k of
      None \<Rightarrow> Inr current
    | Some k \<Rightarrow>
        if k < int (length current) then
          rbind (kth_largest k current) (\<lambda>threshold.
          Inr (map (\<lambda>x. if x < threshold then None else x) current))
        else Inr current)"

fun cumsum :: "rat \<Rightarrow> rat list \<Rightarrow> rat list" where
  "cumsum acc [] = []"
| "cumsum acc (x # xs) = (acc + x) # cumsum (acc + x) xs"

text \<open>\<^verbatim>\<open>remove[1:] = remove[:-1].clone(); remove[0] = False\<close>.\<close>

definition shift_mask :: "bool list \<Rightarrow> bool list" where
  "shift_mask remove = (case remove of [] \<Rightarrow> [] | _ \<Rightarrow> False # butlast remove)"

definition sort_desc :: "logit list \<Rightarrow> nat list" where
  "sort_desc xs = rev (sort_key (\<lambda>i. xs ! i) (rev [0..<length xs]))"

definition scatter :: "nat list \<Rightarrow> 'a list \<Rightarrow> 'a list \<Rightarrow> 'a list" where
  "scatter idx vals base = fold (\<lambda>(i, v) xs. xs[i := v]) (zip idx vals) base"

definition mask_top_p :: "(logit list \<Rightarrow> rat list) \<Rightarrow> rat option \<Rightarrow> logit list \<Rightarrow> logit list" where
  "mask_top_p softmax p current = (case p of
      None \<Rightarrow> current
    | Some p \<Rightarrow>
        if p < 1 then
          let sorted_indices = sort_desc current;
              sorted_logits = map ((!) current) sorted_indices;
              sorted_probs = softmax sorted_logits;
              remove = shift_mask (map (\<lambda>c. c > p) (cumsum 0 sorted_probs));
              sorted_logits = map (\<lambda>(r, x). if r then None else x) (zip remove sorted_logits)
          in scatter sorted_indices sorted_logits (replicate (length current) None)
        else current)"

definition native_row ::
  "(logit list \<Rightarrow> rat list) \<Rightarrow> (rat list \<Rightarrow> tok) \<Rightarrow> rat \<Rightarrow> int option \<Rightarrow> rat option \<Rightarrow> rat list \<Rightarrow> tok res" where
  "native_row softmax multinomial temperature k p row =
     rbind (mask_top_k k (map (\<lambda>x. Some (x / temperature)) row)) (\<lambda>current.
     Inr (multinomial (softmax (mask_top_p softmax p current))))"

definition torch_native_sample ::
  "(logit list \<Rightarrow> rat list) \<Rightarrow> (rat list \<Rightarrow> tok) \<Rightarrow> rat list list \<Rightarrow> rat list \<Rightarrow> int list option \<Rightarrow> rat list option \<Rightarrow> tok list res" where
  "torch_native_sample softmax multinomial logits temperatures top_k top_p =
     res_map (\<lambda>i. native_row softmax multinomial (temperatures ! i)
       (map_option (\<lambda>ks. ks ! i) top_k) (map_option (\<lambda>ps. ps ! i) top_p) (logits ! i)) [0..<length logits]"

text \<open>The kernels of \<^verbatim>\<open>flashinfer\<close> the other branch chooses from.\<close>

record flash_kernels =
  fk_probs :: "rat list list \<Rightarrow> rat list \<Rightarrow> rat list list"
  fk_plain :: "rat list list \<Rightarrow> tok list"
  fk_top_k :: "rat list list \<Rightarrow> int list \<Rightarrow> tok list"
  fk_top_p :: "rat list list \<Rightarrow> rat list \<Rightarrow> tok list"
  fk_top_k_top_p :: "rat list list \<Rightarrow> int list \<Rightarrow> rat list \<Rightarrow> tok list"

definition sample_impl ::
  "bool \<Rightarrow> flash_kernels \<Rightarrow> (logit list \<Rightarrow> rat list) \<Rightarrow> (rat list \<Rightarrow> tok) \<Rightarrow>
   rat list list \<Rightarrow> rat list \<Rightarrow> int list option \<Rightarrow> rat list option \<Rightarrow> tok list res" where
  "sample_impl native fk softmax multinomial logits temperatures top_k top_p =
     (if native then torch_native_sample softmax multinomial logits temperatures top_k top_p
      else let probs = fk_probs fk logits temperatures in
        Inr (case (top_k, top_p) of
            (None, None) \<Rightarrow> fk_plain fk probs
          | (Some k, None) \<Rightarrow> fk_top_k fk probs k
          | (None, Some p) \<Rightarrow> fk_top_p fk probs p
          | (Some k, Some p) \<Rightarrow> fk_top_k_top_p fk probs k p))"

fun argmax_from :: "nat \<Rightarrow> nat \<Rightarrow> rat \<Rightarrow> rat list \<Rightarrow> nat" where
  "argmax_from i best m [] = best"
| "argmax_from i best m (x # xs) = (if x > m then argmax_from (Suc i) i x xs else argmax_from (Suc i) best m xs)"

definition argmax :: "rat list \<Rightarrow> nat" where
  "argmax xs = (case xs of [] \<Rightarrow> 0 | x # xs \<Rightarrow> argmax_from 1 0 x xs)"

definition sample ::
  "bool \<Rightarrow> flash_kernels \<Rightarrow> (logit list \<Rightarrow> rat list) \<Rightarrow> (rat list \<Rightarrow> tok) \<Rightarrow>
   rat list list \<Rightarrow> sampling_args \<Rightarrow> tok list res" where
  "sample native fk softmax multinomial logits args = (case sa_temperatures args of
      None \<Rightarrow> Inr (map (\<lambda>row. int (argmax row)) logits)
    | Some ts \<Rightarrow> sample_impl native fk softmax multinomial logits ts (sa_top_k args) (sa_top_p args))"

section \<open>Preparing the arguments\<close>

lemma min_t_pos: "0 < min_t" "min_t < 1"
  by (simp_all add: min_t_def)

text \<open>
  the sampler's arguments are valid for its kernels. An all-greedy batch takes the arg-max
  path; otherwise there is one strictly positive temperature per request, every top-k is at
  least one (given a vocabulary), every top-p lies in (0, 1], and a list is only left out when none of its entries would
  restrict anything.
\<close>

theorem sampler_prepare_valid:
  assumes "0 < vocab"
  shows "case sa_temperatures (sampler_prepare vocab ps) of
      None \<Rightarrow> (\<forall>p\<in>set ps. is_greedy p) \<and> sampler_prepare vocab ps = \<lparr>sa_temperatures = None, sa_top_k = None, sa_top_p = None\<rparr>
    | Some ts \<Rightarrow> (\<exists>p\<in>set ps. \<not> is_greedy p) \<and> length ts = length ps \<and> (\<forall>t\<in>set ts. 0 < t) \<and>
        (\<forall>i<length ps. ts ! i = (if is_greedy (ps ! i) then min_t else max (sp_temperature (ps ! i)) min_t)) \<and>
        (case sa_top_k (sampler_prepare vocab ps) of
           None \<Rightarrow> \<forall>p\<in>set ps. sp_top_k p < 1 \<or> sp_top_k p = vocab
         | Some ks \<Rightarrow> length ks = length ps \<and> (\<forall>k\<in>set ks. 1 \<le> k)) \<and>
        (case sa_top_p (sampler_prepare vocab ps) of
           None \<Rightarrow> \<forall>p\<in>set ps. 1 \<le> sp_top_p p
         | Some qs \<Rightarrow> length qs = length ps \<and> (\<forall>q\<in>set qs. 0 < q \<and> q \<le> 1))"
proof (cases "\<forall>p\<in>set ps. is_greedy p")
  case True
  then show ?thesis by (simp add: sampler_prepare_def)
next
  case False
  have "0 < min (max q min_t) 1 \<and> min (max q min_t) 1 \<le> 1" for q :: rat using min_t_pos by (auto simp: min_def max_def)
  moreover have "min (max q min_t) 1 < 1 \<longleftrightarrow> q < 1" for q :: rat using min_t_pos by (auto simp: min_def max_def)
  moreover have "0 < max q min_t" "max 0 min_t = min_t" for q :: rat using min_t_pos by (auto simp: max_def)
  ultimately show ?thesis using False assms
    by (auto simp: sampler_prepare_def Let_def not_less)
qed

theorem sampler_prepare_valid_witness:
  "\<exists>ts. sa_temperatures (sampler_prepare 100 [default_sampling_params, default_sampling_params\<lparr>sp_temperature := 1/2\<rparr>]) = Some ts \<and>
     (\<forall>t\<in>set ts. 0 < t)"
proof -
  let ?ps = "[default_sampling_params, default_sampling_params\<lparr>sp_temperature := 1/2\<rparr>]"
  have "sa_temperatures (sampler_prepare 100 ?ps) \<noteq> None"
    by (simp add: sampler_prepare_def is_greedy_def default_sampling_params_def)
  then obtain ts where ts: "sa_temperatures (sampler_prepare 100 ?ps) = Some ts" by blast
  have "(0 :: int) < 100" by simp
  from sampler_prepare_valid [OF this, of ?ps] have "\<forall>t\<in>set ts. 0 < t" unfolding ts by simp
  with ts show ?thesis by blast
qed

end
