(* ===== verification/Engine.thy ===== *)
theory Engine
  imports Queues Sampler
begin

text \<open>
  \<^verbatim>\<open>engine/graph.py\<close> and \<^verbatim>\<open>engine/engine.py\<close>: the batch sizes graphs are captured for and the
  padding to them, the configuration rules, the size of the KV cache and the page table, and one
  forward step with its all-or-nothing commit of the requests. Running the model and replaying a
  captured graph are parameters; tensors of logits are lists of rows.
\<close>

section \<open>CUDA graphs\<close>

definition determine_cuda_graph_bs :: "int list option \<Rightarrow> int option \<Rightarrow> int \<Rightarrow> int list" where
  "determine_cuda_graph_bs cuda_graph_bs cuda_graph_max_bs free_memory = (case cuda_graph_bs of
      Some l \<Rightarrow> l
    | None \<Rightarrow>
        let free_memory_gb = (of_int free_memory :: rat) / of_int (2 ^ 30);
            cuda_graph_max_bs = (case cuda_graph_max_bs of
                Some m \<Rightarrow> m | None \<Rightarrow> if free_memory_gb > 80 then 256 else 160) in
        if cuda_graph_max_bs < 1 then []
        else [1, 2, 4] @ map (\<lambda>i. 8 + 8 * int i) [0 ..< nat ((cuda_graph_max_bs + 1 - 8 + 7) div 8)])"

record graph_runner =
  g_max_bs :: int
  g_bs_list :: "int list"
  g_dummy :: rid
  g_map :: "int list"

text \<open>Capturing runs over the list from the largest size; no graph is captured when it is empty.\<close>

definition new_graph_runner :: "int list option \<Rightarrow> int option \<Rightarrow> int \<Rightarrow> rid \<Rightarrow> graph_runner" where
  "new_graph_runner cuda_graph_bs cuda_graph_max_bs free_memory dummy =
     (let l = determine_cuda_graph_bs cuda_graph_bs cuda_graph_max_bs free_memory;
          max_bs = (if l \<noteq> [] then Max (set l) else 0);
          bs_list = sort l
      in \<lparr>g_max_bs = max_bs, g_bs_list = bs_list, g_dummy = dummy,
           g_map = (if max_bs = 0 then [] else rev bs_list)\<rparr>)"

definition can_use_cuda_graph :: "graph_runner \<Rightarrow> batch \<Rightarrow> bool" where
  "can_use_cuda_graph g b \<longleftrightarrow> is_decode b \<and> int (batch_size b) \<le> g_max_bs g"

definition padded_batch_size :: "graph_runner \<Rightarrow> batch \<Rightarrow> int res" where
  "padded_batch_size g b =
     (if can_use_cuda_graph g b then
        (case List.find (\<lambda>bs. bs \<ge> int (batch_size b)) (g_bs_list g) of
           None \<Rightarrow> Inl StopIteration | Some bs \<Rightarrow> Inr bs)
      else Inr (int (batch_size b)))"

definition pad_batch :: "graph_runner \<Rightarrow> batch \<Rightarrow> batch res" where
  "pad_batch g b =
     rbind (padded_batch_size g b) (\<lambda>padded_size.
     Inr (b\<lparr>b_padded_reqs := Some (b_reqs b @ replicate (nat (padded_size - int (batch_size b))) (g_dummy g))\<rparr>))"

text \<open>The capture buffer and the copies into it; a copy of another length raises.\<close>

record capture_buffer =
  cb_input_ids :: "tok list"
  cb_out_loc :: "slot list"
  cb_positions :: "nat list"

definition capture_init :: "nat \<Rightarrow> capture_buffer" where
  "capture_init bs = \<lparr>cb_input_ids = replicate bs 0, cb_out_loc = replicate bs 0, cb_positions = replicate bs 0\<rparr>"

definition capture_set_batch :: "capture_buffer \<Rightarrow> batch \<Rightarrow> batch res" where
  "capture_set_batch cb b =
     rbind (padded_size b) (\<lambda>n.
     Inr (b\<lparr>b_input_ids := Some (take n (cb_input_ids cb)), b_out_loc := Some (take n (cb_out_loc cb)),
            b_positions := Some (take n (cb_positions cb))\<rparr>))"

definition copy_prefix :: "nat \<Rightarrow> 'a list option \<Rightarrow> 'a list \<Rightarrow> 'a list res" where
  "copy_prefix n src dst = (case src of
      None \<Rightarrow> Inl AttributeError
    | Some xs \<Rightarrow>
        let m = min n (length dst) in
        if length xs = m then Inr (xs @ drop m dst)
        else if length xs = 1 then Inr (replicate m (hd xs) @ drop m dst)
        else Inl RuntimeError)"

definition capture_copy_from :: "capture_buffer \<Rightarrow> batch \<Rightarrow> capture_buffer res" where
  "capture_copy_from cb b =
     rbind (padded_size b) (\<lambda>n.
     rbind (copy_prefix n (b_input_ids b) (cb_input_ids cb)) (\<lambda>ids.
     rbind (copy_prefix n (b_out_loc b) (cb_out_loc cb)) (\<lambda>locs.
     rbind (copy_prefix n (b_positions b) (cb_positions cb)) (\<lambda>pos.
     Inr \<lparr>cb_input_ids = ids, cb_out_loc = locs, cb_positions = pos\<rparr>))))"

text \<open>\<open>run_graph\<close> replays the graph of a size over the buffer and returns the logits it leaves.\<close>

definition replay ::
  "(int \<Rightarrow> capture_buffer \<Rightarrow> 'l list) \<Rightarrow> graph_runner \<Rightarrow> capture_buffer \<Rightarrow> batch \<Rightarrow> ('l list \<times> capture_buffer) res" where
  "replay run_graph g cb b =
     rbind (py_assert (can_use_cuda_graph g b)) (\<lambda>_.
     rbind (capture_copy_from cb b) (\<lambda>cb.
     rbind (padded_size b) (\<lambda>n.
     if int n \<in> set (g_map g) then Inr (take (batch_size b) (run_graph (int n) cb), cb) else Inl KeyError)))"

section \<open>Configuration\<close>

datatype platform = PlatformNvidia | PlatformMetax | PlatformCpu

record engine_config =
  ec_tp_size :: int
  ec_max_running_req :: nat
  ec_attention_backend :: string
  ec_moe_backend :: string
  ec_cuda_graph_bs :: "int list option"
  ec_cuda_graph_max_bs :: "int option"
  ec_page_size :: nat
  ec_memory_ratio :: rat
  ec_use_pynccl :: bool
  ec_max_seq_len_override :: "int option"
  ec_num_page_override :: "int option"
  ec_is_moe :: bool
  ec_head_dim :: int
  ec_num_kv_heads :: int
  ec_num_layers :: int
  ec_max_position :: int
  ec_itemsize :: int

fun contains_str :: "string \<Rightarrow> string \<Rightarrow> bool" where
  "contains_str pat [] \<longleftrightarrow> pat = []"
| "contains_str pat (c # s) \<longleftrightarrow> take (length pat) (c # s) = pat \<or> contains_str pat s"

definition adjust_config :: "bool \<Rightarrow> bool \<Rightarrow> platform \<Rightarrow> engine_config \<Rightarrow> engine_config" where
  "adjust_config sm100 sm90 platform config =
     (let config = (if ec_attention_backend config = ''auto'' then
            config\<lparr>ec_attention_backend :=
              (if platform = PlatformMetax then ''torch_native''
               else if sm100 then ''trtllm'' else if sm90 then ''fa,fi'' else ''fi'')\<rparr>
          else config);
          config = (if platform = PlatformMetax then
            config\<lparr>ec_cuda_graph_bs := Some [], ec_cuda_graph_max_bs := Some 0, ec_use_pynccl := False\<rparr>
          else config);
          config = (if contains_str ''trtllm'' (ec_attention_backend config) \<and> ec_page_size config \<notin> {16, 32, 64} then
            config\<lparr>ec_page_size := 64\<rparr> else config)
      in if ec_is_moe config \<and> ec_moe_backend config = ''auto'' then
           config\<lparr>ec_moe_backend := (if platform = PlatformMetax then ''metax'' else ''fused'')\<rparr>
         else config)"

definition config_max_seq_len :: "engine_config \<Rightarrow> int" where
  "config_max_seq_len c = (case ec_max_seq_len_override c of Some n \<Rightarrow> n | None \<Rightarrow> ec_max_position c)"

text \<open>
  \<^verbatim>\<open>_sync_get_memory\<close>: the free memory of all ranks, of which each rank learns the least and the
  largest by one all-reduce of a value and its negation. Without a process group there is only
  the rank's own value.
\<close>

definition sync_get_memory :: "bool \<Rightarrow> int \<Rightarrow> int list \<Rightarrow> (int \<times> int) res" where
  "sync_get_memory has_group own others =
     (if \<not> has_group then Inr (own, own)
      else
        let min_free = Min (set (own # others)); max_free = - Min (set (map uminus (own # others))) in
        if max_free - min_free > 2 * 1024 * 1024 * 1024 then Inl RuntimeError
        else Inr (min_free, max_free))"

definition cache_per_page :: "engine_config \<Rightarrow> int res" where
  "cache_per_page c =
     rbind (div_even (ec_num_kv_heads c) (ec_tp_size c) True) (\<lambda>heads.
     Inr (2 * ec_head_dim c * heads * int (ec_page_size c) * ec_itemsize c * ec_num_layers c))"

text \<open>\<^verbatim>\<open>int(x)\<close> of a float truncates towards zero.\<close>

definition py_int :: "rat \<Rightarrow> int" where
  "py_int x = (if x \<ge> 0 then \<lfloor>x\<rfloor> else \<lceil>x\<rceil>)"

definition determine_num_pages :: "int \<Rightarrow> int \<Rightarrow> engine_config \<Rightarrow> int res" where
  "determine_num_pages old_free_memory new_free_memory config =
     rbind (cache_per_page config) (\<lambda>cpp.
     rbind (case ec_num_page_override config of
         Some n \<Rightarrow> Inr n
       | None \<Rightarrow>
           let model_memory = old_free_memory - new_free_memory;
               available_memory = py_int (ec_memory_ratio config * of_int old_free_memory) - model_memory in
           if cpp = 0 then Inl ZeroDivisionError else Inr (available_memory div cpp)) (\<lambda>num_pages.
     rbind (py_assert (num_pages > 1)) (\<lambda>_. Inr num_pages)))"

text \<open>The page table with the extra row of the dummy request, which points to the dummy page.\<close>

definition engine_max_seq_len :: "engine_config \<Rightarrow> int \<Rightarrow> int" where
  "engine_max_seq_len c num_pages = min (config_max_seq_len c) (num_pages * int (ec_page_size c))"

definition engine_page_table :: "engine_config \<Rightarrow> int \<Rightarrow> slot list list" where
  "engine_page_table c num_pages =
     (let width = nat (align_up_32 (engine_max_seq_len c num_pages)) in
      replicate (ec_max_running_req c) (replicate width 0) @ [replicate width (num_pages * int (ec_page_size c))])"

section \<open>The forward step\<close>

text \<open>
  The engine's part of the state: the context and the heap of requests. \<open>run\<close> stands for the graph
  replay or the model's forward pass inside the context; \<open>samp\<close> for the sampler, which returns a
  tensor as its shape and its values.
\<close>

record engine_state =
  es_ctx :: ctx
  es_heap :: heap

definition complete_all :: "rid list \<Rightarrow> heap \<Rightarrow> heap" where
  "complete_all rs hp = fold (\<lambda>r hp. hp[r := complete_one (hp ! r)]) rs hp"

definition engine_forward_batch ::
  "bool \<Rightarrow> (ctx \<Rightarrow> 'l list res) \<Rightarrow> ('l list \<Rightarrow> (nat list \<times> tok list) res) \<Rightarrow>
   batch \<Rightarrow> engine_state \<Rightarrow> tok list res \<times> engine_state" where
  "engine_forward_batch on_stream run samp b st =
     (if \<not> on_stream then (Inl AssertionError, st)
      else
        let (r, c) = forward_batch_ctx b (\<lambda>c. (run c, c)) (es_ctx st);
            st = st\<lparr>es_ctx := c\<rparr> in
        (case r of
           Inl e \<Rightarrow> (Inl e, st)
         | Inr logits \<Rightarrow>
             (case samp (take (batch_size b) logits) of
                Inl e \<Rightarrow> (Inl e, st)
              | Inr (shape, next_tokens) \<Rightarrow>
                  if length shape \<noteq> 1 \<or> hd shape \<noteq> batch_size b then (Inl RuntimeError, st)
                  else (Inr next_tokens, st\<lparr>es_heap := complete_all (b_reqs b) (es_heap st)\<rparr>))))"

end
