(* ===== verification/Messages.thy ===== *)
theory Messages
  imports Core
begin

text \<open>
  \<^verbatim>\<open>message/*.py\<close>: the messages between frontend, tokenizer and scheduler, and their serialisation.
  \<open>py_value\<close> is the part of Python's values the serialiser distinguishes: an object of a message
  class is its class name and its \<^verbatim>\<open>__dict__\<close>; a tensor is its shape, data type and memory.
\<close>

section \<open>Messages\<close>

datatype backend_msg =
    BatchBackendMsg "backend_msg list"
  | ExitMsg
  | UserMsg int "tok list" sampling_params
  | AbortBackendMsg int

datatype chat_text = PlainText string | ChatMessages "(string \<times> string) list list"

datatype tokenizer_msg =
    BatchTokenizerMsg "tokenizer_msg list"
  | DetokenizeMsg int int bool
  | TokenizeMsg int chat_text sampling_params
  | AbortMsg int
  | AbortAckMsg int

text \<open>Replies carry a piece of text; its representation is a parameter.\<close>

datatype 's frontend_msg =
    BatchFrontendMsg "'s frontend_msg list"
  | UserReply int 's bool
  | AbortAckReply int

section \<open>Values\<close>

datatype py_value =
    VInt int | VFloat rat | VStr string | VNone | VBool bool | VBytes "nat list"
  | VList "py_value list" | VTuple "py_value list"
  | VDict "(string \<times> py_value) list"
  | VTensor nat string "nat list"
  | VObj string "(string \<times> py_value) list"
  | VOther

text \<open>A class: its fields in order, each with its default if it has one.\<close>

type_synonym cls_map = "string \<Rightarrow> (string \<times> py_value option) list option"

definition type_key :: string where
  "type_key = ''__type__''"

section \<open>Serialisation\<close>

text \<open>
  \<^verbatim>\<open>_serialize_any\<close> and \<^verbatim>\<open>serialize_type\<close> call each other; the object case of the first is the
  second. Objects without a \<^verbatim>\<open>__dict__\<close> raise.
\<close>

fun serialize_any :: "py_value \<Rightarrow> py_value res"
  and serialize_list :: "py_value list \<Rightarrow> py_value list res"
  and serialize_items :: "(string \<times> py_value) list \<Rightarrow> (string \<times> py_value) list res" where
  "serialize_any (VDict kvs) = rbind (serialize_items kvs) (\<lambda>kvs. Inr (VDict kvs))"
| "serialize_any (VList vs) = rbind (serialize_list vs) (\<lambda>vs. Inr (VList vs))"
| "serialize_any (VTuple vs) = rbind (serialize_list vs) (\<lambda>vs. Inr (VTuple vs))"
| "serialize_any (VTensor ndim dtype buf) =
     rbind (py_assert (ndim = 1)) (\<lambda>_.
     Inr (VDict [(type_key, VStr ''Tensor''), (''buffer'', VBytes buf), (''dtype'', VStr dtype)]))"
| "serialize_any (VObj cls attrs) =
     rbind (serialize_items attrs) (\<lambda>kvs. Inr (VDict ((type_key, VStr cls) # kvs)))"
| "serialize_any VOther = Inl AttributeError"
| "serialize_any v = Inr v"
| "serialize_list [] = Inr []"
| "serialize_list (v # vs) = rbind (serialize_any v) (\<lambda>v. rbind (serialize_list vs) (\<lambda>vs. Inr (v # vs)))"
| "serialize_items [] = Inr []"
| "serialize_items ((k, v) # kvs) =
     rbind (serialize_any v) (\<lambda>v. rbind (serialize_items kvs) (\<lambda>kvs. Inr ((k, v) # kvs)))"

definition serialize_type :: "py_value \<Rightarrow> py_value res" where
  "serialize_type v = (case v of VTensor _ _ _ \<Rightarrow> serialize_any v | VObj _ _ \<Rightarrow> serialize_any v | _ \<Rightarrow> Inl AttributeError)"

text \<open>\<^verbatim>\<open>dtype.replace("torch.", "")\<close> on a name, and the types \<^verbatim>\<open>numpy\<close> knows under that name.\<close>

fun drop_torch :: "nat \<Rightarrow> string \<Rightarrow> string" where
  "drop_torch 0 s = s"
| "drop_torch (Suc n) s =
     (if take 6 s = ''torch.'' then drop_torch n (drop 6 s)
      else (case s of [] \<Rightarrow> [] | c # s \<Rightarrow> c # drop_torch n s))"

definition np_dtypes :: "string list" where
  "np_dtypes = [''int8'', ''int16'', ''int32'', ''int64'', ''uint8'', ''float16'', ''float32'', ''float64'']"

text \<open>The keyword constructor of a dataclass.\<close>

definition construct :: "cls_map \<Rightarrow> string \<Rightarrow> (string \<times> py_value) list \<Rightarrow> py_value res" where
  "construct cm cls kwargs = (case cm cls of
      None \<Rightarrow> Inl KeyError
    | Some attrs \<Rightarrow>
        if \<not> set (map fst kwargs) \<subseteq> set (map fst attrs) then Inl TypeError
        else rbind (res_map (\<lambda>(f, d). case map_of kwargs f of
               Some v \<Rightarrow> Inr (f, v)
             | None \<Rightarrow> (case d of Some v \<Rightarrow> Inr (f, v) | None \<Rightarrow> Inl TypeError)) attrs)
             (\<lambda>fs. Inr (VObj cls fs)))"

definition tensor_of :: "(string \<times> py_value) list \<Rightarrow> py_value res" where
  "tensor_of data = (case (map_of data ''buffer'', map_of data ''dtype'') of
      (Some b, Some (VStr dtype)) \<Rightarrow>
        let d = drop_torch (length dtype) dtype in
        if d \<notin> set np_dtypes then Inl AttributeError
        else (case b of VBytes buf \<Rightarrow> Inr (VTensor 1 (''torch.'' @ d) buf) | _ \<Rightarrow> Inl AssertionError)
    | (Some _, Some _) \<Rightarrow> Inl AttributeError
    | _ \<Rightarrow> Inl KeyError)"

fun deserialize_any :: "cls_map \<Rightarrow> py_value \<Rightarrow> py_value res"
  and deserialize_list :: "cls_map \<Rightarrow> py_value list \<Rightarrow> py_value list res"
  and deserialize_items :: "cls_map \<Rightarrow> (string \<times> py_value) list \<Rightarrow> (string \<times> py_value) list res" where
  "deserialize_any cm (VDict data) =
     (case map_of data type_key of
        None \<Rightarrow> rbind (deserialize_items cm data) (\<lambda>kvs. Inr (VDict kvs))
      | Some (VStr t) \<Rightarrow>
          if t = ''Tensor'' then tensor_of data
          else if cm t = None then Inl KeyError
          else rbind (deserialize_items cm data) (\<lambda>kvs.
               construct cm t (filter (\<lambda>(k, _). k \<noteq> type_key) kvs))
      | Some _ \<Rightarrow> Inl KeyError)"
| "deserialize_any cm (VList vs) = rbind (deserialize_list cm vs) (\<lambda>vs. Inr (VList vs))"
| "deserialize_any cm (VTuple vs) = rbind (deserialize_list cm vs) (\<lambda>vs. Inr (VTuple vs))"
| "deserialize_any cm (VTensor _ _ _) = Inl ValueError"
| "deserialize_any cm (VObj _ _) = Inl ValueError"
| "deserialize_any cm VOther = Inl ValueError"
| "deserialize_any cm v = Inr v"
| "deserialize_list cm [] = Inr []"
| "deserialize_list cm (v # vs) =
     rbind (deserialize_any cm v) (\<lambda>v. rbind (deserialize_list cm vs) (\<lambda>vs. Inr (v # vs)))"
| "deserialize_items cm [] = Inr []"
| "deserialize_items cm ((k, v) # kvs) =
     rbind (deserialize_any cm v) (\<lambda>v. rbind (deserialize_items cm kvs) (\<lambda>kvs. Inr ((k, v) # kvs)))"

definition deserialize_type :: "cls_map \<Rightarrow> py_value \<Rightarrow> py_value res" where
  "deserialize_type cm v = (case v of
      VDict data \<Rightarrow> if map_of data type_key = None then Inl KeyError else deserialize_any cm v
    | _ \<Rightarrow> Inl TypeError)"

section \<open>Round trip\<close>

text \<open>
  Values that survive: dictionaries without the reserved key, one-dimensional tensors of a type
  \<^verbatim>\<open>numpy\<close> has, objects of known classes with exactly the fields of their class.
\<close>

fun wire_ok :: "cls_map \<Rightarrow> py_value \<Rightarrow> bool" where
  "wire_ok cm (VDict kvs) \<longleftrightarrow> type_key \<notin> set (map fst kvs) \<and> (\<forall>kv\<in>set kvs. wire_ok cm (snd kv))"
| "wire_ok cm (VList vs) \<longleftrightarrow> (\<forall>v\<in>set vs. wire_ok cm v)"
| "wire_ok cm (VTuple vs) \<longleftrightarrow> (\<forall>v\<in>set vs. wire_ok cm v)"
| "wire_ok cm (VTensor r dtype buf) \<longleftrightarrow> r = 1 \<and> dtype \<in> set (map ((@) ''torch.'') np_dtypes)"
| "wire_ok cm (VObj cls attrs) \<longleftrightarrow> cls \<noteq> ''Tensor'' \<and> type_key \<notin> set (map fst attrs) \<and>
     distinct (map fst attrs) \<and>
     (\<exists>ds. cm cls = Some ds \<and> map fst ds = map fst attrs) \<and> (\<forall>kv\<in>set attrs. wire_ok cm (snd kv))"
| "wire_ok cm VOther \<longleftrightarrow> False"
| "wire_ok cm v \<longleftrightarrow> True"

lemma construct_all:
  assumes "cm cls = Some ds" and "map fst ds = map fst attrs" and "distinct (map fst attrs)"
  shows "construct cm cls attrs = Inr (VObj cls attrs)"
proof -
  have "res_map (\<lambda>(f, d). case map_of attrs f of
               Some v \<Rightarrow> Inr (f, v)
             | None \<Rightarrow> (case d of Some v \<Rightarrow> Inr (f, v) | None \<Rightarrow> Inl TypeError)) ds = Inr (map (\<lambda>(f, d). (f, the (map_of attrs f))) ds)"
  proof (rule res_map_total)
    fix x assume "x \<in> set ds"
    then have "fst x \<in> set (map fst attrs)" unfolding assms(2) [symmetric] by simp
    then obtain v where "map_of attrs (fst x) = Some v" by (metis map_of_eq_None_iff not_Some_eq set_map)
    then show "(case x of (f, d) \<Rightarrow> case map_of attrs f of
               Some v \<Rightarrow> Inr (f, v)
             | None \<Rightarrow> (case d of Some v \<Rightarrow> Inr (f, v) | None \<Rightarrow> Inl TypeError)) =
            Inr (case x of (f, d) \<Rightarrow> (f, the (map_of attrs f)))" by (cases x) simp
  qed
  moreover have "map (\<lambda>(f, d). (f, the (map_of attrs f))) ds = map (\<lambda>f. (f, the (map_of attrs f))) (map fst ds)"
    by (simp add: case_prod_unfold comp_def)
  moreover have "map (\<lambda>f. (f, the (map_of attrs f))) (map fst attrs) = attrs"
    using assms(3) by (auto intro!: map_idI)
  moreover have "set (map fst attrs) \<subseteq> set (map fst ds)" using assms(2) by simp
  ultimately show ?thesis using assms(1,2) by (simp add: construct_def)
qed

lemma drop_torch_np: "\<forall>d\<in>set np_dtypes. drop_torch (length (''torch.'' @ d)) (''torch.'' @ d) = d"
  by code_simp

lemma roundtrip:
  "wire_ok cm v \<Longrightarrow> \<exists>w. serialize_any v = Inr w \<and> deserialize_any cm w = Inr v"
  "\<forall>v\<in>set vs. wire_ok cm v \<Longrightarrow> \<exists>ws. serialize_list vs = Inr ws \<and> deserialize_list cm ws = Inr vs"
  "\<forall>kv\<in>set kvs. wire_ok cm (snd kv) \<Longrightarrow> \<exists>ws. serialize_items kvs = Inr ws \<and>
     map fst ws = map fst kvs \<and> deserialize_items cm ws = Inr kvs"
proof (induction v and vs and kvs rule: serialize_any_serialize_list_serialize_items.induct)
  case (1 kvs)
  then obtain ws where ws: "serialize_items kvs = Inr ws" "map fst ws = map fst kvs" "deserialize_items cm ws = Inr kvs"
    by auto
  have "map_of ws type_key = None" using 1(2) ws(2) by (simp add: map_of_eq_None_iff) (metis set_map)
  then show ?case using ws by simp
next
  case (4 r dtype buf)
  then obtain d where d: "r = 1" "dtype = ''torch.'' @ d" "d \<in> set np_dtypes" by auto
  have "drop_torch (length dtype) dtype = d" unfolding d(2) using drop_torch_np d(3) by blast
  with d show ?case by (simp add: tensor_of_def type_key_def Let_def)
next
  case (5 cls attrs)
  then obtain ws where ws: "serialize_items attrs = Inr ws" "map fst ws = map fst attrs" "deserialize_items cm ws = Inr attrs"
    by auto
  obtain ds where ds: "cm cls = Some ds" "map fst ds = map fst attrs" using 5(2) by auto
  have "filter (\<lambda>(k, _). k \<noteq> type_key) attrs = attrs"
    using 5(2) by (intro filter_True) force
  then show ?case using ws ds construct_all [of cm cls ds attrs] 5(2) by (auto simp: type_key_def)
qed auto

section \<open>The messages as values\<close>

definition sampling_value :: "sampling_params \<Rightarrow> py_value" where
  "sampling_value p = VObj ''SamplingParams''
     [(''temperature'', VFloat (sp_temperature p)), (''top_k'', VInt (sp_top_k p)), (''top_p'', VFloat (sp_top_p p)),
      (''ignore_eos'', VBool (sp_ignore_eos p)), (''max_tokens'', VInt (sp_max_tokens p)),
      (''stop_token_ids'', VTuple (map VInt (sp_stop_token_ids p)))]"

text \<open>A CPU tensor of token ids is kept as its 32-bit two's complement memory, low byte first.\<close>

definition int32_bytes :: "int \<Rightarrow> nat list" where
  "int32_bytes x = map (\<lambda>k. nat (x div 256 ^ k mod 256)) [0..<4]"

definition token_tensor :: "tok list \<Rightarrow> py_value" where
  "token_tensor ids = VTensor 1 ''torch.int32'' (concat (map int32_bytes ids))"

fun backend_value :: "backend_msg \<Rightarrow> py_value" where
  "backend_value (BatchBackendMsg ms) = VObj ''BatchBackendMsg'' [(''data'', VList (map backend_value ms))]"
| "backend_value ExitMsg = VObj ''ExitMsg'' []"
| "backend_value (UserMsg u ids sp) = VObj ''UserMsg''
     [(''uid'', VInt u), (''input_ids'', token_tensor ids), (''sampling_params'', sampling_value sp)]"
| "backend_value (AbortBackendMsg u) = VObj ''AbortBackendMsg'' [(''uid'', VInt u)]"

fun text_value :: "chat_text \<Rightarrow> py_value" where
  "text_value (PlainText s) = VStr s"
| "text_value (ChatMessages ms) = VList (map (\<lambda>m. VDict (map (\<lambda>(k, v). (k, VStr v)) m)) ms)"

fun tokenizer_value :: "tokenizer_msg \<Rightarrow> py_value" where
  "tokenizer_value (BatchTokenizerMsg ms) = VObj ''BatchTokenizerMsg'' [(''data'', VList (map tokenizer_value ms))]"
| "tokenizer_value (DetokenizeMsg u t f) = VObj ''DetokenizeMsg''
     [(''uid'', VInt u), (''next_token'', VInt t), (''finished'', VBool f)]"
| "tokenizer_value (TokenizeMsg u tx sp) = VObj ''TokenizeMsg''
     [(''uid'', VInt u), (''text'', text_value tx), (''sampling_params'', sampling_value sp)]"
| "tokenizer_value (AbortMsg u) = VObj ''AbortMsg'' [(''uid'', VInt u)]"
| "tokenizer_value (AbortAckMsg u) = VObj ''AbortAckMsg'' [(''uid'', VInt u)]"

fun frontend_value :: "string frontend_msg \<Rightarrow> py_value" where
  "frontend_value (BatchFrontendMsg ms) = VObj ''BatchFrontendMsg'' [(''data'', VList (map frontend_value ms))]"
| "frontend_value (UserReply u out f) = VObj ''UserReply''
     [(''uid'', VInt u), (''incremental_output'', VStr out), (''finished'', VBool f)]"
| "frontend_value (AbortAckReply u) = VObj ''AbortAckReply'' [(''uid'', VInt u)]"

text \<open>The classes each module's \<^verbatim>\<open>globals()\<close> offers to its decoder.\<close>

definition sampling_class :: "string \<times> (string \<times> py_value option) list" where
  "sampling_class = (''SamplingParams'', [(''temperature'', Some (VFloat 0)), (''top_k'', Some (VInt (-1))),
     (''top_p'', Some (VFloat 1)), (''ignore_eos'', Some (VBool False)), (''max_tokens'', Some (VInt 1024)),
     (''stop_token_ids'', Some (VTuple []))])"

definition backend_classes :: cls_map where
  "backend_classes = map_of [sampling_class, (''BatchBackendMsg'', [(''data'', None)]), (''ExitMsg'', []),
     (''UserMsg'', [(''uid'', None), (''input_ids'', None), (''sampling_params'', None)]),
     (''AbortBackendMsg'', [(''uid'', None)])]"

definition tokenizer_classes :: cls_map where
  "tokenizer_classes = map_of [sampling_class, (''BatchTokenizerMsg'', [(''data'', None)]),
     (''DetokenizeMsg'', [(''uid'', None), (''next_token'', None), (''finished'', None)]),
     (''TokenizeMsg'', [(''uid'', None), (''text'', None), (''sampling_params'', None)]),
     (''AbortMsg'', [(''uid'', None)]), (''AbortAckMsg'', [(''uid'', None)])]"

definition frontend_classes :: cls_map where
  "frontend_classes = map_of [(''BatchFrontendMsg'', [(''data'', None)]),
     (''UserReply'', [(''uid'', None), (''incremental_output'', None), (''finished'', None)]),
     (''AbortAckReply'', [(''uid'', None)])]"

definition backend_encoder :: "backend_msg \<Rightarrow> py_value res" where
  "backend_encoder m = serialize_type (backend_value m)"

definition tokenizer_encoder :: "tokenizer_msg \<Rightarrow> py_value res" where
  "tokenizer_encoder m = serialize_type (tokenizer_value m)"

definition frontend_encoder :: "string frontend_msg \<Rightarrow> py_value res" where
  "frontend_encoder m = serialize_type (frontend_value m)"

fun chat_keys_ok :: "tokenizer_msg \<Rightarrow> bool" where
  "chat_keys_ok (BatchTokenizerMsg ms) \<longleftrightarrow> (\<forall>m\<in>set ms. chat_keys_ok m)"
| "chat_keys_ok (TokenizeMsg u (ChatMessages ms) sp) \<longleftrightarrow> (\<forall>m\<in>set ms. type_key \<notin> set (map fst m))"
| "chat_keys_ok _ \<longleftrightarrow> True"

lemma wire_ok_sampling:
  "cm ''SamplingParams'' = Some (snd sampling_class) \<Longrightarrow> wire_ok cm (sampling_value p)"
  by (simp add: sampling_value_def sampling_class_def type_key_def)

lemma class_lookups:
  "backend_classes ''SamplingParams'' = Some (snd sampling_class)"
  "backend_classes ''BatchBackendMsg'' = Some [(''data'', None)]" "backend_classes ''ExitMsg'' = Some []"
  "backend_classes ''UserMsg'' = Some [(''uid'', None), (''input_ids'', None), (''sampling_params'', None)]"
  "backend_classes ''AbortBackendMsg'' = Some [(''uid'', None)]"
  "tokenizer_classes ''SamplingParams'' = Some (snd sampling_class)"
  "tokenizer_classes ''BatchTokenizerMsg'' = Some [(''data'', None)]"
  "tokenizer_classes ''DetokenizeMsg'' = Some [(''uid'', None), (''next_token'', None), (''finished'', None)]"
  "tokenizer_classes ''TokenizeMsg'' = Some [(''uid'', None), (''text'', None), (''sampling_params'', None)]"
  "tokenizer_classes ''AbortMsg'' = Some [(''uid'', None)]" "tokenizer_classes ''AbortAckMsg'' = Some [(''uid'', None)]"
  "frontend_classes ''BatchFrontendMsg'' = Some [(''data'', None)]"
  "frontend_classes ''UserReply'' = Some [(''uid'', None), (''incremental_output'', None), (''finished'', None)]"
  "frontend_classes ''AbortAckReply'' = Some [(''uid'', None)]"
  by (simp_all add: backend_classes_def tokenizer_classes_def frontend_classes_def sampling_class_def)

lemma wire_ok_backend: "wire_ok backend_classes (backend_value m)"
  by (induction m)
    (auto simp: class_lookups wire_ok_sampling type_key_def token_tensor_def np_dtypes_def)

lemma wire_ok_text: "chat_keys_ok (TokenizeMsg u tx sp) \<Longrightarrow> wire_ok cm (text_value tx)"
  by (cases tx) force+

lemma wire_ok_tokenizer: "chat_keys_ok m \<Longrightarrow> wire_ok tokenizer_classes (tokenizer_value m)"
proof (induction m)
  case (TokenizeMsg u tx sp)
  then show ?case using wire_ok_text [OF TokenizeMsg] by (simp add: class_lookups wire_ok_sampling type_key_def)
qed (auto simp: class_lookups type_key_def)

lemma wire_ok_frontend: "wire_ok frontend_classes (frontend_value m)"
  by (induction m) (auto simp: class_lookups type_key_def)

lemma backend_is_obj: "\<exists>cls kvs. backend_value m = VObj cls kvs"
  by (cases m) simp_all

lemma tokenizer_is_obj: "\<exists>cls kvs. tokenizer_value m = VObj cls kvs"
  by (cases m) simp_all

lemma frontend_is_obj: "\<exists>cls kvs. frontend_value m = VObj cls kvs"
  by (cases m) simp_all

lemma typed_roundtrip:
  assumes "wire_ok cm v" and "\<exists>cls kvs. v = VObj cls kvs"
  shows "rbind (serialize_type v) (deserialize_type cm) = Inr v"
proof -
  obtain cls kvs where v: "v = VObj cls kvs" using assms(2) by blast
  obtain w where w: "serialize_any v = Inr w" "deserialize_any cm w = Inr v" using roundtrip(1) [OF assms(1)] by blast
  then obtain ws where "w = VDict ((type_key, VStr cls) # ws)" using v by (auto simp: rbind_eq_Inr)
  then show ?thesis using w v by (simp add: serialize_type_def deserialize_type_def)
qed

text \<open>
  C30: what one process sends the next receives. Encoding any message and decoding it with the
  receiving module's classes gives the message back, nested batches included; for chat requests
  this needs that no message dictionary uses the reserved key.
\<close>

theorem message_roundtrip:
  "rbind (backend_encoder b) (deserialize_type backend_classes) = Inr (backend_value b) \<and>
   rbind (frontend_encoder f) (deserialize_type frontend_classes) = Inr (frontend_value f) \<and>
   (chat_keys_ok t \<longrightarrow> rbind (tokenizer_encoder t) (deserialize_type tokenizer_classes) = Inr (tokenizer_value t))"
  unfolding backend_encoder_def frontend_encoder_def tokenizer_encoder_def
  using typed_roundtrip [OF wire_ok_backend backend_is_obj] typed_roundtrip [OF wire_ok_frontend frontend_is_obj]
    typed_roundtrip [OF wire_ok_tokenizer tokenizer_is_obj] by blast

theorem message_roundtrip_witness:
  "rbind (tokenizer_encoder (BatchTokenizerMsg [AbortMsg 3, TokenizeMsg 4 (ChatMessages [[(''role'', ''user'')]]) default_sampling_params]))
     (deserialize_type tokenizer_classes) =
   Inr (tokenizer_value (BatchTokenizerMsg [AbortMsg 3, TokenizeMsg 4 (ChatMessages [[(''role'', ''user'')]]) default_sampling_params]))"
proof -
  have "chat_keys_ok (BatchTokenizerMsg [AbortMsg 3, TokenizeMsg 4 (ChatMessages [[(''role'', ''user'')]]) default_sampling_params])"
    by (simp add: type_key_def)
  then show ?thesis using message_roundtrip by blast
qed

end
