(* ===== verification/Scheduler.thy ===== *)
theory Scheduler
  imports Engine Messages
begin

text \<open>
  \<^verbatim>\<open>scheduler/scheduler.py\<close>: the loop that ties the managers to the engine. A step of the loop takes
  the messages that were received and the data of the previous step. What the model computes, what the attention
  backend prepares and what the sampler returns are parameters, gathered in \<open>device\<close>. The engine's
  heap holds every request object, the dummy request included. Messages handed to
  \<^verbatim>\<open>send_result\<close> are logged in \<open>s_sent\<close>, one list per call.
\<close>

section \<open>State\<close>

record 'l device =
  d_run :: "batch \<Rightarrow> ctx \<Rightarrow> 'l list res"
  d_samp :: "sampling_args \<Rightarrow> 'l list \<Rightarrow> (nat list \<times> tok list) res"
  d_attn :: "batch \<Rightarrow> unit res"
  d_vocab :: int
  d_on_stream :: bool

record 'c sched =
  s_cm :: "'c cache_manager"
  s_tm :: table_manager
  s_engine :: engine_state
  s_graph :: graph_runner
  s_pending :: "pending_req list"
  s_running :: "rid list"
  s_finished :: "rid list"
  s_inflight :: "int list"
  s_deferred :: "int list"
  s_acks :: "int list"
  s_eos :: tok
  s_prefill_budget :: int
  s_max_seq_len :: int
  s_sent :: "tokenizer_msg list list"

abbreviation s_heap :: "'c sched \<Rightarrow> heap" where
  "s_heap s \<equiv> es_heap (s_engine s)"

definition set_heap :: "heap \<Rightarrow> 'c sched \<Rightarrow> 'c sched" where
  "set_heap hp s = s\<lparr>s_engine := (s_engine s)\<lparr>es_heap := hp\<rparr>\<rparr>"

record forward_input =
  fi_batch :: batch
  fi_sample_args :: sampling_args
  fi_input :: "nat list \<times> nat list"
  fi_write :: "nat list \<times> int list"

type_synonym forward_data = "forward_input \<times> tok list"

definition send_result :: "tokenizer_msg list \<Rightarrow> 'c sched \<Rightarrow> 'c sched" where
  "send_result msgs s = s\<lparr>s_sent := s_sent s @ [msgs]\<rparr>"

section \<open>Releasing requests\<close>

definition free_req_resources :: "'c prefix_cache_class \<Rightarrow> rid \<Rightarrow> 'c sched \<Rightarrow> 'c sched res" where
  "free_req_resources cls r s =
     (let s = s\<lparr>s_tm := tm_release (s_tm s) (r_table_idx (s_heap s ! r))\<rparr> in
      rbind (cache_req cls (s_cm s) (s_heap s ! r) True) (\<lambda>(_, cm). Inr (s\<lparr>s_cm := cm\<rparr>)))"

section \<open>Messages\<close>

fun process_one_msg :: "'c prefix_cache_class \<Rightarrow> backend_msg \<Rightarrow> 'c sched \<Rightarrow> 'c sched res"
  and process_msgs :: "'c prefix_cache_class \<Rightarrow> backend_msg list \<Rightarrow> 'c sched \<Rightarrow> 'c sched res" where
  "process_one_msg cls (BatchBackendMsg ms) s = process_msgs cls ms s"
| "process_one_msg cls ExitMsg s = Inl KeyboardInterrupt"
| "process_one_msg cls (UserMsg u ids sp) s =
     (let max_output_len = s_max_seq_len s - int (length ids) in
      if max_output_len \<le> 0 then Inr s
      else
        let sp = (if sp_max_tokens sp > max_output_len then sp\<lparr>sp_max_tokens := max_output_len\<rparr> else sp)
        in Inr (s\<lparr>s_pending := prefill_add_one_req (s_pending s) u ids sp\<rparr>))"
| "process_one_msg cls (AbortBackendMsg u) s =
     (if u \<in> set (s_inflight s) then
        let (_, running) = decode_abort_req (s_heap s) (s_running s) u;
            (_, pending) = prefill_abort_req (s_pending s) u
        in Inr (s\<lparr>s_running := running, s_pending := pending, s_deferred := List.insert u (s_deferred s)\<rparr>)
      else
        let (req_to_free, pending) = prefill_abort_req (s_pending s) u;
            s = s\<lparr>s_pending := pending\<rparr>;
            (req_to_free, s) = (case req_to_free of
                Some r \<Rightarrow> (Some r, s)
              | None \<Rightarrow> let (r, running) = decode_abort_req (s_heap s) (s_running s) u
                        in (r, s\<lparr>s_running := running\<rparr>)) in
        rbind (case req_to_free of Some r \<Rightarrow> free_req_resources cls r s | None \<Rightarrow> Inr s) (\<lambda>s.
        Inr (s\<lparr>s_acks := s_acks s @ [u]\<rparr>)))"
| "process_msgs cls [] s = Inr s"
| "process_msgs cls (m # ms) s = rbind (process_one_msg cls m s) (process_msgs cls ms)"

section \<open>Results of the previous step\<close>

text \<open>What the loop over the batch carries: the state, the replies and the newly finished requests.\<close>

record 'c results =
  rs_sched :: "'c sched"
  rs_reply :: "tokenizer_msg list"
  rs_new_finished :: "rid list"

definition process_result ::
  "'c prefix_cache_class \<Rightarrow> bool \<Rightarrow> tok list \<Rightarrow> nat \<times> rid \<Rightarrow> 'c results \<Rightarrow> 'c results res" where
  "process_result cls prefill next_tokens ir rs = (case ir of (i, r) \<Rightarrow>
     let s = rs_sched rs; req = s_heap s ! r in
     if r_class req = ChunkedReq then Inr rs
     else if r_uid req \<in> set (s_deferred s) then Inr rs
     else if i \<ge> length next_tokens then Inl IndexError
     else
       let next_token = next_tokens ! i in
       rbind (append_host req next_token) (\<lambda>req.
       let s = set_heap ((s_heap s)[r := req]) s;
           sp = r_sampling req;
           finished = (\<not> can_decode req \<or> (\<not> sp_ignore_eos sp \<and> next_token = s_eos s)
                       \<or> next_token \<in> set (sp_stop_token_ids sp));
           reply = rs_reply rs @ [DetokenizeMsg (r_uid req) next_token finished] in
       if finished \<and> r \<notin> set (s_finished s) then
         rbind (free_req_resources cls r (s\<lparr>s_running := remove_req (s_running s) r\<rparr>)) (\<lambda>s.
         Inr \<lparr>rs_sched = s, rs_reply = reply, rs_new_finished = List.insert r (rs_new_finished rs)\<rparr>)
       else if prefill then
         rbind (cache_req cls (s_cm s) req False) (\<lambda>(req, cm).
         Inr \<lparr>rs_sched = set_heap ((s_heap s)[r := req]) (s\<lparr>s_cm := cm\<rparr>), rs_reply = reply,
              rs_new_finished = rs_new_finished rs\<rparr>)
       else Inr \<lparr>rs_sched = s, rs_reply = reply, rs_new_finished = rs_new_finished rs\<rparr>))"

definition process_last_data ::
  "'c prefix_cache_class \<Rightarrow> forward_data option \<Rightarrow> 'c sched \<Rightarrow> 'c sched res" where
  "process_last_data cls last_data s = (case last_data of
      None \<Rightarrow> Inr s
    | Some (fi, next_tokens) \<Rightarrow>
        let b = fi_batch fi;
            s = s\<lparr>s_cm := lazy_enter (s_cm s)\<rparr> in
        rbind (res_fold (process_result cls (is_prefill b) next_tokens) (enumerate 0 (b_reqs b))
                 \<lparr>rs_sched = s, rs_reply = [], rs_new_finished = []\<rparr>) (\<lambda>rs.
        let s = rs_sched rs in
        rbind (lazy_exit (s_cm s)) (\<lambda>cm.
        Inr (send_result (rs_reply rs) (s\<lparr>s_cm := cm, s_finished := rs_new_finished rs\<rparr>)))))"

definition apply_one :: "'c prefix_cache_class \<Rightarrow> rid \<Rightarrow> rid list \<times> 'c sched \<Rightarrow> (rid list \<times> 'c sched) res" where
  "apply_one cls r st = (case st of (freed, s) \<Rightarrow>
     if r_uid (s_heap s ! r) \<notin> set (s_deferred s) then Inr (freed, s)
     else if r \<in> set freed then Inr (freed, s)
     else rbind (free_req_resources cls r s) (\<lambda>s. Inr (r # freed, s\<lparr>s_acks := s_acks s @ [r_uid (s_heap s ! r)]\<rparr>)))"

definition apply_deferred_aborts ::
  "'c prefix_cache_class \<Rightarrow> forward_data option \<Rightarrow> 'c sched \<Rightarrow> 'c sched res" where
  "apply_deferred_aborts cls last_data s = (case last_data of
      None \<Rightarrow> Inr (s\<lparr>s_deferred := []\<rparr>)
    | Some (fi, _) \<Rightarrow>
        if s_deferred s = [] then Inr s
        else
          rbind (res_fold (apply_one cls) (b_reqs (fi_batch fi)) ([], s)) (\<lambda>(_, s).
          Inr (s\<lparr>s_deferred := []\<rparr>)))"

definition flush_pending_acks :: "'c sched \<Rightarrow> 'c sched" where
  "flush_pending_acks s =
     (if s_acks s = [] then s
      else send_result (map AbortAckMsg (s_acks s)) (s\<lparr>s_acks := []\<rparr>))"

section \<open>Draining\<close>

definition drain_one :: "'c prefix_cache_class \<Rightarrow> rid \<Rightarrow> rid list \<times> 'c sched \<Rightarrow> (rid list \<times> 'c sched) res" where
  "drain_one cls r st = (case st of (freed, s) \<Rightarrow>
     if r \<in> set freed then Inr (freed, s)
     else
       let req = s_heap s ! r; ps = cm_page_size (s_cm s);
           first_page = page_ceil ps (r_cached_len req); last_page = page_ceil ps (r_device_len req) in
       rbind (if last_page > first_page then
                rbind (table_slice (cm_table (s_cm s)) (r_table_idx req) (first_page * ps) (last_page * ps))
                  (\<lambda>tail_slots. Inr (s\<lparr>s_cm := cm_free_indices (s_cm s) tail_slots\<rparr>))
              else Inr s) (\<lambda>s.
       rbind (free_req_resources cls r s) (\<lambda>s. Inr (r # freed, s))))"

definition drain_requests :: "'c prefix_cache_class \<Rightarrow> 'c sched \<Rightarrow> 'c sched res" where
  "drain_requests cls s =
     rbind (res_fold (drain_one cls) (List.map_filter p_chunked (s_pending s)) ([], s)) (\<lambda>(freed, s).
     let s = s\<lparr>s_pending := []\<rparr> in
     rbind (res_fold (drain_one cls) (sort_key (\<lambda>r. r_uid (s_heap s ! r)) (s_running s)) (freed, s)) (\<lambda>(_, s).
     Inr (s\<lparr>s_running := [], s_finished := []\<rparr>)))"

section \<open>Preparing a batch\<close>

definition make_positions :: "heap \<Rightarrow> rid list \<Rightarrow> nat list" where
  "make_positions hp padded = concat (map (\<lambda>r. [r_cached_len (hp ! r) ..< r_device_len (hp ! r)]) padded)"

definition make_input_rows :: "heap \<Rightarrow> rid list \<Rightarrow> nat list" where
  "make_input_rows hp padded =
     concat (map (\<lambda>r. replicate (r_device_len (hp ! r) - r_cached_len (hp ! r)) (r_table_idx (hp ! r))) padded)"

definition make_write_tuple :: "heap \<Rightarrow> rid list \<Rightarrow> nat list \<times> int list" where
  "make_write_tuple hp reqs =
     (map (\<lambda>r. r_table_idx (hp ! r)) reqs,
      map (\<lambda>r. if can_decode (hp ! r) then int (r_device_len (hp ! r)) else -1) reqs)"

text \<open>Reading and writing a table at pairs of indices; a column may count from the end.\<close>

definition gather :: "'a list list \<Rightarrow> nat list \<times> nat list \<Rightarrow> 'a list res" where
  "gather t idx = res_map (\<lambda>(i, p). if i < length t \<and> p < length (t ! i) then Inr (t ! i ! p) else Inl IndexError)
     (zip (fst idx) (snd idx))"

definition scatter_tokens :: "tok list list \<Rightarrow> nat list \<times> int list \<Rightarrow> tok list \<Rightarrow> tok list list res" where
  "scatter_tokens t idx vals =
     rbind (res_map (\<lambda>(i, p). if i < length t then
         (let p = (if p < 0 then p + int (length (t ! i)) else p) in
          if 0 \<le> p \<and> p < int (length (t ! i)) then Inr (i, nat p) else Inl IndexError)
         else Inl IndexError) (zip (fst idx) (snd idx))) (\<lambda>cells.
     res_fold cell_write (zip cells vals) t)"

definition prepare_body ::
  "'l device \<Rightarrow> 'c sched \<Rightarrow> batch \<Rightarrow> forward_input res" where
  "prepare_body d s b =
     (let hp = s_heap s; padded = the (b_padded_reqs b);
          positions = make_positions hp padded;
          input_mapping = (make_input_rows hp padded, positions);
          write_mapping = make_write_tuple hp (b_reqs b);
          b = b\<lparr>b_positions := Some positions\<rparr> in
      rbind (gather (cm_table (s_cm s)) input_mapping) (\<lambda>out_loc.
      let b = b\<lparr>b_out_loc := Some out_loc\<rparr> in
      rbind (d_attn d b) (\<lambda>_.
      let sample_args = sampler_prepare (d_vocab d) (map (\<lambda>r. r_sampling (hp ! r)) (b_reqs b)) in
      Inr \<lparr>fi_batch = b, fi_sample_args = sample_args, fi_input = input_mapping, fi_write = write_mapping\<rparr>)))"

definition prepare_batch ::
  "'c prefix_cache_class \<Rightarrow> 'l device \<Rightarrow> batch \<Rightarrow> 'c sched \<Rightarrow> forward_input res \<times> 'c sched" where
  "prepare_batch cls d b s =
     (case pad_batch (s_graph s) b of
        Inl e \<Rightarrow> (Inl e, s)
      | Inr b \<Rightarrow>
          (case allocate_paged cls (s_cm s) (map ((!) (s_heap s)) (b_reqs b)) of
             Inl e \<Rightarrow> (Inl e, s)
           | Inr (token, cm) \<Rightarrow>
               let s = s\<lparr>s_cm := cm\<rparr> in
               (case prepare_body d s b of
                  Inr fi \<Rightarrow> (Inr fi, s)
                | Inl e \<Rightarrow>
                    (case rollback_allocation (s_cm s) token of
                       Inl e' \<Rightarrow> (Inl e', s)
                     | Inr cm \<Rightarrow> (Inl e, s\<lparr>s_cm := cm\<rparr>)))))"

definition schedule_next_batch ::
  "'c prefix_cache_class \<Rightarrow> 'l device \<Rightarrow> 'c sched \<Rightarrow> forward_input option res \<times> 'c sched" where
  "schedule_next_batch cls d s =
     (case prefill_next_batch cls (s_prefill_budget s)
             (inflight_tokens (cm_page_size (s_cm s)) (s_heap s) (s_running s)) (s_pending s)
             \<lparr>pl_cm = s_cm s, pl_tm = s_tm s, pl_heap = s_heap s\<rparr> of
        Inl e \<Rightarrow> (Inl e, s)
      | Inr (ob, pending, pl) \<Rightarrow>
          let s = set_heap (pl_heap pl) (s\<lparr>s_pending := pending, s_cm := pl_cm pl, s_tm := pl_tm pl\<rparr>) in
          (case (case ob of Some b \<Rightarrow> Some b | None \<Rightarrow> decode_next_batch (s_heap s) (s_running s)) of
             None \<Rightarrow> (Inr None, s)
           | Some b \<Rightarrow> (case prepare_batch cls d b s of (r, s) \<Rightarrow> (rbind r (\<lambda>fi. Inr (Some fi)), s))))"

section \<open>The loops\<close>

definition forward_step :: "'l device \<Rightarrow> forward_input \<Rightarrow> 'c sched \<Rightarrow> (forward_data \<times> 'c sched) res" where
  "forward_step d fi s =
     rbind (gather (tm_token_pool (s_tm s)) (fi_input fi)) (\<lambda>ids.
     let b = (fi_batch fi)\<lparr>b_input_ids := Some ids\<rparr> in
     case engine_forward_batch (d_on_stream d) (d_run d b) (d_samp d (fi_sample_args fi)) b (s_engine s) of
       (Inl e, _) \<Rightarrow> Inl e
     | (Inr next_tokens, eng) \<Rightarrow>
         rbind (scatter_tokens (tm_token_pool (s_tm s)) (fi_write fi) next_tokens) (\<lambda>pool.
         let s = s\<lparr>s_engine := eng, s_tm := (s_tm s)\<lparr>tm_token_pool := pool\<rparr>,
                   s_running := filter_reqs (es_heap eng) (s_running s) (b_reqs b)\<rparr> in
         Inr ((fi\<lparr>fi_batch := b\<rparr>, next_tokens), s)))"

definition run_batch ::
  "'c prefix_cache_class \<Rightarrow> 'l device \<Rightarrow> 'c sched \<Rightarrow> (forward_data option \<times> 'c sched) res" where
  "run_batch cls d s = (case schedule_next_batch cls d s of
      (Inl e, _) \<Rightarrow> Inl e
    | (Inr None, s) \<Rightarrow> Inr (None, s)
    | (Inr (Some fi), s) \<Rightarrow> rbind (forward_step d fi s) (\<lambda>(fd, s). Inr (Some fd, s)))"

text \<open>Whether the loop blocks, and with that runs the idle check, before it receives.\<close>

definition normal_blocking :: "'c sched \<Rightarrow> bool" where
  "normal_blocking s \<longleftrightarrow> \<not> (prefill_runnable (s_pending s) \<or> decode_runnable (s_running s))"

definition overlap_blocking :: "forward_data option \<Rightarrow> 'c sched \<Rightarrow> bool" where
  "overlap_blocking last_data s \<longleftrightarrow>
     \<not> (last_data \<noteq> None \<or> prefill_runnable (s_pending s) \<or> decode_runnable (s_running s))"

definition run_when_idle :: "'c prefix_cache_class \<Rightarrow> 'c sched \<Rightarrow> unit res" where
  "run_when_idle cls s = check_integrity cls (s_cm s)"

definition normal_loop ::
  "'c prefix_cache_class \<Rightarrow> 'l device \<Rightarrow> backend_msg list \<Rightarrow> 'c sched \<Rightarrow> 'c sched res" where
  "normal_loop cls d msgs s =
     rbind (if normal_blocking s then run_when_idle cls s else Inr ()) (\<lambda>_.
     rbind (process_msgs cls msgs s) (\<lambda>s.
     rbind (run_batch cls d s) (\<lambda>(ongoing_data, s).
     rbind (process_last_data cls ongoing_data s) (\<lambda>s.
     Inr (flush_pending_acks s)))))"

definition overlap_loop ::
  "'c prefix_cache_class \<Rightarrow> 'l device \<Rightarrow> backend_msg list \<Rightarrow> forward_data option \<Rightarrow> 'c sched \<Rightarrow>
   (forward_data option \<times> 'c sched) res" where
  "overlap_loop cls d msgs last_data s =
     (let s = s\<lparr>s_inflight := (case last_data of
            None \<Rightarrow> [] | Some (fi, _) \<Rightarrow> map (\<lambda>r. r_uid (s_heap s ! r)) (b_reqs (fi_batch fi)))\<rparr> in
      rbind (if overlap_blocking last_data s then run_when_idle cls s else Inr ()) (\<lambda>_.
      rbind (process_msgs cls msgs s) (\<lambda>s.
      rbind (run_batch cls d s) (\<lambda>(ongoing_data, s).
      rbind (process_last_data cls last_data s) (\<lambda>s.
      rbind (apply_deferred_aborts cls last_data s) (\<lambda>s.
      let s = flush_pending_acks s in
      Inr (ongoing_data, s\<lparr>s_inflight := []\<rparr>)))))))"

end
