(* ===== verification/PageTable.thy ===== *)
theory PageTable
  imports CacheManager
begin

text \<open>
  Facts about the page table as a two-dimensional tensor: what scattering writes and slice
  assignments change, that the recorded slices restore a table, and the relation between page
  numbers, slots and strided slices.
\<close>

section \<open>Pages and slots\<close>

lemma page_ceil_eq: "0 < ps \<Longrightarrow> page_ceil ps n = (n + ps - 1) div ps"
proof -
  assume ps: "0 < ps"
  have "int n + int ps - 1 = int (n + ps - 1)" using ps by simp
  then show ?thesis unfolding page_ceil_def div_ceil_def by (metis nat_int zdiv_int)
qed

lemma page_ceil_bounds:
  assumes "0 < ps"
  shows "n \<le> page_ceil ps n * ps" and "page_ceil ps n * ps < n + ps"
proof -
  have "(n + ps - 1) mod ps < ps" using assms by simp
  then show "n \<le> page_ceil ps n * ps" "page_ceil ps n * ps < n + ps"
    using div_mult_mod_eq [of "n + ps - 1" ps] assms unfolding page_ceil_eq [OF assms] by linarith+
qed

lemma page_ceil_mono: "0 < ps \<Longrightarrow> m \<le> n \<Longrightarrow> page_ceil ps m \<le> page_ceil ps n"
  by (simp add: page_ceil_eq div_le_mono)

lemma page_ceil_dvd: "0 < ps \<Longrightarrow> ps dvd n \<Longrightarrow> page_ceil ps n * ps = n"
  using page_ceil_bounds [of ps n] by (auto elim!: dvdE) (metis less_not_refl mult_Suc_right mult.commute
      mult_less_cancel1 nat_less_le not_less_eq add.commute)

definition page_slots :: "nat \<Rightarrow> slot \<Rightarrow> slot list" where
  "page_slots ps x = map (\<lambda>i. x + int i) [0..<ps]"

lemma length_page_slots [simp]: "length (page_slots ps x) = ps"
  by (simp add: page_slots_def)

lemma page_to_token_eq: "0 < ps \<Longrightarrow> page_to_token ps pages = concat (map (page_slots ps) pages)"
  by (induction pages) (auto simp: page_to_token_def page_slots_def)

lemma stride_page_slots: "0 < ps \<Longrightarrow> stride ps (page_slots ps x @ ys) = x # stride ps ys"
  by (subst stride_Cons_drop) (auto simp: page_slots_def hd_append hd_map)

lemma stride_page_to_token: "0 < ps \<Longrightarrow> stride ps (page_to_token ps pages) = pages"
  by (induction pages) (auto simp: page_to_token_eq stride_page_slots)

lemma length_page_to_token: "0 < ps \<Longrightarrow> length (page_to_token ps pages) = length pages * ps"
  by (induction pages) (auto simp: page_to_token_eq)

section \<open>Scattered writes\<close>

definition same_dims :: "'a list list \<Rightarrow> 'a list list \<Rightarrow> bool" where
  "same_dims t u \<longleftrightarrow> map length t = map length u"

lemma same_dims_refl [simp]: "same_dims t t"
  by (simp add: same_dims_def)

lemma same_dims_trans: "same_dims t u \<Longrightarrow> same_dims u v \<Longrightarrow> same_dims t v"
  by (simp add: same_dims_def)

lemma same_dimsD: "same_dims t u \<Longrightarrow> length u = length t"
  "same_dims t u \<Longrightarrow> i < length t \<Longrightarrow> length (u ! i) = length (t ! i)"
  unfolding same_dims_def by (metis length_map, metis length_map nth_map)

lemma cell_write_Inr:
  "cell_write ((i, p), x) t = Inr u \<longleftrightarrow> i < length t \<and> p < length (t ! i) \<and> u = t[i := (t ! i)[p := x]]"
  by (auto simp: cell_write_def)

lemma length_cell [simp]: "length (t[j := (t ! j)[q := v]] ! i) = length (t ! i)"
  by (cases "j < length t") (auto simp: nth_list_update list_update_beyond)

lemma same_dims_cell: "same_dims t (t[i := (t ! i)[p := x]])"
  unfolding same_dims_def by (rule nth_equalityI) (auto simp: nth_list_update)

lemma cells_Cons:
  assumes "res_fold cell_write (zip (c # cells) (v # vs)) t = Inr u"
  obtains i p where "c = (i, p)" and "i < length t" and "p < length (t ! i)"
    and "res_fold cell_write (zip cells vs) (t[i := (t ! i)[p := v]]) = Inr u"
  using assms by (cases c) (auto simp: cell_write_Inr elim!: rbindE)

lemma cells_dims: "res_fold cell_write (zip cells vs) t = Inr u \<Longrightarrow> same_dims t u"
proof (induction cells arbitrary: vs t)
  case (Cons c cells)
  show ?case
  proof (cases vs)
    case (Cons v vs')
    from Cons.prems [unfolded Cons] obtain i p
      where "res_fold cell_write (zip cells vs') (t[i := (t ! i)[p := v]]) = Inr u" by (rule cells_Cons)
    from Cons.IH [OF this] show ?thesis by (rule same_dims_trans [OF same_dims_cell])
  qed (use Cons.prems in simp)
qed simp

lemma cells_frame:
  assumes "res_fold cell_write (zip cells vs) t = Inr u" and "(i, p) \<notin> set cells"
    and "i < length t" and "p < length (t ! i)"
  shows "u ! i ! p = t ! i ! p"
  using assms
proof (induction cells arbitrary: vs t)
  case (Cons c cells)
  show ?case
  proof (cases vs)
    case (Cons v vs')
    from Cons.prems(1) [unfolded Cons] obtain j q where c: "c = (j, q)" "j < length t"
      and t': "res_fold cell_write (zip cells vs') (t[j := (t ! j)[q := v]]) = Inr u" by (rule cells_Cons)
    have "u ! i ! p = t[j := (t ! j)[q := v]] ! i ! p"
      using Cons.prems by (intro Cons.IH [OF t']) (auto simp: nth_list_update)
    then show ?thesis using Cons.prems c by (auto simp: nth_list_update)
  qed (use Cons.prems in simp)
qed simp

lemma cells_total:
  assumes "\<And>i p. (i, p) \<in> set cells \<Longrightarrow> i < length t \<and> p < length (t ! i)"
  shows "\<exists>u. res_fold cell_write (zip cells vs) t = Inr u"
  using assms
proof (induction cells arbitrary: vs t)
  case (Cons c cells)
  obtain i p where c: "c = (i, p)" by force
  show ?case
  proof (cases vs)
    case (Cons v vs')
    let ?t = "t[i := (t ! i)[p := v]]"
    have "cell_write (c, v) t = Inr ?t" using Cons.prems c by (auto simp: cell_write_Inr)
    moreover have "\<exists>u. res_fold cell_write (zip cells vs') ?t = Inr u"
    proof (rule Cons.IH)
      fix j q assume "(j, q) \<in> set cells"
      then show "j < length ?t \<and> q < length (?t ! j)" using Cons.prems [of j q] by (auto simp: nth_list_update)
    qed
    ultimately show ?thesis using Cons by auto
  qed simp
qed simp

lemma cells_values:
  assumes "res_fold cell_write (zip cells vs) t = Inr u" and "distinct cells" and "length vs = length cells"
    and "k < length cells" and "cells ! k = (i, p)"
  shows "u ! i ! p = vs ! k"
  using assms
proof (induction cells arbitrary: vs t k)
  case (Cons c cells)
  obtain v vs' where vs: "vs = v # vs'" using Cons.prems(3) by (cases vs) auto
  obtain j q where c: "c = (j, q)" by force
  let ?t = "t[j := (t ! j)[q := v]]"
  have w: "res_fold cell_write (zip cells vs') ?t = Inr u" "j < length t" "q < length (t ! j)"
    using cells_Cons [OF Cons.prems(1) [unfolded vs]] c by auto
  show ?case
  proof (cases k)
    case 0
    then have ip: "(i, p) = (j, q)" using Cons.prems(5) c by simp
    then have "(i, p) \<notin> set cells" using Cons.prems(2) c by auto
    then have "u ! i ! p = ?t ! i ! p" using cells_frame [OF w(1)] w(2,3) ip by auto
    then show ?thesis using 0 vs w(2,3) ip by auto
  next
    case (Suc k')
    then show ?thesis using Cons.IH [OF w(1), of k'] Cons.prems vs by auto
  qed
qed simp

section \<open>Restoring recorded slices\<close>

lemma patch_row:
  assumes "length x = length y"
  shows "length (take a x @ slice a b y @ drop (a + length (slice a b x)) x) = length x"
    and "p < length x \<Longrightarrow> (take a x @ slice a b y @ drop (a + length (slice a b x)) x) ! p =
           (if a \<le> p \<and> p < b then y ! p else x ! p)"
  using assms by (auto simp: slice_def nth_append min_def)

lemma table_assign_slice:
  assumes "same_dims t u" and "i < length t"
  obtains u' where "table_assign u i a b (slice a b (t ! i)) = Inr u'" and "same_dims t u'"
    and "\<And>j p. j < length t \<Longrightarrow> p < length (t ! j) \<Longrightarrow>
           u' ! j ! p = (if j = i \<and> a \<le> p \<and> p < b then t ! j ! p else u ! j ! p)"
proof -
  have len: "length u = length t" "length (u ! i) = length (t ! i)" using same_dimsD [OF assms(1)] assms(2) by auto
  let ?row = "take a (u ! i) @ slice a b (t ! i) @ drop (a + length (slice a b (u ! i))) (u ! i)"
  have dims: "same_dims t (u[i := ?row])"
    unfolding same_dims_def
  proof (rule nth_equalityI)
    fix j assume "j < length (map length t)"
    then show "map length t ! j = map length (u[i := ?row]) ! j"
      using patch_row(1) [OF len(2), of a b] same_dimsD [OF assms(1)] len(1) by (cases "j = i") auto
  qed (use len in simp)
  have assign: "table_assign u i a b (slice a b (t ! i)) = Inr (u[i := ?row])"
    using len assms(2) by (auto simp: table_assign_def Let_def)
  have "u[i := ?row] ! j ! p = (if j = i \<and> a \<le> p \<and> p < b then t ! j ! p else u ! j ! p)"
    if "j < length t" "p < length (t ! j)" for j p
    using patch_row(2) [OF len(2), of p a b] len that by (cases "j = i") auto
  then show ?thesis by (rule that [OF assign dims])
qed

lemma restore_slices:
  assumes "same_dims t u" and "\<And>i a b. (i, a, b) \<in> set rs \<Longrightarrow> i < length t"
    and "\<And>i p. i < length t \<Longrightarrow> p < length (t ! i) \<Longrightarrow>
           (\<And>a b. (i, a, b) \<in> set rs \<Longrightarrow> \<not> (a \<le> p \<and> p < b)) \<Longrightarrow> u ! i ! p = t ! i ! p"
  shows "res_fold (\<lambda>(i, a, b, old) u. table_assign u i a b old)
     (map (\<lambda>(i, a, b). (i, a, b, slice a b (t ! i))) rs) u = Inr t"
  using assms
proof (induction rs arbitrary: u)
  case Nil
  have "u = t"
  proof (rule nth_equalityI)
    show len: "length u = length t" using Nil.prems(1) by (rule same_dimsD)
    fix i assume "i < length u"
    then have i: "i < length t" "length (u ! i) = length (t ! i)" using same_dimsD [OF Nil.prems(1)] by auto
    then show "u ! i = t ! i" using Nil.prems(3) by (intro nth_equalityI) auto
  qed
  then show ?case by simp
next
  case (Cons r rs)
  obtain i a b where r: "r = (i, a, b)" by (cases r)
  then have i: "i < length t" using Cons.prems(2) [of i a b] by simp
  obtain u' where u': "table_assign u i a b (slice a b (t ! i)) = Inr u'" "same_dims t u'"
    "\<And>j p. j < length t \<Longrightarrow> p < length (t ! j) \<Longrightarrow>
        u' ! j ! p = (if j = i \<and> a \<le> p \<and> p < b then t ! j ! p else u ! j ! p)"
    using table_assign_slice [OF Cons.prems(1) i] by metis
  have "res_fold (\<lambda>(i, a, b, old) u. table_assign u i a b old)
     (map (\<lambda>(i, a, b). (i, a, b, slice a b (t ! i))) rs) u' = Inr t"
  proof (rule Cons.IH [OF u'(2)])
    fix j p assume jp: "j < length t" "p < length (t ! j)" "\<And>a b. (j, a, b) \<in> set rs \<Longrightarrow> \<not> (a \<le> p \<and> p < b)"
    show "u' ! j ! p = t ! j ! p"
    proof (cases "j = i \<and> a \<le> p \<and> p < b")
      case False
      then have "u ! j ! p = t ! j ! p" using Cons.prems(3) [of j p] jp r by auto
      with False show ?thesis using u'(3) [OF jp(1,2)] by auto
    qed (use u'(3) [OF jp(1,2)] in simp)
  qed (use Cons.prems(2) in auto)
  with u'(1) r show ?case by simp
qed

lemma set_page_cells: "(j, p) \<in> set (page_cells ps (i, f, l)) \<longleftrightarrow> j = i \<and> f * ps \<le> p \<and> p < l * ps"
  by (auto simp: page_cells_def)

lemma length_page_cells: "length (page_cells ps (i, f, l)) = (l - f) * ps"
  by (simp add: page_cells_def diff_mult_distrib)

text \<open>Writing a table and assigning the old slices back gives the old table.\<close>

lemma write_then_restore:
  assumes w: "write_page_table t allocated info ps = Inr u"
    and rows: "\<And>i f l. (i, f, l) \<in> set info \<Longrightarrow> i < length t"
  shows "res_fold (\<lambda>(i, a, b, old) u. table_assign u i a b old)
     (map (\<lambda>(i, f, l). (i, f * ps, l * ps, slice (f * ps) (l * ps) (t ! i))) info) u = Inr t"
proof -
  let ?cells = "concat (map (page_cells ps) info)"
  have f: "res_fold cell_write (zip ?cells allocated) t = Inr u"
    using w by (auto simp: write_page_table_def Let_def elim!: rbindE)
  have "res_fold (\<lambda>(i, a, b, old) u. table_assign u i a b old)
     (map (\<lambda>(i, a, b). (i, a, b, slice a b (t ! i))) (map (\<lambda>(i, f, l). (i, f * ps, l * ps)) info)) u = Inr t"
  proof (rule restore_slices [OF cells_dims [OF f]])
    fix i p assume ip: "i < length t" "p < length (t ! i)"
      and out: "\<And>a b. (i, a, b) \<in> set (map (\<lambda>(i, f, l). (i, f * ps, l * ps)) info) \<Longrightarrow> \<not> (a \<le> p \<and> p < b)"
    have "(i, p) \<notin> set ?cells"
    proof
      assume "(i, p) \<in> set ?cells"
      then obtain f l where "(i, f, l) \<in> set info" "f * ps \<le> p" "p < l * ps"
        using set_page_cells by fastforce
      then show False using out [of "f * ps" "l * ps"] by force
    qed
    then show "u ! i ! p = t ! i ! p" by (rule cells_frame [OF f _ ip])
  qed (use rows in auto)
  then show ?thesis by (simp add: comp_def case_prod_unfold)
qed

section \<open>What a write leaves in the rows\<close>

lemma cells_bounds:
  assumes "res_fold cell_write (zip cells vs) t = Inr u" and "length vs = length cells" and "(i, p) \<in> set cells"
  shows "i < length t \<and> p < length (t ! i)"
  using assms
proof (induction cells arbitrary: vs t)
  case (Cons c cells)
  obtain v vs' where vs: "vs = v # vs'" using Cons.prems(2) by (cases vs) auto
  from Cons.prems(1) [unfolded vs] obtain j q where c: "c = (j, q)" "j < length t" "q < length (t ! j)"
    and t': "res_fold cell_write (zip cells vs') (t[j := (t ! j)[q := v]]) = Inr u" by (rule cells_Cons)
  show ?case
  proof (cases "(i, p) = c")
    case False
    with Cons.IH [OF t'] Cons.prems(2,3) vs show ?thesis by simp
  qed (use c in simp)
qed simp

lemma distinct_page_cells:
  "distinct (map fst info) \<Longrightarrow> distinct (concat (map (page_cells ps) info))"
proof (induction info)
  case (Cons a info)
  obtain i f l where a: "a = (i, f, l)" by (cases a)
  have "set (page_cells ps a) \<inter> set (concat (map (page_cells ps) info)) = {}"
  proof (rule ccontr)
    assume "set (page_cells ps a) \<inter> set (concat (map (page_cells ps) info)) \<noteq> {}"
    then obtain j q b where b: "b \<in> set info" "(j, q) \<in> set (page_cells ps a)" "(j, q) \<in> set (page_cells ps b)"
      by auto
    obtain i' f' l' where bb: "b = (i', f', l')" by (cases b)
    have "fst b = i" using b(2,3) unfolding a bb set_page_cells by simp
    then show False using Cons.prems b(1) by (auto simp: a)
  qed
  moreover have "distinct (page_cells ps a)" by (auto simp: a page_cells_def distinct_map inj_on_def)
  ultimately show ?case using Cons by simp
qed simp

lemma slice_eq_map: "b \<le> length xs \<Longrightarrow> slice a b xs = map ((!) xs) [a..<b]"
  by (rule nth_equalityI) (auto simp: slice_def)

lemma written_slices:
  assumes w: "write_page_table t allocated info ps = Inr u" and d: "distinct (map fst info)"
  shows "concat (map (\<lambda>(i, f, l). slice (f * ps) (l * ps) (u ! i)) info) = allocated"
proof -
  let ?cells = "concat (map (page_cells ps) info)"
  have f: "res_fold cell_write (zip ?cells allocated) t = Inr u" and len: "length allocated = length ?cells"
    using w by (auto simp: write_page_table_def Let_def elim!: rbindE)
  note dims = cells_dims [OF f]
  have "slice (f * ps) (l * ps) (u ! i) = map (\<lambda>(i, p). u ! i ! p) (page_cells ps (i, f, l))"
    if mem: "(i, f, l) \<in> set info" for i f l
  proof (cases "f * ps < l * ps")
    case True
    then have "(i, l * ps - 1) \<in> set (page_cells ps (i, f, l))" unfolding set_page_cells by linarith
    then have "(i, l * ps - 1) \<in> set ?cells" using mem by auto
    then have "l * ps \<le> length (u ! i)" using cells_bounds [OF f len] same_dimsD [OF dims] by fastforce
    then show ?thesis by (simp add: slice_eq_map page_cells_def)
  next
    case False
    then have "l * ps \<le> f * ps" by linarith
    then have "slice (f * ps) (l * ps) (u ! i) = []" "[f * ps ..< l * ps] = []" by (rule slice_empty, simp)
    then show ?thesis by (simp add: page_cells_def)
  qed
  then have "concat (map (\<lambda>(i, f, l). slice (f * ps) (l * ps) (u ! i)) info)
      = map (\<lambda>(i, p). u ! i ! p) ?cells"
    by (auto simp: map_concat intro!: arg_cong [where f = concat])
  also have "\<dots> = allocated"
  proof (rule nth_equalityI)
    fix k assume "k < length (map (\<lambda>(i, p). u ! i ! p) ?cells)"
    then show "map (\<lambda>(i, p). u ! i ! p) ?cells ! k = allocated ! k"
      using cells_values [OF f distinct_page_cells [OF d] len, of k] by (auto simp: case_prod_unfold)
  qed (use len in simp)
  finally show ?thesis .
qed

text \<open>Rows outside the written ranges keep their contents.\<close>

lemma write_frame:
  assumes w: "write_page_table t allocated info ps = Inr u"
  shows "same_dims t u"
    and "i < length t \<Longrightarrow> p < length (t ! i) \<Longrightarrow>
      (\<And>f l. (i, f, l) \<in> set info \<Longrightarrow> \<not> (f * ps \<le> p \<and> p < l * ps)) \<Longrightarrow> u ! i ! p = t ! i ! p"
proof -
  let ?cells = "concat (map (page_cells ps) info)"
  have f: "res_fold cell_write (zip ?cells allocated) t = Inr u"
    using w by (auto simp: write_page_table_def Let_def elim!: rbindE)
  show "same_dims t u" by (rule cells_dims [OF f])
  assume *: "i < length t" "p < length (t ! i)" "\<And>f l. (i, f, l) \<in> set info \<Longrightarrow> \<not> (f * ps \<le> p \<and> p < l * ps)"
  have "(i, p) \<notin> set ?cells" using * set_page_cells by fastforce
  then show "u ! i ! p = t ! i ! p" by (rule cells_frame [OF f _ *(1,2)])
qed

lemma write_total:
  assumes "\<And>i f l. (i, f, l) \<in> set info \<Longrightarrow> i < length t \<and> l * ps \<le> length (t ! i)"
    and "length allocated = (\<Sum>(i, f, l)\<leftarrow>info. l - f) * ps"
  shows "\<exists>u. write_page_table t allocated info ps = Inr u"
proof -
  let ?cells = "concat (map (page_cells ps) info)"
  have "length ?cells = (\<Sum>(i, f, l)\<leftarrow>info. l - f) * ps"
    by (induction info) (auto simp: length_page_cells algebra_simps)
  moreover have "\<exists>u. res_fold cell_write (zip ?cells allocated) t = Inr u"
    using assms(1) set_page_cells by (intro cells_total) fastforce
  ultimately show ?thesis using assms(2) by (auto simp: write_page_table_def Let_def)
qed

end
