(* ===== verification/CachePages.thy ===== *)
theory CachePages
  imports PageTable
begin

text \<open>
  Conservation of pages. Every page of the pool is in exactly one place: the free list, the list of
  a lazy-free region, the prefix cache, or owned by a request (\<open>own\<close>). The equation is between
  multisets and the pool is a set of distinct pages, so a double free or a leak breaks it. The
  lemmas hold for any prefix cache that meets the contract.
\<close>

definition page_set :: "nat \<Rightarrow> nat \<Rightarrow> slot multiset" where
  "page_set n ps = mset (map (\<lambda>i. int i * int ps) [0..<n])"

definition lazy_slots :: "'c cache_manager \<Rightarrow> slot list" where
  "lazy_slots cm = (case cm_lazy cm of None \<Rightarrow> [] | Some l \<Rightarrow> concat l)"

definition cm_ok ::
  "(nat \<Rightarrow> 'c \<Rightarrow> handle multiset \<Rightarrow> bool) \<Rightarrow> (nat \<Rightarrow> 'c \<Rightarrow> slot multiset) \<Rightarrow>
   handle multiset \<Rightarrow> slot multiset \<Rightarrow> 'c cache_manager \<Rightarrow> bool" where
  "cm_ok invar pages H own cm \<longleftrightarrow> invar (cm_page_size cm) (cm_cache cm) H \<and>
     mset (cm_free cm) + mset (lazy_slots cm) + pages (cm_page_size cm) (cm_cache cm) + own
       = page_set (cm_num_pages cm) (cm_page_size cm)"

text \<open>The fields an operation leaves alone.\<close>

definition cm_frame :: "'c cache_manager \<Rightarrow> 'c cache_manager \<Rightarrow> bool" where
  "cm_frame cm cm' \<longleftrightarrow> cm_num_pages cm' = cm_num_pages cm \<and> cm_page_size cm' = cm_page_size cm \<and>
     cm_table cm' = cm_table cm"

lemma cm_frame_refl [simp]: "cm_frame cm cm"
  by (simp add: cm_frame_def)

lemma cm_frame_trans: "cm_frame a b \<Longrightarrow> cm_frame b c \<Longrightarrow> cm_frame a c"
  by (simp add: cm_frame_def)

lemma size_page_set [simp]: "size (page_set n ps) = n"
  by (simp add: page_set_def)

lemma page_set_distinct: "0 < ps \<Longrightarrow> count (page_set n ps) x \<le> 1"
proof -
  assume "0 < ps"
  then have "distinct (map (\<lambda>i. int i * int ps) [0..<n])" by (auto simp: distinct_map inj_on_def)
  then show ?thesis by (simp add: page_set_def distinct_count_atmost_1)
qed

lemma page_set_dvd: "x \<in># page_set n ps \<Longrightarrow> x mod int ps = 0"
  by (auto simp: page_set_def)

lemma stride_slice_split:
  assumes "0 < p" and "a \<le> b" "b \<le> c" "c \<le> length xs" and "p dvd b - a"
  shows "stride p (slice a c xs) = stride p (slice a b xs) @ stride p (slice b c xs)"
proof -
  have "length (slice a b xs) = b - a" using assms by simp
  then show ?thesis
    unfolding slice_split [OF assms(2,3)] by (intro stride_append) (use assms in auto)
qed

lemma free_indices_simps:
  "cm_cache (cm_free_indices cm xs) = cm_cache cm" "cm_frame cm (cm_free_indices cm xs)"
  "cm_page_size (cm_free_indices cm xs) = cm_page_size cm"
  "cm_num_pages (cm_free_indices cm xs) = cm_num_pages cm"
  "cm_table (cm_free_indices cm xs) = cm_table cm"
  "cm_lazy (cm_free_indices cm xs) = None \<longleftrightarrow> cm_lazy cm = None"
  "mset (cm_free (cm_free_indices cm xs)) + mset (lazy_slots (cm_free_indices cm xs)) =
     mset (cm_free cm) + mset (lazy_slots cm) + mset (stride (cm_page_size cm) xs)"
  by (auto simp: cm_free_indices_def cm_frame_def lazy_slots_def split: option.splits)

section \<open>What a batch needs\<close>

definition pages_needed :: "nat \<Rightarrow> req list \<Rightarrow> nat" where
  "pages_needed ps reqs = (\<Sum>r\<leftarrow>reqs. page_ceil ps (r_device_len r) - page_ceil ps (r_cached_len r))"

definition rows_ok :: "nat \<Rightarrow> slot list list \<Rightarrow> req list \<Rightarrow> bool" where
  "rows_ok ps table reqs \<longleftrightarrow> (\<forall>r\<in>set reqs. r_table_idx r < length table \<and>
     page_ceil ps (r_device_len r) * ps \<le> length (table ! r_table_idx r))"

abbreviation batch_info :: "nat \<Rightarrow> req list \<Rightarrow> (nat \<times> nat \<times> nat) list" where
  "batch_info ps reqs \<equiv> List.map_filter (req_pages ps) reqs"

lemma batch_info_simps [simp]:
  "batch_info ps [] = []"
  "batch_info ps (r # rs) = (case req_pages ps r of None \<Rightarrow> batch_info ps rs | Some x \<Rightarrow> x # batch_info ps rs)"
  by (simp_all add: List.map_filter_simps)

lemma batch_info_sum: "sum_list (map (\<lambda>(_, f, l). l - f) (batch_info ps reqs)) = pages_needed ps reqs"
  by (induction reqs) (auto simp: pages_needed_def req_pages_def Let_def)

lemma in_batch_info:
  "(i, f, l) \<in> set (batch_info ps reqs) \<longleftrightarrow> (\<exists>r\<in>set reqs. i = r_table_idx r \<and>
     f = page_ceil ps (r_cached_len r) \<and> l = page_ceil ps (r_device_len r) \<and> f < l)"
  by (induction reqs) (auto simp: req_pages_def Let_def)

lemma batch_info_distinct: "distinct (map r_table_idx reqs) \<Longrightarrow> distinct (map fst (batch_info ps reqs))"
proof (induction reqs)
  case (Cons r reqs)
  have "fst x \<in> r_table_idx ` set reqs" if "x \<in> set (batch_info ps reqs)" for x
    using that in_batch_info [of "fst x" "fst (snd x)" "snd (snd x)" ps reqs] by auto
  moreover have "fst x = r_table_idx r" if "req_pages ps r = Some x" for x
    using that by (auto simp: req_pages_def Let_def split: if_splits)
  ultimately show ?case using Cons by (fastforce split: option.splits)
qed simp

lemma batch_info_slices:
  "concat (map (\<lambda>(i, f, l). slice (f * ps) (l * ps) (t ! i)) (batch_info ps reqs)) =
   concat (map (\<lambda>r. slice (page_ceil ps (r_cached_len r) * ps) (page_ceil ps (r_device_len r) * ps)
     (t ! r_table_idx r)) reqs)"
  by (induction reqs) (auto simp: req_pages_def Let_def)

definition old_slices :: "nat \<Rightarrow> slot list list \<Rightarrow> req list \<Rightarrow> (nat \<times> nat \<times> nat \<times> slot list) list" where
  "old_slices ps t reqs = map (\<lambda>(i, f, l). (i, f * ps, l * ps, slice (f * ps) (l * ps) (t ! i))) (batch_info ps reqs)"

section \<open>The clients of the contract\<close>

context prefix_cache
begin

abbreviation ok where "ok \<equiv> cm_ok inv pages"

lemma ok_page_pos: "ok H own cm \<Longrightarrow> 0 < cm_page_size cm"
  by (auto simp: cm_ok_def dest: page_pos)

lemma new_ok:
  "inv ps c {#} \<Longrightarrow> pages ps c = {#} \<Longrightarrow> ok {#} {#} (new_cache_manager n ps table c)"
  by (simp add: cm_ok_def new_cache_manager_def lazy_slots_def page_set_def)

lemma free_ok:
  "ok H (mset (stride (cm_page_size cm) xs) + own) cm \<Longrightarrow> ok H own (cm_free_indices cm xs)"
  by (simp add: cm_ok_def free_indices_simps add_ac)

lemma match_ok:
  assumes "ok H own cm" and "ids \<noteq> []"
  shows "\<exists>h cm' vs. match_req cls cm ids = Inr (h, cm') \<and> ok H own cm' \<and> cm_frame cm cm' \<and>
    cm_lazy cm' = cm_lazy cm \<and> cm_free cm' = cm_free cm \<and> available_size cls cm' = available_size cls cm \<and>
    handle_len h < length ids \<and> live (cm_cache cm') h (take (handle_len h) ids) vs \<and>
    (\<forall>h xs vs. live (cm_cache cm) h xs vs \<longrightarrow> live (cm_cache cm') h xs vs)"
proof -
  let ?ids = "take (length ids - 1) ids"
  have "inv (cm_page_size cm) (cm_cache cm) H" using assms by (simp add: cm_ok_def)
  then obtain h c vs where m: "pc_match_prefix cls (cm_cache cm) ?ids = Inr (h, c)"
    "inv (cm_page_size cm) c H" "pages (cm_page_size cm) c = pages (cm_page_size cm) (cm_cache cm)"
    "pc_size_info cls c = pc_size_info cls (cm_cache cm)" "handle_len h \<le> length ?ids"
    "live c h (take (handle_len h) ?ids) vs" "\<forall>h xs vs. live (cm_cache cm) h xs vs \<longrightarrow> live c h xs vs"
    using match by blast
  have "take (handle_len h) ?ids = take (handle_len h) ids" using m(5) by (simp add: min.absorb1)
  moreover have "handle_len h < length ids" using m(5) assms(2) by (cases ids) auto
  ultimately show ?thesis using m assms
    by (intro exI [of _ h] exI [of _ "cm\<lparr>cm_cache := c\<rparr>"] exI [of _ vs])
      (auto simp: match_req_def cm_ok_def cm_frame_def lazy_slots_def available_size_def)
qed

lemma lock_ok:
  assumes "ok H own cm" and "live (cm_cache cm) h xs vs"
  shows "\<exists>cm'. cm_lock cls cm h = Inr cm' \<and> ok (add_mset h H) own cm' \<and> cm_frame cm cm' \<and>
    cm_lazy cm' = cm_lazy cm \<and> cm_free cm' = cm_free cm \<and> available_size cls cm' \<le> available_size cls cm \<and>
    (\<forall>h xs vs. live (cm_cache cm) h xs vs \<longrightarrow> live (cm_cache cm') h xs vs)"
proof -
  have "inv (cm_page_size cm) (cm_cache cm) H" using assms by (simp add: cm_ok_def)
  then obtain c where c: "pc_lock_handle cls (cm_cache cm) h False = Inr c" "inv (cm_page_size cm) c (add_mset h H)"
    "pages (cm_page_size cm) c = pages (cm_page_size cm) (cm_cache cm)"
    "si_evictable (pc_size_info cls c) \<le> si_evictable (pc_size_info cls (cm_cache cm))"
    "\<forall>h xs vs. live (cm_cache cm) h xs vs \<longrightarrow> live c h xs vs" using lock assms(2) by blast
  then show ?thesis using assms(1)
    by (intro exI [of _ "cm\<lparr>cm_cache := c\<rparr>"])
      (auto simp: cm_lock_def cm_ok_def cm_frame_def lazy_slots_def available_size_def)
qed

lemma unlock_ok:
  assumes "ok (add_mset h H) own cm"
  shows "\<exists>cm'. cm_unlock cls cm h = Inr cm' \<and> ok H own cm' \<and> cm_frame cm cm' \<and>
    cm_lazy cm' = cm_lazy cm \<and> cm_free cm' = cm_free cm \<and> available_size cls cm \<le> available_size cls cm' \<and>
    (\<forall>h xs vs. live (cm_cache cm) h xs vs \<longrightarrow> live (cm_cache cm') h xs vs)"
proof -
  have "inv (cm_page_size cm) (cm_cache cm) (add_mset h H)" using assms by (simp add: cm_ok_def)
  then obtain c where c: "pc_lock_handle cls (cm_cache cm) h True = Inr c" "inv (cm_page_size cm) c H"
    "pages (cm_page_size cm) c = pages (cm_page_size cm) (cm_cache cm)"
    "si_evictable (pc_size_info cls (cm_cache cm)) \<le> si_evictable (pc_size_info cls c)"
    "\<forall>h xs vs. live (cm_cache cm) h xs vs \<longrightarrow> live c h xs vs" using unlock by blast
  then show ?thesis using assms
    by (intro exI [of _ "cm\<lparr>cm_cache := c\<rparr>"])
      (auto simp: cm_unlock_def cm_ok_def cm_frame_def lazy_slots_def available_size_def)
qed

lemma lock_available:
  assumes "ok H own cm" and "live (cm_cache cm) h xs vs"
    and "cm_lock cls cm h = Inr cm1" and "cm_unlock cls cm1 h = Inr cm2"
  shows "available_size cls cm2 = available_size cls cm"
proof -
  have I: "inv (cm_page_size cm) (cm_cache cm) H" using assms by (simp add: cm_ok_def)
  obtain c1 where c1: "pc_lock_handle cls (cm_cache cm) h False = Inr c1" "cm1 = cm\<lparr>cm_cache := c1\<rparr>"
    using assms(3) by (auto simp: cm_lock_def elim!: rbindE)
  obtain c2 where c2: "pc_lock_handle cls c1 h True = Inr c2" "cm2 = cm1\<lparr>cm_cache := c2\<rparr>"
    using assms(4) c1(2) by (auto simp: cm_unlock_def elim!: rbindE)
  show ?thesis using lock_unlock [OF I assms(2) c1(1) c2(1)] c1(2) c2(2) by (simp add: available_size_def)
qed

lemma allocate_ok:
  assumes ok: "ok H own cm" and need: "int (n * cm_page_size cm) \<le> available_size cls cm"
  shows "\<exists>ps cm'. cm_allocate cls cm n = Inr (ps, cm') \<and> length ps = n \<and> ok H (mset ps + own) cm' \<and>
    cm_frame cm cm' \<and> cm_lazy cm' = cm_lazy cm \<and>
    available_size cls cm' = available_size cls cm - int (n * cm_page_size cm) \<and>
    (\<forall>h\<in>#H. \<forall>xs vs. live (cm_cache cm) h xs vs \<longrightarrow> live (cm_cache cm') h xs vs)"
proof (cases "n > length (cm_free cm)")
  case False
  then have "mset (cm_free cm) = mset (take n (cm_free cm)) + mset (drop n (cm_free cm))"
    by (metis append_take_drop_id mset_append)
  then show ?thesis using ok False
    by (intro exI [of _ "take n (cm_free cm)"] exI [of _ "cm\<lparr>cm_free := drop n (cm_free cm)\<rparr>"])
      (auto simp: cm_allocate_def cm_ok_def cm_frame_def lazy_slots_def available_size_def of_nat_diff algebra_simps)
next
  case True
  let ?p = "cm_page_size cm" and ?f = "cm_free cm"
  let ?k = "(n - length ?f) * ?p"
  have I: "inv ?p (cm_cache cm) H" using ok by (simp add: cm_ok_def)
  then have p: "0 < ?p" by (rule page_pos)
  have "int ?k \<le> si_evictable (pc_size_info cls (cm_cache cm))"
    using need True by (simp add: available_size_def of_nat_diff algebra_simps)
  then obtain ev c where ev: "pc_evict cls (cm_cache cm) ?k = Inr (ev, c)" "?k \<le> length ev" "?p dvd length ev"
    "inv ?p c H" "pages ?p (cm_cache cm) = pages ?p c + mset (stride ?p ev)"
    "si_evictable (pc_size_info cls c) = si_evictable (pc_size_info cls (cm_cache cm)) - int (length ev)"
    "\<forall>h\<in>#H. \<forall>xs vs. live (cm_cache cm) h xs vs \<longrightarrow> live c h xs vs" using evict [OF I] by blast
  have len: "?p * length (stride ?p ev) = length ev" by (rule length_stride [OF p ev(3)])
  then have "(n - length ?f) * ?p \<le> length (stride ?p ev) * ?p" using ev(2) by (simp add: mult.commute)
  then have enough: "n \<le> length (?f @ stride ?p ev)" using p by simp
  let ?g = "?f @ stride ?p ev"
  have "mset ?g = mset (take n ?g) + mset (drop n ?g)" by (metis append_take_drop_id mset_append)
  then have sum: "mset (take n ?g) + mset (drop n ?g) = mset ?f + mset (stride ?p ev)" by simp
  have "cm_allocate cls cm n = Inr (take n ?g, cm\<lparr>cm_cache := c, cm_free := drop n ?g\<rparr>)"
    using True ev(1) enough by (simp add: cm_allocate_def Let_def del: take_append drop_append)
  moreover have "int (length (drop n ?g)) * int ?p = int (length ?f * ?p) + int (length ev) - int (n * ?p)"
    using enough len unfolding length_drop by (simp add: of_nat_diff algebra_simps flip: of_nat_mult of_nat_add)
  ultimately show ?thesis using ok ev enough sum
    by (intro exI [of _ "take n ?g"] exI [of _ "cm\<lparr>cm_cache := c, cm_free := drop n ?g\<rparr>"])
      (auto simp: cm_ok_def cm_frame_def lazy_slots_def available_size_def add_ac simp del: take_append drop_append)
qed

text \<open>
  The allocation of a batch, in terms of the allocator and the scattered write. When nothing is
  needed the token is empty and the manager unchanged.
\<close>

lemma allocate_paged_split:
  assumes ok: "ok H own cm" and rows: "rows_ok (cm_page_size cm) (cm_table cm) reqs"
    and need: "int (pages_needed (cm_page_size cm) reqs * cm_page_size cm) \<le> available_size cls cm"
    and pos: "0 < pages_needed (cm_page_size cm) reqs"
  obtains ps cm1 t where "cm_allocate cls cm (pages_needed (cm_page_size cm) reqs) = Inr (ps, cm1)"
    and "write_page_table (cm_table cm) (page_to_token (cm_page_size cm) ps)
           (batch_info (cm_page_size cm) reqs) (cm_page_size cm) = Inr t"
    and "allocate_paged cls cm reqs = Inr (\<lparr>tk_allocated = page_to_token (cm_page_size cm) ps,
           tk_overwrites = old_slices (cm_page_size cm) (cm_table cm) reqs\<rparr>, cm1\<lparr>cm_table := t\<rparr>)"
proof -
  let ?p = "cm_page_size cm" and ?n = "pages_needed (cm_page_size cm) reqs"
  let ?info = "batch_info ?p reqs"
  have p: "0 < ?p" using ok by (rule ok_page_pos)
  obtain ps cm1 where a: "cm_allocate cls cm ?n = Inr (ps, cm1)" "length ps = ?n" "cm_frame cm cm1"
    using allocate_ok [OF ok need] by blast
  have table: "cm_table cm1 = cm_table cm" using a(3) by (simp add: cm_frame_def)
  have info: "i < length (cm_table cm) \<and> l * ?p \<le> length (cm_table cm ! i)" if "(i, f, l) \<in> set ?info" for i f l
    using that rows by (auto simp: in_batch_info rows_ok_def)
  have len: "length (page_to_token ?p ps) = (\<Sum>(i, f, l)\<leftarrow>?info. l - f) * ?p"
    using a(2) batch_info_sum [of ?p reqs] by (simp add: length_page_to_token [OF p])
  have "\<exists>t. write_page_table (cm_table cm) (page_to_token ?p ps) ?info ?p = Inr t"
    by (rule write_total [OF info len])
  then obtain t where t: "write_page_table (cm_table cm) (page_to_token ?p ps) ?info ?p = Inr t" by blast
  have "res_map (\<lambda>(i, f, l). let first_pos = f * ?p; last_pos = l * ?p in
            rbind (table_slice (cm_table cm) i first_pos last_pos) (\<lambda>old.
            Inr (i, first_pos, last_pos, old))) ?info = Inr (old_slices ?p (cm_table cm) reqs)"
    unfolding old_slices_def using info by (intro res_map_total) (auto simp: table_slice_def Let_def)
  then have "allocate_paged cls cm reqs = Inr (\<lparr>tk_allocated = page_to_token ?p ps,
           tk_overwrites = old_slices ?p (cm_table cm) reqs\<rparr>, cm1\<lparr>cm_table := t\<rparr>)"
    using a(1) t table pos unfolding allocate_paged_def Let_def batch_info_sum by simp
  with a(1) t show ?thesis by (rule that)
qed

lemma allocate_paged_none:
  "pages_needed (cm_page_size cm) reqs = 0 \<Longrightarrow>
     allocate_paged cls cm reqs = Inr (\<lparr>tk_allocated = [], tk_overwrites = []\<rparr>, cm)"
  using batch_info_sum [of "cm_page_size cm" reqs] by (simp add: allocate_paged_def Let_def)

lemma pages_needed_0:
  assumes "pages_needed ps reqs = 0"
  shows "batch_info ps reqs = []"
proof -
  have "\<not> page_ceil ps (r_cached_len r) < page_ceil ps (r_device_len r)" if "r \<in> set reqs" for r
    using assms that by (auto simp: pages_needed_def)
  then show ?thesis by (metis in_batch_info last_in_set prod_cases3)
qed

lemma allocate_paged_ok:
  assumes ok: "ok H own cm" and rows: "rows_ok (cm_page_size cm) (cm_table cm) reqs"
    and need: "int (pages_needed (cm_page_size cm) reqs * cm_page_size cm) \<le> available_size cls cm"
  shows "\<exists>tok cm'. allocate_paged cls cm reqs = Inr (tok, cm') \<and>
    ok H (mset (stride (cm_page_size cm) (tk_allocated tok)) + own) cm' \<and>
    cm_num_pages cm' = cm_num_pages cm \<and> cm_page_size cm' = cm_page_size cm \<and> cm_lazy cm' = cm_lazy cm \<and>
    length (tk_allocated tok) = pages_needed (cm_page_size cm) reqs * cm_page_size cm \<and>
    available_size cls cm' = available_size cls cm - int (length (tk_allocated tok)) \<and>
    (\<forall>h\<in>#H. \<forall>xs vs. live (cm_cache cm) h xs vs \<longrightarrow> live (cm_cache cm') h xs vs) \<and>
    same_dims (cm_table cm) (cm_table cm') \<and>
    (\<forall>i p. i < length (cm_table cm) \<longrightarrow> p < length (cm_table cm ! i) \<longrightarrow>
       (\<forall>r\<in>set reqs. r_table_idx r = i \<longrightarrow> p < page_ceil (cm_page_size cm) (r_cached_len r) * cm_page_size cm) \<longrightarrow>
       cm_table cm' ! i ! p = cm_table cm ! i ! p) \<and>
    (distinct (map r_table_idx reqs) \<longrightarrow>
       concat (map (\<lambda>r. slice (page_ceil (cm_page_size cm) (r_cached_len r) * cm_page_size cm)
         (page_ceil (cm_page_size cm) (r_device_len r) * cm_page_size cm) (cm_table cm' ! r_table_idx r)) reqs) =
       tk_allocated tok)"
proof (cases "pages_needed (cm_page_size cm) reqs = 0")
  case True
  then show ?thesis
    using allocate_paged_none [OF True] ok
      batch_info_slices [of "cm_page_size cm" "cm_table cm" reqs] pages_needed_0 [OF True] by auto
next
  case False
  let ?p = "cm_page_size cm"
  have p: "0 < ?p" using ok by (rule ok_page_pos)
  from False have pos: "0 < pages_needed ?p reqs" by simp
  obtain ps cm1 t where a: "cm_allocate cls cm (pages_needed ?p reqs) = Inr (ps, cm1)"
    and w: "write_page_table (cm_table cm) (page_to_token ?p ps) (batch_info ?p reqs) ?p = Inr t"
    and eq: "allocate_paged cls cm reqs = Inr (\<lparr>tk_allocated = page_to_token ?p ps,
           tk_overwrites = old_slices ?p (cm_table cm) reqs\<rparr>, cm1\<lparr>cm_table := t\<rparr>)"
    by (rule allocate_paged_split [OF ok rows need pos])
  have A: "length ps = pages_needed ?p reqs" "ok H (mset ps + own) cm1" "cm_frame cm cm1"
    "cm_lazy cm1 = cm_lazy cm" "available_size cls cm1 = available_size cls cm - int (pages_needed ?p reqs * ?p)"
    "\<forall>h\<in>#H. \<forall>xs vs. live (cm_cache cm) h xs vs \<longrightarrow> live (cm_cache cm1) h xs vs"
    using allocate_ok [OF ok need] a by auto
  have "t ! i ! q = cm_table cm ! i ! q" if "i < length (cm_table cm)" "q < length (cm_table cm ! i)"
    "\<forall>r\<in>set reqs. r_table_idx r = i \<longrightarrow> q < page_ceil ?p (r_cached_len r) * ?p" for i q
    using that by (intro write_frame(2) [OF w]) (auto simp: in_batch_info not_le)
  moreover have "concat (map (\<lambda>r. slice (page_ceil ?p (r_cached_len r) * ?p)
         (page_ceil ?p (r_device_len r) * ?p) (t ! r_table_idx r)) reqs) = page_to_token ?p ps"
    if "distinct (map r_table_idx reqs)"
    using written_slices [OF w batch_info_distinct [OF that]] batch_info_slices [of ?p t reqs] by simp
  ultimately show ?thesis
    using eq A write_frame(1) [OF w] stride_page_to_token [OF p, of ps] length_page_to_token [OF p, of ps]
    by (auto simp: cm_ok_def cm_frame_def lazy_slots_def available_size_def)
qed

text \<open>Undoing it.\<close>

lemma rollback_ok:
  assumes ok: "ok H own cm" and rows: "rows_ok (cm_page_size cm) (cm_table cm) reqs" and lazy: "cm_lazy cm = None"
    and need: "int (pages_needed (cm_page_size cm) reqs * cm_page_size cm) \<le> available_size cls cm"
    and a: "allocate_paged cls cm reqs = Inr (tok, cm')"
  shows "\<exists>cm''. rollback_allocation cm' tok = Inr cm'' \<and> cm_table cm'' = cm_table cm \<and>
    cm_cache cm'' = cm_cache cm' \<and> cm_lazy cm'' = None \<and> ok H own cm'' \<and>
    available_size cls cm'' = available_size cls cm"
proof (cases "pages_needed (cm_page_size cm) reqs = 0")
  case True
  then show ?thesis using allocate_paged_none [OF True] ok a lazy by (auto simp: rollback_allocation_def)
next
  case False
  let ?p = "cm_page_size cm"
  have p: "0 < ?p" using ok by (rule ok_page_pos)
  from False have pos: "0 < pages_needed ?p reqs" by simp
  obtain ps cm1 t where al: "cm_allocate cls cm (pages_needed ?p reqs) = Inr (ps, cm1)"
    and w: "write_page_table (cm_table cm) (page_to_token ?p ps) (batch_info ?p reqs) ?p = Inr t"
    and eq: "allocate_paged cls cm reqs = Inr (\<lparr>tk_allocated = page_to_token ?p ps,
           tk_overwrites = old_slices ?p (cm_table cm) reqs\<rparr>, cm1\<lparr>cm_table := t\<rparr>)"
    by (rule allocate_paged_split [OF ok rows need pos])
  have A: "length ps = pages_needed ?p reqs" "ok H (mset ps + own) cm1" "cm_frame cm cm1"
    "cm_lazy cm1 = None" "available_size cls cm1 = available_size cls cm - int (pages_needed ?p reqs * ?p)"
    using allocate_ok [OF ok need] al lazy by auto
  have tok: "tok = \<lparr>tk_allocated = page_to_token ?p ps, tk_overwrites = old_slices ?p (cm_table cm) reqs\<rparr>"
    and cm': "cm' = cm1\<lparr>cm_table := t\<rparr>" using eq a by auto
  have "res_fold (\<lambda>(i, a, b, old) u. table_assign u i a b old) (old_slices ?p (cm_table cm) reqs) t = Inr (cm_table cm)"
    unfolding old_slices_def using rows by (intro write_then_restore [OF w]) (auto simp: in_batch_info rows_ok_def)
  moreover have "0 < length (page_to_token ?p ps)" using length_page_to_token [OF p, of ps] A(1) pos p by simp
  ultimately have "rollback_allocation cm' tok =
      Inr (cm1\<lparr>cm_table := cm_table cm, cm_free := cm_free cm1 @ ps\<rparr>)"
    using A(3,4) stride_page_to_token [OF p, of ps]
    by (simp add: rollback_allocation_def tok cm' cm_free_indices_def cm_frame_def)
  then show ?thesis
    using A cm' ok by (auto simp: cm_ok_def cm_frame_def lazy_slots_def available_size_def algebra_simps)
qed

text \<open>
  Giving a request's pages to the cache. The pages the request allocated, after the prefix its
  handle stands for, split into the ones another request has inserted meanwhile (freed), the
  ones that become part of the cache, and the unfinished page at the end.
\<close>

definition req_wf :: "'c cache_manager \<Rightarrow> req \<Rightarrow> bool" where
  "req_wf cm r \<longleftrightarrow> r_table_idx r < length (cm_table cm) \<and>
     r_cached_len r \<le> length (cm_table cm ! r_table_idx r) \<and> r_cached_len r \<le> length (r_input_ids r) \<and>
     handle_len (r_handle r) \<le> r_cached_len r \<and>
     (\<exists>vs. live (cm_cache cm) (r_handle r) (take (handle_len (r_handle r)) (r_input_ids r)) vs)"

definition req_own :: "'c cache_manager \<Rightarrow> req \<Rightarrow> nat \<Rightarrow> slot multiset" where
  "req_own cm r n = mset (stride (cm_page_size cm) (slice (handle_len (r_handle r)) n (cm_table cm ! r_table_idx r)))"

lemma cache_req_split:
  assumes ok: "ok (add_mset (r_handle r) H) (req_own cm r (r_cached_len r) + own) cm" and wf: "req_wf cm r"
  obtains q h cm1 vs where
    "pc_insert_prefix cls (cm_cache cm) (take (r_cached_len r) (r_input_ids r))
       (take (r_cached_len r) (cm_table cm ! r_table_idx r)) = Inr ((q, h), cm_cache cm1)"
    and "cm_frame cm cm1" and "cm_lazy cm1 = cm_lazy cm" and "cm_free cm1 = cm_free cm"
    and "handle_len (r_handle r) \<le> q" and "q \<le> handle_len h" and "handle_len h \<le> r_cached_len r"
    and "cm_page_size cm dvd q" and "cm_page_size cm dvd handle_len h"
    and "live (cm_cache cm1) h (take (handle_len h) (r_input_ids r)) vs"
    and "drop q vs = slice q (handle_len h) (cm_table cm ! r_table_idx r)"
    and "\<And>h xs vs. live (cm_cache cm) h xs vs \<Longrightarrow> live (cm_cache cm1) h xs vs"
    and "ok (add_mset (r_handle r) H)
       (mset (stride (cm_page_size cm) (slice (handle_len (r_handle r)) q (cm_table cm ! r_table_idx r)))
        + mset (stride (cm_page_size cm) (slice (handle_len h) (r_cached_len r) (cm_table cm ! r_table_idx r)))
        + own) cm1"
proof -
  let ?p = "cm_page_size cm" and ?row = "cm_table cm ! r_table_idx r" and ?n = "r_cached_len r"
  let ?ids = "take ?n (r_input_ids r)" and ?us = "take ?n ?row" and ?hl = "handle_len (r_handle r)"
  have I: "inv ?p (cm_cache cm) (add_mset (r_handle r) H)" using ok by (simp add: cm_ok_def)
  have p: "0 < ?p" by (rule page_pos [OF I])
  obtain vs0 where l0: "live (cm_cache cm) (r_handle r) (take ?hl (r_input_ids r)) vs0" using wf by (auto simp: req_wf_def)
  have lens: "length ?us = length ?ids" "length ?ids = ?n" "?hl \<le> ?n" using wf by (auto simp: req_wf_def)
  obtain q h c vs where i: "pc_insert_prefix cls (cm_cache cm) ?ids ?us = Inr ((q, h), c)"
    "inv ?p c (add_mset (r_handle r) H)" "q \<le> handle_len h" "handle_len h \<le> length ?ids" "?p dvd q"
    "live c h (take (handle_len h) ?ids) vs" "drop q vs = slice q (handle_len h) ?us"
    "pages ?p c = pages ?p (cm_cache cm) + mset (stride ?p (slice q (handle_len h) ?us))"
    "\<forall>h xs vs. live (cm_cache cm) h xs vs \<longrightarrow> live c h xs vs"
    "\<forall>h xs vs. live (cm_cache cm) h xs vs \<longrightarrow> length xs \<le> length ?ids \<longrightarrow> take (length xs) ?ids = xs \<longrightarrow> length xs \<le> q"
    using insert [OF I lens(1)] by blast
  have hn: "handle_len h \<le> ?n" using i(4) lens(2) by simp
  have len0: "length (take ?hl (r_input_ids r)) = ?hl" using lens wf by (simp add: req_wf_def)
  have "take ?hl ?ids = take ?hl (r_input_ids r)" using lens(3) by (simp add: min.absorb1)
  then have hq: "?hl \<le> q" using i(10) l0 len0 lens(2,3) by (metis (no_types))
  have vsq: "slice q (handle_len h) ?us = slice q (handle_len h) ?row" using hn by (rule slice_take)
  have live_h: "live c h (take (handle_len h) (r_input_ids r)) vs" using i(6) hn by (simp add: min.absorb1)
  have d0: "?p dvd ?hl" using live_aligned [OF I l0] len0 by simp
  have dh: "?p dvd handle_len h"
    using live_aligned [OF i(2) live_h] hn wf by (simp add: req_wf_def min.absorb2)
  have rl: "?n \<le> length ?row" using wf by (simp add: req_wf_def)
  have "stride ?p (slice ?hl ?n ?row) =
      stride ?p (slice ?hl q ?row) @ stride ?p (slice q (handle_len h) ?row) @ stride ?p (slice (handle_len h) ?n ?row)"
    using stride_slice_split [OF p hq _ rl] stride_slice_split [OF p i(3) hn rl] i(3,5) hn d0 dh
    by (simp add: dvd_diff_nat)
  then have "req_own cm r ?n = mset (stride ?p (slice ?hl q ?row)) + mset (stride ?p (slice q (handle_len h) ?row))
      + mset (stride ?p (slice (handle_len h) ?n ?row))" by (simp add: req_own_def add_ac)
  then have "ok (add_mset (r_handle r) H) (mset (stride ?p (slice ?hl q ?row)) +
      mset (stride ?p (slice (handle_len h) ?n ?row)) + own) (cm\<lparr>cm_cache := c\<rparr>)"
    using ok i(2,8) unfolding vsq by (simp add: cm_ok_def lazy_slots_def add_ac)
  then show ?thesis
    using i(1,3,5,7,9) hn hq dh live_h unfolding vsq
    by (intro that [of q h "cm\<lparr>cm_cache := c\<rparr>" vs]) (auto simp: cm_frame_def)
qed

lemma cache_req_finished:
  assumes ok: "ok (add_mset (r_handle r) H) (req_own cm r (r_cached_len r) + own) cm" and wf: "req_wf cm r"
  shows "\<exists>cm'. cache_req cls cm r True = Inr (r, cm') \<and> ok H own cm' \<and> cm_frame cm cm' \<and>
    (cm_lazy cm' = None \<longleftrightarrow> cm_lazy cm = None) \<and>
    (\<forall>h xs vs. live (cm_cache cm) h xs vs \<longrightarrow> live (cm_cache cm') h xs vs)"
proof -
  let ?p = "cm_page_size cm" and ?row = "cm_table cm ! r_table_idx r" and ?n = "r_cached_len r"
  let ?hl = "handle_len (r_handle r)"
  obtain q h cm1 where s: "pc_insert_prefix cls (cm_cache cm) (take ?n (r_input_ids r)) (take ?n ?row) = Inr ((q, h), cm_cache cm1)"
    "cm_frame cm cm1" "cm_lazy cm1 = cm_lazy cm" "cm_free cm1 = cm_free cm" "q \<le> handle_len h" "handle_len h \<le> ?n"
    and live1: "\<And>h xs vs. live (cm_cache cm) h xs vs \<Longrightarrow> live (cm_cache cm1) h xs vs"
    and ok1: "ok (add_mset (r_handle r) H) (mset (stride ?p (slice ?hl q ?row)) +
         mset (stride ?p (slice (handle_len h) ?n ?row)) + own) cm1"
    by (rule cache_req_split [OF ok wf]) (rule that)
  have cm1: "cm1 = cm\<lparr>cm_cache := cm_cache cm1\<rparr>" using s(2-4) by (cases cm; cases cm1) (simp add: cm_frame_def)
  obtain cm2 where u: "cm_unlock cls cm1 (r_handle r) = Inr cm2" "cm_frame cm1 cm2" "cm_lazy cm2 = cm_lazy cm1"
    "ok H (mset (stride ?p (slice ?hl q ?row)) + mset (stride ?p (slice (handle_len h) ?n ?row)) + own) cm2"
    "\<forall>h xs vs. live (cm_cache cm1) h xs vs \<longrightarrow> live (cm_cache cm2) h xs vs" using unlock_ok [OF ok1] by blast
  have ps: "cm_page_size cm2 = ?p" using s(2) u(2) by (simp add: cm_frame_def)
  let ?cm3 = "cm_free_indices cm2 (slice ?hl q ?row)"
  have ok3: "ok H (mset (stride ?p (slice (handle_len h) ?n ?row)) + own) ?cm3"
    using u(4) ps by (intro free_ok) (simp add: add_ac)
  have rl: "?n \<le> length ?row" using wf by (simp add: req_wf_def)
  let ?cm4 = "cm_free_indices ?cm3 (drop (handle_len h) (take ?n ?row))"
  have "ok H own ?cm4" by (rule free_ok) (use ok3 ps in \<open>simp add: free_indices_simps slice_def\<close>)
  moreover have "cache_req cls cm r True = Inr (r, ?cm4)"
    using s(1,5,6) u(1) wf cm1 slice_take [of q ?n ?hl ?row]
    by (simp add: cache_req_def table_slice_def req_wf_def)
  moreover have "cm_frame cm ?cm4"
    using s(2) u(2) by (auto simp: free_indices_simps cm_frame_def)
  moreover have "cm_lazy ?cm4 = None \<longleftrightarrow> cm_lazy cm = None" using s(3) u(3) by (simp add: free_indices_simps)
  ultimately show ?thesis using live1 u(5) by (intro exI [of _ ?cm4]) (auto simp: free_indices_simps)
qed

lemma cache_req_unfinished:
  assumes ok: "ok (add_mset (r_handle r) H) (req_own cm r (r_cached_len r) + own) cm" and wf: "req_wf cm r"
  shows "\<exists>h cm'. cache_req cls cm r False = Inr (r\<lparr>r_handle := h\<rparr>, cm') \<and>
    ok (add_mset h H) (req_own cm' (r\<lparr>r_handle := h\<rparr>) (r_cached_len r) + own) cm' \<and>
    req_wf cm' (r\<lparr>r_handle := h\<rparr>) \<and> cm_page_size cm dvd handle_len h \<and>
    handle_len (r_handle r) \<le> handle_len h \<and> cm_frame cm cm' \<and>
    (cm_lazy cm' = None \<longleftrightarrow> cm_lazy cm = None) \<and>
    (\<forall>h xs vs. live (cm_cache cm) h xs vs \<longrightarrow> live (cm_cache cm') h xs vs)"
proof -
  let ?p = "cm_page_size cm" and ?row = "cm_table cm ! r_table_idx r" and ?n = "r_cached_len r"
  let ?hl = "handle_len (r_handle r)"
  obtain q h cm1 vs where s: "pc_insert_prefix cls (cm_cache cm) (take ?n (r_input_ids r)) (take ?n ?row) = Inr ((q, h), cm_cache cm1)"
    "cm_frame cm cm1" "cm_lazy cm1 = cm_lazy cm" "cm_free cm1 = cm_free cm" "?hl \<le> q" "q \<le> handle_len h"
    "handle_len h \<le> ?n" "?p dvd handle_len h"
    and new: "live (cm_cache cm1) h (take (handle_len h) (r_input_ids r)) vs"
    and live1: "\<And>h xs vs. live (cm_cache cm) h xs vs \<Longrightarrow> live (cm_cache cm1) h xs vs"
    and ok1: "ok (add_mset (r_handle r) H) (mset (stride ?p (slice ?hl q ?row)) +
         mset (stride ?p (slice (handle_len h) ?n ?row)) + own) cm1"
    by (rule cache_req_split [OF ok wf]) (rule that)
  have cm1: "cm1 = cm\<lparr>cm_cache := cm_cache cm1\<rparr>" using s(2-4) by (cases cm; cases cm1) (simp add: cm_frame_def)
  obtain cm2 where u: "cm_unlock cls cm1 (r_handle r) = Inr cm2" "cm_frame cm1 cm2" "cm_lazy cm2 = cm_lazy cm1"
    "ok H (mset (stride ?p (slice ?hl q ?row)) + mset (stride ?p (slice (handle_len h) ?n ?row)) + own) cm2"
    "\<forall>h xs vs. live (cm_cache cm1) h xs vs \<longrightarrow> live (cm_cache cm2) h xs vs" using unlock_ok [OF ok1] by blast
  have fr2: "cm_frame cm cm2" using s(2) u(2) by (rule cm_frame_trans)
  have ps: "cm_page_size cm2 = ?p" using fr2 by (simp add: cm_frame_def)
  let ?cm3 = "cm_free_indices cm2 (slice ?hl q ?row)"
  have ok3: "ok H (mset (stride ?p (slice (handle_len h) ?n ?row)) + own) ?cm3"
    using u(4) ps by (intro free_ok) (simp add: add_ac)
  have "live (cm_cache ?cm3) h (take (handle_len h) (r_input_ids r)) vs" using new u(5) by (simp add: free_indices_simps)
  from lock_ok [OF ok3 this] obtain cm4 where l: "cm_lock cls ?cm3 h = Inr cm4"
    "ok (add_mset h H) (mset (stride ?p (slice (handle_len h) ?n ?row)) + own) cm4" "cm_frame ?cm3 cm4"
    "cm_lazy cm4 = cm_lazy ?cm3"
    "\<forall>h xs vs. live (cm_cache ?cm3) h xs vs \<longrightarrow> live (cm_cache cm4) h xs vs" by blast
  have fr: "cm_frame cm cm4" using fr2 l(3) by (auto simp: free_indices_simps cm_frame_def)
  have rl: "?n \<le> length ?row" using wf by (simp add: req_wf_def)
  have "cache_req cls cm r False = Inr (r\<lparr>r_handle := h\<rparr>, cm4)"
    using s(1,5,6,7) u(1) l(1) wf cm1 slice_take [of q ?n ?hl ?row]
    by (simp add: cache_req_def table_slice_def req_wf_def)
  moreover have "live (cm_cache cm4) h (take (handle_len h) (r_input_ids r)) vs"
    using new u(5) l(5) by (auto simp: free_indices_simps)
  then have "req_wf cm4 (r\<lparr>r_handle := h\<rparr>)"
    using wf fr s(7) by (auto simp: req_wf_def cm_frame_def free_indices_simps)
  moreover have "req_own cm4 (r\<lparr>r_handle := h\<rparr>) ?n = mset (stride ?p (slice (handle_len h) ?n ?row))"
    using fr by (simp add: req_own_def cm_frame_def)
  moreover have "cm_lazy cm4 = None \<longleftrightarrow> cm_lazy cm = None" using s(3) u(3) l(4) by (simp add: free_indices_simps)
  ultimately show ?thesis using l(2,5) fr s(5,6,8) live1 u(5)
    by (intro exI [of _ h] exI [of _ cm4]) (auto simp: free_indices_simps)
qed

section \<open>The integrity check\<close>

lemma check_integrity_iff:
  assumes "ok H own cm" and "cm_lazy cm = None"
  shows "check_integrity cls cm = (if own = {#} then Inr () else Inl RuntimeError)"
proof -
  let ?p = "cm_page_size cm"
  have I: "inv ?p (cm_cache cm) H" and eq: "mset (cm_free cm) + pages ?p (cm_cache cm) + own = page_set (cm_num_pages cm) ?p"
    using assms by (auto simp: cm_ok_def lazy_slots_def)
  have "size (mset (cm_free cm) + pages ?p (cm_cache cm) + own) = cm_num_pages cm" unfolding eq by simp
  then have n: "length (cm_free cm) + size (pages ?p (cm_cache cm)) + size own = cm_num_pages cm" by simp
  have "x mod int ?p = 0" if "x \<in> set (cm_free cm)" for x
  proof (rule page_set_dvd)
    show "x \<in># page_set (cm_num_pages cm) ?p" unfolding eq [symmetric] using that by simp
  qed
  moreover have "int (length (cm_free cm)) + int (size (pages ?p (cm_cache cm))) = int (cm_num_pages cm) \<longleftrightarrow> own = {#}"
    using n size_eq_0_iff_empty [of own] by linarith
  ultimately show ?thesis
    using integrity [OF I] integrity_pages [OF I] by (simp add: check_integrity_def Let_def)
qed

lemma lazy_enter_ok: "ok H own cm \<Longrightarrow> cm_lazy cm = None \<Longrightarrow> ok H own (lazy_enter cm)"
  by (simp add: cm_ok_def lazy_enter_def lazy_slots_def)

lemma lazy_exit_ok:
  assumes "ok H own cm" and "cm_lazy cm \<noteq> None"
  shows "\<exists>cm'. lazy_exit cm = Inr cm' \<and> ok H own cm' \<and> cm_lazy cm' = None \<and> cm_frame cm cm' \<and> cm_cache cm' = cm_cache cm"
  using assms by (auto simp: cm_ok_def lazy_exit_def lazy_slots_def cm_frame_def)

end

end
