(* ===== verification/Admission.thy ===== *)
theory Admission
  imports Queues CachePages
begin

text \<open>
  Admission of pending requests: what the resource checks of \<^verbatim>\<open>PrefillAdder\<close> guarantee. Rows are
  conserved like pages: every row is free or used by one request. The reserved size of the adder
  is the number of slots promised to running and admitted requests.
\<close>

section \<open>Tables of a fixed shape\<close>

definition dims :: "nat \<Rightarrow> nat \<Rightarrow> 'a list list \<Rightarrow> bool" where
  "dims n w t \<longleftrightarrow> length t = n \<and> (\<forall>row\<in>set t. length row = w)"

lemma dims_row: "dims n w t \<Longrightarrow> i < n \<Longrightarrow> length (t ! i) = w"
  by (auto simp: dims_def)

lemma dims_same_dims:
  assumes "same_dims t u" and "dims n w t" shows "dims n w u"
proof -
  have "length ` set u = length ` set t"
    using assms(1) unfolding same_dims_def by (metis set_map)
  moreover have "length u = length t" using assms(1) by (rule same_dimsD)
  ultimately show ?thesis using assms(2) by (auto simp: dims_def)
qed

lemma table_assign_ok:
  assumes "dims n w t" and "i < n" and "a \<le> b" and "b \<le> w" and "length xs = b - a"
  shows "\<exists>u. table_assign t i a b xs = Inr u \<and> dims n w u \<and> slice a b (u ! i) = xs \<and>
    (\<forall>j<n. j \<noteq> i \<longrightarrow> u ! j = t ! j) \<and> (\<forall>q<w. \<not> (a \<le> q \<and> q < b) \<longrightarrow> u ! i ! q = t ! i ! q)"
proof -
  let ?row = "t ! i"
  have l: "length ?row = w" "i < length t" using assms(1,2) by (auto simp: dims_def)
  have n: "length (slice a b ?row) = b - a" using l assms by simp
  let ?new = "take a ?row @ xs @ drop (a + (b - a)) ?row"
  have "length ?new = w" using l assms by simp
  then have "dims n w (t[i := ?new])"
    using assms(1) set_update_subset_insert [of t i ?new] by (auto simp: dims_def)
  moreover have "slice a b ?new = xs" using l assms by (auto simp: slice_def)
  moreover have "?new ! q = ?row ! q" if "q < w" "\<not> (a \<le> q \<and> q < b)" for q
    using that l assms by (auto simp: nth_append)
  moreover have "table_assign t i a b xs = Inr (t[i := ?new])"
    using l n assms(5) by (simp add: table_assign_def Let_def)
  ultimately show ?thesis using l by (intro exI [of _ "t[i := ?new]"]) auto
qed

section \<open>The pools\<close>

definition rows_conserved :: "nat \<Rightarrow> nat multiset \<Rightarrow> table_manager \<Rightarrow> bool" where
  "rows_conserved n used tm \<longleftrightarrow> mset (tm_free tm) + used = mset [0..<n]"

lemma rows_conserved_bound: "rows_conserved n used tm \<Longrightarrow> i \<in> set (tm_free tm) \<or> i \<in># used \<Longrightarrow> i < n"
proof -
  assume "rows_conserved n used tm" "i \<in> set (tm_free tm) \<or> i \<in># used"
  then have "i \<in># mset [0..<n]" unfolding rows_conserved_def by (metis set_mset_mset union_iff)
  then show "i < n" by simp
qed

lemma rows_conserved_fresh: "rows_conserved n (add_mset i used) tm \<Longrightarrow> i \<notin># used"
proof
  assume r: "rows_conserved n (add_mset i used) tm" and i: "i \<in># used"
  have "count (mset (tm_free tm) + add_mset i used) i \<le> 1"
    unfolding r [unfolded rows_conserved_def] using distinct_count_atmost_1 [of "[0..<n]"] by simp
  moreover have "1 \<le> count used i" using i by (simp add: Suc_le_eq)
  ultimately show False by simp
qed

lemma tm_allocate_ok:
  assumes "rows_conserved n used tm" and "tm_available tm \<noteq> 0"
  shows "\<exists>i tm'. tm_allocate tm = Inr (i, tm') \<and> i < n \<and> rows_conserved n (add_mset i used) tm' \<and>
    tm_token_pool tm' = tm_token_pool tm"
proof -
  have ne: "tm_free tm \<noteq> []" using assms(2) by (auto simp: tm_available_def)
  have "mset (tm_free tm) = add_mset (last (tm_free tm)) (mset (butlast (tm_free tm)))"
    using ne by (metis append_butlast_last_id mset.simps(1) mset.simps(2) mset_append union_mset_add_mset_right add.right_neutral)
  then show ?thesis using assms ne rows_conserved_bound [OF assms(1), of "last (tm_free tm)"]
    by (auto simp: tm_allocate_def rows_conserved_def)
qed

lemma tm_release_ok:
  "rows_conserved n (add_mset i used) tm \<Longrightarrow> rows_conserved n used (tm_release tm i)"
  by (simp add: rows_conserved_def tm_release_def)

text \<open>What the loop needs of a pending request.\<close>

definition pending_ok :: "nat \<Rightarrow> nat \<Rightarrow> heap \<Rightarrow> pending_req \<Rightarrow> bool" where
  "pending_ok n w hp p \<longleftrightarrow> p_input_ids p \<noteq> [] \<and> p_input_len p \<le> w \<and> 0 \<le> p_output_len p \<and>
     (\<forall>c. p_chunked p = Some c \<longrightarrow> c < length hp \<and> r_table_idx (hp ! c) < n \<and> r_cached_len (hp ! c) < p_input_len p)"

text \<open>
  The request built from a pending entry: it continues at \<open>c\<close> in row \<open>i\<close> with handle \<open>h\<close>; a plain
  request covers the whole input, a chunk stops before its end.
\<close>

definition built_from :: "pending_req \<Rightarrow> handle \<Rightarrow> nat \<Rightarrow> nat \<Rightarrow> req \<Rightarrow> bool" where
  "built_from p h i c r \<longleftrightarrow> r_handle r = h \<and> r_table_idx r = i \<and> r_cached_len r = c \<and>
     r_uid r = p_uid p \<and> r_sampling r = p_sampling p \<and> r_output_len r = p_output_len p \<and>
     c < r_device_len r \<and> r_device_len r \<le> p_input_len p \<and> r_input_ids r = take (r_device_len r) (p_input_ids p) \<and>
     r_max_device_len r = int (r_device_len r) + p_output_len p \<and>
     (r_class r = PlainReq \<longleftrightarrow> r_device_len r = p_input_len p)"

text \<open>The slots a pending entry may still ask for once it has a request.\<close>

definition claim :: "pending_req \<Rightarrow> req \<Rightarrow> int" where
  "claim p r = int (p_input_len p) - int (r_cached_len r) + p_output_len p"

definition claims :: "heap \<Rightarrow> pending_req list \<Rightarrow> int" where
  "claims hp ps = (\<Sum>p\<leftarrow>ps. case p_chunked p of None \<Rightarrow> 0 | Some c \<Rightarrow> claim p (hp ! c))"

fun chunks_first :: "pending_req list \<Rightarrow> bool" where
  "chunks_first [] = True"
| "chunks_first (p # ps) \<longleftrightarrow> (p_chunked p = None \<longrightarrow> (\<forall>q\<in>set ps. p_chunked q = None)) \<and> chunks_first ps"

lemma claims_simps [simp]:
  "claims hp [] = 0"
  "claims hp (p # ps) = (case p_chunked p of None \<Rightarrow> 0 | Some c \<Rightarrow> claim p (hp ! c)) + claims hp ps"
  by (simp_all add: claims_def)

lemma claims_fresh: "\<forall>p\<in>set ps. p_chunked p = None \<Longrightarrow> claims hp ps = 0"
  by (induction ps) auto

lemma claims_append: "\<forall>p\<in>set ps. pending_ok n w hp p \<Longrightarrow> claims (hp @ new) ps = claims hp ps"
  by (induction ps) (auto simp: pending_ok_def nth_append split: option.splits)

lemma claims_nonneg: "\<forall>p\<in>set ps. pending_ok n w hp p \<Longrightarrow> 0 \<le> claims hp ps"
proof (induction ps)
  case (Cons p ps)
  have "0 \<le> claim p (hp ! c)" if "p_chunked p = Some c" for c
    using Cons.prems that by (auto simp: pending_ok_def claim_def)
  then show ?case using Cons by (auto split: option.splits)
qed simp

lemma pending_ok_append: "pending_ok n w hp p \<Longrightarrow> pending_ok n w (hp @ new) p"
  by (auto simp: pending_ok_def nth_append)

text \<open>The requests that took a row and a lock: those built from entries without a chunk.\<close>

definition fresh :: "pending_req list \<Rightarrow> req list \<Rightarrow> req list" where
  "fresh ps new = map snd (filter (\<lambda>(p, _). p_chunked p = None) (zip ps new))"

lemma fresh_Nil [simp]: "fresh ps [] = []"
  by (simp add: fresh_def)

lemma fresh_Cons [simp]: "fresh (p # ps) (r # new) = (if p_chunked p = None then r # fresh ps new else fresh ps new)"
  by (simp add: fresh_def)

definition built_all :: "pending_req list \<Rightarrow> req list \<Rightarrow> bool" where
  "built_all ps new \<longleftrightarrow> (\<forall>(p, r)\<in>set (zip ps new). built_from p (r_handle r) (r_table_idx r) (r_cached_len r) r)"

lemma built_all_simps [simp]:
  "built_all ps []"
  "built_all (p # ps) (r # new) \<longleftrightarrow> built_from p (r_handle r) (r_table_idx r) (r_cached_len r) r \<and> built_all ps new"
  by (simp_all add: built_all_def)

text \<open>A request built from an entry with a chunk takes over its handle, row and position.\<close>

definition continues :: "heap \<Rightarrow> pending_req list \<Rightarrow> req list \<Rightarrow> bool" where
  "continues hp ps new \<longleftrightarrow> (\<forall>(p, r)\<in>set (zip ps new). \<forall>c. p_chunked p = Some c \<longrightarrow>
     r_handle r = r_handle (hp ! c) \<and> r_table_idx r = r_table_idx (hp ! c) \<and> r_cached_len r = r_cached_len (hp ! c))"

lemma continues_simps [simp]:
  "continues hp ps []"
  "continues hp (p # ps) (r # new) \<longleftrightarrow> (\<forall>c. p_chunked p = Some c \<longrightarrow>
     r_handle r = r_handle (hp ! c) \<and> r_table_idx r = r_table_idx (hp ! c) \<and> r_cached_len r = r_cached_len (hp ! c))
     \<and> continues hp ps new"
  by (auto simp: continues_def)

lemma continues_append:
  "continues (hp @ more') ps new \<Longrightarrow> \<forall>p\<in>set ps. pending_ok n w hp p \<Longrightarrow> continues hp ps new"
  unfolding continues_def pending_ok_def by (fastforce simp: nth_append dest: set_zip_leftD)

definition total_claim :: "pending_req list \<Rightarrow> req list \<Rightarrow> int" where
  "total_claim ps new = (\<Sum>(p, r)\<leftarrow>zip ps new. claim p r)"

lemma total_claim_simps [simp]:
  "total_claim ps [] = 0" "total_claim (p # ps) (r # new) = claim p r + total_claim ps new"
  by (simp_all add: total_claim_def)

fun chunk_entries :: "nat \<Rightarrow> pending_req list \<Rightarrow> req list \<Rightarrow> pending_req list" where
  "chunk_entries k (p # ps) (r # new) =
     (if r_class r = ChunkedReq then p\<lparr>p_chunked := Some k\<rparr> # chunk_entries (Suc k) ps new
      else chunk_entries (Suc k) ps new)"
| "chunk_entries k _ _ = []"

definition rids :: "nat \<Rightarrow> nat \<Rightarrow> rid list" where
  "rids k n = [k ..< k + n]"

lemma rids_simps [simp]: "rids k 0 = []" "rids k (Suc n) = k # rids (Suc k) n"
  by (simp_all add: rids_def upt_rec [of k])

lemma rids_eq_Nil [simp]: "rids k n = [] \<longleftrightarrow> n = 0"
  by (cases n) simp_all

lemma length_rids [simp]: "length (rids k n) = n"
  by (simp add: rids_def)

lemma built_from_self: "built_from p h i c r \<Longrightarrow> built_from p (r_handle r) (r_table_idx r) (r_cached_len r) r"
  by (simp add: built_from_def)

context prefix_cache
begin

definition pools_ok :: "nat \<Rightarrow> nat \<Rightarrow> handle multiset \<Rightarrow> slot multiset \<Rightarrow> nat multiset \<Rightarrow> 'c pools \<Rightarrow> bool" where
  "pools_ok n w H own used pl \<longleftrightarrow> ok H own (pl_cm pl) \<and> cm_lazy (pl_cm pl) = None \<and>
     dims (Suc n) w (cm_table (pl_cm pl)) \<and> dims (Suc n) w (tm_token_pool (pl_tm pl)) \<and> rows_conserved n used (pl_tm pl)"

text \<open>What admission leaves alone: live handles and the rows in use.\<close>

definition pools_frame :: "nat multiset \<Rightarrow> 'c pools \<Rightarrow> 'c pools \<Rightarrow> bool" where
  "pools_frame used pl pl' \<longleftrightarrow>
     (\<forall>h xs vs. live (cm_cache (pl_cm pl)) h xs vs \<longrightarrow> live (cm_cache (pl_cm pl')) h xs vs) \<and>
     (\<forall>j. j \<in># used \<longrightarrow> cm_table (pl_cm pl') ! j = cm_table (pl_cm pl) ! j) \<and>
     cm_num_pages (pl_cm pl') = cm_num_pages (pl_cm pl) \<and> cm_page_size (pl_cm pl') = cm_page_size (pl_cm pl)"

lemma pools_frame_trans:
  "pools_frame used pl pl1 \<Longrightarrow> pools_frame (used + extra) pl1 pl2 \<Longrightarrow> pools_frame used pl pl2"
  by (simp add: pools_frame_def)

lemma pools_frame_refl [simp]: "pools_frame used pl pl"
  by (simp add: pools_frame_def)

lemma pools_frame_cm: "pl_cm pl' = pl_cm pl \<Longrightarrow> pools_frame used pl pl'"
  by (simp add: pools_frame_def)

lemma try_allocate_one_ok:
  assumes ok: "pools_ok n w H own used pl" and ids: "p_input_ids p \<noteq> []" "p_input_len p \<le> w"
  shows "\<exists>r pl'. try_allocate_one cls a p pl = Inr (r, pl') \<and> pl_heap pl' = pl_heap pl \<and>
    cm_page_size (pl_cm pl') = cm_page_size (pl_cm pl) \<and>
    pools_frame used pl pl' \<and>
    available_size cls (pl_cm pl') \<le> available_size cls (pl_cm pl) \<and>
    (case r of
      None \<Rightarrow> pools_ok n w H own used pl' \<and> available_size cls (pl_cm pl') = available_size cls (pl_cm pl)
    | Some (h, i) \<Rightarrow> pools_ok n w (add_mset h H) own (add_mset i used) pl' \<and> i < n \<and> handle_len h < p_input_len p \<and>
        live (cm_cache (pl_cm pl')) h (take (handle_len h) (p_input_ids p)) (take (handle_len h) (cm_table (pl_cm pl') ! i)) \<and>
        int (p_input_len p) - int (handle_len h) + p_output_len p + a_reserved_size a \<le> available_size cls (pl_cm pl'))"
proof (cases "tm_available (pl_tm pl) = 0")
  case True
  then show ?thesis using ok by (auto simp: try_allocate_one_def)
next
  case False
  let ?ids = "p_input_ids p" and ?av = "available_size cls"
  have O: "ok H own (pl_cm pl)" "cm_lazy (pl_cm pl) = None" "dims (Suc n) w (cm_table (pl_cm pl))"
    "dims (Suc n) w (tm_token_pool (pl_tm pl))" "rows_conserved n used (pl_tm pl)" using ok by (auto simp: pools_ok_def)
  obtain h cm vs where m: "match_req cls (pl_cm pl) ?ids = Inr (h, cm)" "ok H own cm" "cm_frame (pl_cm pl) cm"
    "cm_lazy cm = None" "?av cm = ?av (pl_cm pl)" "handle_len h < length ?ids"
    "live (cm_cache cm) h (take (handle_len h) ?ids) vs"
    "\<forall>h xs vs. live (cm_cache (pl_cm pl)) h xs vs \<longrightarrow> live (cm_cache cm) h xs vs"
    using match_ok [OF O(1) ids(1)] O(2) by auto
  let ?est = "int (p_input_len p) - int (handle_len h) + p_output_len p + a_reserved_size a"
  show ?thesis
  proof (cases "?est > ?av cm")
    case True
    then show ?thesis
      using False m O by (auto simp: try_allocate_one_def pools_ok_def cm_frame_def pools_frame_def)
  next
    case fits: False
    obtain cm1 where l: "cm_lock cls cm h = Inr cm1" "ok (add_mset h H) own cm1" "cm_frame cm cm1" "cm_lazy cm1 = None"
      "?av cm1 \<le> ?av cm" "\<forall>h xs vs. live (cm_cache cm) h xs vs \<longrightarrow> live (cm_cache cm1) h xs vs"
      using lock_ok [OF m(2,7)] m(4) by auto
    have fr: "cm_table cm1 = cm_table (pl_cm pl)" "cm_page_size cm1 = cm_page_size (pl_cm pl)"
      "cm_num_pages cm1 = cm_num_pages (pl_cm pl)"
      using m(3) l(3) by (auto simp: cm_frame_def)
    show ?thesis
    proof (cases "?est > ?av cm1")
      case True
      obtain cm2 where u: "cm_unlock cls cm1 h = Inr cm2" "ok H own cm2" "cm_frame cm1 cm2" "cm_lazy cm2 = None"
        "cm_free cm2 = cm_free cm1" "\<forall>h xs vs. live (cm_cache cm1) h xs vs \<longrightarrow> live (cm_cache cm2) h xs vs"
        using unlock_ok [OF l(2)] l(4) by auto
      have "?av cm2 = ?av cm"
        using lock_available [OF m(2,7) l(1) u(1)] .
      then show ?thesis
        using False fits True m O l u fr by (auto simp: try_allocate_one_def pools_ok_def cm_frame_def pools_frame_def)
    next
      case fits1: False
      obtain i tm where t: "tm_allocate (pl_tm pl) = Inr (i, tm)" "i < n" "rows_conserved n (add_mset i used) tm"
        "tm_token_pool tm = tm_token_pool (pl_tm pl)" using tm_allocate_ok [OF O(5) False] by blast
      have live1: "live (cm_cache cm1) h (take (handle_len h) ?ids) vs" using m(7) l(6) by blast
      have unused: "j < Suc n \<and> j \<noteq> i" if "j \<in># used" for j
        using that rows_conserved_fresh [OF t(3)] rows_conserved_bound [OF O(5)] by (auto simp: less_Suc_eq)
      have I1: "inv (cm_page_size cm1) (cm_cache cm1) (add_mset h H)" using l(2) by (simp add: cm_ok_def)
      have lv: "length vs = handle_len h" using live_length [OF I1 live1] by blast
      show ?thesis
      proof (cases "handle_len h = 0")
        case True
        then show ?thesis
          using False fits fits1 m O l fr t lv live1
          by (auto simp: try_allocate_one_def pools_ok_def p_input_len_def pools_frame_def)
      next
        case pos: False
        have w: "handle_len h \<le> w" using m(6) ids(2) by (simp add: p_input_len_def)
        obtain pool where pool: "table_assign (tm_token_pool tm) i 0 (handle_len h) (take (handle_len h) ?ids) = Inr pool"
          "dims (Suc n) w pool" using table_assign_ok [of "Suc n" w "tm_token_pool tm" i 0 "handle_len h"] O(4) t(2,4) w m(6) by force
        obtain tab where tab: "table_assign (cm_table cm1) i 0 (handle_len h) vs = Inr tab" "dims (Suc n) w tab"
          "slice 0 (handle_len h) (tab ! i) = vs" "\<forall>j<Suc n. j \<noteq> i \<longrightarrow> tab ! j = cm_table cm1 ! j"
          using table_assign_ok [of "Suc n" w "cm_table cm1" i 0 "handle_len h" vs] O(3) fr(1) t(2) w lv by auto
        have "pc_matched_indices cls (cm_cache cm1) h = Inr vs"
        proof (rule indices [OF I1 live1])
          have "length (take (handle_len h) ?ids) \<noteq> 0" using pos m(6) by simp
          then show "take (handle_len h) ?ids \<noteq> []" by force
        qed
        then have eq: "try_allocate_one cls a p pl = Inr (Some (h, i),
            pl\<lparr>pl_cm := cm1\<lparr>cm_table := tab\<rparr>, pl_tm := tm\<lparr>tm_token_pool := pool\<rparr>\<rparr>)"
          using False m(1) fits fits1 l(1) t(1) pool(1) tab(1) pos by (simp add: try_allocate_one_def Let_def)
        have "ok (add_mset h H) own (cm1\<lparr>cm_table := tab\<rparr>)" using l(2) by (simp add: cm_ok_def lazy_slots_def)
        moreover have "?av (cm1\<lparr>cm_table := tab\<rparr>) = ?av cm1" by (simp add: available_size_def)
        ultimately show ?thesis
          using eq m O l fr t pool(2) tab(2-4) live1 fits1 unused
          by (auto simp: pools_ok_def rows_conserved_def p_input_len_def pools_frame_def)
      qed
    qed
  qed
qed

lemma add_one_chunk_ok:
  assumes ok: "pools_ok n w H own used pl" and i: "i < n" and c: "c < p_input_len p" "p_input_len p \<le> w"
    and out: "0 \<le> p_output_len p" and budget: "0 < a_token_budget a"
  shows "\<exists>r a' pl'. add_one_chunk a p h i c pl = Inr (length (pl_heap pl), a', pl') \<and>
    pl_heap pl' = pl_heap pl @ [r] \<and> pl_cm pl' = pl_cm pl \<and> pools_ok n w H own used pl' \<and> built_from p h i c r \<and>
    a_reserved_size a' = a_reserved_size a + claim p r"
proof -
  let ?rem = "int (p_input_len p) - int c"
  let ?cs = "min (a_token_budget a) ?rem"
  let ?stop = "nat (int c + ?cs)"
  have st: "c < ?stop" "?stop \<le> p_input_len p" "?stop = p_input_len p \<longleftrightarrow> \<not> ?cs < ?rem"
    using c(1) budget by (auto simp: min_def)
  have d: "dims (Suc n) w (tm_token_pool (pl_tm pl))" using ok by (simp add: pools_ok_def)
  obtain pool where pool: "table_assign (tm_token_pool (pl_tm pl)) i c ?stop (slice c ?stop (p_input_ids p)) = Inr pool" "dims (Suc n) w pool"
    using table_assign_ok [OF d less_SucI [OF i], of c ?stop "slice c ?stop (p_input_ids p)"] st c by (auto simp: p_input_len_def)
  let ?r = "\<lparr>r_class = (if ?cs < ?rem then ChunkedReq else PlainReq), r_input_ids = take ?stop (p_input_ids p), r_table_idx = i,
    r_cached_len = c, r_device_len = ?stop, r_max_device_len = int ?stop + p_output_len p,
    r_output_len = p_output_len p, r_uid = p_uid p, r_sampling = p_sampling p, r_handle = h\<rparr>"
  have "length (take ?stop (p_input_ids p)) = ?stop" using st by (simp add: p_input_len_def)
  then have "new_req (if ?cs < ?rem then ChunkedReq else PlainReq) (take ?stop (p_input_ids p)) i c (p_output_len p)
      (p_uid p) (p_sampling p) h = Inr ?r"
    unfolding new_req_Inr using st out by simp
  then have "add_one_chunk a p h i c pl = Inr (length (pl_heap pl),
      \<lparr>a_token_budget = a_token_budget a - ?cs, a_reserved_size = a_reserved_size a + (?rem + p_output_len p)\<rparr>,
      pl\<lparr>pl_tm := (pl_tm pl)\<lparr>tm_token_pool := pool\<rparr>, pl_heap := pl_heap pl @ [?r]\<rparr>)"
    using pool(1) unfolding add_one_chunk_def Let_def by simp
  moreover have "built_from p h i c ?r" using st by (auto simp: built_from_def)
  ultimately show ?thesis using ok pool(2) by (auto simp: pools_ok_def rows_conserved_def claim_def)
qed

text \<open>One round of the loop: either nothing is admitted, or one request is built.\<close>

lemma try_add_one_ok:
  assumes ok: "pools_ok n w H own used pl" and p: "pending_ok n w (pl_heap pl) p"
  obtains (none) a' pl' where "try_add_one cls a p pl = Inr (None, a', pl')" and "a_reserved_size a' = a_reserved_size a"
      and "pl_heap pl' = pl_heap pl" and "pools_ok n w H own used pl'"
      and "available_size cls (pl_cm pl') = available_size cls (pl_cm pl)"
      and "pools_frame used pl pl'"
    | (chunk) c r a' pl' where "p_chunked p = Some c"
      and "try_add_one cls a p pl = Inr (Some (length (pl_heap pl)), a', pl')"
      and "a_reserved_size a' = a_reserved_size a + claim p r" and "pl_heap pl' = pl_heap pl @ [r]"
      and "pools_ok n w H own used pl'" and "available_size cls (pl_cm pl') = available_size cls (pl_cm pl)"
      and "built_from p (r_handle (pl_heap pl ! c)) (r_table_idx (pl_heap pl ! c)) (r_cached_len (pl_heap pl ! c)) r"
      and "pools_frame used pl pl'"
    | (fresh) r a' pl' where "p_chunked p = None"
      and "try_add_one cls a p pl = Inr (Some (length (pl_heap pl)), a', pl')"
      and "a_reserved_size a' = a_reserved_size a + claim p r" and "pl_heap pl' = pl_heap pl @ [r]"
      and "pools_ok n w (add_mset (r_handle r) H) own (add_mset (r_table_idx r) used) pl'"
      and "a_reserved_size a' \<le> available_size cls (pl_cm pl')"
      and "built_from p (r_handle r) (r_table_idx r) (handle_len (r_handle r)) r"
      and "live (cm_cache (pl_cm pl')) (r_handle r) (take (handle_len (r_handle r)) (p_input_ids p))
             (take (handle_len (r_handle r)) (cm_table (pl_cm pl') ! r_table_idx r))"
      and "pools_frame used pl pl'"
proof (cases "a_token_budget a \<le> 0")
  case True
  then show ?thesis using ok none by (simp add: try_add_one_def)
next
  case budget: False
  have P: "p_input_ids p \<noteq> []" "p_input_len p \<le> w" "0 \<le> p_output_len p" using p by (auto simp: pending_ok_def)
  show ?thesis
  proof (cases "p_chunked p")
    case (Some c)
    let ?r = "pl_heap pl ! c"
    have c: "r_table_idx ?r < n" "r_cached_len ?r < p_input_len p" using p Some by (auto simp: pending_ok_def)
    obtain r a' pl' where "add_one_chunk a p (r_handle ?r) (r_table_idx ?r) (r_cached_len ?r) pl = Inr (length (pl_heap pl), a', pl')"
      "pl_heap pl' = pl_heap pl @ [r]" "pl_cm pl' = pl_cm pl" "pools_ok n w H own used pl'"
      "built_from p (r_handle ?r) (r_table_idx ?r) (r_cached_len ?r) r"
      "a_reserved_size a' = a_reserved_size a + claim p r"
      using add_one_chunk_ok [OF ok c P(2,3)] budget by force
    then show ?thesis using chunk [OF Some] budget Some pools_frame_cm
      by (simp add: try_add_one_def Let_def)
  next
    case None
    obtain res pl1 where t: "try_allocate_one cls a p pl = Inr (res, pl1)" "pl_heap pl1 = pl_heap pl"
      "pools_frame used pl pl1"
      "case res of
      None \<Rightarrow> pools_ok n w H own used pl1 \<and> available_size cls (pl_cm pl1) = available_size cls (pl_cm pl)
    | Some (h, i) \<Rightarrow> pools_ok n w (add_mset h H) own (add_mset i used) pl1 \<and> i < n \<and> handle_len h < p_input_len p \<and>
        live (cm_cache (pl_cm pl1)) h (take (handle_len h) (p_input_ids p)) (take (handle_len h) (cm_table (pl_cm pl1) ! i)) \<and>
        int (p_input_len p) - int (handle_len h) + p_output_len p + a_reserved_size a \<le> available_size cls (pl_cm pl1)"
      using try_allocate_one_ok [OF ok P(1,2), of a] by blast
    show ?thesis
    proof (cases res)
      case None
      then show ?thesis using none budget t \<open>p_chunked p = None\<close> by (simp add: try_add_one_def)
    next
      case (Some hi)
      obtain h i where hi: "hi = (h, i)" by force
      note T = t(4) [unfolded Some hi, simplified]
      obtain r a' pl' where r: "add_one_chunk a p h i (handle_len h) pl1 = Inr (length (pl_heap pl1), a', pl')"
        "pl_heap pl' = pl_heap pl1 @ [r]" "pl_cm pl' = pl_cm pl1"
        "pools_ok n w (add_mset h H) own (add_mset i used) pl'" "built_from p h i (handle_len h) r"
        "a_reserved_size a' = a_reserved_size a + claim p r"
        using add_one_chunk_ok [of n w "add_mset h H" own "add_mset i used" pl1 i "handle_len h" p a h] T P budget by force
      have f: "r_handle r = h" "r_table_idx r = i" "r_cached_len r = handle_len h" using r(5) by (auto simp: built_from_def)
      show ?thesis
      proof (rule fresh [OF None])
        show "try_add_one cls a p pl = Inr (Some (length (pl_heap pl)), a', pl')"
          using budget None t(1,2) Some hi r(1) by (simp add: try_add_one_def)
      qed (use r t(2,3) T f in \<open>auto simp: claim_def pools_frame_def\<close>)
    qed
  qed
qed

text \<open>The handle of a request that was just admitted stands for the cached part of its prompt.\<close>

definition built_live :: "'c pools \<Rightarrow> req \<Rightarrow> bool" where
  "built_live pl r \<longleftrightarrow> handle_len (r_handle r) = r_cached_len r \<and>
     (\<exists>vs. live (cm_cache (pl_cm pl)) (r_handle r) (take (handle_len (r_handle r)) (r_input_ids r)) vs)"

lemma built_live_frame: "built_live pl r \<Longrightarrow> pools_frame used pl pl' \<Longrightarrow> built_live pl' r"
  unfolding built_live_def pools_frame_def by blast

lemma add_loop_ok:
  assumes "pools_ok n w H own used pl" and "\<forall>p\<in>set ps. pending_ok n w (pl_heap pl) p"
  shows "\<exists>a' pl' new. add_loop cls a ps pl =
      Inr (rids (length (pl_heap pl)) (length new), chunk_entries (length (pl_heap pl)) ps new, a', pl') \<and>
    pl_heap pl' = pl_heap pl @ new \<and> length new \<le> length ps \<and> built_all ps new \<and> continues (pl_heap pl) ps new \<and>
    pools_ok n w (H + mset (map r_handle (fresh ps new))) own (used + mset (map r_table_idx (fresh ps new))) pl' \<and>
    a_reserved_size a' = a_reserved_size a + total_claim ps new \<and>
    pools_frame used pl pl' \<and> (\<forall>r\<in>set (fresh ps new). built_live pl' r) \<and>
    (chunks_first ps \<longrightarrow> a_reserved_size a + claims (pl_heap pl) ps \<le> available_size cls (pl_cm pl) \<longrightarrow>
       a_reserved_size a' + claims (pl_heap pl') (drop (length new) ps) \<le> available_size cls (pl_cm pl'))"
  using assms
proof (induction ps arbitrary: a pl H used)
  case Nil
  then show ?case by (intro exI [of _ a] exI [of _ pl] exI [of _ "[]"]) simp
next
  case (Cons p ps)
  have p: "pending_ok n w (pl_heap pl) p" using Cons.prems(2) by simp
  show ?case
  proof (cases rule: try_add_one_ok [OF Cons.prems(1) p, of a, case_names none chunk fresh])
    case (none a' pl')
    then show ?thesis
      by (intro exI [of _ a'] exI [of _ pl'] exI [of _ "[]"]) simp
  next
    case (chunk c r a1 pl1)
    have ps: "\<forall>q\<in>set ps. pending_ok n w (pl_heap pl1) q"
      using Cons.prems(2) chunk(4) pending_ok_append by auto
    obtain a' pl' new where IH: "add_loop cls a1 ps pl1 =
      Inr (rids (length (pl_heap pl1)) (length new), chunk_entries (length (pl_heap pl1)) ps new, a', pl')"
      "pl_heap pl' = pl_heap pl1 @ new" "length new \<le> length ps" "built_all ps new" "continues (pl_heap pl1) ps new"
      "pools_ok n w (H + mset (map r_handle (fresh ps new))) own (used + mset (map r_table_idx (fresh ps new))) pl'"
      "a_reserved_size a' = a_reserved_size a1 + total_claim ps new" "pools_frame used pl1 pl'"
      "\<forall>r\<in>set (fresh ps new). built_live pl' r"
      "chunks_first ps \<longrightarrow> a_reserved_size a1 + claims (pl_heap pl1) ps \<le> available_size cls (pl_cm pl1) \<longrightarrow>
       a_reserved_size a' + claims (pl_heap pl') (drop (length new) ps) \<le> available_size cls (pl_cm pl')"
      using Cons.IH [OF chunk(5) ps, of a1] by blast
    have ps': "\<forall>q\<in>set ps. pending_ok n w (pl_heap pl) q" using Cons.prems(2) by simp
    have "continues (pl_heap pl) ps new" using continues_append [OF IH(5) [unfolded chunk(4)] ps'] .
    moreover have "claims (pl_heap pl1) ps = claims (pl_heap pl) ps"
      unfolding chunk(4) using Cons.prems(2) by (intro claims_append) auto
    moreover have "claim p r = claim p (pl_heap pl ! c)" using chunk(7) by (simp add: claim_def built_from_def)
    ultimately show ?thesis
      using IH chunk built_from_self [OF chunk(7)] chunk(7) [unfolded built_from_def] pools_frame_trans [of used pl pl1 "{#}" pl']
      by (intro exI [of _ a'] exI [of _ pl'] exI [of _ "r # new"]) (auto simp: Let_def)
  next
    case (fresh r a1 pl1)
    have ps: "\<forall>q\<in>set ps. pending_ok n w (pl_heap pl1) q"
      using Cons.prems(2) fresh(4) pending_ok_append by auto
    obtain a' pl' new where IH: "add_loop cls a1 ps pl1 =
      Inr (rids (length (pl_heap pl1)) (length new), chunk_entries (length (pl_heap pl1)) ps new, a', pl')"
      "pl_heap pl' = pl_heap pl1 @ new" "length new \<le> length ps" "built_all ps new" "continues (pl_heap pl1) ps new"
      "pools_ok n w (add_mset (r_handle r) H + mset (map r_handle (fresh ps new))) own
         (add_mset (r_table_idx r) used + mset (map r_table_idx (fresh ps new))) pl'"
      "a_reserved_size a' = a_reserved_size a1 + total_claim ps new" "pools_frame (add_mset (r_table_idx r) used) pl1 pl'"
      "\<forall>r\<in>set (fresh ps new). built_live pl' r"
      "chunks_first ps \<longrightarrow> a_reserved_size a1 + claims (pl_heap pl1) ps \<le> available_size cls (pl_cm pl1) \<longrightarrow>
       a_reserved_size a' + claims (pl_heap pl') (drop (length new) ps) \<le> available_size cls (pl_cm pl')"
      using Cons.IH [OF fresh(5) ps, of a1] by blast
    have ps': "\<forall>q\<in>set ps. pending_ok n w (pl_heap pl) q" using Cons.prems(2) by simp
    have cont: "continues (pl_heap pl) ps new" using continues_append [OF IH(5) [unfolded fresh(4)] ps'] .
    have c0: "chunks_first (p # ps) \<Longrightarrow> claims (pl_heap pl1) ps = 0" using fresh(1) by (simp add: claims_fresh)
    have "built_live pl1 r"
      using fresh(7,8) by (auto simp: built_live_def built_from_def min.absorb1)
    then have live1: "built_live pl' r" using IH(8) by (rule built_live_frame)
    show ?thesis
      using c0 cont IH fresh(1-4,6,9) built_from_self [OF fresh(7)] live1 pools_frame_trans [of used pl pl1 "{#r_table_idx r#}" pl']
      by (intro exI [of _ a'] exI [of _ pl'] exI [of _ "r # new"]) (auto simp: Let_def)
  qed
qed

end

end
