(* ===== verification/SchedPages.thy ===== *)
theory SchedPages
  imports Admission
begin

text \<open>
  The resources behind a multiset of live requests, for the default page size 1: each request holds
  one row, one lock and the pages its row names behind the locked prefix. \<open>spare\<close> is the size
  that is available once a lazy-free region is left; it depends on the cache only through the
  locked prefixes, so no operation on one request can take it away from the others.
\<close>

lemma slice_cong:
  assumes "length xs = length ys" and "b \<le> length xs" and "\<And>q. q < b \<Longrightarrow> a \<le> q \<Longrightarrow> xs ! q = ys ! q"
  shows "slice a b xs = slice a b ys"
  using assms by (simp add: slice_eq_map)

lemma rows_conserved_distinct:
  assumes "rows_conserved n (mset is + U) tm"
  shows "distinct is" and "i \<in> set is \<Longrightarrow> i \<notin># U" and "i \<in> set is \<Longrightarrow> i < n" and "i \<in># U \<Longrightarrow> i < n"
proof -
  have c: "count (mset (tm_free tm) + (mset is + U)) i \<le> 1" for i
    unfolding assms [unfolded rows_conserved_def] using distinct_count_atmost_1 [of "[0..<n]"] by simp
  show "distinct is"
  proof -
    have "count (mset is) i \<le> 1" for i using c [of i] by simp
    then show ?thesis unfolding distinct_count_atmost_1
      by (metis count_eq_zero_iff count_greater_zero_iff le_neq_implies_less less_one not_in_iff set_mset_mset)
  qed
  show "i \<notin># U" if "i \<in> set is"
  proof
    assume "i \<in># U"
    then have "count U i \<noteq> 0" by simp
    moreover have "count (mset is) i \<noteq> 0" using that by (simp add: count_eq_zero_iff)
    moreover have "count (mset (tm_free tm)) i + (count (mset is) i + count U i) \<le> 1" using c [of i] by simp
    ultimately show False by linarith
  qed
  show "i \<in> set is \<Longrightarrow> i < n" "i \<in># U \<Longrightarrow> i < n" using rows_conserved_bound [OF assms] by auto
qed

lemma complete_one_simps [simp]:
  "r_handle (complete_one r) = r_handle r" "r_table_idx (complete_one r) = r_table_idx r"
  "r_cached_len (complete_one r) = r_device_len r" "r_device_len (complete_one r) = Suc (r_device_len r)"
  "r_input_ids (complete_one r) = r_input_ids r" "r_class (complete_one r) = r_class r" "r_uid (complete_one r) = r_uid r"
  "r_max_device_len (complete_one r) = r_max_device_len r" "r_sampling (complete_one r) = r_sampling r"
  by (simp_all add: complete_one_def)

definition extend_of :: "req list \<Rightarrow> nat" where
  "extend_of bs = (\<Sum>r\<leftarrow>bs. r_device_len r - r_cached_len r)"

lemma page_ceil_1 [simp]: "page_ceil (Suc 0) n = n"
  by (simp add: page_ceil_eq)

context prefix_cache
begin

definition req_held :: "'c cache_manager \<Rightarrow> req \<Rightarrow> bool" where
  "req_held cm r \<longleftrightarrow> r_table_idx r < length (cm_table cm) \<and>
     r_cached_len r \<le> length (cm_table cm ! r_table_idx r) \<and> handle_len (r_handle r) \<le> r_cached_len r \<and>
     (\<exists>vs. live (cm_cache cm) (r_handle r) (take (handle_len (r_handle r)) (r_input_ids r)) vs)"

lemma req_wf_iff: "req_wf cm r \<longleftrightarrow> req_held cm r \<and> r_cached_len r \<le> length (r_input_ids r)"
  by (auto simp: req_wf_def req_held_def)

definition own_of :: "'c cache_manager \<Rightarrow> req multiset \<Rightarrow> slot multiset" where
  "own_of cm R = (\<Sum>r\<in>#R. req_own cm r (r_cached_len r))"

definition held :: "nat \<Rightarrow> nat \<Rightarrow> req multiset \<Rightarrow> 'c cache_manager \<Rightarrow> table_manager \<Rightarrow> bool" where
  "held n w R cm tm \<longleftrightarrow> cm_page_size cm = 1 \<and> ok (image_mset r_handle R) (own_of cm R) cm \<and>
     dims (Suc n) w (cm_table cm) \<and> dims (Suc n) w (tm_token_pool tm) \<and>
     rows_conserved n (image_mset r_table_idx R) tm \<and> (\<forall>r\<in>#R. req_held cm r)"

definition spare :: "req multiset \<Rightarrow> 'c cache_manager \<Rightarrow> int" where
  "spare R cm = int (cm_num_pages cm) - int (size (own_of cm R)) -
     int (card (page_prefixes 1 (locked_seqs (cm_cache cm) (image_mset r_handle R))))"

lemma own_of_simps [simp]:
  "own_of cm {#} = {#}" "own_of cm (add_mset r R) = req_own cm r (r_cached_len r) + own_of cm R"
  "own_of cm (R + R') = own_of cm R + own_of cm R'"
  by (simp_all add: own_of_def)

lemma own_of_mset: "own_of cm (mset xs) = (\<Sum>r\<leftarrow>xs. req_own cm r (r_cached_len r))"
  by (simp add: own_of_def sum_mset_sum_list flip: mset_map)

lemma own_of_frame: "cm_frame cm cm' \<Longrightarrow> own_of cm' R = own_of cm R"
  by (simp add: own_of_def req_own_def cm_frame_def)

lemma req_held_frame:
  assumes "req_held cm r" and "cm_frame cm cm'"
    and "\<forall>h xs vs. live (cm_cache cm) h xs vs \<longrightarrow> live (cm_cache cm') h xs vs"
  shows "req_held cm' r"
  using assms unfolding req_held_def cm_frame_def by metis

lemma held_inv: "held n w R cm tm \<Longrightarrow> inv 1 (cm_cache cm) (image_mset r_handle R)"
  by (auto simp: held_def cm_ok_def)

lemma available_spare:
  assumes "held n w R cm tm"
  shows "available_size cls cm = spare R cm - int (length (lazy_slots cm))"
proof -
  have I: "inv 1 (cm_cache cm) (image_mset r_handle R)" by (rule held_inv [OF assms])
  have ps: "cm_page_size cm = 1" using assms by (simp add: held_def)
  have "mset (cm_free cm) + mset (lazy_slots cm) + pages 1 (cm_cache cm) + own_of cm R = page_set (cm_num_pages cm) 1"
    using assms by (auto simp: held_def cm_ok_def)
  then have "size (mset (cm_free cm) + mset (lazy_slots cm) + pages 1 (cm_cache cm) + own_of cm R) = cm_num_pages cm"
    by simp
  then show ?thesis
    using total_pages [OF I] protected [OF I]
    by (simp add: available_size_def spare_def ps total_size_def locked_seqs_def)
qed

lemma card_locked_mono:
  assumes "inv p c H" and "X \<subseteq> locked_seqs c K"
  shows "card (page_prefixes 1 X) \<le> card (page_prefixes 1 (locked_seqs c K))"
  by (intro card_mono page_prefixes_finite page_prefixes_mono finite_locked_seqs [OF assms(1)] assms(2))

text \<open>Releasing a request.\<close>

lemma held_free:
  assumes h: "held n w (add_mset r R) cm tm" and ids: "r_cached_len r \<le> length (r_input_ids r)"
  obtains cm' where "cache_req cls cm r True = Inr (r, cm')" and "held n w R cm' (tm_release tm (r_table_idx r))"
    and "cm_frame cm cm'" and "cm_lazy cm' = None \<longleftrightarrow> cm_lazy cm = None" and "spare (add_mset r R) cm \<le> spare R cm'"
proof -
  let ?H = "image_mset r_handle R"
  have ok: "ok (add_mset (r_handle r) ?H) (req_own cm r (r_cached_len r) + own_of cm R) cm"
    using h by (simp add: held_def)
  have wf: "req_wf cm r" using h ids by (simp add: req_wf_iff held_def)
  obtain cm' where c: "cache_req cls cm r True = Inr (r, cm')" "ok ?H (own_of cm R) cm'" "cm_frame cm cm'"
    "cm_lazy cm' = None \<longleftrightarrow> cm_lazy cm = None" "\<forall>h xs vs. live (cm_cache cm) h xs vs \<longrightarrow> live (cm_cache cm') h xs vs"
    using cache_req_finished [OF ok wf] by metis
  have own: "own_of cm' R = own_of cm R" by (rule own_of_frame [OF c(3)])
  have I: "inv 1 (cm_cache cm) (add_mset (r_handle r) ?H)" using held_inv [OF h] by simp
  have held': "held n w R cm' (tm_release tm (r_table_idx r))"
    using h c(2) own req_held_frame [OF _ c(3,5)] tm_release_ok c(3)
    by (auto simp: held_def cm_frame_def tm_release_def rows_conserved_def)
  have "locked_seqs (cm_cache cm') ?H = locked_seqs (cm_cache cm) ?H"
    using c(5) by (intro locked_seqs_mono [OF I held_inv [OF held']]) auto
  then have "card (page_prefixes 1 (locked_seqs (cm_cache cm') ?H)) \<le>
      card (page_prefixes 1 (locked_seqs (cm_cache cm) (add_mset (r_handle r) ?H)))"
    by (intro card_locked_mono [OF I]) (auto simp: locked_seqs_def)
  then have "spare (add_mset r R) cm \<le> spare R cm'"
    using own c(3) by (simp add: spare_def cm_frame_def)
  with c(1,3,4) held' show ?thesis by (intro that)
qed

text \<open>Caching the prefix of a request that goes on.\<close>

lemma held_cache:
  assumes h: "held n w (add_mset r R) cm tm" and ids: "r_cached_len r \<le> length (r_input_ids r)"
  obtains hd cm' where "cache_req cls cm r False = Inr (r\<lparr>r_handle := hd\<rparr>, cm')"
    and "held n w (add_mset (r\<lparr>r_handle := hd\<rparr>) R) cm' tm" and "cm_frame cm cm'"
    and "cm_lazy cm' = None \<longleftrightarrow> cm_lazy cm = None" and "spare (add_mset r R) cm \<le> spare (add_mset (r\<lparr>r_handle := hd\<rparr>) R) cm'"
proof -
  let ?H = "image_mset r_handle R" and ?n = "r_cached_len r" and ?hl = "handle_len (r_handle r)"
  have ok: "ok (add_mset (r_handle r) ?H) (req_own cm r ?n + own_of cm R) cm" using h by (simp add: held_def)
  have wf: "req_wf cm r" using h ids by (simp add: req_wf_iff held_def)
  obtain hd cm' where c: "cache_req cls cm r False = Inr (r\<lparr>r_handle := hd\<rparr>, cm')"
    "ok (add_mset hd ?H) (req_own cm' (r\<lparr>r_handle := hd\<rparr>) ?n + own_of cm R) cm'" "req_wf cm' (r\<lparr>r_handle := hd\<rparr>)"
    "?hl \<le> handle_len hd" "cm_frame cm cm'" "cm_lazy cm' = None \<longleftrightarrow> cm_lazy cm = None"
    "\<forall>h xs vs. live (cm_cache cm) h xs vs \<longrightarrow> live (cm_cache cm') h xs vs"
    using cache_req_unfinished [OF ok wf] by metis
  let ?r' = "r\<lparr>r_handle := hd\<rparr>" and ?ids = "r_input_ids r"
  have own: "own_of cm' R = own_of cm R" by (rule own_of_frame [OF c(5)])
  have held': "held n w (add_mset ?r' R) cm' tm"
    using h c(2,3) own req_held_frame [OF _ c(5,7)] c(5) by (auto simp: held_def cm_frame_def req_wf_iff)
  have I: "inv 1 (cm_cache cm) (add_mset (r_handle r) ?H)" using held_inv [OF h] by simp
  have I': "inv 1 (cm_cache cm') (add_mset hd ?H)" using held_inv [OF held'] by simp
  obtain vs vs' where l: "live (cm_cache cm) (r_handle r) (take ?hl ?ids) vs" "live (cm_cache cm') hd (take (handle_len hd) ?ids) vs'"
    using wf c(3) by (auto simp: req_wf_def)
  have hn: "handle_len hd \<le> ?n" using c(3) by (simp add: req_wf_def)
  let ?S = "locked_seqs (cm_cache cm) ?H"
  have "locked_seqs (cm_cache cm') ?H = ?S" using c(7) by (intro locked_seqs_mono [OF I I']) auto
  then have eq': "locked_seqs (cm_cache cm') (add_mset hd ?H) = insert (take (handle_len hd) ?ids) ?S"
    using locked_seqs_add [OF I' l(2)] by simp
  have eq: "locked_seqs (cm_cache cm) (add_mset (r_handle r) ?H) = insert (take ?hl ?ids) ?S"
    by (rule locked_seqs_add [OF I l(1)])
  have "card (page_prefixes 1 (insert (take (handle_len hd) ?ids) ?S)) \<le>
      card (page_prefixes 1 (insert (take ?hl ?ids) ?S)) + (handle_len hd - ?hl)"
    using c(4) hn ids by (intro card_page_prefixes_extend finite_locked_seqs [OF I]) auto
  moreover have "size (req_own cm r ?n) = ?n - ?hl" "size (req_own cm' ?r' ?n) = ?n - handle_len hd"
    using h wf c(3,5) by (auto simp: req_own_def held_def cm_frame_def req_wf_def)
  ultimately have "spare (add_mset r R) cm \<le> spare (add_mset ?r' R) cm'"
    using own c(4,5) hn by (simp add: spare_def cm_frame_def eq eq' of_nat_diff)
  with c(1,5,6) held' show ?thesis by (intro that)
qed

text \<open>Allocating the pages of a batch and advancing its requests.\<close>

lemma held_alloc:
  assumes h: "held n w (mset bs + R) cm tm" and lazy: "cm_lazy cm = None"
    and len: "\<forall>r\<in>set bs. r_cached_len r \<le> r_device_len r \<and> r_device_len r \<le> w"
    and fits: "int (extend_of bs) \<le> available_size cls cm"
  obtains tok cm' where "allocate_paged cls cm bs = Inr (tok, cm')"
    and "held n w (mset (map complete_one bs) + R) cm' tm" and "cm_lazy cm' = None"
    and "cm_num_pages cm' = cm_num_pages cm"
    and "spare (mset (map complete_one bs) + R) cm' = spare (mset bs + R) cm - int (extend_of bs)"
proof -
  let ?H = "image_mset r_handle (mset bs + R)" and ?T = "cm_table cm" and ?R' = "mset (map complete_one bs) + R"
  have H: "cm_page_size cm = 1" "ok ?H (own_of cm (mset bs + R)) cm" "dims (Suc n) w ?T"
    "rows_conserved n (mset (map r_table_idx bs) + image_mset r_table_idx R) tm" "\<forall>r\<in>#mset bs + R. req_held cm r"
    using h by (auto simp: held_def)
  note D = rows_conserved_distinct [OF H(4)]
  have row: "r_table_idx r < length ?T" "length (?T ! r_table_idx r) = w" if "r \<in># mset bs + R" for r
    using H(3,5) that by (auto simp: req_held_def dims_def)
  have rows: "rows_ok (cm_page_size cm) ?T bs" using row len H(1) by (auto simp: rows_ok_def)
  have "pages_needed (cm_page_size cm) bs = extend_of bs" by (simp add: pages_needed_def extend_of_def H(1))
  then obtain tok cm' where a: "allocate_paged cls cm bs = Inr (tok, cm')"
    "ok ?H (mset (tk_allocated tok) + own_of cm (mset bs + R)) cm'"
    "cm_num_pages cm' = cm_num_pages cm" "cm_page_size cm' = 1" "cm_lazy cm' = None"
    "length (tk_allocated tok) = extend_of bs"
    "\<forall>h\<in>#?H. \<forall>xs vs. live (cm_cache cm) h xs vs \<longrightarrow> live (cm_cache cm') h xs vs" "same_dims ?T (cm_table cm')"
    and fr: "\<And>i p. i < length ?T \<Longrightarrow> p < length (?T ! i) \<Longrightarrow>
       \<forall>r\<in>set bs. r_table_idx r = i \<longrightarrow> p < r_cached_len r \<Longrightarrow> cm_table cm' ! i ! p = ?T ! i ! p"
    and al: "concat (map (\<lambda>r. slice (r_cached_len r) (r_device_len r) (cm_table cm' ! r_table_idx r)) bs) = tk_allocated tok"
    using allocate_paged_ok [OF H(2) rows] fits H(1) lazy D(1) by (auto simp: mult.commute)
  have len': "length (cm_table cm' ! i) = length (?T ! i)" if "i < length ?T" for i
    using same_dimsD(2) [OF a(8) that] .
  have same: "slice a (r_cached_len r) (cm_table cm' ! r_table_idx r) = slice a (r_cached_len r) (?T ! r_table_idx r)"
    if r: "r \<in># mset bs + R" for r a
  proof (rule slice_cong)
    have c: "r_cached_len r \<le> length (?T ! r_table_idx r)" using H(5) r by (auto simp: req_held_def)
    show "length (cm_table cm' ! r_table_idx r) = length (?T ! r_table_idx r)" using len' row(1) [OF r] .
    then show "r_cached_len r \<le> length (cm_table cm' ! r_table_idx r)" using c by simp
    show "cm_table cm' ! r_table_idx r ! q = ?T ! r_table_idx r ! q" if q: "q < r_cached_len r" for q
    proof (rule fr [OF row(1) [OF r]])
      show "q < length (?T ! r_table_idx r)" using q c by simp
      show "\<forall>r2\<in>set bs. r_table_idx r2 = r_table_idx r \<longrightarrow> q < r_cached_len r2"
      proof (intro ballI impI)
        fix r2 assume r2: "r2 \<in> set bs" "r_table_idx r2 = r_table_idx r"
        have "r_table_idx r2 \<in> set (map r_table_idx bs)" using r2(1) by simp
        from D(2) [OF this] have "r_table_idx r \<notin># image_mset r_table_idx R" using r2(2) by simp
        then have "r \<in> set bs" using r by auto
        then have "r2 = r" using r2 D(1) by (metis distinct_map inj_onD)
        then show "q < r_cached_len r2" using q by simp
      qed
    qed
  qed
  have ownR: "own_of cm' R = own_of cm R"
    unfolding own_of_def using same H(1) a(4) by (intro arg_cong [of _ _ sum_mset] image_mset_cong) (simp add: req_own_def)
  have own1: "req_own cm' (complete_one r) (r_device_len r) =
      mset (slice (r_cached_len r) (r_device_len r) (cm_table cm' ! r_table_idx r)) + req_own cm r (r_cached_len r)"
    if r: "r \<in> set bs" for r
  proof -
    have "handle_len (r_handle r) \<le> r_cached_len r" "r_cached_len r \<le> r_device_len r"
      using H(5) r len by (auto simp: req_held_def)
    then show ?thesis
      using same [of r "handle_len (r_handle r)"] r H(1) a(4)
      by (simp add: req_own_def slice_split [of "handle_len (r_handle r)" "r_cached_len r" "r_device_len r"])
  qed
  have "own_of cm' (mset (map complete_one bs)) =
      (\<Sum>r\<leftarrow>bs. mset (slice (r_cached_len r) (r_device_len r) (cm_table cm' ! r_table_idx r)) + req_own cm r (r_cached_len r))"
    unfolding own_of_mset map_map comp_def complete_one_simps using own1 by (intro arg_cong [of _ _ sum_list] map_cong) simp_all
  also have "\<dots> = mset (tk_allocated tok) + own_of cm (mset bs)"
    unfolding al [symmetric] own_of_mset by (simp add: sum_list_addf mset_concat comp_def)
  finally have own: "own_of cm' ?R' = mset (tk_allocated tok) + own_of cm (mset bs + R)" using ownR by (simp add: add_ac)
  have hands: "image_mset r_handle ?R' = ?H" by (simp add: comp_def image_mset.compositionality)
  have tabs: "image_mset r_table_idx ?R' = mset (map r_table_idx bs) + image_mset r_table_idx R"
    by (simp add: comp_def image_mset.compositionality)
  have held1: "req_held cm' r'" if r': "r' \<in># ?R'" for r'
  proof -
    obtain r where r: "r \<in># mset bs + R" "r_table_idx r' = r_table_idx r" "r_handle r' = r_handle r"
      "r_input_ids r' = r_input_ids r" "r_cached_len r \<le> r_cached_len r'" "r_cached_len r' \<le> w \<or> r' = r"
      using r' len by fastforce
    have "r_handle r \<in># ?H" using r(1) by auto
    then show ?thesis
      using H(5) [rule_format, OF r(1)] a(7) r len' [OF row(1) [OF r(1)]] row [OF r(1)] same_dimsD(1) [OF a(8)]
      unfolding req_held_def by (metis le_trans)
  qed
  have heldR: "held n w ?R' cm' tm"
    using h H(4) a(2,4) held1 dims_same_dims [OF a(8) H(3)]
    unfolding held_def own hands tabs by auto
  have "locked_seqs (cm_cache cm') ?H = locked_seqs (cm_cache cm) ?H"
    using held_inv [OF heldR] a(7) unfolding hands by (intro locked_seqs_mono [OF held_inv [OF h]]) auto
  then have "spare ?R' cm' = spare (mset bs + R) cm - int (extend_of bs)"
    unfolding spare_def own hands using a(3,6) by simp
  with a(1,3,5) heldR show ?thesis by (intro that)
qed

end

end
