(* ===== verification/SchedAdmit.thy ===== *)
theory SchedAdmit
  imports SchedPages
begin

text \<open>
  Admission seen from the live requests: a prefill round turns the requests behind the chunks at the
  front of the pending list into their continuations, adds the new ones, and keeps every row,
  lock and page accounted for.
\<close>

section \<open>Pending entries and their chunks\<close>

definition chunk_rids :: "pending_req list \<Rightarrow> rid list" where
  "chunk_rids ps = List.map_filter p_chunked ps"

lemma chunk_rids_Nil [simp]: "chunk_rids [] = []"
  by (simp add: chunk_rids_def List.map_filter_simps)

lemma chunk_rids_Cons [simp]:
  "chunk_rids (p # ps) = (case p_chunked p of None \<Rightarrow> chunk_rids ps | Some c \<Rightarrow> c # chunk_rids ps)"
  by (simp add: chunk_rids_def List.map_filter_simps split: option.splits)

lemma chunk_rids_append [simp]: "chunk_rids (ps @ qs) = chunk_rids ps @ chunk_rids qs"
  by (induction ps) (auto split: option.splits)

lemma in_chunk_rids: "c \<in> set (chunk_rids ps) \<longleftrightarrow> (\<exists>p\<in>set ps. p_chunked p = Some c)"
  by (induction ps) (auto split: option.splits)

lemma chunk_rids_drop: "c \<in> set (chunk_rids (drop k ps)) \<Longrightarrow> c \<in> set (chunk_rids ps)"
  by (auto simp: in_chunk_rids dest: in_set_dropD)

text \<open>
  A pending entry between steps: the prompt is not empty, prompt and output fit a sequence, and the
  request behind a chunk holds a proper prefix of the prompt, all of it computed.
\<close>

definition pend_ok :: "int \<Rightarrow> heap \<Rightarrow> pending_req \<Rightarrow> bool" where
  "pend_ok M hp p \<longleftrightarrow> p_input_ids p \<noteq> [] \<and> 0 \<le> p_output_len p \<and> int (p_input_len p) + p_output_len p \<le> M \<and>
     (\<forall>c. p_chunked p = Some c \<longrightarrow> c < length hp \<and> r_class (hp ! c) = ChunkedReq \<and>
        r_cached_len (hp ! c) < p_input_len p \<and> r_input_ids (hp ! c) = take (r_cached_len (hp ! c)) (p_input_ids p) \<and>
        r_uid (hp ! c) = p_uid p)"

lemma pend_ok_pending_ok:
  assumes "pend_ok M hp p" and "M \<le> int w" and "\<And>c. p_chunked p = Some c \<Longrightarrow> r_table_idx (hp ! c) < n"
  shows "pending_ok n w hp p"
  using assms by (auto simp: pend_ok_def pending_ok_def)

lemma pend_ok_append: "pend_ok M hp p \<Longrightarrow> pend_ok M (hp @ new) p"
  by (auto simp: pend_ok_def nth_append)

lemma fresh_sum:
  assumes "continues hp ps new" and "length new \<le> length ps"
    and "\<And>r r'. r_handle r = r_handle r' \<Longrightarrow> r_table_idx r = r_table_idx r' \<Longrightarrow> r_cached_len r = r_cached_len r' \<Longrightarrow> f r = f r'"
  shows "(\<Sum>r\<leftarrow>new. f r) + (\<Sum>c\<leftarrow>chunk_rids (drop (length new) ps). f (hp ! c)) =
    (\<Sum>r\<leftarrow>fresh ps new. f r) + (\<Sum>c\<leftarrow>chunk_rids ps. (f (hp ! c) :: 'a :: comm_monoid_add))"
  using assms(1,2)
proof (induction ps arbitrary: new)
  case (Cons p ps)
  show ?case
  proof (cases new)
    case (Cons r new')
    then have IH: "(\<Sum>r\<leftarrow>new'. f r) + (\<Sum>c\<leftarrow>chunk_rids (drop (length new') ps). f (hp ! c)) =
        (\<Sum>r\<leftarrow>fresh ps new'. f r) + (\<Sum>c\<leftarrow>chunk_rids ps. f (hp ! c))"
      using Cons.IH Cons.prems by simp
    show ?thesis
    proof (cases "p_chunked p")
      case None
      then show ?thesis using IH by (simp add: Cons add.assoc)
    next
      case (Some c)
      have "f r = f (hp ! c)" using Cons.prems(1) Some \<open>new = r # new'\<close> by (intro assms(3)) auto
      then show ?thesis using IH Some by (simp add: \<open>new = r # new'\<close> add.assoc add.left_commute)
    qed
  qed simp
qed simp

lemma sum_list_singletons: "(\<Sum>x\<leftarrow>xs. {#f x#}) = mset (map f xs)"
  by (induction xs) auto

lemma in_zip: "i < length xs \<Longrightarrow> i < length ys \<Longrightarrow> (xs ! i, ys ! i) \<in> set (zip xs ys)"
  by (auto simp: set_zip)

lemma continues_at:
  assumes "continues hp ps new" and "i < length new" and "i < length ps" and "p_chunked (ps ! i) = Some c"
  shows "r_handle (new ! i) = r_handle (hp ! c)" "r_table_idx (new ! i) = r_table_idx (hp ! c)"
    "r_cached_len (new ! i) = r_cached_len (hp ! c)"
proof -
  have "(ps ! i, new ! i) \<in> set (zip ps new)" using assms(2,3) by (simp add: in_zip)
  then show "r_handle (new ! i) = r_handle (hp ! c)" "r_table_idx (new ! i) = r_table_idx (hp ! c)"
    "r_cached_len (new ! i) = r_cached_len (hp ! c)" using assms(1,4) by (auto simp: continues_def)
qed

lemma fresh_at:
  assumes "i < length new" and "i < length ps" and "p_chunked (ps ! i) = None"
  shows "new ! i \<in> set (fresh ps new)"
proof -
  have "(ps ! i, new ! i) \<in> set (filter (\<lambda>(p, _). p_chunked p = None) (zip ps new))"
    using in_zip [OF assms(2,1)] assms(3) by simp
  from imageI [OF this, of snd] show ?thesis by (simp add: fresh_def)
qed

lemma built_at:
  assumes "built_all ps new" and "i < length new" and "i < length ps"
  shows "built_from (ps ! i) (r_handle (new ! i)) (r_table_idx (new ! i)) (r_cached_len (new ! i)) (new ! i)"
proof -
  have "(ps ! i, new ! i) \<in> set (zip ps new)" using assms(2,3) by (simp add: in_zip)
  from bspec [OF assms(1) [unfolded built_all_def] this] show ?thesis by simp
qed

section \<open>Admission keeps the resources\<close>

context prefix_cache
begin

lemma held_admit:
  fixes R :: "req multiset"
  defines "live_of k hp ps \<equiv> R + mset (map ((!) hp) (chunk_rids (drop k ps)))"
  assumes h: "held n w (live_of 0 (pl_heap pl) ps) (pl_cm pl) (pl_tm pl)" and lazy: "cm_lazy (pl_cm pl) = None"
    and ps: "\<forall>p\<in>set ps. pend_ok M (pl_heap pl) p" and M: "M \<le> int w"
  obtains new a' pl' where "add_loop cls a ps pl =
      Inr (rids (length (pl_heap pl)) (length new), chunk_entries (length (pl_heap pl)) ps new, a', pl')"
    and "pl_heap pl' = pl_heap pl @ new" and "length new \<le> length ps" and "built_all ps new" and "continues (pl_heap pl) ps new"
    and "held n w (live_of (length new) (pl_heap pl) ps + mset new) (pl_cm pl') (pl_tm pl')" and "cm_lazy (pl_cm pl') = None"
    and "a_reserved_size a' = a_reserved_size a + total_claim ps new" and "cm_num_pages (pl_cm pl') = cm_num_pages (pl_cm pl)"
    and "chunks_first ps \<Longrightarrow> a_reserved_size a + claims (pl_heap pl) ps \<le> available_size cls (pl_cm pl) \<Longrightarrow>
       a_reserved_size a' + claims (pl_heap pl') (drop (length new) ps) \<le> available_size cls (pl_cm pl')"
proof -
  let ?hp = "pl_heap pl" and ?R0 = "live_of 0 (pl_heap pl) ps"
  let ?H = "image_mset r_handle ?R0" and ?U = "image_mset r_table_idx ?R0" and ?own = "own_of (pl_cm pl) ?R0"
  have H: "cm_page_size (pl_cm pl) = 1" "ok ?H ?own (pl_cm pl)" "dims (Suc n) w (cm_table (pl_cm pl))"
    "dims (Suc n) w (tm_token_pool (pl_tm pl))" "rows_conserved n ?U (pl_tm pl)" "\<forall>r\<in>#?R0. req_held (pl_cm pl) r"
    using h by (auto simp: held_def)
  have pools: "pools_ok n w ?H ?own ?U pl" using H lazy by (simp add: pools_ok_def)
  have inR: "?hp ! c \<in># ?R0" if "p \<in> set ps" "p_chunked p = Some c" for p c
  proof -
    have "c \<in> set (chunk_rids ps)" using that by (auto simp: in_chunk_rids)
    then show ?thesis by (simp add: live_of_def)
  qed
  have row: "r_table_idx r < n" if "r \<in># ?R0" for r
    using rows_conserved_bound [OF H(5), of "r_table_idx r"] that by simp
  have pend: "\<forall>p\<in>set ps. pending_ok n w ?hp p" using ps M row inR by (blast intro: pend_ok_pending_ok)
  obtain a' pl' new where L: "add_loop cls a ps pl =
      Inr (rids (length ?hp) (length new), chunk_entries (length ?hp) ps new, a', pl')"
    "pl_heap pl' = ?hp @ new" "length new \<le> length ps" "built_all ps new" "continues ?hp ps new"
    "pools_ok n w (?H + mset (map r_handle (fresh ps new))) ?own (?U + mset (map r_table_idx (fresh ps new))) pl'"
    "a_reserved_size a' = a_reserved_size a + total_claim ps new" "pools_frame ?U pl pl'"
    "\<forall>r\<in>set (fresh ps new). built_live pl' r"
    "chunks_first ps \<longrightarrow> a_reserved_size a + claims ?hp ps \<le> available_size cls (pl_cm pl) \<longrightarrow>
       a_reserved_size a' + claims (pl_heap pl') (drop (length new) ps) \<le> available_size cls (pl_cm pl')"
    using add_loop_ok [OF pools pend, of a] by blast
  let ?R1 = "live_of (length new) ?hp ps + mset new" and ?cm = "pl_cm pl'"
  have P: "ok (?H + mset (map r_handle (fresh ps new))) ?own ?cm" "cm_lazy ?cm = None" "dims (Suc n) w (cm_table ?cm)"
    "dims (Suc n) w (tm_token_pool (pl_tm pl'))" "rows_conserved n (?U + mset (map r_table_idx (fresh ps new))) (pl_tm pl')"
    using L(6) by (auto simp: pools_ok_def)
  have F: "\<And>h xs vs. live (cm_cache (pl_cm pl)) h xs vs \<Longrightarrow> live (cm_cache ?cm) h xs vs"
    "\<And>j. j \<in># ?U \<Longrightarrow> cm_table ?cm ! j = cm_table (pl_cm pl) ! j" "cm_page_size ?cm = 1"
    "cm_num_pages ?cm = cm_num_pages (pl_cm pl)" using L(8) H(1) by (auto simp: pools_frame_def)
  have hands: "image_mset r_handle ?R1 = ?H + mset (map r_handle (fresh ps new))"
    using fresh_sum [OF L(5,3), of "\<lambda>r. {#r_handle r#}"]
    by (simp add: live_of_def sum_list_singletons image_mset.compositionality comp_def add_ac)
  have tabs: "image_mset r_table_idx ?R1 = ?U + mset (map r_table_idx (fresh ps new))"
    using fresh_sum [OF L(5,3), of "\<lambda>r. {#r_table_idx r#}"]
    by (simp add: live_of_def sum_list_singletons image_mset.compositionality comp_def add_ac)
  have own0: "req_own ?cm r (r_cached_len r) = req_own (pl_cm pl) r (r_cached_len r)" if "r \<in># ?R0" for r
    using F(2,3) H(1) that by (simp add: req_own_def)
  have "own_of ?cm (mset new) + own_of ?cm (mset (map ((!) ?hp) (chunk_rids (drop (length new) ps)))) =
      own_of ?cm (mset (fresh ps new)) + own_of ?cm (mset (map ((!) ?hp) (chunk_rids ps)))"
    using fresh_sum [OF L(5,3), of "\<lambda>r. req_own ?cm r (r_cached_len r)"]
    unfolding own_of_mset by (simp add: req_own_def comp_def)
  moreover have "own_of ?cm (mset (fresh ps new)) = {#}"
    unfolding own_of_def using L(9) by (intro sum_mset.neutral) (auto simp: req_own_def built_live_def)
  moreover have "own_of ?cm ?R0 = ?own"
    unfolding own_of_def using own0 by (intro arg_cong [of _ _ sum_mset] image_mset_cong) simp
  ultimately have own: "own_of ?cm ?R1 = ?own" by (simp add: live_of_def add_ac)
  have old: "req_held ?cm r" if r: "r \<in># ?R0" for r
  proof -
    have "length (cm_table ?cm) = length (cm_table (pl_cm pl))" using P(3) H(3) by (simp add: dims_def)
    moreover have "cm_table ?cm ! r_table_idx r = cm_table (pl_cm pl) ! r_table_idx r" using F(2) r by simp
    ultimately show ?thesis using H(6) r F(1) unfolding req_held_def by metis
  qed
  have new: "req_held ?cm (new ! i)" if i: "i < length new" for i
  proof -
    have i': "i < length ps" using i L(3) by simp
    note b = built_at [OF L(4) i i', unfolded built_from_def]
    have p: "pend_ok M ?hp (ps ! i)" using ps i' by simp
    show ?thesis
    proof (cases "p_chunked (ps ! i)")
      case None
      have f: "new ! i \<in> set (fresh ps new)" using fresh_at [OF i i' None] .
      have "r_table_idx (new ! i) \<in># ?U + mset (map r_table_idx (fresh ps new))" using f by simp
      then have "r_table_idx (new ! i) < n" using rows_conserved_bound [OF P(5)] by blast
      then show ?thesis
        using L(9) [rule_format, OF f] b p M P(3)
        by (auto simp: req_held_def built_live_def pend_ok_def dims_def)
    next
      case (Some c)
      note c = continues_at [OF L(5) i i' Some]
      have r: "req_held ?cm (?hp ! c)" using old inR i' Some by (meson nth_mem)
      have "r_input_ids (?hp ! c) = take (r_cached_len (?hp ! c)) (p_input_ids (ps ! i))"
        using p Some by (simp add: pend_ok_def)
      moreover have "r_input_ids (new ! i) = take (r_device_len (new ! i)) (p_input_ids (ps ! i))"
        "r_cached_len (new ! i) < r_device_len (new ! i)" using b by auto
      ultimately have "take (handle_len (r_handle (new ! i))) (r_input_ids (new ! i)) =
          take (handle_len (r_handle (?hp ! c))) (r_input_ids (?hp ! c))"
        using r c by (simp add: req_held_def min.absorb1)
      then show ?thesis using r c unfolding req_held_def by simp
    qed
  qed
  have "req_held ?cm r" if "r \<in># ?R1" for r
  proof -
    have "r \<in># ?R0 \<or> r \<in> set new"
      using that chunk_rids_drop by (auto simp: live_of_def)
    then show ?thesis using old new by (auto simp: in_set_conv_nth)
  qed
  then have "held n w ?R1 ?cm (pl_tm pl')"
    using P F(3) unfolding held_def hands tabs own by simp
  then show ?thesis using that L P(2) F(4) by blast
qed

end

end
