(* ===== verification/EngineProps.thy ===== *)
theory EngineProps
  imports Engine PageTable
begin

text \<open>Properties of the engine: padding to a captured size, the forward step's commit, and the sizes
  computed at start-up.\<close>

section \<open>Graph sizes\<close>

lemma find_sorted:
  assumes "sorted xs" and "List.find (\<lambda>x. x \<ge> (n :: int)) xs = Some y"
  shows "y \<in> set xs" and "n \<le> y" and "\<And>x. x \<in> set xs \<Longrightarrow> n \<le> x \<Longrightarrow> y \<le> x"
proof -
  obtain i where i: "i < length xs" "n \<le> xs ! i" "y = xs ! i" "\<forall>j<i. \<not> n \<le> xs ! j"
    using assms(2) by (auto simp: find_Some_iff)
  then show "y \<in> set xs" "n \<le> y" by auto
  show "y \<le> x" if x: "x \<in> set xs" "n \<le> x" for x
  proof -
    obtain j where j: "j < length xs" "x = xs ! j" using x(1) by (metis in_set_conv_nth)
    then have "i \<le> j" using i(4) x(2) by (metis not_less)
    then show ?thesis using assms(1) j i by (simp add: sorted_nth_mono)
  qed
qed

text \<open>
  C33: padding never fails and always hits a captured graph. With any configured sizes, a decode
  batch up to the largest one is padded with the dummy request to the smallest captured size that
  holds it, whose graph exists; any other batch is left as it is.
\<close>

theorem pad_batch_hits_graph:
  assumes "g = new_graph_runner sizes max_bs mem dummy" and "0 < batch_size b"
  shows "\<exists>n. pad_batch g b = Inr (b\<lparr>b_padded_reqs := Some (b_reqs b @ replicate (n - batch_size b) dummy)\<rparr>) \<and>
    batch_size b \<le> n \<and>
    (if can_use_cuda_graph g b then
       int n \<in> set (g_map g) \<and>
       (\<forall>m\<in>set (determine_cuda_graph_bs sizes max_bs mem). int (batch_size b) \<le> m \<longrightarrow> int n \<le> m)
     else n = batch_size b)"
proof -
  let ?l = "determine_cuda_graph_bs sizes max_bs mem"
  have g: "g_bs_list g = sort ?l" "g_dummy g = dummy" "g_max_bs g = (if ?l \<noteq> [] then Max (set ?l) else 0)"
    "g_map g = (if g_max_bs g = 0 then [] else rev (sort ?l))"
    using assms(1) by (auto simp: new_graph_runner_def Let_def)
  show ?thesis
  proof (cases "can_use_cuda_graph g b")
    case False
    then show ?thesis using g(2)
      by (intro exI [of _ "batch_size b"]) (simp add: pad_batch_def padded_batch_size_def)
  next
    case True
    then have le: "int (batch_size b) \<le> g_max_bs g" by (simp add: can_use_cuda_graph_def)
    show ?thesis
    proof (cases "?l = []")
      case False
      then have mx: "g_max_bs g \<in> set ?l" using g(3) by simp
      then have "List.find (\<lambda>bs. bs \<ge> int (batch_size b)) (g_bs_list g) \<noteq> None"
        using le g(1) by (auto simp: find_None_iff)
      then obtain y where y: "List.find (\<lambda>bs. bs \<ge> int (batch_size b)) (g_bs_list g) = Some y" by blast
      have s: "sorted (g_bs_list g)" by (simp add: g(1))
      note F = find_sorted [OF s y]
      have "padded_batch_size g b = Inr y" using True y by (simp add: padded_batch_size_def)
      then have "pad_batch g b = Inr (b\<lparr>b_padded_reqs := Some (b_reqs b @ replicate (nat y - batch_size b) dummy)\<rparr>)"
        using g(2) F(2) by (simp add: pad_batch_def nat_diff_distrib')
      moreover have "y \<in> set (g_map g)" using le F(1) g assms(2) by auto
      moreover have "0 \<le> y" using F(2) by simp
      ultimately show ?thesis using True F(2,3) g(1)
        by (intro exI [of _ "nat y"]) auto
    next
      case empty: True
      then show ?thesis using le g(3) assms(2) by simp
    qed
  qed
qed


definition demo_decode :: batch where
  "demo_decode = new_batch [4, 5, 6, 7, 8, 9, 10, 11, 12] Decode"

theorem pad_batch_hits_graph_witness:
  "\<exists>n. pad_batch (new_graph_runner None (Some 16) 0 99) demo_decode =
       Inr (demo_decode\<lparr>b_padded_reqs := Some (b_reqs demo_decode @ replicate (n - 9) 99)\<rparr>) \<and>
     int n \<in> set (g_map (new_graph_runner None (Some 16) 0 99))"
proof -
  have v: "batch_size demo_decode = 9" "can_use_cuda_graph (new_graph_runner None (Some 16) 0 99) demo_decode" by code_simp+
  then show ?thesis using pad_batch_hits_graph [OF refl, of demo_decode None "Some 16" 0 99] by auto
qed

text \<open>
  the default capture sizes stay below the configured maximum when it is at least 4; for a
  positive maximum below 4 the size 4 is captured nevertheless.
\<close>

theorem graph_sizes_bounded:
  "(4 \<le> m \<longrightarrow> (\<forall>x\<in>set (determine_cuda_graph_bs None (Some m) mem). 1 \<le> x \<and> x \<le> m)) \<and>
   (1 \<le> m \<and> m < 4 \<longrightarrow> determine_cuda_graph_bs None (Some m) mem = [1, 2, 4]) \<and>
   (m < 1 \<longrightarrow> determine_cuda_graph_bs None (Some m) mem = [])"
proof -
  have "8 + 8 * int i \<le> m" if "i < nat ((m + 1 - 8 + 7) div 8)" for i using that by auto
  then show ?thesis by (auto simp: determine_cuda_graph_bs_def Let_def)
qed

theorem graph_sizes_bounded_witness:
  "list_all (\<lambda>x. 1 \<le> x \<and> x \<le> 20) (determine_cuda_graph_bs None (Some 20) 0) \<and>
   determine_cuda_graph_bs None (Some 1) 0 = [1, 2, 4]"
  using graph_sizes_bounded [of 20 0] graph_sizes_bounded [of 1 0] by (simp add: list_all_iff)

section \<open>The forward step\<close>

lemma complete_all_nth:
  "distinct rs \<Longrightarrow> \<forall>r\<in>set rs. r < length hp \<Longrightarrow> i < length hp \<Longrightarrow>
     complete_all rs hp ! i = (if i \<in> set rs then complete_one (hp ! i) else hp ! i)"
  by (induction rs arbitrary: hp) (auto simp: complete_all_def nth_list_update)

lemma length_complete_all [simp]: "length (complete_all rs hp) = length hp"
  by (induction rs arbitrary: hp) (auto simp: complete_all_def)

text \<open>
  C34: a forward step commits all of its requests or none. Whatever the model or the sampler does,
  the context has no active batch afterwards; if the step raises (a failing model, a failing
  sampler, a result of the wrong shape) every request is exactly as before, and if it returns,
  exactly the requests of the batch have advanced by one token.
\<close>

theorem forward_batch_atomic:
  assumes "distinct (b_reqs b)" and "\<forall>r\<in>set (b_reqs b). r < length (es_heap st)" and "ctx_batch (es_ctx st) = None"
  shows "case engine_forward_batch on_stream run samp b st of (r, st') \<Rightarrow>
    ctx_batch (es_ctx st') = None \<and> length (es_heap st') = length (es_heap st) \<and>
    (case r of
       Inl _ \<Rightarrow> es_heap st' = es_heap st
     | Inr toks \<Rightarrow> \<forall>i<length (es_heap st). es_heap st' ! i =
         (if i \<in> set (b_reqs b) then complete_one (es_heap st ! i) else es_heap st ! i))"
  using assms complete_all_nth [OF assms(1,2)]
  by (auto simp: engine_forward_batch_def forward_batch_ctx_def Let_def split: sum.splits prod.splits)

definition demo_step_req :: req where
  "demo_step_req = \<lparr>r_class = PlainReq, r_input_ids = [1, 2], r_table_idx = 0, r_cached_len = 0, r_device_len = 2,
     r_max_device_len = 4, r_output_len = 2, r_uid = 7, r_sampling = default_sampling_params, r_handle = NaiveHandle\<rparr>"

theorem forward_batch_atomic_witness:
  "case engine_forward_batch True (\<lambda>c. Inr [()]) (\<lambda>l. Inr ([2], [5, 6])) (new_batch [0] Decode)
     \<lparr>es_ctx = \<lparr>ctx_page_size = 1, ctx_batch = None\<rparr>, es_heap = [demo_step_req]\<rparr> of (res, st') \<Rightarrow>
     res = Inl RuntimeError \<and> es_heap st' = [demo_step_req]"
proof -
  let ?st = "\<lparr>es_ctx = \<lparr>ctx_page_size = 1, ctx_batch = None\<rparr>, es_heap = [demo_step_req]\<rparr>"
  let ?b = "new_batch [0] Decode"
  have "fst (engine_forward_batch True (\<lambda>c. Inr [()]) (\<lambda>l. Inr ([2], [5, 6])) ?b ?st) = Inl RuntimeError"
    by (simp add: engine_forward_batch_def forward_batch_ctx_def Let_def new_batch_def batch_size_def)
  moreover have "distinct (b_reqs ?b)" "\<forall>r\<in>set (b_reqs ?b). r < length (es_heap ?st)" "ctx_batch (es_ctx ?st) = None"
    by (auto simp: new_batch_def)
  note forward_batch_atomic [OF this, of True "\<lambda>c. Inr [()]" "\<lambda>l. Inr ([2], [5, 6])"]
  ultimately show ?thesis by (auto split: prod.splits)
qed

section \<open>Memory and tables\<close>


definition demo_config :: engine_config where
  "demo_config = \<lparr>ec_tp_size = 2, ec_max_running_req = 4, ec_attention_backend = ''fi'', ec_moe_backend = ''auto'',
     ec_cuda_graph_bs = None, ec_cuda_graph_max_bs = None, ec_page_size = 1, ec_memory_ratio = 9 / 10,
     ec_use_pynccl = True, ec_max_seq_len_override = None, ec_num_page_override = None, ec_is_moe = False,
     ec_head_dim = 64, ec_num_kv_heads = 8, ec_num_layers = 2, ec_max_position = 96, ec_itemsize = 2\<rparr>"




text \<open>
  With page size 64, which the configuration forces for the \<^verbatim>\<open>trtllm\<close> backend, and a limit of 96
  tokens, the row of a request of full length is 96 wide but its two pages need 128 slots.
\<close>

theorem page_table_too_narrow:
  "ec_page_size (adjust_config True True PlatformNvidia (demo_config\<lparr>ec_attention_backend := ''auto''\<rparr>)) = 64 \<and>
   engine_max_seq_len (demo_config\<lparr>ec_page_size := 64\<rparr>) 10 = 96 \<and>
   length (engine_page_table (demo_config\<lparr>ec_page_size := 64\<rparr>) 10 ! 0) = 96 \<and> page_ceil 64 96 * 64 = 128 \<and>
   write_page_table (engine_page_table (demo_config\<lparr>ec_page_size := 64\<rparr>) 10) (replicate 128 0) [(0, 0, 2)] 64 = Inl IndexError"
  by code_simp

end
