(* ===== verification/SchedQueues.thy ===== *)
theory SchedQueues
  imports Scheduler SchedAdmit EngineProps
begin

text \<open>
  The scheduler's queues, by object identity. \<open>L\<close> is the list of batches that were forwarded and
  whose results were not read yet (none or one in the plain loop, up to two in the overlapped one),
  \<open>A\<close> the requests that hold resources, \<open>D\<close> those of them whose abort is deferred.
\<close>

definition unread :: "rid list list \<Rightarrow> rid \<Rightarrow> nat" where
  "unread L r = length (filter (\<lambda>B. r \<in> set B) L)"

lemma unread_simps [simp]:
  "unread [] r = 0" "unread (B # L) r = (if r \<in> set B then Suc (unread L r) else unread L r)"
  "unread (L @ L') r = unread L r + unread L' r"
  by (simp_all add: unread_def)

lemma unread_0: "unread L r = 0 \<longleftrightarrow> (\<forall>B\<in>set L. r \<notin> set B)"
  by (auto simp: unread_def filter_empty_conv)

text \<open>
  The host's copy of the tokens lags behind the device by one token per unread batch; that of a
  chunk or of an aborted request covers what was computed.
\<close>

definition read_ok :: "rid list list \<Rightarrow> rid set \<Rightarrow> rid \<Rightarrow> req \<Rightarrow> bool" where
  "read_ok L D r q \<longleftrightarrow>
     (if r \<in> D \<or> r_class q = ChunkedReq then r_cached_len q \<le> length (r_input_ids q)
      else r_device_len q = Suc (r_cached_len q) \<and> length (r_input_ids q) + unread L r = r_device_len q)"

abbreviation plain :: "req \<Rightarrow> bool" where
  "plain q \<equiv> r_class q = PlainReq"

text \<open>The requests that hold resources, and where each of them stands.\<close>

definition owners_ok :: "heap \<Rightarrow> rid list \<Rightarrow> rid list \<Rightarrow> bool" where
  "owners_ok hp A finished \<longleftrightarrow> distinct A \<and> (\<forall>r\<in>set A. r < length hp) \<and> inj_on (\<lambda>r. r_uid (hp ! r)) (set A) \<and>
     set A \<inter> set finished = {} \<and> (\<forall>r\<in>set finished. r < length hp)"

definition members_ok :: "rid list \<Rightarrow> rid list \<Rightarrow> rid list \<Rightarrow> rid list \<Rightarrow> bool" where
  "members_ok A D running chunks \<longleftrightarrow> distinct running \<and> distinct chunks \<and> distinct D \<and>
     set running \<subseteq> set A \<and> set chunks \<subseteq> set A \<and> set D \<subseteq> set A \<and>
     set D \<inter> set running = {} \<and> set D \<inter> set chunks = {}"

definition running_ok :: "int \<Rightarrow> heap \<Rightarrow> rid list \<Rightarrow> bool" where
  "running_ok M hp running \<longleftrightarrow> (\<forall>r\<in>set running. can_decode (hp ! r) \<and> r_max_device_len (hp ! r) \<le> M)"

definition pendings_ok :: "int \<Rightarrow> heap \<Rightarrow> rid list \<Rightarrow> pending_req list \<Rightarrow> bool" where
  "pendings_ok M hp A pending \<longleftrightarrow> (\<forall>p\<in>set pending. pend_ok M hp p) \<and> chunks_first pending \<and>
     distinct (map p_uid pending) \<and>
     (\<forall>p\<in>set pending. p_chunked p = None \<longrightarrow> p_uid p \<notin> (\<lambda>r. r_uid (hp ! r)) ` set A)"

definition reads_ok :: "rid list list \<Rightarrow> rid list \<Rightarrow> rid list \<Rightarrow> heap \<Rightarrow> bool" where
  "reads_ok L D A hp \<longleftrightarrow> (\<forall>r\<in>set A. read_ok L (set D) r (hp ! r))"

definition covered :: "rid list list \<Rightarrow> rid set \<Rightarrow> rid list \<Rightarrow> heap \<Rightarrow> bool" where
  "covered L W A hp \<longleftrightarrow> (\<forall>r\<in>set A. r \<in> W \<or> (\<exists>B\<in>set L. r \<in> set B) \<and> plain (hp ! r) \<and> \<not> can_decode (hp ! r))"

definition batches_ok :: "rid list list \<Rightarrow> rid list \<Rightarrow> rid list \<Rightarrow> heap \<Rightarrow> bool" where
  "batches_ok L A finished hp \<longleftrightarrow> (\<forall>B\<in>set L. distinct B \<and>
     (\<forall>r\<in>set B. r < length hp \<and> (plain (hp ! r) \<longrightarrow> r \<notin> set finished \<longrightarrow> r \<in> set A)))"

definition queues_ok ::
  "int \<Rightarrow> heap \<Rightarrow> rid list list \<Rightarrow> rid list \<Rightarrow> rid list \<Rightarrow> rid list \<Rightarrow> pending_req list \<Rightarrow> rid list \<Rightarrow> bool" where
  "queues_ok M hp L D A running pending finished \<longleftrightarrow>
     owners_ok hp A finished \<and> members_ok A D running (chunk_rids pending) \<and> running_ok M hp running \<and>
     pendings_ok M hp A pending \<and> reads_ok L D A hp \<and>
     covered L (set running \<union> set (chunk_rids pending) \<union> set D) A hp \<and> batches_ok L A finished hp"

lemma queues_okD:
  assumes "queues_ok M hp L D A running pending finished"
  shows "owners_ok hp A finished" "members_ok A D running (chunk_rids pending)" "running_ok M hp running"
    "pendings_ok M hp A pending" "reads_ok L D A hp"
    "covered L (set running \<union> set (chunk_rids pending) \<union> set D) A hp" "batches_ok L A finished hp"
  using assms by (simp_all add: queues_ok_def)

lemma can_decode_plain: "can_decode q \<Longrightarrow> plain q"
  by (auto simp: can_decode_def split: req_class.splits)

lemma running_plain: "running_ok M hp running \<Longrightarrow> r \<in> set running \<Longrightarrow> plain (hp ! r)"
  using can_decode_plain by (auto simp: running_ok_def)

lemma chunk_chunked: "pendings_ok M hp A pending \<Longrightarrow> r \<in> set (chunk_rids pending) \<Longrightarrow> r_class (hp ! r) = ChunkedReq"
  by (auto simp: in_chunk_rids pend_ok_def pendings_ok_def)

lemma running_not_chunk:
  assumes "queues_ok M hp L D A running pending finished"
  shows "set running \<inter> set (chunk_rids pending) = {}"
  using running_plain [OF queues_okD(3) [OF assms]] chunk_chunked [OF queues_okD(4) [OF assms]] by fastforce

text \<open>At rest, with nothing unread and nothing deferred, the queues account for every live request.\<close>

lemma queues_rest:
  assumes "queues_ok M hp [] [] A running pending finished"
  shows "mset A = mset (running @ chunk_rids pending)"
proof -
  note Q = queues_okD [OF assms]
  have "set A = set (running @ chunk_rids pending)" using Q(2,6) by (auto simp: members_ok_def covered_def)
  moreover have "distinct (running @ chunk_rids pending)"
    using Q(2) running_not_chunk [OF assms] by (auto simp: members_ok_def)
  moreover have "distinct A" using Q(1) by (simp add: owners_ok_def)
  ultimately show ?thesis using set_eq_iff_mset_eq_distinct by blast
qed

section \<open>Changes to the queues\<close>

lemma chunks_first_removed: "chunks_first (xs @ p # ys) \<Longrightarrow> chunks_first (xs @ ys)"
  by (induction xs) auto

lemma chunks_first_snoc: "chunks_first ps \<Longrightarrow> p_chunked p = None \<Longrightarrow> chunks_first (ps @ [p])"
  by (induction ps) auto

lemma pendings_remove:
  assumes "pendings_ok M hp A (xs @ p # ys)" shows "pendings_ok M hp A (xs @ ys)"
  using assms chunks_first_removed [of xs p ys] by (auto simp: pendings_ok_def)

lemma pendings_shrink: "pendings_ok M hp A pending \<Longrightarrow> set A' \<subseteq> set A \<Longrightarrow> pendings_ok M hp A' pending"
  unfolding pendings_ok_def by blast

lemma owners_remove: "owners_ok hp A finished \<Longrightarrow> owners_ok hp (remove1 r A) finished"
  by (auto simp: owners_ok_def inj_on_diff)

text \<open>A fresh prompt arrives; an entry without a request is dropped.\<close>

lemma queues_add:
  assumes "queues_ok M hp L D A running pending finished"
    and "p_chunked p = None" and "pend_ok M hp p" and "p_uid p \<notin> p_uid ` set pending"
    and "p_uid p \<notin> (\<lambda>r. r_uid (hp ! r)) ` set A"
  shows "queues_ok M hp L D A running (pending @ [p]) finished"
proof -
  note Q = queues_okD [OF assms(1)]
  have "pendings_ok M hp A (pending @ [p])"
    using Q(4) assms(2-5) chunks_first_snoc [of pending p] by (auto simp: pendings_ok_def)
  then show ?thesis using Q assms(2) by (simp add: queues_ok_def)
qed

lemma queues_drop:
  assumes "queues_ok M hp L D A running (xs @ p # ys) finished" and "p_chunked p = None"
  shows "queues_ok M hp L D A running (xs @ ys) finished"
  using assms pendings_remove [of M hp A xs p ys] by (simp add: queues_ok_def)

text \<open>A request of no unread batch is released: a chunk with its entry, or a running request.\<close>

lemma queues_free_chunk:
  assumes "queues_ok M hp L D A running (xs @ p # ys) finished" and "p_chunked p = Some c"
  shows "queues_ok M hp L D (remove1 c A) running (xs @ ys) finished"
proof -
  note Q = queues_okD [OF assms(1)]
  have c: "r_class (hp ! c) = ChunkedReq" "c \<notin> set running" "c \<in> set (chunk_rids (xs @ p # ys))"
    using chunk_chunked [OF Q(4)] running_not_chunk [OF assms(1)] assms(2) by (auto simp: in_chunk_rids)
  have A: "set (remove1 c A) = set A - {c}" using Q(1) by (simp add: owners_ok_def)
  have ch: "set (chunk_rids (xs @ ys)) = set (chunk_rids (xs @ p # ys)) - {c}" "distinct (chunk_rids (xs @ ys))"
    using Q(2) assms(2) by (auto simp: members_ok_def)
  have "members_ok (remove1 c A) D running (chunk_rids (xs @ ys))"
    using Q(2) c ch unfolding members_ok_def A by auto
  moreover have "pendings_ok M hp (remove1 c A) (xs @ ys)"
    using pendings_remove [OF Q(4)] by (rule pendings_shrink) (simp add: A)
  moreover have "reads_ok L D (remove1 c A) hp" using Q(5) by (simp add: reads_ok_def A)
  moreover have "covered L (set running \<union> set (chunk_rids (xs @ ys)) \<union> set D) (remove1 c A) hp"
    using Q(6) unfolding covered_def A ch by auto
  moreover have "batches_ok L (remove1 c A) finished hp" using Q(7) c(1) unfolding batches_ok_def A by auto
  ultimately show ?thesis using Q(3) owners_remove [OF Q(1)] by (simp add: queues_ok_def)
qed

lemma queues_free_running:
  assumes "queues_ok M hp L D A running pending finished" and "r \<in> set running" and "\<forall>B\<in>set L. r \<notin> set B"
  shows "queues_ok M hp L D (remove1 r A) (remove1 r running) pending finished"
proof -
  note Q = queues_okD [OF assms(1)]
  have r: "r \<notin> set (chunk_rids pending)" using running_not_chunk [OF assms(1)] assms(2) by auto
  have A: "set (remove1 r A) = set A - {r}" using Q(1) by (simp add: owners_ok_def)
  have run: "set (remove1 r running) = set running - {r}" using Q(2) by (simp add: members_ok_def)
  have "members_ok (remove1 r A) D (remove1 r running) (chunk_rids pending)"
    using Q(2) r assms(2) unfolding members_ok_def A by auto
  moreover have "running_ok M hp (remove1 r running)" using Q(3) unfolding running_ok_def run by blast
  moreover have "pendings_ok M hp (remove1 r A) pending" using Q(4) by (rule pendings_shrink) (simp add: A)
  moreover have "reads_ok L D (remove1 r A) hp" using Q(5) by (simp add: reads_ok_def A)
  moreover have "covered L (set (remove1 r running) \<union> set (chunk_rids pending) \<union> set D) (remove1 r A) hp"
    using Q(6) unfolding covered_def A run by auto
  moreover have "batches_ok L (remove1 r A) finished hp" using Q(7) assms(3) unfolding batches_ok_def A by auto
  ultimately show ?thesis using owners_remove [OF Q(1)] by (simp add: queues_ok_def)
qed

text \<open>An abort of a request in the unread batch is deferred: it leaves the queues but keeps its resources.\<close>

lemma owner_by_uid:
  "owners_ok hp A finished \<Longrightarrow> r \<in> set A \<Longrightarrow> r' \<in> set A \<Longrightarrow> r_uid (hp ! r) = r_uid (hp ! r') \<Longrightarrow> r = r'"
  unfolding owners_ok_def inj_on_def by blast

lemma decode_abort_by_uid:
  assumes "owners_ok hp A finished" and "set running \<subseteq> set A" and "r \<in> set A" and "r_uid (hp ! r) = u"
  shows "decode_abort_req hp running u = (if r \<in> set running then Some r else None, remove1 r running)"
proof (cases "List.find (\<lambda>r. r_uid (hp ! r) = u) running")
  case None
  then have "r \<notin> set running" using assms(4) by (auto simp: find_None_iff)
  then show ?thesis using None by (simp add: decode_abort_req_def remove1_idem)
next
  case (Some r')
  then have r': "r' \<in> set running" "r_uid (hp ! r') = u" by (auto simp: find_Some_iff)
  then have "r' = r" using owner_by_uid [OF assms(1)] assms(2-4) by blast
  then show ?thesis using Some r' by (simp add: decode_abort_req_def)
qed

lemma prefill_abort_cases:
  obtains (none) "prefill_abort_req pending u = (None, pending)" and "u \<notin> p_uid ` set pending"
    | (some) xs p ys where "pending = xs @ p # ys" and "p_uid p = u" and "prefill_abort_req pending u = (p_chunked p, xs @ ys)"
proof (cases "List.extract (\<lambda>p. p_uid p = u) pending")
  case None
  then have "u \<notin> p_uid ` set pending" by (auto simp: extract_None_iff)
  moreover have "prefill_abort_req pending u = (None, pending)" using None by (simp add: prefill_abort_req_def)
  ultimately show ?thesis by (rule none [rotated])
next
  case (Some e)
  obtain xs p ys where e: "e = (xs, p, ys)" by (cases e)
  with Some have "pending = xs @ p # ys" "p_uid p = u" by (auto simp: extract_Some_iff)
  then show ?thesis using some Some e by (simp add: prefill_abort_req_def)
qed

lemma queues_defer:
  assumes q: "queues_ok M hp [B] D A running pending finished" and r: "r \<in> set A" "r \<in> set B" "r_uid (hp ! r) = u"
  shows "queues_ok M hp [B] (List.insert r D) A (remove1 r running) (snd (prefill_abort_req pending u)) finished"
proof -
  note Q = queues_okD [OF q]
  let ?pending = "snd (prefill_abort_req pending u)"
  have pend: "pendings_ok M hp A ?pending \<and> distinct (chunk_rids ?pending) \<and>
      set (chunk_rids ?pending) = set (chunk_rids pending) - {r}"
  proof (cases rule: prefill_abort_cases [of pending u])
    case none
    then have "r \<notin> set (chunk_rids pending)"
      using Q(4) r(3) by (auto simp: in_chunk_rids pendings_ok_def pend_ok_def)
    then show ?thesis using none Q(2,4) by (simp add: members_ok_def)
  next
    case (some xs p ys)
    have p: "pend_ok M hp p" using Q(4) some(1) by (simp add: pendings_ok_def)
    have "p_uid p \<in> (\<lambda>r. r_uid (hp ! r)) ` set A" using r(1,3) some(2) by blast
    moreover have "p \<in> set pending" using some(1) by simp
    ultimately have "p_chunked p \<noteq> None" using Q(4) unfolding pendings_ok_def by blast
    then obtain c where c: "p_chunked p = Some c" by blast
    have "c \<in> set A" using Q(2) some(1) c by (auto simp: members_ok_def)
    then have "c = r" using owner_by_uid [OF Q(1) _ r(1)] p c some(2) r(3) by (auto simp: pend_ok_def)
    have "distinct (chunk_rids xs @ r # chunk_rids ys)"
      using Q(2) some(1) c \<open>c = r\<close> by (simp add: members_ok_def)
    then have "distinct (chunk_rids (xs @ ys))" "set (chunk_rids (xs @ ys)) = set (chunk_rids (xs @ p # ys)) - {r}"
      using c \<open>c = r\<close> by auto
    then show ?thesis using some(1,3) pendings_remove [of M hp A xs p ys] Q(4) by simp
  qed
  have run: "set (remove1 r running) = set running - {r}" using Q(2) by (simp add: members_ok_def)
  have D: "set (List.insert r D) = insert r (set D)" by simp
  have "members_ok A (List.insert r D) (remove1 r running) (chunk_rids ?pending)"
    using Q(2) pend r(1) unfolding members_ok_def run D by auto
  moreover have "running_ok M hp (remove1 r running)" using Q(3) unfolding running_ok_def run by blast
  moreover have "reads_ok [B] (List.insert r D) A hp"
    unfolding reads_ok_def D
  proof
    fix x assume x: "x \<in> set A"
    then have "read_ok [B] (set D) x (hp ! x)" using Q(5) by (simp add: reads_ok_def)
    then show "read_ok [B] (insert r (set D)) x (hp ! x)"
      by (cases "x \<in> set B") (auto simp: read_ok_def split: if_splits)
  qed
  moreover have "covered [B] (set (remove1 r running) \<union> set (chunk_rids ?pending) \<union> set (List.insert r D)) A hp"
    using Q(6) pend unfolding covered_def run D by auto
  ultimately show ?thesis using Q(1,7) pend by (simp add: queues_ok_def)
qed

text \<open>After the last read the deferred requests are released.\<close>

lemma queues_undefer:
  assumes "queues_ok M hp L D A running pending finished" and "\<forall>B\<in>set L. set B \<inter> set D = {}"
  shows "queues_ok M hp L [] (filter (\<lambda>r. r \<notin> set D) A) running pending finished"
proof -
  note Q = queues_okD [OF assms(1)]
  have "owners_ok hp (filter (\<lambda>r. r \<notin> set D) A) finished"
    using Q(1) unfolding owners_ok_def by (auto intro: inj_on_subset)
  moreover have "members_ok (filter (\<lambda>r. r \<notin> set D) A) [] running (chunk_rids pending)"
    using Q(2) by (auto simp: members_ok_def)
  moreover have "pendings_ok M hp (filter (\<lambda>r. r \<notin> set D) A) pending" using Q(4) by (rule pendings_shrink) auto
  moreover have "reads_ok L [] (filter (\<lambda>r. r \<notin> set D) A) hp" using Q(5) by (auto simp: reads_ok_def read_ok_def)
  moreover have "covered L (set running \<union> set (chunk_rids pending) \<union> set []) (filter (\<lambda>r. r \<notin> set D) A) hp"
    using Q(6) by (auto simp: covered_def)
  moreover have "batches_ok L (filter (\<lambda>r. r \<notin> set D) A) finished hp"
    using Q(7) assms(2) unfolding batches_ok_def by auto
  ultimately show ?thesis using Q(3) by (simp add: queues_ok_def)
qed

section \<open>Reading one result\<close>

text \<open>What reading may change of a request: the host's tokens and the handle.\<close>

definition same_req :: "req \<Rightarrow> req \<Rightarrow> bool" where
  "same_req q q' \<longleftrightarrow> r_class q' = r_class q \<and> r_uid q' = r_uid q \<and> r_cached_len q' = r_cached_len q \<and>
     r_device_len q' = r_device_len q \<and> r_max_device_len q' = r_max_device_len q \<and> r_table_idx q' = r_table_idx q"

lemma same_req_can_decode: "same_req q q' \<Longrightarrow> can_decode q' = can_decode q"
  by (auto simp: same_req_def can_decode_def remain_len_def split: req_class.splits)

lemma pend_ok_other:
  assumes "pend_ok M hp p" and "p_chunked p \<noteq> Some r"
  shows "pend_ok M (hp[r := q]) p"
  using assms by (auto simp: pend_ok_def nth_list_update)

lemma queues_skip:
  assumes q: "queues_ok M hp ((r # Bs) # L) D A running pending finished"
    and r: "r_class (hp ! r) = ChunkedReq \<or> r \<in> set D \<or> r \<notin> set A"
  shows "queues_ok M hp (Bs # L) D A running pending finished"
proof -
  note Q = queues_okD [OF q]
  have "reads_ok (Bs # L) D A hp"
    unfolding reads_ok_def
  proof
    fix x assume x: "x \<in> set A"
    have "r \<notin> set Bs" using Q(7) by (auto simp: batches_ok_def)
    moreover have "read_ok ((r # Bs) # L) (set D) x (hp ! x)" using Q(5) x by (simp add: reads_ok_def)
    ultimately show "read_ok (Bs # L) (set D) x (hp ! x)"
      using r x by (cases "x = r") (auto simp: read_ok_def split: if_splits)
  qed
  moreover have "covered (Bs # L) (set running \<union> set (chunk_rids pending) \<union> set D) A hp"
    using Q(6) r unfolding covered_def by auto
  moreover have "batches_ok (Bs # L) A finished hp" using Q(7) by (auto simp: batches_ok_def)
  ultimately show ?thesis using Q(1-4) by (simp add: queues_ok_def)
qed

text \<open>The object at \<open>r\<close> changes as reading allows; everything but its host tokens is as before.\<close>

lemma queues_update:
  assumes q: "queues_ok M hp L D A running pending finished" and r: "r < length hp" "same_req (hp ! r) q'" "plain (hp ! r)"
    and read: "r \<in> set A \<Longrightarrow> read_ok L' (set D) r q'" and other: "\<And>x. x \<noteq> r \<Longrightarrow> unread L' x = unread L x"
    and L': "\<forall>B\<in>set L'. distinct B \<and> (\<exists>B'\<in>set L. set B \<subseteq> set B')"
    and cov: "covered L' (set running \<union> set (chunk_rids pending) \<union> set D) A hp"
  shows "queues_ok M (hp[r := q']) L' D A running pending finished"
proof -
  note Q = queues_okD [OF q]
  have same: "same_req (hp ! x) (hp[r := q'] ! x)" for x
    using r by (cases "x = r") (simp_all add: same_req_def)
  then have uid: "r_uid (hp[r := q'] ! x) = r_uid (hp ! x)" and cls: "r_class (hp[r := q'] ! x) = r_class (hp ! x)"
    and mx: "r_max_device_len (hp[r := q'] ! x) = r_max_device_len (hp ! x)"
    and cd: "can_decode (hp[r := q'] ! x) = can_decode (hp ! x)" for x
    using same_req_can_decode [OF same] by (auto simp: same_req_def)
  have "pend_ok M (hp[r := q']) p" if "p \<in> set pending" for p
  proof (rule pend_ok_other)
    show "pend_ok M hp p" using Q(4) that by (simp add: pendings_ok_def)
    then show "p_chunked p \<noteq> Some r" using r(3) by (auto simp: pend_ok_def)
  qed
  then have "pendings_ok M (hp[r := q']) A pending" using Q(4) by (simp add: pendings_ok_def uid)
  moreover have "read_ok L' (set D) x (hp[r := q'] ! x)" if x: "x \<in> set A" for x
  proof (cases "x = r")
    case True
    then show ?thesis using read x r(1) by simp
  next
    case False
    then show ?thesis using Q(5) x other [OF False] by (auto simp: reads_ok_def read_ok_def)
  qed
  then have "reads_ok L' D A (hp[r := q'])" by (simp add: reads_ok_def)
  moreover have "batches_ok L' A finished (hp[r := q'])"
    using Q(7) L' unfolding batches_ok_def cls length_list_update by blast
  moreover have "running_ok M (hp[r := q']) running" using Q(3) by (simp add: running_ok_def cd mx)
  moreover have "covered L' (set running \<union> set (chunk_rids pending) \<union> set D) A (hp[r := q'])"
    using cov by (simp add: covered_def cd cls)
  moreover have "owners_ok (hp[r := q']) A finished" using Q(1) by (simp add: owners_ok_def uid)
  ultimately show ?thesis using Q(2) by (simp add: queues_ok_def)
qed

text \<open>A finished request leaves its queue and the live requests.\<close>

lemma queues_finish:
  assumes q: "queues_ok M hp L D A running pending finished" and r: "r \<in> set A" "r \<notin> set D" "plain (hp ! r)"
  shows "queues_ok M hp L D (remove1 r A) (remove1 r running) pending (r # finished)"
proof -
  note Q = queues_okD [OF q]
  have A: "set (remove1 r A) = set A - {r}" using Q(1) by (simp add: owners_ok_def)
  have run: "set (remove1 r running) = set running - {r}" using Q(2) by (simp add: members_ok_def)
  have ch: "r \<notin> set (chunk_rids pending)" using chunk_chunked [OF Q(4)] r(3) by auto
  have "owners_ok hp (remove1 r A) (r # finished)"
    using owners_remove [OF Q(1), of r] r(1) Q(1) unfolding owners_ok_def A by auto
  moreover have "members_ok (remove1 r A) D (remove1 r running) (chunk_rids pending)"
    using Q(2) r ch unfolding members_ok_def A by auto
  moreover have "running_ok M hp (remove1 r running)" using Q(3) unfolding running_ok_def run by blast
  moreover have "pendings_ok M hp (remove1 r A) pending" using Q(4) by (rule pendings_shrink) (simp add: A)
  moreover have "reads_ok L D (remove1 r A) hp" using Q(5) by (simp add: reads_ok_def A)
  moreover have "covered L (set (remove1 r running) \<union> set (chunk_rids pending) \<union> set D) (remove1 r A) hp"
    using Q(6) unfolding covered_def A run by auto
  moreover have "batches_ok L (remove1 r A) (r # finished) hp" using Q(7) unfolding batches_ok_def A by auto
  ultimately show ?thesis by (simp add: queues_ok_def)
qed

text \<open>A batch that was read completely is forgotten, and with it the older finished requests.\<close>

lemma queues_read:
  assumes q: "queues_ok M hp ([] # L) D A running pending (new @ old)" and "\<forall>B\<in>set L. set B \<inter> set old = {}"
  shows "queues_ok M hp L D A running pending new"
proof -
  note Q = queues_okD [OF q]
  have "reads_ok L D A hp" using Q(5) by (auto simp: reads_ok_def read_ok_def)
  moreover have "covered L (set running \<union> set (chunk_rids pending) \<union> set D) A hp" using Q(6) by (auto simp: covered_def)
  moreover have "batches_ok L A new hp" using Q(7) assms(2) unfolding batches_ok_def by auto
  moreover have "owners_ok hp A new" using Q(1) unfolding owners_ok_def by auto
  ultimately show ?thesis using Q(2-4) by (simp add: queues_ok_def)
qed

end
