(* ===== verification/SchedForward.thy ===== *)
theory SchedForward
  imports SchedQueues
begin

text \<open>
  How forwarding a batch changes the queues: the batch's requests advance by one token, the batch
  joins the unread ones, and the requests that can go on are the running ones.
\<close>

lemma set_set_union [simp]: "set (set_union xs ys) = set xs \<union> set ys"
proof -
  have "set (fold (\<lambda>y xs. if y \<in> set xs then xs else xs @ [y]) ys zs) = set zs \<union> set ys" for zs
    by (induction ys arbitrary: zs) auto
  then show ?thesis by (simp add: set_union_def)
qed

lemma distinct_set_union: "distinct xs \<Longrightarrow> distinct (set_union xs ys)"
proof -
  have "distinct zs \<Longrightarrow> distinct (fold (\<lambda>y xs. if y \<in> set xs then xs else xs @ [y]) ys zs)" for zs
    by (induction ys arbitrary: zs) auto
  then show "distinct xs \<Longrightarrow> ?thesis" by (simp add: set_union_def)
qed

lemma set_filter_reqs: "set (filter_reqs hp running B) = {r \<in> set running \<union> set B. can_decode (hp ! r)}"
  by (auto simp: filter_reqs_def)

lemma distinct_filter_reqs: "distinct running \<Longrightarrow> distinct (filter_reqs hp running B)"
  by (simp add: filter_reqs_def distinct_set_union)

lemma can_decode_complete: "can_decode (complete_one q) \<Longrightarrow> can_decode q"
  by (auto simp: can_decode_def remain_len_def split: req_class.splits)

text \<open>Every running request takes part in a decode batch.\<close>

lemma queues_decode:
  assumes q: "queues_ok M hp L D A running pending finished" and B: "set B = set running" "distinct B"
  shows "queues_ok M (complete_all B hp) (L @ [B]) D A (filter_reqs (complete_all B hp) running B) pending finished"
proof -
  note Q = queues_okD [OF q]
  let ?hp = "complete_all B hp" and ?run = "filter_reqs (complete_all B hp) running B"
  have bound: "\<forall>r\<in>set B. r < length hp" using B Q(1,2) by (auto simp: owners_ok_def members_ok_def)
  have nth: "?hp ! r = (if r \<in> set running then complete_one (hp ! r) else hp ! r)" if "r < length hp" for r
    using complete_all_nth [OF B(2) bound that] B(1) by simp
  have lt: "r < length hp" if "r \<in> set A \<union> set running \<union> set (chunk_rids pending)" for r
    using Q(1,2) that by (auto simp: owners_ok_def members_ok_def)
  have uid: "r_uid (?hp ! r) = r_uid (hp ! r)" "r_class (?hp ! r) = r_class (hp ! r)" if "r < length hp" for r
    using nth [OF that] by simp_all
  have run: "set ?run = {r \<in> set running. can_decode (?hp ! r)}" using B by (auto simp: set_filter_reqs)
  have nochunk: "r \<notin> set running" if "r \<in> set (chunk_rids pending)" for r
    using that running_not_chunk [OF q] by auto
  have "owners_ok ?hp A finished"
    using Q(1) lt uid unfolding owners_ok_def inj_on_def by simp
  moreover have "members_ok A D ?run (chunk_rids pending)"
    using Q(2) distinct_filter_reqs unfolding members_ok_def run by auto
  moreover have "running_ok M ?hp ?run"
    using Q(3) nth lt unfolding running_ok_def run by auto
  moreover have "pend_ok M ?hp p" if p: "p \<in> set pending" for p
  proof -
    have "pend_ok M hp p" using Q(4) p by (simp add: pendings_ok_def)
    moreover have "?hp ! c = hp ! c" if "p_chunked p = Some c" for c
    proof -
      have "c \<in> set (chunk_rids pending)" using p that by (auto simp: in_chunk_rids)
      then show ?thesis using nth lt nochunk by auto
    qed
    ultimately show ?thesis by (auto simp: pend_ok_def)
  qed
  then have "pendings_ok M ?hp A pending"
    using Q(4) uid lt unfolding pendings_ok_def image_def by auto
  moreover have "read_ok (L @ [B]) (set D) r (?hp ! r)" if r: "r \<in> set A" for r
  proof -
    have "read_ok L (set D) r (hp ! r)" using Q(5) r by (simp add: reads_ok_def)
    moreover have "r \<in> set running \<Longrightarrow> r \<notin> set D \<and> plain (hp ! r)"
      using Q(2) running_plain [OF Q(3)] by (auto simp: members_ok_def)
    ultimately show ?thesis using nth [of r] lt [of r] r B(1) by (auto simp: read_ok_def)
  qed
  then have "reads_ok (L @ [B]) D A ?hp" by (simp add: reads_ok_def)
  moreover have "covered (L @ [B]) (set ?run \<union> set (chunk_rids pending) \<union> set D) A ?hp"
    unfolding covered_def
  proof
    fix r assume r: "r \<in> set A"
    have c: "r \<in> set running \<union> set (chunk_rids pending) \<union> set D \<or> (\<exists>B\<in>set L. r \<in> set B) \<and> plain (hp ! r) \<and> \<not> can_decode (hp ! r)"
      using Q(6) r by (simp add: covered_def)
    show "r \<in> set ?run \<union> set (chunk_rids pending) \<union> set D \<or>
        (\<exists>B\<in>set (L @ [B]). r \<in> set B) \<and> plain (?hp ! r) \<and> \<not> can_decode (?hp ! r)"
    proof (cases "r \<in> set running")
      case True
      then show ?thesis using run uid(2) [OF lt] r running_plain [OF Q(3)] B(1) by auto
    next
      case False
      then show ?thesis using c nth [OF lt] r by auto
    qed
  qed
  moreover have "batches_ok (L @ [B]) A finished ?hp"
    using Q(2,7) uid(2) bound B unfolding batches_ok_def members_ok_def by auto
  ultimately show ?thesis by (simp add: queues_ok_def)
qed

text \<open>The new requests of a prefill batch, completed.\<close>

lemma chunk_entries_iff:
  "length new \<le> length ps \<Longrightarrow> q \<in> set (chunk_entries k ps new) \<longleftrightarrow>
     (\<exists>i<length new. r_class (new ! i) = ChunkedReq \<and> q = (ps ! i)\<lparr>p_chunked := Some (k + i)\<rparr>)"
proof (induction k ps new rule: chunk_entries.induct)
  case (1 k p ps r new)
  have "(\<exists>i<length (r # new). r_class ((r # new) ! i) = ChunkedReq \<and> q = ((p # ps) ! i)\<lparr>p_chunked := Some (k + i)\<rparr>) \<longleftrightarrow>
     r_class r = ChunkedReq \<and> q = p\<lparr>p_chunked := Some k\<rparr> \<or>
     (\<exists>i<length new. r_class (new ! i) = ChunkedReq \<and> q = (ps ! i)\<lparr>p_chunked := Some (Suc k + i)\<rparr>)"
    by (simp add: Ex_less_Suc2)
  then show ?case using 1 by auto
qed auto

lemma chunk_entries_uids_subset:
  assumes "length new \<le> length ps"
  shows "p_uid ` set (chunk_entries k ps new) \<subseteq> p_uid ` set (take (length new) ps)"
proof
  fix u assume "u \<in> p_uid ` set (chunk_entries k ps new)"
  then obtain i where i: "i < length new" "u = p_uid (ps ! i)" using chunk_entries_iff [OF assms] by auto
  then have "u = p_uid (take (length new) ps ! i)" "i < length (take (length new) ps)" using assms by auto
  then show "u \<in> p_uid ` set (take (length new) ps)" using nth_mem by blast
qed

lemma chunk_entries_uids:
  "length new \<le> length ps \<Longrightarrow> distinct (map p_uid ps) \<Longrightarrow> distinct (map p_uid (chunk_entries k ps new @ drop (length new) ps))"
proof (induction k ps new rule: chunk_entries.induct)
  case (1 k p ps r new)
  have "p_uid p \<notin> set (map p_uid (chunk_entries (Suc k) ps new @ drop (length new) ps))"
  proof -
    have "p_uid ` set (chunk_entries (Suc k) ps new) \<subseteq> p_uid ` set ps"
      using chunk_entries_uids_subset [of new ps "Suc k"] 1(3) set_take_subset by fastforce
    then show ?thesis using 1(4) by (auto dest: in_set_dropD)
  qed
  then show ?case using 1 by simp
qed auto

lemma chunks_first_entries: "chunks_first qs \<Longrightarrow> chunks_first (chunk_entries k ps new @ qs)"
  by (induction k ps new rule: chunk_entries.induct) auto

lemma chunks_first_drop: "chunks_first ps \<Longrightarrow> chunks_first (drop k ps)"
proof (induction ps arbitrary: k)
  case (Cons p ps)
  then show ?case by (cases k) auto
qed simp

lemma chunk_rids_entries:
  "length new \<le> length ps \<Longrightarrow> set (chunk_rids (chunk_entries k ps new)) = {k + i | i. i < length new \<and> r_class (new ! i) = ChunkedReq}"
  unfolding set_eq_iff in_chunk_rids bex_simps Bex_def chunk_entries_iff by auto

lemma distinct_chunk_entries: "distinct (chunk_rids (chunk_entries k ps new))"
proof (induction k ps new rule: chunk_entries.induct)
  case (1 k p ps r new)
  have "k \<notin> set (chunk_rids (chunk_entries (Suc k) ps new))"
  proof -
    have "Suc m \<le> c" if "c \<in> set (chunk_rids (chunk_entries (Suc m) ps new))" for c m
      using that
    proof (induction "Suc m" ps new arbitrary: m rule: chunk_entries.induct)
      case (1 p ps r new)
      then show ?case by (auto split: if_splits dest: Suc_leD)
    qed auto
    then show ?thesis by fastforce
  qed
  then show ?case using 1 by simp
qed auto

lemma in_rids: "r \<in> set (rids k m) \<longleftrightarrow> (\<exists>i<m. r = k + i)"
  by (auto simp: rids_def) presburger

lemma distinct_rids [simp]: "distinct (rids k m)"
  by (simp add: rids_def)

text \<open>The objects after a prefill batch was forwarded.\<close>

lemma prefill_heap:
  shows "length (complete_all (rids (length hp) (length new)) (hp @ new)) = length hp + length new"
    and "r < length hp \<Longrightarrow> complete_all (rids (length hp) (length new)) (hp @ new) ! r = hp ! r"
    and "i < length new \<Longrightarrow> complete_all (rids (length hp) (length new)) (hp @ new) ! (length hp + i) = complete_one (new ! i)"
proof -
  let ?B = "rids (length hp) (length new)"
  have bound: "\<forall>r\<in>set ?B. r < length (hp @ new)" by (auto simp: in_rids)
  show "length (complete_all ?B (hp @ new)) = length hp + length new" by simp
  show "r < length hp \<Longrightarrow> complete_all ?B (hp @ new) ! r = hp ! r"
    using complete_all_nth [OF distinct_rids bound, of r] by (auto simp: in_rids nth_append)
  show "i < length new \<Longrightarrow> complete_all ?B (hp @ new) ! (length hp + i) = complete_one (new ! i)"
    using complete_all_nth [OF distinct_rids bound, of "length hp + i"] by (auto simp: in_rids)
qed

lemma queues_prefill:
  assumes q: "queues_ok M hp L D A running pending finished"
    and len: "length new \<le> length pending" and built: "built_all pending new" and cont: "continues hp pending new"
  defines "B \<equiv> rids (length hp) (length new)" and "m \<equiv> length new"
  defines "hp' \<equiv> complete_all B (hp @ new)"
  shows "queues_ok M hp' (L @ [B]) D (filter (\<lambda>r. r \<notin> set (chunk_rids (take m pending))) A @ B)
    (filter_reqs hp' running B) (chunk_entries (length hp) pending new @ drop m pending) finished"
proof -
  note Q = queues_okD [OF q]
  let ?k = "length hp" and ?C = "set (chunk_rids (take m pending))"
  let ?A = "filter (\<lambda>r. r \<notin> ?C) A @ B" and ?run = "filter_reqs hp' running B"
  let ?ent = "chunk_entries ?k pending new" and ?pend = "chunk_entries ?k pending new @ drop m pending"
  have old: "hp' ! r = hp ! r" if "r < ?k" for r using prefill_heap(2) that by (simp add: hp'_def B_def)
  have nw: "hp' ! (?k + i) = complete_one (new ! i)" if "i < m" for i
    using prefill_heap(3) that by (simp add: hp'_def B_def m_def)
  have len': "length hp' = ?k + m" using prefill_heap(1) by (simp add: hp'_def B_def m_def)
  have inB: "r \<in> set B \<longleftrightarrow> (\<exists>i<m. r = ?k + i)" for r by (simp add: B_def m_def in_rids)
  have lt: "r < ?k" if "r \<in> set A" for r using Q(1) that by (simp add: owners_ok_def)
  have b: "built_from (pending ! i) (r_handle (new ! i)) (r_table_idx (new ! i)) (r_cached_len (new ! i)) (new ! i)"
    if "i < m" for i using built_at [OF built] that len by (simp add: m_def)
  have pk: "pend_ok M hp (pending ! i)" if "i < m" for i
    using Q(4) that len by (simp add: pendings_ok_def m_def)
  have cin: "c \<in> set A" "c \<in> ?C" "r_uid (hp ! c) = p_uid (pending ! i)" if "i < m" "p_chunked (pending ! i) = Some c" for i c
  proof -
    have mem: "pending ! i \<in> set (take m pending)" using that(1) len by (auto simp: in_set_conv_nth m_def)
    then show "c \<in> ?C" using that(2) by (auto simp: in_chunk_rids)
    then have "c \<in> set (chunk_rids pending)" using chunk_rids_append [of "take m pending" "drop m pending"] by auto
    then show "c \<in> set A" using Q(2) by (auto simp: members_ok_def)
    show "r_uid (hp ! c) = p_uid (pending ! i)" using pk [OF that(1)] that(2) by (simp add: pend_ok_def)
  qed
  have uids: "p_uid (pending ! i) \<noteq> r_uid (hp ! r)" if i: "i < m" and r: "r \<in> set A" "r \<notin> ?C" for i r
  proof (cases "p_chunked (pending ! i)")
    case None
    have "pending ! i \<in> set pending" using i len by (simp add: m_def)
    then show ?thesis using Q(4) None r(1) unfolding pendings_ok_def by (metis imageI)
  next
    case (Some c)
    then show ?thesis using cin [OF i Some] owner_by_uid [OF Q(1) r(1)] r(2) by metis
  qed
  have uid_inj: "i = j" if "i < m" "j < m" "p_uid (pending ! i) = p_uid (pending ! j)" for i j
    using Q(4) that len by (simp add: pendings_ok_def distinct_conv_nth m_def) (metis less_le_trans)
  have uid_new: "r_uid (hp' ! (?k + i)) = p_uid (pending ! i)" if "i < m" for i
    using nw [OF that] b [OF that] by (simp add: built_from_def)
  have mixed: "r_uid (hp' ! x) \<noteq> r_uid (hp' ! y)" if x: "x \<in> set B" and y: "y \<in> set A" "y \<notin> ?C" for x y
  proof -
    obtain i where "i < m" "x = ?k + i" using x inB by blast
    then show ?thesis using uid_new [of i] uids [OF _ y] old [OF lt [OF y(1)]] by simp
  qed
  have "inj_on (\<lambda>r. r_uid (hp' ! r)) (set ?A)"
  proof (rule inj_onI)
    fix x y assume x: "x \<in> set ?A" and y: "y \<in> set ?A" and e: "r_uid (hp' ! x) = r_uid (hp' ! y)"
    show "x = y"
    proof (cases "x \<in> set B"; cases "y \<in> set B")
      assume "x \<in> set B" "y \<in> set B"
      then show ?thesis using e uid_new uid_inj by (auto simp: inB)
    next
      assume "x \<in> set B" "y \<notin> set B"
      then show ?thesis using mixed [of x y] e y by auto
    next
      assume "x \<notin> set B" "y \<in> set B"
      then show ?thesis using mixed [of y x] e x by auto
    next
      assume "x \<notin> set B" "y \<notin> set B"
      then show ?thesis using e x y old lt owner_by_uid [OF Q(1)] by auto
    qed
  qed
  moreover have "r \<notin> set finished \<and> r < ?k + m" if r: "r \<in> set ?A" for r
  proof (cases "r \<in> set B")
    case True
    then obtain i where "i < m" "r = ?k + i" using inB by blast
    then show ?thesis using Q(1) by (auto simp: owners_ok_def)
  next
    case False
    then show ?thesis using r Q(1) lt [of r] by (auto simp: owners_ok_def)
  qed
  moreover have "distinct ?A"
  proof -
    have "set A \<inter> set B = {}" using lt inB by fastforce
    then show ?thesis using Q(1) by (auto simp: owners_ok_def B_def)
  qed
  moreover have "\<forall>r\<in>set finished. r < ?k + m" using Q(1) by (auto simp: owners_ok_def)
  ultimately have "owners_ok hp' ?A finished" unfolding owners_ok_def len' by blast
  moreover have run: "set ?run = {r \<in> set running \<union> set B. can_decode (hp' ! r)}" by (rule set_filter_reqs)
  have runA: "r \<in> set A \<and> r \<notin> ?C \<and> r < ?k" if "r \<in> set running" for r
    using Q(2) that lt running_not_chunk [OF q] chunk_rids_append [of "take m pending" "drop m pending"]
    by (auto simp: members_ok_def)
  have ent: "set (chunk_rids ?ent) = {?k + i | i. i < m \<and> r_class (new ! i) = ChunkedReq}"
    using chunk_rids_entries [OF len] by (simp add: m_def)
  have rest: "set (chunk_rids (drop m pending)) \<subseteq> set A - ?C" "distinct (chunk_rids (drop m pending))"
    using Q(2) chunk_rids_append [of "take m pending" "drop m pending"] by (auto simp: members_ok_def)
  have D: "r \<notin> ?C \<and> r < ?k" if "r \<in> set D" for r
    using Q(2) that lt chunk_rids_append [of "take m pending" "drop m pending"] by (auto simp: members_ok_def)
  have "members_ok ?A D ?run (chunk_rids ?pend)"
    unfolding members_ok_def run
  proof (intro conjI)
    show "distinct ?run" using Q(2) by (intro distinct_filter_reqs) (simp add: members_ok_def)
    show "distinct (chunk_rids ?pend)"
      using distinct_chunk_entries rest ent lt by fastforce
    show "distinct D" using Q(2) by (simp add: members_ok_def)
    show "{r \<in> set running \<union> set B. can_decode (hp' ! r)} \<subseteq> set ?A" using runA by auto
    show "set (chunk_rids ?pend) \<subseteq> set ?A" using ent rest(1) by (auto simp: inB)
    show "set D \<subseteq> set ?A" using D Q(2) by (auto simp: members_ok_def)
    show "set D \<inter> {r \<in> set running \<union> set B. can_decode (hp' ! r)} = {}"
      using Q(2) D by (auto simp: members_ok_def inB)
    show "set D \<inter> set (chunk_rids ?pend) = {}"
    proof -
      have "x \<notin> set (chunk_rids ?pend)" if x: "x \<in> set D" for x
      proof -
        have "x \<notin> set (chunk_rids pending)" using Q(2) x by (auto simp: members_ok_def)
        then have "x \<notin> set (chunk_rids (drop m pending))" using chunk_rids_drop by blast
        then show ?thesis using D [OF x] ent by auto
      qed
      then show ?thesis by blast
    qed
  qed
  moreover have "running_ok M hp' ?run"
    unfolding running_ok_def run
  proof
    fix r assume r: "r \<in> {r \<in> set running \<union> set B. can_decode (hp' ! r)}"
    have "r_max_device_len (hp' ! r) \<le> M"
    proof (cases "r \<in> set B")
      case True
      then obtain i where i: "i < m" "r = ?k + i" by (auto simp: inB)
      have "plain (new ! i)" using r i nw can_decode_plain [of "hp' ! r"] by simp
      then show ?thesis using b [OF i(1)] pk [OF i(1)] nw i by (simp add: built_from_def pend_ok_def)
    next
      case False
      then show ?thesis using r Q(3) runA old by (auto simp: running_ok_def)
    qed
    then show "can_decode (hp' ! r) \<and> r_max_device_len (hp' ! r) \<le> M" using r by simp
  qed
  moreover have "pend_ok M hp' p" if p: "p \<in> set ?pend" for p
  proof (cases "p \<in> set ?ent")
    case True
    then obtain i where i: "i < m" "r_class (new ! i) = ChunkedReq" "p = (pending ! i)\<lparr>p_chunked := Some (?k + i)\<rparr>"
      using chunk_entries_iff [OF len] by (auto simp: m_def)
    then show ?thesis using b [OF i(1)] pk [OF i(1)] nw [OF i(1)]
      by (auto simp: pend_ok_def built_from_def len' p_input_len_def p_output_len_def le_neq_implies_less)
  next
    case False
    then have "p \<in> set (drop m pending)" using p by simp
    then have pp: "p \<in> set pending" by (rule in_set_dropD)
    then have "pend_ok M hp p" using Q(4) by (simp add: pendings_ok_def)
    then show ?thesis using old by (auto simp: pend_ok_def len')
  qed
  moreover have "p_uid p \<notin> (\<lambda>r. r_uid (hp' ! r)) ` set ?A" if p: "p \<in> set ?pend" "p_chunked p = None" for p
  proof
    assume "p_uid p \<in> (\<lambda>r. r_uid (hp' ! r)) ` set ?A"
    then obtain r where r0: "r \<in> set ?A" "p_uid p = r_uid (hp' ! r)" by blast
    note r = r0(1) r0(2) [symmetric]
    have "p \<notin> set ?ent" using p(2) chunk_entries_iff [OF len] by auto
    then have d: "p \<in> set (drop m pending)" using p(1) by simp
    then have pp: "p \<in> set pending" by (rule in_set_dropD)
    show False
    proof (cases "r \<in> set B")
      case True
      then obtain i where i: "i < m" "p_uid (pending ! i) = p_uid p" using r(2) uid_new by (auto simp: inB)
      obtain j where "j < length (drop m pending)" "p = drop m pending ! j" using d by (metis in_set_conv_nth)
      then have j: "m + j < length pending" "p = pending ! (m + j)" using len by (auto simp: m_def)
      then have "i = m + j" using Q(4) i len by (simp add: pendings_ok_def distinct_conv_nth m_def)
      then show False using i(1) by simp
    next
      case False
      then have "r \<in> set A" using r(1) by simp
      then show False using Q(4) pp p(2) r(2) old lt unfolding pendings_ok_def by (metis imageI)
    qed
  qed
  moreover have "chunks_first ?pend" "distinct (map p_uid ?pend)"
    using Q(4) chunks_first_entries chunks_first_drop chunk_entries_uids [OF len] by (auto simp: pendings_ok_def m_def)
  ultimately have "owners_ok hp' ?A finished" "members_ok ?A D ?run (chunk_rids ?pend)" "running_ok M hp' ?run"
    "pendings_ok M hp' ?A ?pend" by (auto simp: pendings_ok_def)
  moreover have "read_ok (L @ [B]) (set D) r (hp' ! r)" if r: "r \<in> set ?A" for r
  proof (cases "r \<in> set B")
    case True
    then obtain i where i: "i < m" "r = ?k + i" by (auto simp: inB)
    have "unread L r = 0" using Q(7) i(2) by (auto simp: unread_0 batches_ok_def)
    then show ?thesis using b [OF i(1)] nw [OF i(1)] i True pk [OF i(1)] D
      by (auto simp: read_ok_def built_from_def p_input_len_def)
  next
    case False
    then show ?thesis using Q(5) r old [OF lt] by (auto simp: reads_ok_def read_ok_def)
  qed
  moreover have "covered (L @ [B]) (set ?run \<union> set (chunk_rids ?pend) \<union> set D) ?A hp'"
    unfolding covered_def
  proof
    fix r assume r: "r \<in> set ?A"
    show "r \<in> set ?run \<union> set (chunk_rids ?pend) \<union> set D \<or>
        (\<exists>B\<in>set (L @ [B]). r \<in> set B) \<and> plain (hp' ! r) \<and> \<not> can_decode (hp' ! r)"
    proof (cases "r \<in> set B")
      case True
      then obtain i where i: "i < m" "r = ?k + i" by (auto simp: inB)
      show ?thesis
      proof (cases "r_class (new ! i)")
        case PlainReq
        then show ?thesis using True run nw i by auto
      next
        case ChunkedReq
        then show ?thesis using ent i by auto
      qed
    next
      case False
      then have rA: "r \<in> set A" "r \<notin> ?C" "hp' ! r = hp ! r" using r old lt by auto
      then have "r \<in> set running \<union> set (chunk_rids pending) \<union> set D \<or> (\<exists>B\<in>set L. r \<in> set B) \<and> plain (hp ! r) \<and> \<not> can_decode (hp ! r)"
        using Q(6) by (simp add: covered_def)
      moreover have "r \<in> set running \<Longrightarrow> can_decode (hp ! r)" using Q(3) by (simp add: running_ok_def)
      moreover have "r \<in> set (chunk_rids pending) \<Longrightarrow> r \<in> set (chunk_rids (drop m pending))"
        using rA(2) chunk_rids_append [of "take m pending" "drop m pending"] by auto
      ultimately show ?thesis using rA(3) run by auto
    qed
  qed
  moreover have "batches_ok (L @ [B]) ?A finished hp'"
  proof -
    have "r \<in> set ?A" if "Bt \<in> set L" "r \<in> set Bt" "plain (hp' ! r)" "r \<notin> set finished" for Bt r
    proof -
      have r: "r < ?k" "plain (hp ! r)" using Q(7) that old by (auto simp: batches_ok_def)
      then have "r \<in> set A" using Q(7) that by (auto simp: batches_ok_def)
      moreover have "r \<notin> ?C"
        using chunk_chunked [OF Q(4)] r(2) chunk_rids_append [of "take m pending" "drop m pending"] by auto
      ultimately show ?thesis by simp
    qed
    moreover have "r < ?k + m" if "r \<in> set B" for r using that inB by auto
    moreover have "r < ?k + m" if "Bt \<in> set L" "r \<in> set Bt" for Bt r using Q(7) that by (fastforce simp: batches_ok_def)
    moreover have "distinct B" by (simp add: B_def)
    ultimately show ?thesis using Q(7) unfolding batches_ok_def len' by auto
  qed
  ultimately show ?thesis by (simp add: queues_ok_def reads_ok_def)
qed

end
