(* ===== verification/SchedBatch.thy ===== *)
theory SchedBatch
  imports SchedForward
begin

text \<open>
  One batch from its preparation to the state after its forward step. A well-behaved device is one
  whose metadata preparation, model and sampler return, with one row of logits and one token per
  request; nothing is assumed about the tokens.
\<close>

definition good_device :: "'l device \<Rightarrow> bool" where
  "good_device d \<longleftrightarrow> d_on_stream d \<and> (\<forall>b. d_attn d b = Inr ()) \<and>
     (\<forall>b c. \<exists>l. d_run d b c = Inr l \<and> batch_size b \<le> length l) \<and>
     (\<forall>a l. \<exists>toks. d_samp d a l = Inr ([length l], toks) \<and> length toks = length l)"

section \<open>Index tensors\<close>

lemma zip_rows_positions:
  "(i, p) \<in> set (zip (make_input_rows hp P) (make_positions hp P)) \<Longrightarrow>
     \<exists>r\<in>set P. i = r_table_idx (hp ! r) \<and> r_cached_len (hp ! r) \<le> p \<and> p < r_device_len (hp ! r)"
proof (induction P)
  case (Cons r P)
  then show ?case
    by (fastforce simp: make_input_rows_def make_positions_def zip_append dest: set_zip_leftD set_zip_rightD)
qed (simp add: make_input_rows_def)

lemma res_map_exists: "(\<And>x. x \<in> set xs \<Longrightarrow> \<exists>y. f x = Inr y) \<Longrightarrow> \<exists>ys. res_map f xs = Inr ys"
  by (induction xs) force+

lemma gather_total:
  assumes "\<And>i p. (i, p) \<in> set (zip (fst idx) (snd idx)) \<Longrightarrow> i < length t \<and> p < length (t ! i)"
  shows "\<exists>xs. gather t idx = Inr xs"
  unfolding gather_def using assms by (intro res_map_exists) auto

lemma scatter_total:
  assumes "dims m w t" and "0 < w" and "\<And>i p. (i, p) \<in> set (zip (fst idx) (snd idx)) \<Longrightarrow> i < m \<and> - 1 \<le> p \<and> p < int w"
  shows "\<exists>u. scatter_tokens t idx vals = Inr u \<and> dims m w u"
proof -
  let ?f = "\<lambda>(i, p). if i < length t then
         (let p = (if p < 0 then p + int (length (t ! i)) else p) in
          if 0 \<le> p \<and> p < int (length (t ! i)) then Inr (i, nat p) else Inl IndexError)
         else Inl IndexError :: (nat \<times> nat) res"
  let ?g = "\<lambda>(i, p). (i, nat (if p < 0 then p + int w else p))"
  have row: "i < m \<Longrightarrow> length (t ! i) = w" for i using assms(1) by (rule dims_row)
  have "res_map ?f (zip (fst idx) (snd idx)) = Inr (map ?g (zip (fst idx) (snd idx)))"
  proof (rule res_map_total)
    fix x assume x: "x \<in> set (zip (fst idx) (snd idx))"
    obtain i p where ip: "x = (i, p)" by (cases x)
    then have "i < m" "- 1 \<le> p" "p < int w" using assms(3) x by auto
    then show "?f x = Inr (?g x)" using row [of i] assms(1,2) by (auto simp: ip dims_def Let_def)
  qed
  moreover have "i < length t \<and> p < length (t ! i)" if "(i, p) \<in> set (map ?g (zip (fst idx) (snd idx)))" for i p
    using that assms row by (force simp: dims_def split: if_splits)
  then obtain u where "res_fold cell_write (zip (map ?g (zip (fst idx) (snd idx))) vals) t = Inr u"
    using cells_total by blast
  moreover from this have "dims m w u" using cells_dims dims_same_dims assms(1) by blast
  ultimately show ?thesis unfolding scatter_tokens_def by simp
qed

lemma pad_batch_ok:
  assumes "g = new_graph_runner sizes mx mem dummy" and "b_reqs b \<noteq> []"
  obtains m where "pad_batch g b = Inr (b\<lparr>b_padded_reqs := Some (b_reqs b @ replicate m dummy)\<rparr>)"
proof -
  have "\<exists>y. padded_batch_size g b = Inr y"
  proof (cases "can_use_cuda_graph g b")
    case True
    let ?l = "determine_cuda_graph_bs sizes mx mem"
    have g: "g_bs_list g = sort ?l" "g_max_bs g = (if ?l \<noteq> [] then Max (set ?l) else 0)"
      using assms(1) by (auto simp: new_graph_runner_def Let_def)
    have le: "int (batch_size b) \<le> g_max_bs g" using True by (simp add: can_use_cuda_graph_def)
    moreover have "0 < int (batch_size b)" using assms(2) by (simp add: batch_size_def)
    ultimately have "g_max_bs g \<in> set (g_bs_list g)" using g by (cases "?l = []") auto
    then have "List.find (\<lambda>bs. bs \<ge> int (batch_size b)) (g_bs_list g) \<noteq> None"
      using le by (auto simp: find_None_iff)
    then show ?thesis using True by (auto simp: padded_batch_size_def)
  qed (simp add: padded_batch_size_def)
  then show ?thesis using that assms(1) by (auto simp: pad_batch_def new_graph_runner_def Let_def)
qed

section \<open>Forwarding\<close>

text \<open>The dummy request that pads batches: one token in the extra row.\<close>

definition dummy_ok :: "nat \<Rightarrow> heap \<Rightarrow> rid \<Rightarrow> bool" where
  "dummy_ok n hp d \<longleftrightarrow> d < length hp \<and> r_table_idx (hp ! d) = n \<and> r_cached_len (hp ! d) = 0 \<and> r_device_len (hp ! d) = 1"

definition graph_ok :: "graph_runner \<Rightarrow> bool" where
  "graph_ok g \<longleftrightarrow> (\<exists>sizes mx mem. g = new_graph_runner sizes mx mem (g_dummy g))"

text \<open>What a batch may need of its requests: positions inside the row.\<close>

definition fits_row :: "nat \<Rightarrow> req \<Rightarrow> bool" where
  "fits_row w q \<longleftrightarrow> r_cached_len q \<le> r_device_len q \<and> r_device_len q \<le> w \<and> (can_decode q \<longrightarrow> r_device_len q < w)"

definition run_step ::
  "'c prefix_cache_class \<Rightarrow> 'l device \<Rightarrow> batch \<Rightarrow> 'c sched \<Rightarrow> (forward_data \<times> 'c sched) res" where
  "run_step cls d b s = (case prepare_batch cls d b s of (r, s) \<Rightarrow> rbind r (\<lambda>fi. forward_step d fi s))"

text \<open>The fields no batch touches.\<close>

definition sched_frame :: "'c sched \<Rightarrow> 'c sched \<Rightarrow> bool" where
  "sched_frame s s' \<longleftrightarrow> s_graph s' = s_graph s \<and> s_finished s' = s_finished s \<and> s_inflight s' = s_inflight s \<and>
     s_deferred s' = s_deferred s \<and> s_acks s' = s_acks s \<and> s_eos s' = s_eos s \<and>
     s_prefill_budget s' = s_prefill_budget s \<and> s_max_seq_len s' = s_max_seq_len s \<and> s_sent s' = s_sent s"

lemma sched_frame_refl [simp]: "sched_frame s s"
  by (simp add: sched_frame_def)

lemma sched_frame_trans: "sched_frame s t \<Longrightarrow> sched_frame t u \<Longrightarrow> sched_frame s u"
  by (simp add: sched_frame_def)

context prefix_cache
begin

lemma batch_forwarded:
  assumes h: "held n w (mset (map ((!) (s_heap s)) B) + R) (s_cm s) (s_tm s)" and lazy: "cm_lazy (s_cm s) = None"
    and B: "b_reqs b = B" "B \<noteq> []" "distinct B" "\<forall>r\<in>set B. r < length (s_heap s) \<and> fits_row w (s_heap s ! r)"
    and fits: "int (extend_of (map ((!) (s_heap s)) B)) \<le> available_size cls (s_cm s)"
    and env: "graph_ok (s_graph s)" "dummy_ok n (s_heap s) (g_dummy (s_graph s))" "0 < w" "ctx_batch (es_ctx (s_engine s)) = None"
    and d: "good_device d"
  obtains fi toks s' where "run_step cls d b s = Inr ((fi, toks), s')" and "b_reqs (fi_batch fi) = B"
    and "b_phase (fi_batch fi) = b_phase b" and "length toks = length B"
    and "s_heap s' = complete_all B (s_heap s)" and "s_running s' = filter_reqs (complete_all B (s_heap s)) (s_running s) B"
    and "s_pending s' = s_pending s" and "sched_frame s s'" and "ctx_batch (es_ctx (s_engine s')) = None"
    and "held n w (mset (map ((!) (s_heap s')) B) + R) (s_cm s') (s_tm s')" and "cm_lazy (s_cm s') = None"
    and "cm_num_pages (s_cm s') = cm_num_pages (s_cm s)"
    and "spare (mset (map ((!) (s_heap s')) B) + R) (s_cm s') =
       spare (mset (map ((!) (s_heap s)) B) + R) (s_cm s) - int (extend_of (map ((!) (s_heap s)) B))"
proof -
  let ?hp = "s_heap s" and ?rs = "map ((!) (s_heap s)) B" and ?g = "s_graph s"
  obtain sizes mx mem where g: "?g = new_graph_runner sizes mx mem (g_dummy ?g)" using env(1) by (auto simp: graph_ok_def)
  obtain m where pad: "pad_batch ?g b = Inr (b\<lparr>b_padded_reqs := Some (B @ replicate m (g_dummy ?g))\<rparr>)"
    using pad_batch_ok [OF g, of b] B(1,2) by auto
  let ?P = "B @ replicate m (g_dummy ?g)" and ?b1 = "b\<lparr>b_padded_reqs := Some (B @ replicate m (g_dummy ?g))\<rparr>"
  have "\<forall>r\<in>set ?rs. r_cached_len r \<le> r_device_len r \<and> r_device_len r \<le> w" using B(4) by (auto simp: fits_row_def)
  then obtain tok cm1 where al: "allocate_paged cls (s_cm s) ?rs = Inr (tok, cm1)"
    "held n w (mset (map complete_one ?rs) + R) cm1 (s_tm s)" "cm_lazy cm1 = None" "cm_num_pages cm1 = cm_num_pages (s_cm s)"
    "spare (mset (map complete_one ?rs) + R) cm1 = spare (mset ?rs + R) (s_cm s) - int (extend_of ?rs)"
    using held_alloc [OF h lazy _ fits] by blast
  have T: "dims (Suc n) w (cm_table cm1)" "dims (Suc n) w (tm_token_pool (s_tm s))" using al(2) by (auto simp: held_def)
  have rows: "r_table_idx (?hp ! r) < n" if "r \<in> set B" for r
  proof (rule rows_conserved_bound)
    show "rows_conserved n (image_mset r_table_idx (mset ?rs + R)) (s_tm s)" using h by (simp add: held_def)
    show "r_table_idx (?hp ! r) \<in> set (tm_free (s_tm s)) \<or> r_table_idx (?hp ! r) \<in># image_mset r_table_idx (mset ?rs + R)"
      using that by auto
  qed
  let ?idx = "(make_input_rows ?hp ?P, make_positions ?hp ?P)"
  have idx: "i < Suc n \<and> p < w" if ip: "(i, p) \<in> set (zip (fst ?idx) (snd ?idx))" for i p
  proof -
    obtain r where r: "r \<in> set ?P" "i = r_table_idx (?hp ! r)" "p < r_device_len (?hp ! r)"
      using zip_rows_positions ip by fastforce
    then show ?thesis
      using rows B(4) env(2,3) by (cases "r \<in> set B") (fastforce simp: fits_row_def dummy_ok_def)+
  qed
  have "\<exists>xs. gather (cm_table cm1) ?idx = Inr xs"
    using idx T(1) by (intro gather_total) (auto simp: dims_def)
  then obtain locs where locs: "gather (cm_table cm1) ?idx = Inr locs" by blast
  have "\<exists>xs. gather (tm_token_pool (s_tm s)) ?idx = Inr xs"
    using idx T(2) by (intro gather_total) (auto simp: dims_def)
  then obtain ids where ids: "gather (tm_token_pool (s_tm s)) ?idx = Inr ids" by blast
  let ?s1 = "s\<lparr>s_cm := cm1\<rparr>" and ?wr = "make_write_tuple ?hp B"
  let ?b2 = "?b1\<lparr>b_positions := Some (make_positions ?hp ?P), b_out_loc := Some locs\<rparr>"
  define fi where "fi = \<lparr>fi_batch = ?b2, fi_sample_args = sampler_prepare (d_vocab d) (map (\<lambda>r. r_sampling (?hp ! r)) B),
    fi_input = ?idx, fi_write = ?wr\<rparr>"
  have "prepare_body d ?s1 ?b1 = Inr fi"
    using locs d B(1) by (simp add: prepare_body_def fi_def good_device_def Let_def)
  then have prep: "prepare_batch cls d b s = (Inr fi, ?s1)"
    using pad al(1) B(1) by (simp add: prepare_batch_def)
  let ?b3 = "?b2\<lparr>b_input_ids := Some ids\<rparr>"
  obtain l where l: "d_run d ?b3 (es_ctx (s_engine s)\<lparr>ctx_batch := Some ?b3\<rparr>) = Inr l" "batch_size ?b3 \<le> length l"
    using d unfolding good_device_def by blast
  have bs: "batch_size ?b3 = length B" "b_reqs ?b3 = B" using B(1) by (simp_all add: batch_size_def)
  obtain toks where toks: "d_samp d (fi_sample_args fi) (take (length B) l) = Inr ([length B], toks)" "length toks = length B"
  proof -
    obtain toks where "d_samp d (fi_sample_args fi) (take (length B) l) = Inr ([length (take (length B) l)], toks)"
      "length toks = length (take (length B) l)" using d unfolding good_device_def by blast
    then show ?thesis using that l(2) bs(1) by (simp add: min.absorb2)
  qed
  let ?eng = "(s_engine s)\<lparr>es_ctx := es_ctx (s_engine s)\<lparr>ctx_batch := None\<rparr>, es_heap := complete_all B ?hp\<rparr>"
  have ctx: "es_ctx (s_engine s)\<lparr>ctx_batch := None\<rparr> = es_ctx (s_engine s)" using env(4) by simp
  have eng: "engine_forward_batch (d_on_stream d) (d_run d ?b3) (d_samp d (fi_sample_args fi)) ?b3 (s_engine s) = (Inr toks, ?eng)"
    using d env(4) l(1) toks(1) bs by (simp add: engine_forward_batch_def forward_batch_ctx_def good_device_def)
  have "\<exists>u. scatter_tokens (tm_token_pool (s_tm s)) ?wr toks = Inr u \<and> dims (Suc n) w u"
  proof (rule scatter_total [OF T(2) env(3)])
    fix i p assume "(i, p) \<in> set (zip (fst ?wr) (snd ?wr))"
    then obtain r where "r \<in> set B" "i = r_table_idx (?hp ! r)"
      "p = (if can_decode (?hp ! r) then int (r_device_len (?hp ! r)) else -1)"
      by (auto simp: make_write_tuple_def zip_map_map zip_same_conv_map)
    then show "i < Suc n \<and> - 1 \<le> p \<and> p < int w" using rows B(4) env(3) by (fastforce simp: fits_row_def)
  qed
  then obtain pool where pool: "scatter_tokens (tm_token_pool (s_tm s)) ?wr toks = Inr pool" "dims (Suc n) w pool" by blast
  define s' where "s' = ?s1\<lparr>s_engine := ?eng, s_tm := (s_tm s)\<lparr>tm_token_pool := pool\<rparr>,
    s_running := filter_reqs (complete_all B ?hp) (s_running s) B\<rparr>"
  have fs: "forward_step d fi ?s1 = Inr ((fi\<lparr>fi_batch := ?b3\<rparr>, toks), s')"
    using ids eng pool(1) bs(2) by (simp add: forward_step_def fi_def s'_def)
  have run: "run_step cls d b s = Inr ((fi\<lparr>fi_batch := ?b3\<rparr>, toks), s')"
    using prep fs by (simp add: run_step_def)
  have heq: "map ((!) (s_heap s')) B = map complete_one ?rs"
  proof -
    have "complete_all B ?hp ! r = complete_one (?hp ! r)" if "r \<in> set B" for r
      using complete_all_nth [OF B(3), of ?hp r] B(4) that by simp
    then show ?thesis by (simp add: s'_def)
  qed
  have held': "held n w (mset (map ((!) (s_heap s')) B) + R) (s_cm s') (s_tm s')"
    unfolding heq using al(2) pool(2) by (simp add: held_def s'_def rows_conserved_def)
  have spare': "spare (mset (map ((!) (s_heap s')) B) + R) (s_cm s') =
       spare (mset ?rs + R) (s_cm s) - int (extend_of ?rs)"
    unfolding heq using al(5) by (simp add: s'_def)
  show ?thesis
  proof (rule that [OF run _ _ toks(2) _ _ _ _ _ held' _ _ spare'])
    show "sched_frame s s'" by (simp add: s'_def sched_frame_def)
  qed (use al(3,4) bs B(1) env(4) in \<open>simp_all add: s'_def\<close>)
qed

end

end
