(* ===== verification/SchedInv.thy ===== *)
theory SchedInv
  imports SchedBatch
begin

text \<open>
  The invariant of the scheduler, and that running a batch keeps it. \<open>L\<close>, \<open>D\<close> and \<open>A\<close> are as for
  the queues; \<open>F\<close> is the set of requests known to be finished.
\<close>

definition env_ok :: "nat \<Rightarrow> nat \<Rightarrow> rid list list \<Rightarrow> rid list \<Rightarrow> 'c sched \<Rightarrow> bool" where
  "env_ok n w L A s \<longleftrightarrow> graph_ok (s_graph s) \<and> dummy_ok n (s_heap s) (g_dummy (s_graph s)) \<and> 0 < w \<and>
     ctx_batch (es_ctx (s_engine s)) = None \<and> s_max_seq_len s \<le> int w \<and>
     g_dummy (s_graph s) \<notin> set A \<and> (\<forall>B\<in>set L. g_dummy (s_graph s) \<notin> set B)"

definition demand :: "'c sched \<Rightarrow> int" where
  "demand s = (\<Sum>r\<leftarrow>s_running s. remain_len (s_heap s ! r)) + claims (s_heap s) (s_pending s)"

lemma inflight_demand: "inflight_tokens 1 (s_heap s) (s_running s) + claims (s_heap s) (s_pending s) = demand s"
  by (simp add: inflight_tokens_def demand_def)

lemma sum_list_mset_cong: "mset xs = mset ys \<Longrightarrow> (\<Sum>x\<leftarrow>xs. f x) = (\<Sum>x\<leftarrow>ys. f x :: int)"
  by (metis mset_map sum_mset_sum_list)

lemma sum_list_filter_le:
  "\<forall>x\<in>set xs. 0 \<le> f x \<Longrightarrow> (\<Sum>x\<leftarrow>filter P xs. f x) \<le> (\<Sum>x\<leftarrow>xs. f x :: int)"
  by (induction xs) auto

lemma sum_list_filter_eq: "\<forall>x\<in>set xs. \<not> P x \<longrightarrow> f x = 0 \<Longrightarrow> (\<Sum>x\<leftarrow>filter P xs. f x) = (\<Sum>x\<leftarrow>xs. f x :: int)"
  by (induction xs) auto

lemma remain_complete: "remain_len (complete_one q) = remain_len q - 1"
  by (simp add: remain_len_def)

lemma can_decode_remain: "can_decode q \<Longrightarrow> 0 < remain_len q"
  by (simp add: can_decode_def split: req_class.splits)

lemma plain_can_decode: "plain q \<Longrightarrow> can_decode q \<longleftrightarrow> 0 < remain_len q"
  by (simp add: can_decode_def)

lemma claims_cong: "\<forall>p\<in>set ps. \<forall>c. p_chunked p = Some c \<longrightarrow> r_cached_len (hp ! c) = r_cached_len (hp' ! c) \<Longrightarrow>
    claims hp ps = claims hp' ps"
  by (induction ps) (auto simp: claim_def split: option.splits)

lemma claims_append_list: "claims hp (xs @ ys) = claims hp xs + claims hp ys"
  by (induction xs) auto

text \<open>A new request's share of the batch, and what it may still ask for afterwards.\<close>

lemma new_demand:
  assumes "length new \<le> length ps" and "built_all ps new" and "\<forall>p\<in>set ps. pend_ok M hp p"
    and nth: "\<And>i. i < length new \<Longrightarrow> hp' ! (k + i) = complete_one (new ! i)"
  shows "int (extend_of new) + (\<Sum>r\<leftarrow>filter (\<lambda>r. can_decode (hp' ! r)) (rids k (length new)). remain_len (hp' ! r)) +
    claims hp' (chunk_entries k ps new) \<le> total_claim ps new"
  using assms
proof (induction new arbitrary: ps k)
  case (Cons r new)
  obtain p ps' where ps: "ps = p # ps'" using Cons.prems(1) by (cases ps) auto
  have b: "built_from p (r_handle r) (r_table_idx r) (r_cached_len r) r" and p: "pend_ok M hp p"
    using Cons.prems(2,3) ps by auto
  have h0: "hp' ! k = complete_one r" using Cons.prems(4) [of 0] by simp
  have IH: "int (extend_of new) + (\<Sum>r\<leftarrow>filter (\<lambda>r. can_decode (hp' ! r)) (rids (Suc k) (length new)). remain_len (hp' ! r)) +
    claims hp' (chunk_entries (Suc k) ps' new) \<le> total_claim ps' new"
    using Cons.prems ps by (intro Cons.IH) force+
  have ext: "int (r_device_len r - r_cached_len r) = int (r_device_len r) - int (r_cached_len r)"
    using b by (simp add: built_from_def of_nat_diff)
  show ?case
  proof (cases "r_class r")
    case PlainReq
    have "(if can_decode (complete_one r) then remain_len (complete_one r) else 0) \<le> p_output_len p"
      using b p by (auto simp: remain_complete remain_len_def built_from_def pend_ok_def)
    moreover have "claim p r = int (r_device_len r) - int (r_cached_len r) + p_output_len p"
      using b PlainReq by (simp add: claim_def built_from_def)
    ultimately show ?thesis using IH ps PlainReq h0 ext by (simp add: extend_of_def split: if_splits)
  next
    case ChunkedReq
    then have "\<not> can_decode (complete_one r)" by (simp add: can_decode_def)
    moreover have "claim (p\<lparr>p_chunked := Some k\<rparr>) (hp' ! k) = claim p r - (int (r_device_len r) - int (r_cached_len r))"
      by (simp add: claim_def h0 p_input_len_def p_output_len_def)
    ultimately show ?thesis using IH ps ChunkedReq h0 ext by (simp add: extend_of_def)
  qed
qed (simp add: extend_of_def)

lemma set_union_subset: "set ys \<subseteq> set xs \<Longrightarrow> set_union xs ys = xs"
proof -
  have "set ys \<subseteq> set zs \<Longrightarrow> fold (\<lambda>y xs. if y \<in> set xs then xs else xs @ [y]) ys zs = zs" for zs
    by (induction ys) auto
  then show "set ys \<subseteq> set xs \<Longrightarrow> ?thesis" by (simp add: set_union_def)
qed

lemma set_union_disjoint: "distinct ys \<Longrightarrow> set xs \<inter> set ys = {} \<Longrightarrow> set_union xs ys = xs @ ys"
proof -
  have "distinct ys \<Longrightarrow> set zs \<inter> set ys = {} \<Longrightarrow> fold (\<lambda>y xs. if y \<in> set xs then xs else xs @ [y]) ys zs = zs @ ys" for zs
    by (induction ys arbitrary: zs) auto
  then show "distinct ys \<Longrightarrow> set xs \<inter> set ys = {} \<Longrightarrow> ?thesis" by (simp add: set_union_def)
qed

lemma run_batch_eq:
  "run_batch cls d s = (case prefill_next_batch cls (s_prefill_budget s)
       (inflight_tokens (cm_page_size (s_cm s)) (s_heap s) (s_running s)) (s_pending s)
       \<lparr>pl_cm = s_cm s, pl_tm = s_tm s, pl_heap = s_heap s\<rparr> of
     Inl e \<Rightarrow> Inl e
   | Inr (ob, pending, pl) \<Rightarrow>
       let s = set_heap (pl_heap pl) (s\<lparr>s_pending := pending, s_cm := pl_cm pl, s_tm := pl_tm pl\<rparr>) in
       case (case ob of Some b \<Rightarrow> Some b | None \<Rightarrow> decode_next_batch (s_heap s) (s_running s)) of
         None \<Rightarrow> Inr (None, s)
       | Some b \<Rightarrow> rbind (run_step cls d b s) (\<lambda>(fd, s). Inr (Some fd, s)))"
  unfolding run_batch_def schedule_next_batch_def run_step_def Let_def
  by (auto split: sum.splits prod.splits option.splits simp: rbind_def)

lemma mset_split_list: "distinct A \<Longrightarrow> distinct B \<Longrightarrow> set B \<subseteq> set A \<Longrightarrow> mset A = mset B + mset (filter (\<lambda>r. r \<notin> set B) A)"
proof -
  assume a: "distinct A" "distinct B" "set B \<subseteq> set A"
  then have "distinct (B @ filter (\<lambda>r. r \<notin> set B) A)" "set (B @ filter (\<lambda>r. r \<notin> set B) A) = set A" by auto
  then have "mset A = mset (B @ filter (\<lambda>r. r \<notin> set B) A)" using a(1) set_eq_iff_mset_eq_distinct by metis
  then show ?thesis by simp
qed

lemma pend_claims_nonneg: "\<forall>p\<in>set ps. pend_ok M hp p \<Longrightarrow> 0 \<le> claims hp ps"
  by (induction ps) (auto simp: pend_ok_def claim_def split: option.splits)

lemma env_ok_step:
  assumes "env_ok n w L A s" and "sched_frame s s'" and "ctx_batch (es_ctx (s_engine s')) = None"
    and "length (s_heap s) \<le> length (s_heap s')" and "s_heap s' ! g_dummy (s_graph s) = s_heap s ! g_dummy (s_graph s)"
    and "g_dummy (s_graph s) \<notin> set A'" and "\<forall>B\<in>set L'. g_dummy (s_graph s) \<notin> set B"
  shows "env_ok n w L' A' s'"
  using assms by (auto simp: env_ok_def sched_frame_def dummy_ok_def)

context prefix_cache
begin

definition sinv :: "nat \<Rightarrow> nat \<Rightarrow> rid list \<Rightarrow> rid list list \<Rightarrow> rid list \<Rightarrow> rid list \<Rightarrow> 'c sched \<Rightarrow> bool" where
  "sinv n w F L D A s \<longleftrightarrow>
     held n w (mset (map ((!) (s_heap s)) A)) (s_cm s) (s_tm s) \<and>
     queues_ok (s_max_seq_len s) (s_heap s) L D A (s_running s) (s_pending s) F \<and>
     demand s \<le> spare (mset (map ((!) (s_heap s)) A)) (s_cm s) \<and> env_ok n w L A s"

lemma sinvD:
  assumes "sinv n w F L D A s"
  shows "held n w (mset (map ((!) (s_heap s)) A)) (s_cm s) (s_tm s)"
    "queues_ok (s_max_seq_len s) (s_heap s) L D A (s_running s) (s_pending s) F"
    "demand s \<le> spare (mset (map ((!) (s_heap s)) A)) (s_cm s)" "env_ok n w L A s"
  using assms by (simp_all add: sinv_def)

lemma held_idle:
  assumes "held n w R cm tm" and "cm_lazy cm = None" shows "available_size cls cm = spare R cm"
  using available_spare [OF assms(1)] assms(2) by (simp add: lazy_slots_def)

text \<open>The requests of a decode batch fit their rows.\<close>

lemma running_fits:
  assumes "sinv n w F L D A s" and "r \<in> set (s_running s)"
  shows "r < length (s_heap s) \<and> fits_row w (s_heap s ! r) \<and> r_device_len (s_heap s ! r) = Suc (r_cached_len (s_heap s ! r))"
proof -
  note Q = queues_okD [OF sinvD(2) [OF assms(1)]]
  let ?q = "s_heap s ! r"
  have r: "r \<in> set A" "r \<notin> set D" "plain ?q" using Q(2,3) assms(2) running_plain by (auto simp: members_ok_def)
  then have "r_device_len ?q = Suc (r_cached_len ?q)" using Q(5) by (simp add: reads_ok_def read_ok_def)
  moreover have "int (r_device_len ?q) < r_max_device_len ?q" "r_max_device_len ?q \<le> s_max_seq_len s"
    using Q(3) assms(2) can_decode_remain [of ?q] by (auto simp: running_ok_def remain_len_def)
  moreover have "s_max_seq_len s \<le> int w" using sinvD(4) [OF assms(1)] by (simp add: env_ok_def)
  ultimately show ?thesis using Q(1) r(1) by (auto simp: fits_row_def owners_ok_def)
qed

lemma decode_step:
  assumes inv: "sinv n w F L D A s" and lazy: "cm_lazy (s_cm s) = None" and d: "good_device d"
    and b: "decode_next_batch (s_heap s) (s_running s) = Some b"
  obtains fi toks s' where "run_step cls d b s = Inr ((fi, toks), s')" and "b_phase (fi_batch fi) = Decode"
    and "set (b_reqs (fi_batch fi)) = set (s_running s)" and "length toks = length (b_reqs (fi_batch fi))"
    and "sinv n w F (L @ [b_reqs (fi_batch fi)]) D A s'" and "cm_lazy (s_cm s') = None" and "sched_frame s s'"
    and "s_pending s' = s_pending s" and "s_heap s' = complete_all (b_reqs (fi_batch fi)) (s_heap s)"
    and "cm_num_pages (s_cm s') = cm_num_pages (s_cm s)" and "demand s' < demand s"
proof -
  note Q = queues_okD [OF sinvD(2) [OF inv]] and E = sinvD(4) [OF inv]
  let ?hp = "s_heap s" and ?B = "sort_key (\<lambda>r. r_uid (s_heap s ! r)) (s_running s)"
  let ?A0 = "filter (\<lambda>r. r \<notin> set ?B) A"
  have b': "b_reqs b = ?B" "b_phase b = Decode" "s_running s \<noteq> []"
    using b by (auto simp: decode_next_batch_def decode_runnable_def new_batch_def split: if_splits)
  have B: "set ?B = set (s_running s)" "distinct ?B" "mset ?B = mset (s_running s)" "?B \<noteq> []"
    using Q(2) b'(3) by (auto simp: members_ok_def) (metis set_empty set_sort)
  have rf: "\<forall>r\<in>set ?B. r < length ?hp \<and> fits_row w (?hp ! r)" using running_fits [OF inv] B(1) by simp
  have A: "mset A = mset ?B + mset ?A0"
    using mset_split_list [of A ?B] Q(1,2) B by (simp add: owners_ok_def members_ok_def)
  then have mA: "mset (map f A) = mset (map f ?B) + mset (map f ?A0)" for f :: "rid \<Rightarrow> req"
    by (metis image_mset_union mset_map)
  have held: "held n w (mset (map ((!) ?hp) ?B) + mset (map ((!) ?hp) ?A0)) (s_cm s) (s_tm s)"
    using sinvD(1) [OF inv] unfolding mA .
  have ext: "extend_of (map ((!) ?hp) ?B) = length ?B"
  proof -
    have "extend_of (map ((!) ?hp) xs) = length xs" if "set xs \<subseteq> set (s_running s)" for xs
      using that running_fits [OF inv] by (induction xs) (auto simp: extend_of_def)
    then show ?thesis using B(1) by blast
  qed
  have pos: "\<forall>r\<in>set (s_running s). 1 \<le> remain_len (?hp ! r)"
    using Q(3) can_decode_remain by (fastforce simp: running_ok_def)
  have "int (length xs) \<le> (\<Sum>r\<leftarrow>xs. remain_len (?hp ! r))" if "\<forall>r\<in>set xs. 1 \<le> remain_len (?hp ! r)" for xs
    using that by (induction xs) auto
  then have "int (length ?B) \<le> (\<Sum>r\<leftarrow>s_running s. remain_len (?hp ! r))" using pos by simp
  moreover have cl: "0 \<le> claims ?hp (s_pending s)" using pend_claims_nonneg [of "s_pending s" "s_max_seq_len s"] Q(4) by (simp add: pendings_ok_def)
  ultimately have fits: "int (extend_of (map ((!) ?hp) ?B)) \<le> available_size cls (s_cm s)"
    using sinvD(3) [OF inv] held_idle [OF sinvD(1) [OF inv] lazy] unfolding ext demand_def by linarith
  have env: "graph_ok (s_graph s)" "dummy_ok n ?hp (g_dummy (s_graph s))" "0 < w" "ctx_batch (es_ctx (s_engine s)) = None"
    using E by (auto simp: env_ok_def)
  obtain fi toks s' where R: "run_step cls d b s = Inr ((fi, toks), s')" "b_reqs (fi_batch fi) = ?B"
    "b_phase (fi_batch fi) = b_phase b" "length toks = length ?B"
    "s_heap s' = complete_all ?B ?hp" "s_running s' = filter_reqs (complete_all ?B ?hp) (s_running s) ?B"
    "s_pending s' = s_pending s" "sched_frame s s'" "ctx_batch (es_ctx (s_engine s')) = None"
    "held n w (mset (map ((!) (s_heap s')) ?B) + mset (map ((!) ?hp) ?A0)) (s_cm s') (s_tm s')" "cm_lazy (s_cm s') = None"
    "cm_num_pages (s_cm s') = cm_num_pages (s_cm s)"
    "spare (mset (map ((!) (s_heap s')) ?B) + mset (map ((!) ?hp) ?A0)) (s_cm s') =
       spare (mset (map ((!) ?hp) ?B) + mset (map ((!) ?hp) ?A0)) (s_cm s) - int (extend_of (map ((!) ?hp) ?B))"
    by (rule batch_forwarded [OF held lazy b'(1) B(4,2) rf fits env d]) (rule that)
  have nth: "s_heap s' ! r = (if r \<in> set ?B then complete_one (?hp ! r) else ?hp ! r)" if "r < length ?hp" for r
    using complete_all_nth [OF B(2), of ?hp r] rf that R(5) by simp
  have lt: "r < length ?hp" if "r \<in> set A" for r using Q(1) that by (simp add: owners_ok_def)
  have A0: "map ((!) (s_heap s')) ?A0 = map ((!) ?hp) ?A0" using nth lt by auto
  have mA': "mset (map ((!) (s_heap s')) A) = mset (map ((!) (s_heap s')) ?B) + mset (map ((!) ?hp) ?A0)"
    unfolding mA A0 ..
  have q': "queues_ok (s_max_seq_len s) (s_heap s') (L @ [?B]) D A (s_running s') (s_pending s') F"
    using queues_decode [OF sinvD(2) [OF inv] B(1,2)] R(5-7) by simp
  have less: "demand s' \<le> demand s - int (length ?B)"
  proof -
    have "set_union (s_running s) ?B = s_running s" using B(1) by (intro set_union_subset) simp
    then have run: "s_running s' = filter (\<lambda>r. can_decode (s_heap s' ! r)) (s_running s)"
      using R(5,6) by (simp add: filter_reqs_def)
    have hr: "s_heap s' ! r = complete_one (?hp ! r)" if "r \<in> set (s_running s)" for r
      using nth running_fits [OF inv that] that B(1) by simp
    have "(\<Sum>r\<leftarrow>s_running s'. remain_len (s_heap s' ! r)) \<le> (\<Sum>r\<leftarrow>s_running s. remain_len (s_heap s' ! r))"
      unfolding run using hr pos by (intro sum_list_filter_le) (force simp: remain_complete)
    also have "\<dots> = (\<Sum>r\<leftarrow>s_running s. remain_len (?hp ! r) - 1)"
      using hr by (intro arg_cong [of _ _ sum_list] map_cong) (simp_all add: remain_complete)
    also have "\<dots> = (\<Sum>r\<leftarrow>s_running s. remain_len (?hp ! r)) - int (length ?B)"
      by (simp add: sum_list_subtractf sum_list_triv)
    finally have "(\<Sum>r\<leftarrow>s_running s'. remain_len (s_heap s' ! r)) \<le> (\<Sum>r\<leftarrow>s_running s. remain_len (?hp ! r)) - int (length ?B)" .
    moreover have "claims (s_heap s') (s_pending s') = claims ?hp (s_pending s)"
      unfolding R(7)
    proof (rule claims_cong, intro ballI allI impI)
      fix p c assume p: "p \<in> set (s_pending s)" "p_chunked p = Some c"
      then have "c \<in> set (chunk_rids (s_pending s))" by (auto simp: in_chunk_rids)
      then have "c \<in> set A" "c \<notin> set ?B"
        using Q(2) running_not_chunk [OF sinvD(2) [OF inv]] B(1) by (auto simp: members_ok_def)
      then show "r_cached_len (s_heap s' ! c) = r_cached_len (?hp ! c)" using nth lt by simp
    qed
    ultimately show ?thesis by (simp add: demand_def)
  qed
  then have "demand s' \<le> spare (mset (map ((!) (s_heap s')) A)) (s_cm s')"
    using sinvD(3) [OF inv, unfolded mA] R(13) [unfolded ext] unfolding mA' by linarith
  moreover have "env_ok n w (L @ [?B]) A s'"
  proof (rule env_ok_step [OF E R(8,9)])
    have g: "g_dummy (s_graph s) \<notin> set ?B" using E B(1) Q(2) by (auto simp: env_ok_def members_ok_def)
    show "s_heap s' ! g_dummy (s_graph s) = ?hp ! g_dummy (s_graph s)" using g nth env(2) by (simp add: dummy_ok_def)
    show "\<forall>B\<in>set (L @ [?B]). g_dummy (s_graph s) \<notin> set B" using E g by (auto simp: env_ok_def)
  qed (use E R(5) in \<open>auto simp: env_ok_def\<close>)
  moreover have "s_max_seq_len s' = s_max_seq_len s" using R(8) by (simp add: sched_frame_def)
  ultimately have "sinv n w F (L @ [?B]) D A s'" using R(10) q' unfolding sinv_def mA' by simp
  moreover have "0 < int (length ?B)" using b'(3) by simp
  then have "demand s' < demand s" using less by linarith
  ultimately show ?thesis using that [OF R(1)] R(2-5,7,8,11,12) b'(2) B(1) by simp
qed

text \<open>The state after admission, before the batch is prepared.\<close>

lemma prefill_round:
  assumes inv: "sinv n w F L D A s" and lazy: "cm_lazy (s_cm s) = None" and pend: "s_pending s \<noteq> []"
  defines "k \<equiv> length (s_heap s)"
  obtains new pl a' where "prefill_next_batch cls (s_prefill_budget s)
       (inflight_tokens (cm_page_size (s_cm s)) (s_heap s) (s_running s)) (s_pending s)
       \<lparr>pl_cm = s_cm s, pl_tm = s_tm s, pl_heap = s_heap s\<rparr> =
       Inr (if new = [] then (None, s_pending s, pl)
         else (Some (new_batch (rids k (length new)) Prefill),
               chunk_entries k (s_pending s) new @ drop (length new) (s_pending s), pl))"
    and "pl_heap pl = s_heap s @ new" and "length new \<le> length (s_pending s)" and "built_all (s_pending s) new"
    and "continues (s_heap s) (s_pending s) new"
    and "held n w (mset (map ((!) (s_heap s)) (filter (\<lambda>r. r \<notin> set (chunk_rids (take (length new) (s_pending s)))) A))
       + mset new) (pl_cm pl) (pl_tm pl)"
    and "cm_lazy (pl_cm pl) = None" and "cm_num_pages (pl_cm pl) = cm_num_pages (s_cm s)"
    and "(\<Sum>r\<leftarrow>s_running s. remain_len (s_heap s ! r)) + total_claim (s_pending s) new +
       claims (s_heap s) (drop (length new) (s_pending s)) \<le> available_size cls (pl_cm pl)"
proof -
  note Q = queues_okD [OF sinvD(2) [OF inv]]
  let ?hp = "s_heap s" and ?ps = "s_pending s" and ?pl0 = "\<lparr>pl_cm = s_cm s, pl_tm = s_tm s, pl_heap = s_heap s\<rparr>"
  let ?infl = "inflight_tokens (cm_page_size (s_cm s)) ?hp (s_running s)"
  have ps1: "cm_page_size (s_cm s) = 1" using sinvD(1) [OF inv] by (simp add: held_def)
  have infl: "?infl = (\<Sum>r\<leftarrow>s_running s. remain_len (?hp ! r))" by (simp add: ps1 inflight_tokens_def)
  let ?R = "mset (map ((!) ?hp) (filter (\<lambda>r. r \<notin> set (chunk_rids ?ps)) A))"
  have dA: "distinct A" and ch: "distinct (chunk_rids ?ps)" "set (chunk_rids ?ps) \<subseteq> set A"
    using Q(1,2) by (auto simp: owners_ok_def members_ok_def)
  have split: "mset (filter (\<lambda>r. r \<notin> set (chunk_rids (take j ?ps))) A) =
      mset (filter (\<lambda>r. r \<notin> set (chunk_rids ?ps)) A) + mset (chunk_rids (drop j ?ps))" for j
  proof -
    have c: "chunk_rids ?ps = chunk_rids (take j ?ps) @ chunk_rids (drop j ?ps)"
      using chunk_rids_append [of "take j ?ps" "drop j ?ps"] by simp
    then have d: "distinct (chunk_rids (drop j ?ps))" "set (chunk_rids (take j ?ps)) \<inter> set (chunk_rids (drop j ?ps)) = {}"
      using ch(1) by (metis distinct_append)+
    let ?X = "filter (\<lambda>r. r \<notin> set (chunk_rids (take j ?ps))) A"
    have "set (chunk_rids (drop j ?ps)) \<subseteq> set ?X" using d(2) ch(2) c by auto
    moreover have "filter (\<lambda>r. r \<notin> set (chunk_rids (drop j ?ps))) ?X = filter (\<lambda>r. r \<notin> set (chunk_rids ?ps)) A"
      unfolding c by (auto intro: filter_cong)
    ultimately show ?thesis using mset_split_list [of ?X "chunk_rids (drop j ?ps)"] dA d(1) by (simp add: add.commute)
  qed
  have h: "held n w (?R + mset (map ((!) (pl_heap ?pl0)) (chunk_rids (drop 0 ?ps)))) (pl_cm ?pl0) (pl_tm ?pl0)"
  proof -
    have "mset A = mset (filter (\<lambda>r. r \<notin> set (chunk_rids ?ps)) A) + mset (chunk_rids ?ps)" using split [of 0] by simp
    then have "mset (map ((!) ?hp) A) = ?R + mset (map ((!) ?hp) (chunk_rids ?ps))"
      by (metis image_mset_union mset_map)
    then show ?thesis using sinvD(1) [OF inv] by simp
  qed
  have pk: "\<forall>p\<in>set ?ps. pend_ok (s_max_seq_len s) (pl_heap ?pl0) p" using Q(4) by (simp add: pendings_ok_def)
  have M: "s_max_seq_len s \<le> int w" using sinvD(4) [OF inv] by (simp add: env_ok_def)
  let ?a = "\<lparr>a_token_budget = s_prefill_budget s, a_reserved_size = ?infl\<rparr>"
  have lz: "cm_lazy (pl_cm ?pl0) = None" using lazy by simp
  obtain new a' pl where L: "add_loop cls ?a ?ps ?pl0 =
      Inr (rids (length (pl_heap ?pl0)) (length new), chunk_entries (length (pl_heap ?pl0)) ?ps new, a', pl)"
    "pl_heap pl = pl_heap ?pl0 @ new" "length new \<le> length ?ps" "built_all ?ps new" "continues (pl_heap ?pl0) ?ps new"
    "held n w (?R + mset (map ((!) (pl_heap ?pl0)) (chunk_rids (drop (length new) ?ps))) + mset new) (pl_cm pl) (pl_tm pl)"
    "cm_lazy (pl_cm pl) = None" "a_reserved_size a' = a_reserved_size ?a + total_claim ?ps new"
    "cm_num_pages (pl_cm pl) = cm_num_pages (pl_cm ?pl0)"
    "chunks_first ?ps \<Longrightarrow> a_reserved_size ?a + claims (pl_heap ?pl0) ?ps \<le> available_size cls (pl_cm ?pl0) \<Longrightarrow>
       a_reserved_size a' + claims (pl_heap pl) (drop (length new) ?ps) \<le> available_size cls (pl_cm pl)"
    by (rule held_admit [OF h lz pk M]) (rule that)
  have "demand s \<le> available_size cls (s_cm s)"
    using sinvD(3) [OF inv] held_idle [OF sinvD(1) [OF inv] lazy] by simp
  then have "a_reserved_size a' + claims (pl_heap pl) (drop (length new) ?ps) \<le> available_size cls (pl_cm pl)"
    using L(10) Q(4) infl by (simp add: pendings_ok_def demand_def)
  moreover have "claims (pl_heap pl) (drop (length new) ?ps) = claims ?hp (drop (length new) ?ps)"
    unfolding L(2)
  proof (rule claims_cong, intro ballI allI impI)
    fix p c assume "p \<in> set (drop (length new) ?ps)" "p_chunked p = Some c"
    then have "c < length ?hp" using pk by (auto simp: pend_ok_def dest!: in_set_dropD)
    then show "r_cached_len ((pl_heap ?pl0 @ new) ! c) = r_cached_len (?hp ! c)" by (simp add: nth_append)
  qed
  ultimately have av: "(\<Sum>r\<leftarrow>s_running s. remain_len (?hp ! r)) + total_claim ?ps new +
       claims ?hp (drop (length new) ?ps) \<le> available_size cls (pl_cm pl)" using L(8) infl by simp
  have held': "held n w (mset (map ((!) ?hp) (filter (\<lambda>r. r \<notin> set (chunk_rids (take (length new) ?ps))) A)) + mset new) (pl_cm pl) (pl_tm pl)"
  proof -
    have "mset (map f (filter (\<lambda>r. r \<notin> set (chunk_rids (take (length new) ?ps))) A)) =
        mset (map f (filter (\<lambda>r. r \<notin> set (chunk_rids ?ps)) A)) + mset (map f (chunk_rids (drop (length new) ?ps)))"
      for f :: "rid \<Rightarrow> req" using split by (metis image_mset_union mset_map)
    then show ?thesis using L(6) by simp
  qed
  have eq: "prefill_next_batch cls (s_prefill_budget s) ?infl ?ps ?pl0 =
       Inr (if new = [] then (None, ?ps, pl)
         else (Some (new_batch (rids k (length new)) Prefill), chunk_entries k ?ps new @ drop (length new) ?ps, pl))"
    using L(1) pend by (simp add: prefill_next_batch_def k_def)
  show ?thesis using that [OF eq _ L(3,4) _ held' L(7) _ av] L(2,5,9) by simp
qed

end

end
