(* ===== verification/SchedRun.thy ===== *)
theory SchedRun
  imports SchedInv
begin

text \<open>
  Scheduling and running one batch, prefill before decode: it always returns, and the invariant holds
  for the state after it, with the batch unread.
\<close>

lemma run_batch_decode:
  assumes "prefill_next_batch cls (s_prefill_budget s) (inflight_tokens (cm_page_size (s_cm s)) (s_heap s) (s_running s))
      (s_pending s) \<lparr>pl_cm = s_cm s, pl_tm = s_tm s, pl_heap = s_heap s\<rparr> = Inr (None, pending, pl)"
    and "set_heap (pl_heap pl) (s\<lparr>s_pending := pending, s_cm := pl_cm pl, s_tm := pl_tm pl\<rparr>) = s1"
  shows "run_batch cls d s = (case decode_next_batch (s_heap s1) (s_running s1) of
      None \<Rightarrow> Inr (None, s1) | Some b \<Rightarrow> rbind (run_step cls d b s1) (\<lambda>(fd, s). Inr (Some fd, s)))"
  by (simp only: run_batch_eq Let_def sum.case prod.case option.case assms)

lemma run_batch_prefill:
  assumes "prefill_next_batch cls (s_prefill_budget s) (inflight_tokens (cm_page_size (s_cm s)) (s_heap s) (s_running s))
      (s_pending s) \<lparr>pl_cm = s_cm s, pl_tm = s_tm s, pl_heap = s_heap s\<rparr> = Inr (Some b, pending, pl)"
    and "run_step cls d b (set_heap (pl_heap pl) (s\<lparr>s_pending := pending, s_cm := pl_cm pl, s_tm := pl_tm pl\<rparr>)) = Inr (fd, s')"
  shows "run_batch cls d s = Inr (Some fd, s')"
  unfolding run_batch_eq assms(1) using assms(2) by (simp add: Let_def)

text \<open>The tokens the accepted requests may still take: a bound on the work that is left.\<close>

definition fresh_work :: "pending_req list \<Rightarrow> int" where
  "fresh_work ps = (\<Sum>p\<leftarrow>ps. case p_chunked p of None \<Rightarrow> int (p_input_len p) + p_output_len p | Some _ \<Rightarrow> 0)"

definition backlog :: "'c sched \<Rightarrow> int" where
  "backlog s = demand s + fresh_work (s_pending s)"

lemma fresh_work_simps [simp]:
  "fresh_work [] = 0"
  "fresh_work (p # ps) = (case p_chunked p of None \<Rightarrow> int (p_input_len p) + p_output_len p | Some _ \<Rightarrow> 0) + fresh_work ps"
  "fresh_work (ps @ qs) = fresh_work ps + fresh_work qs"
  by (simp_all add: fresh_work_def)

lemma fresh_work_entries [simp]: "fresh_work (chunk_entries k ps new) = 0"
  by (induction k ps new rule: chunk_entries.induct) auto

lemma claim_within:
  "length new \<le> length ps \<Longrightarrow> continues hp ps new \<Longrightarrow>
     total_claim ps new + claims hp (drop (length new) ps) + fresh_work (drop (length new) ps) \<le> claims hp ps + fresh_work ps"
proof (induction new arbitrary: ps)
  case (Cons r new)
  then obtain p ps' where ps: "ps = p # ps'" by (cases ps) auto
  then show ?case using Cons by (fastforce simp: claim_def split: option.splits)
qed simp

lemma extend_pos: "length new \<le> length ps \<Longrightarrow> built_all ps new \<Longrightarrow> new \<noteq> [] \<Longrightarrow> 0 < extend_of new"
  by (cases ps; cases new) (auto simp: extend_of_def built_from_def)

context prefix_cache
begin

lemma prefill_step:
  assumes inv: "sinv n w F L D A s" and d: "good_device d"
    and len: "length new \<le> length (s_pending s)" "new \<noteq> []"
    and built: "built_all (s_pending s) new" and cont: "continues (s_heap s) (s_pending s) new"
    and heap: "pl_heap pl = s_heap s @ new"
    and held: "held n w (mset (map ((!) (s_heap s)) (filter (\<lambda>r. r \<notin> set (chunk_rids (take (length new) (s_pending s)))) A))
       + mset new) (pl_cm pl) (pl_tm pl)"
    and lazy: "cm_lazy (pl_cm pl) = None"
    and av: "(\<Sum>r\<leftarrow>s_running s. remain_len (s_heap s ! r)) + total_claim (s_pending s) new +
       claims (s_heap s) (drop (length new) (s_pending s)) \<le> available_size cls (pl_cm pl)"
  defines "B \<equiv> rids (length (s_heap s)) (length new)"
    and "A' \<equiv> filter (\<lambda>r. r \<notin> set (chunk_rids (take (length new) (s_pending s)))) A"
    and "pending' \<equiv> chunk_entries (length (s_heap s)) (s_pending s) new @ drop (length new) (s_pending s)"
  defines "s1 \<equiv> set_heap (pl_heap pl) (s\<lparr>s_pending := pending', s_cm := pl_cm pl, s_tm := pl_tm pl\<rparr>)"
  obtains fi toks s' where "run_step cls d (new_batch B Prefill) s1 = Inr ((fi, toks), s')" and "b_reqs (fi_batch fi) = B"
    and "b_phase (fi_batch fi) = Prefill" and "length toks = length B" and "sinv n w F (L @ [B]) D (A' @ B) s'"
    and "cm_lazy (s_cm s') = None" and "sched_frame s s'" and "s_pending s' = pending'"
    and "s_heap s' = complete_all B (s_heap s @ new)" and "cm_num_pages (s_cm s') = cm_num_pages (pl_cm pl)"
    and "demand s' \<le> (\<Sum>r\<leftarrow>s_running s. remain_len (s_heap s ! r)) + (total_claim (s_pending s) new - int (extend_of new)) +
      claims (s_heap s) (drop (length new) (s_pending s))"
proof -
  note Q = queues_okD [OF sinvD(2) [OF inv]] and E = sinvD(4) [OF inv]
  let ?hp = "s_heap s" and ?m = "length new" and ?k = "length (s_heap s)"
  have pk: "\<forall>p\<in>set (s_pending s). pend_ok (s_max_seq_len s) ?hp p" using Q(4) by (simp add: pendings_ok_def)
  have M: "s_max_seq_len s \<le> int w" using E by (simp add: env_ok_def)
  have s1: "s_heap s1 = ?hp @ new" "s_cm s1 = pl_cm pl" "s_tm s1 = pl_tm pl" "s_pending s1 = pending'"
    "s_running s1 = s_running s" "s_graph s1 = s_graph s" "es_ctx (s_engine s1) = es_ctx (s_engine s)" "sched_frame s s1"
    by (simp_all add: s1_def set_heap_def heap sched_frame_def)
  have mapB: "map ((!) (?hp @ new)) B = new"
  proof (rule nth_equalityI)
    show "map ((!) (?hp @ new)) B ! i = new ! i" if "i < length (map ((!) (?hp @ new)) B)" for i
      using that by (simp add: B_def rids_def)
  qed (simp add: B_def)
  have lt: "r < ?k" if "r \<in> set A" for r using Q(1) that by (simp add: owners_ok_def)
  have mapA: "map ((!) (?hp @ new)) A' = map ((!) ?hp) A'" using lt by (auto simp: A'_def nth_append)
  let ?R = "mset (map ((!) (?hp @ new)) A')"
  have h: "held n w (mset (map ((!) (s_heap s1)) B) + ?R) (s_cm s1) (s_tm s1)"
    using held unfolding s1 mapB mapA by (simp add: A'_def add.commute)
  have lz: "cm_lazy (s_cm s1) = None" using lazy by (simp add: s1)
  have ne: "B \<noteq> []" "distinct B" using len(2) by (simp_all add: B_def)
  have nfit: "r_cached_len q < r_device_len q \<and> fits_row w q" if q: "q \<in> set new" for q
  proof -
    obtain i where i: "i < ?m" "q = new ! i" using q by (auto simp: in_set_conv_nth)
    have b: "built_from (s_pending s ! i) (r_handle q) (r_table_idx q) (r_cached_len q) q"
      using built_at [OF built i(1)] i len(1) by simp
    moreover have "pend_ok (s_max_seq_len s) ?hp (s_pending s ! i)" using pk i len(1) by simp
    moreover have "can_decode q \<Longrightarrow> int (r_device_len q) < r_max_device_len q"
      using can_decode_remain [of q] by (simp add: remain_len_def)
    ultimately show ?thesis using M by (auto simp: built_from_def pend_ok_def fits_row_def dest: can_decode_plain)
  qed
  have rf: "\<forall>r\<in>set B. r < length (s_heap s1) \<and> fits_row w (s_heap s1 ! r)"
    unfolding s1 using nfit by (auto simp: B_def in_rids)
  have nthB: "complete_all B (?hp @ new) ! (?k + i) = complete_one (new ! i)" if "i < ?m" for i
    using prefill_heap(3) that by (simp add: B_def)
  have nth: "complete_all B (?hp @ new) ! r = ?hp ! r" if "r < ?k" for r
    using prefill_heap(2) that by (simp add: B_def)
  note new_dem = new_demand [OF len(1) built pk, of "complete_all B (?hp @ new)" ?k, OF nthB]
  have c0: "0 \<le> claims ?hp (drop ?m (s_pending s))" using pk by (intro pend_claims_nonneg) (auto dest: in_set_dropD)
  have r0: "0 \<le> (\<Sum>r\<leftarrow>s_running s. remain_len (?hp ! r))"
    using Q(3) can_decode_remain by (intro sum_list_nonneg) (force simp: running_ok_def)
  let ?nd = "\<Sum>r\<leftarrow>filter (\<lambda>r. can_decode (complete_all B (?hp @ new) ! r)) (rids ?k ?m). remain_len (complete_all B (?hp @ new) ! r)"
  have n0: "0 \<le> ?nd" using can_decode_remain by (intro sum_list_nonneg) force
  have ent: "\<forall>p\<in>set (chunk_entries ?k (s_pending s) new). pend_ok (s_max_seq_len s) (complete_all B (?hp @ new)) p"
    using queues_prefill [OF sinvD(2) [OF inv] len(1) built cont]
    by (simp add: queues_ok_def pendings_ok_def B_def)
  then have e0: "0 \<le> claims (complete_all B (?hp @ new)) (chunk_entries ?k (s_pending s) new)" by (rule pend_claims_nonneg)
  have fits: "int (extend_of (map ((!) (s_heap s1)) B)) \<le> available_size cls (s_cm s1)"
    using new_dem av c0 r0 n0 e0 unfolding s1 mapB by linarith
  have env: "graph_ok (s_graph s1)" "dummy_ok n (s_heap s1) (g_dummy (s_graph s1))" "0 < w" "ctx_batch (es_ctx (s_engine s1)) = None"
    using E by (auto simp: env_ok_def s1 dummy_ok_def nth_append)
  have bb: "b_reqs (new_batch B Prefill) = B" by (simp add: new_batch_def)
  obtain fi toks s' where R: "run_step cls d (new_batch B Prefill) s1 = Inr ((fi, toks), s')" "b_reqs (fi_batch fi) = B"
    "b_phase (fi_batch fi) = b_phase (new_batch B Prefill)" "length toks = length B"
    "s_heap s' = complete_all B (s_heap s1)" "s_running s' = filter_reqs (complete_all B (s_heap s1)) (s_running s1) B"
    "s_pending s' = s_pending s1" "sched_frame s1 s'" "ctx_batch (es_ctx (s_engine s')) = None"
    "held n w (mset (map ((!) (s_heap s')) B) + ?R) (s_cm s') (s_tm s')" "cm_lazy (s_cm s') = None"
    "cm_num_pages (s_cm s') = cm_num_pages (s_cm s1)"
    "spare (mset (map ((!) (s_heap s')) B) + ?R) (s_cm s') =
       spare (mset (map ((!) (s_heap s1)) B) + ?R) (s_cm s1) - int (extend_of (map ((!) (s_heap s1)) B))"
    by (rule batch_forwarded [OF h lz bb ne rf fits env d]) (rule that)
  have fr: "sched_frame s s'" using s1(8) R(8) by (rule sched_frame_trans)
  have q': "queues_ok (s_max_seq_len s') (s_heap s') (L @ [B]) D (A' @ B) (s_running s') (s_pending s') F"
    using queues_prefill [OF sinvD(2) [OF inv] len(1) built cont] fr
    by (simp add: R(5-7) s1 B_def A'_def pending'_def sched_frame_def)
  have mA: "mset (map ((!) (s_heap s')) (A' @ B)) = mset (map ((!) (s_heap s')) B) + ?R"
  proof -
    have e: "map ((!) (s_heap s')) A' = map ((!) (?hp @ new)) A'"
      using nth lt by (auto simp: R(5) s1 A'_def nth_append)
    show ?thesis unfolding map_append mset_append e by (rule add.commute)
  qed
  have less: "demand s' \<le> (\<Sum>r\<leftarrow>s_running s. remain_len (?hp ! r)) + (total_claim (s_pending s) new - int (extend_of new)) +
      claims ?hp (drop ?m (s_pending s))"
  proof -
    have runlt: "r < ?k" if "r \<in> set (s_running s)" for r using Q(2) that lt by (auto simp: members_ok_def)
    have "set (s_running s) \<inter> set B = {}" using runlt by (fastforce simp: B_def in_rids)
    then have "set_union (s_running s) B = s_running s @ B" using ne(2) by (intro set_union_disjoint)
    moreover have "filter (\<lambda>r. can_decode (s_heap s' ! r)) (s_running s) = s_running s"
      using Q(3) runlt nth by (auto simp: running_ok_def R(5) s1)
    ultimately have run: "s_running s' = s_running s @ filter (\<lambda>r. can_decode (s_heap s' ! r)) B"
      by (simp add: R(5,6) s1 filter_reqs_def)
    have "(\<Sum>r\<leftarrow>s_running s. remain_len (s_heap s' ! r)) = (\<Sum>r\<leftarrow>s_running s. remain_len (?hp ! r))"
      using runlt nth by (intro arg_cong [of _ _ sum_list] map_cong) (simp_all add: R(5) s1)
    moreover have "claims (s_heap s') (drop ?m (s_pending s)) = claims ?hp (drop ?m (s_pending s))"
    proof (rule claims_cong, intro ballI allI impI)
      fix p c assume "p \<in> set (drop ?m (s_pending s))" "p_chunked p = Some c"
      then have "c < ?k" using pk by (auto simp: pend_ok_def dest!: in_set_dropD)
      then show "r_cached_len (s_heap s' ! c) = r_cached_len (?hp ! c)" using nth by (simp add: R(5) s1)
    qed
    ultimately show ?thesis
      using new_dem by (simp add: demand_def run R(7) s1 pending'_def claims_append_list R(5) B_def)
  qed
  moreover have "available_size cls (s_cm s1) = spare (mset (map ((!) (s_heap s1)) B) + ?R) (s_cm s1)"
    by (rule held_idle [OF h lz])
  moreover have "int (extend_of (map ((!) (s_heap s1)) B)) = int (extend_of new)" by (simp add: s1 mapB)
  moreover have "available_size cls (s_cm s1) = available_size cls (pl_cm pl)" by (simp add: s1)
  ultimately have "demand s' \<le> spare (mset (map ((!) (s_heap s')) (A' @ B))) (s_cm s')"
    using av R(13) unfolding mA by linarith
  moreover have "env_ok n w (L @ [B]) (A' @ B) s'"
  proof (rule env_ok_step [OF E fr R(9)])
    have g: "g_dummy (s_graph s) < ?k" using E by (simp add: env_ok_def dummy_ok_def)
    then have gB: "g_dummy (s_graph s) \<notin> set B" by (auto simp: B_def in_rids)
    show "s_heap s' ! g_dummy (s_graph s) = ?hp ! g_dummy (s_graph s)" using g nth by (simp add: R(5) s1)
    show "g_dummy (s_graph s) \<notin> set (A' @ B)" using E gB by (auto simp: env_ok_def A'_def)
    show "\<forall>B\<in>set (L @ [B]). g_dummy (s_graph s) \<notin> set B" using E gB by (auto simp: env_ok_def)
    show "length ?hp \<le> length (s_heap s')" by (simp add: R(5) s1)
  qed
  ultimately have "sinv n w F (L @ [B]) D (A' @ B) s'" using R(10) q' unfolding sinv_def mA by simp
  then show ?thesis using that [OF R(1,2) _ R(4) _ R(11) fr] R(3,5,7,12) less by (simp add: s1 new_batch_def)
qed

text \<open>What later steps need to know of a batch that was run.\<close>

definition batch_run :: "'c sched \<Rightarrow> rid list \<Rightarrow> rid list \<Rightarrow> rid list \<Rightarrow> rid list \<Rightarrow> batch \<Rightarrow> 'c sched \<Rightarrow> bool" where
  "batch_run s F D A A' b s' \<longleftrightarrow> backlog s' < backlog s \<and>
     (is_prefill b \<longrightarrow> (\<forall>r\<in>set (b_reqs b). length (s_heap s) \<le> r)) \<and>
     set (b_reqs b) \<subseteq> set A' \<and> set (b_reqs b) \<inter> set D = {} \<and> set (b_reqs b) \<inter> set F = {} \<and>
     (\<forall>r\<in>set (b_reqs b). r_class (s_heap s' ! r) = ChunkedReq \<longrightarrow> r \<in> set (chunk_rids (s_pending s'))) \<and>
     length (s_heap s) \<le> length (s_heap s') \<and>
     (\<forall>r<length (s_heap s). r_class (s_heap s' ! r) = r_class (s_heap s ! r) \<and> r_uid (s_heap s' ! r) = r_uid (s_heap s ! r)) \<and>
     p_uid ` set (s_pending s') \<union> (\<lambda>r. r_uid (s_heap s' ! r)) ` set A' \<subseteq>
       p_uid ` set (s_pending s) \<union> (\<lambda>r. r_uid (s_heap s ! r)) ` set A"

lemma batch_runD:
  assumes "batch_run s F D A A' b s'"
  shows "is_prefill b \<Longrightarrow> r \<in> set (b_reqs b) \<Longrightarrow> length (s_heap s) \<le> r"
    and "set (b_reqs b) \<subseteq> set A'" and "set (b_reqs b) \<inter> set D = {}" and "set (b_reqs b) \<inter> set F = {}"
    and "\<forall>r<length (s_heap s). r_class (s_heap s' ! r) = r_class (s_heap s ! r) \<and> r_uid (s_heap s' ! r) = r_uid (s_heap s ! r)"
    and "p_uid ` set (s_pending s') \<union> (\<lambda>r. r_uid (s_heap s' ! r)) ` set A' \<subseteq>
       p_uid ` set (s_pending s) \<union> (\<lambda>r. r_uid (s_heap s ! r)) ` set A"
    and "backlog s' < backlog s"
  using assms by (simp_all add: batch_run_def)

lemma run_batch_ok:
  assumes inv: "sinv n w F L D A s" and lazy: "cm_lazy (s_cm s) = None" and d: "good_device d"
  obtains (idle) s' where "run_batch cls d s = Inr (None, s')" and "sinv n w F L D A s'" and "cm_lazy (s_cm s') = None"
      and "sched_frame s s'" and "s_running s = []" and "s_heap s' = s_heap s" and "s_running s' = []"
      and "s_pending s' = s_pending s" and "cm_num_pages (s_cm s') = cm_num_pages (s_cm s)"
    | (batch) fi toks s' A' where "run_batch cls d s = Inr (Some (fi, toks), s')" and "length toks = length (b_reqs (fi_batch fi))"
      and "sinv n w F (L @ [b_reqs (fi_batch fi)]) D A' s'" and "cm_lazy (s_cm s') = None" and "sched_frame s s'"
      and "cm_num_pages (s_cm s') = cm_num_pages (s_cm s)" and "batch_run s F D A A' (fi_batch fi) s'"
proof -
  let ?hp = "s_heap s" and ?ps = "s_pending s"
  let ?pn = "prefill_next_batch cls (s_prefill_budget s) (inflight_tokens (cm_page_size (s_cm s)) ?hp (s_running s)) ?ps
       \<lparr>pl_cm = s_cm s, pl_tm = s_tm s, pl_heap = ?hp\<rparr>"
  txt \<open>Either a prefill batch is built, or a decode batch is tried from a state with the same queues.\<close>
  have "(\<exists>s1. run_batch cls d s = (case decode_next_batch (s_heap s1) (s_running s1) of
         None \<Rightarrow> Inr (None, s1) | Some b \<Rightarrow> rbind (run_step cls d b s1) (\<lambda>(fd, s). Inr (Some fd, s))) \<and>
       sinv n w F L D A s1 \<and> cm_lazy (s_cm s1) = None \<and> sched_frame s s1 \<and> s_heap s1 = ?hp \<and>
       s_running s1 = s_running s \<and> s_pending s1 = ?ps \<and> cm_num_pages (s_cm s1) = cm_num_pages (s_cm s)) \<or>
     (\<exists>fi toks s' A'. run_batch cls d s = Inr (Some (fi, toks), s') \<and> length toks = length (b_reqs (fi_batch fi)) \<and>
       sinv n w F (L @ [b_reqs (fi_batch fi)]) D A' s' \<and> cm_lazy (s_cm s') = None \<and> sched_frame s s' \<and>
       cm_num_pages (s_cm s') = cm_num_pages (s_cm s) \<and> batch_run s F D A A' (fi_batch fi) s')"
    (is "?decode \<or> ?prefill")
  proof (cases "?ps = []")
    case True
    have "set_heap ?hp (s\<lparr>s_pending := ?ps, s_cm := s_cm s, s_tm := s_tm s\<rparr>) = s"
      by (cases s) (simp add: set_heap_def)
    then have same: "set_heap ?hp (s\<lparr>s_pending := [], s_cm := s_cm s, s_tm := s_tm s\<rparr>) = s" unfolding True .
    have "?pn = Inr (None, [], \<lparr>pl_cm = s_cm s, pl_tm = s_tm s, pl_heap = ?hp\<rparr>)" using True by (simp add: prefill_next_batch_def)
    then have "run_batch cls d s = (case decode_next_batch ?hp (s_running s) of
         None \<Rightarrow> Inr (None, s) | Some b \<Rightarrow> rbind (run_step cls d b s) (\<lambda>(fd, s). Inr (Some fd, s)))"
      by (rule run_batch_decode) (use same in simp)
    then show ?thesis using inv lazy by (intro disjI1 exI [of _ s]) simp
  next
    case False
    obtain new pl a' where P: "?pn = Inr (if new = [] then (None, ?ps, pl)
         else (Some (new_batch (rids (length ?hp) (length new)) Prefill),
               chunk_entries (length ?hp) ?ps new @ drop (length new) ?ps, pl))"
      "pl_heap pl = ?hp @ new" "length new \<le> length ?ps" "built_all ?ps new" "continues ?hp ?ps new"
      "held n w (mset (map ((!) ?hp) (filter (\<lambda>r. r \<notin> set (chunk_rids (take (length new) ?ps))) A)) + mset new) (pl_cm pl) (pl_tm pl)"
      "cm_lazy (pl_cm pl) = None" "cm_num_pages (pl_cm pl) = cm_num_pages (s_cm s)"
      "(\<Sum>r\<leftarrow>s_running s. remain_len (?hp ! r)) + total_claim ?ps new + claims ?hp (drop (length new) ?ps) \<le> available_size cls (pl_cm pl)"
      by (rule prefill_round [OF inv lazy False]) (rule that)
    show ?thesis
    proof (cases "new = []")
      case True
      obtain s1 where s1: "set_heap (pl_heap pl) (s\<lparr>s_pending := ?ps, s_cm := pl_cm pl, s_tm := pl_tm pl\<rparr>) = s1" by simp
      have f: "s_heap s1 = ?hp" "s_running s1 = s_running s" "s_pending s1 = ?ps" "s_cm s1 = pl_cm pl" "s_tm s1 = pl_tm pl"
        "s_max_seq_len s1 = s_max_seq_len s" "sched_frame s s1"
        using P(2) True by (simp_all add: s1 [symmetric] set_heap_def sched_frame_def)
      have h: "held n w (mset (map ((!) ?hp) A)) (pl_cm pl) (pl_tm pl)" using P(6) True by simp
      have "demand s1 \<le> spare (mset (map ((!) ?hp) A)) (pl_cm pl)"
        using P(9) True held_idle [OF h P(7)] by (simp add: demand_def f)
      moreover have "env_ok n w L A s1"
        using sinvD(4) [OF inv] P(2) True by (simp add: s1 [symmetric] env_ok_def set_heap_def)
      ultimately have "sinv n w F L D A s1" using h sinvD(2) [OF inv] unfolding sinv_def f by simp
      moreover have "run_batch cls d s = (case decode_next_batch (s_heap s1) (s_running s1) of
         None \<Rightarrow> Inr (None, s1) | Some b \<Rightarrow> rbind (run_step cls d b s1) (\<lambda>(fd, s). Inr (Some fd, s)))"
        by (rule run_batch_decode [OF _ s1]) (simp add: P(1) True)
      ultimately show ?thesis using f P(7,8) by (intro disjI1 exI [of _ s1]) simp
    next
      case ne: False
      let ?B = "rids (length ?hp) (length new)" and ?A = "filter (\<lambda>r. r \<notin> set (chunk_rids (take (length new) ?ps))) A"
      let ?pending = "chunk_entries (length ?hp) ?ps new @ drop (length new) ?ps"
      let ?s1 = "set_heap (pl_heap pl) (s\<lparr>s_pending := ?pending, s_cm := pl_cm pl, s_tm := pl_tm pl\<rparr>)"
      obtain fi toks s' where R: "run_step cls d (new_batch ?B Prefill) ?s1 = Inr ((fi, toks), s')" "b_reqs (fi_batch fi) = ?B"
        "b_phase (fi_batch fi) = Prefill" "length toks = length ?B" "sinv n w F (L @ [?B]) D (?A @ ?B) s'"
        "cm_lazy (s_cm s') = None" "sched_frame s s'" "s_pending s' = ?pending"
        "s_heap s' = complete_all ?B (?hp @ new)" "cm_num_pages (s_cm s') = cm_num_pages (pl_cm pl)"
        "demand s' \<le> (\<Sum>r\<leftarrow>s_running s. remain_len (?hp ! r)) + (total_claim ?ps new - int (extend_of new)) +
           claims ?hp (drop (length new) ?ps)"
        by (rule prefill_step [OF inv d P(3) ne P(4,5,2,6,7,9)]) (rule that)
      have "run_batch cls d s = Inr (Some (fi, toks), s')"
        by (rule run_batch_prefill [OF _ R(1)]) (use P(1) ne in simp)
      moreover have "batch_run s F D A (?A @ ?B) (fi_batch fi) s'"
      proof -
        note Q = queues_okD [OF sinvD(2) [OF inv]]
        have "\<forall>r\<in>set D \<union> set F. r < length ?hp" using Q(1,2) by (auto simp: owners_ok_def members_ok_def)
        then have "set ?B \<inter> set D = {} \<and> set ?B \<inter> set F = {}" by (fastforce simp: in_rids)
        moreover have "r \<in> set (chunk_rids ?pending)" if r: "r \<in> set ?B" "r_class (s_heap s' ! r) = ChunkedReq" for r
        proof -
          obtain i where i: "i < length new" "r = length ?hp + i" using r(1) by (auto simp: in_rids)
          then have "r_class (new ! i) = ChunkedReq" using r(2) prefill_heap(3) [OF i(1), of ?hp] R(9) by simp
          then show ?thesis using chunk_rids_entries [OF P(3)] i by auto
        qed
        moreover have "p_uid ` set ?pending \<union> (\<lambda>r. r_uid (s_heap s' ! r)) ` set (?A @ ?B) \<subseteq>
            p_uid ` set ?ps \<union> (\<lambda>r. r_uid (?hp ! r)) ` set A"
        proof -
          have "r_uid (s_heap s' ! r) \<in> p_uid ` set ?ps" if rB: "r \<in> set ?B" for r
          proof -
            obtain i where i: "i < length new" "r = length ?hp + i" using rB by (auto simp: in_rids)
            then have "r_uid (s_heap s' ! r) = r_uid (new ! i)" using prefill_heap(3) [OF i(1), of ?hp] R(9) by simp
            then show ?thesis using built_at [OF P(4) i(1)] i(1) P(3) by (auto simp: built_from_def)
          qed
          moreover have "r_uid (s_heap s' ! r) = r_uid (?hp ! r)" if "r \<in> set A" for r
            using prefill_heap(2) [of r ?hp new] R(9) Q(1) that by (simp add: owners_ok_def)
          moreover have "p_uid ` set ?pending \<subseteq> p_uid ` set ?ps"
          proof -
            have "p_uid ` set (take (length new) ?ps) \<subseteq> p_uid ` set ?ps" "set (drop (length new) ?ps) \<subseteq> set ?ps"
              by (auto dest: in_set_takeD in_set_dropD)
            moreover have "p_uid ` set (chunk_entries (length ?hp) ?ps new) \<subseteq> p_uid ` set (take (length new) ?ps)"
              by (rule chunk_entries_uids_subset [OF P(3)])
            ultimately show ?thesis unfolding set_append image_Un by blast
          qed
          ultimately show ?thesis by auto
        qed
        moreover have "\<forall>r\<in>set ?B. length ?hp \<le> r" by (auto simp: in_rids)
        moreover have "backlog s' < backlog s"
          using R(11) claim_within [OF P(3,5)] extend_pos [OF P(3,4) ne] by (simp add: backlog_def demand_def R(8))
        ultimately show ?thesis
          using prefill_heap(2) [of _ ?hp new] unfolding batch_run_def R(2,8,9) by (simp add: prefill_heap(1))
      qed
      ultimately show ?thesis using R P(8) by (intro disjI2 exI [of _ fi] exI [of _ toks] exI [of _ s'] exI [of _ "?A @ ?B"]) simp
    qed
  qed
  then show ?thesis
  proof
    assume ?prefill
    then show ?thesis using batch by blast
  next
    assume ?decode
    then obtain s1 where S: "run_batch cls d s = (case decode_next_batch (s_heap s1) (s_running s1) of
         None \<Rightarrow> Inr (None, s1) | Some b \<Rightarrow> rbind (run_step cls d b s1) (\<lambda>(fd, s). Inr (Some fd, s)))"
       "sinv n w F L D A s1" "cm_lazy (s_cm s1) = None" "sched_frame s s1" "s_heap s1 = ?hp"
       "s_running s1 = s_running s" "s_pending s1 = ?ps" "cm_num_pages (s_cm s1) = cm_num_pages (s_cm s)" by blast
    show ?thesis
    proof (cases "decode_next_batch (s_heap s1) (s_running s1)")
      case None
      then have "s_running s1 = []" by (simp add: decode_next_batch_def decode_runnable_def split: if_splits)
      then show ?thesis using idle [of s1] S None by simp
    next
      case (Some b)
      obtain fi toks s' where R: "run_step cls d b s1 = Inr ((fi, toks), s')" "b_phase (fi_batch fi) = Decode"
        "set (b_reqs (fi_batch fi)) = set (s_running s1)" "length toks = length (b_reqs (fi_batch fi))"
        "sinv n w F (L @ [b_reqs (fi_batch fi)]) D A s'" "cm_lazy (s_cm s') = None" "sched_frame s1 s'"
        "s_pending s' = s_pending s1" "s_heap s' = complete_all (b_reqs (fi_batch fi)) (s_heap s1)"
        "cm_num_pages (s_cm s') = cm_num_pages (s_cm s1)" "demand s' < demand s1"
        by (rule decode_step [OF S(2,3) d Some]) (rule that)
      let ?B = "b_reqs (fi_batch fi)"
      have "batch_run s F D A A (fi_batch fi) s'"
      proof -
        note Q = queues_okD [OF sinvD(2) [OF S(2)]]
        have bound: "\<forall>r\<in>set ?B. r < length ?hp" and dB: "distinct ?B"
          using running_fits [OF S(2)] R(3) S(5) sinvD(2) [OF R(5)] by (auto simp: queues_ok_def batches_ok_def)
        have nth: "s_heap s' ! r = (if r \<in> set ?B then complete_one (?hp ! r) else ?hp ! r)" if "r < length ?hp" for r
          using complete_all_nth [OF dB bound that] R(9) S(5) by simp
        have "r_class (?hp ! r) = PlainReq" if "r \<in> set ?B" for r
          using running_plain [OF Q(3)] that R(3) S(5) by simp
        then have "r_class (s_heap s' ! r) = PlainReq" if "r \<in> set ?B" for r using nth bound that by simp
        moreover have "set ?B \<subseteq> set A" "set ?B \<inter> set D = {}" "set ?B \<inter> set F = {}"
          using Q(1,2) R(3) by (auto simp: members_ok_def owners_ok_def)
        moreover have "p_uid ` set (s_pending s') \<union> (\<lambda>r. r_uid (s_heap s' ! r)) ` set A \<subseteq>
            p_uid ` set ?ps \<union> (\<lambda>r. r_uid (?hp ! r)) ` set A"
        proof -
          have "r_uid (s_heap s' ! r) = r_uid (?hp ! r)" if "r \<in> set A" for r
            using nth [of r] Q(1) S(5) that by (simp add: owners_ok_def)
          then show ?thesis using R(8) S(7) by auto
        qed
        moreover have "\<forall>r<length ?hp. r_class (s_heap s' ! r) = r_class (?hp ! r) \<and> r_uid (s_heap s' ! r) = r_uid (?hp ! r)"
          using nth by simp
        moreover have "backlog s' < backlog s" using R(8,11) S(5,6,7) by (simp add: backlog_def demand_def)
        ultimately show ?thesis using R(2,9) S(5) by (auto simp: batch_run_def is_prefill_def)
      qed
      moreover have "sched_frame s s'" using S(4) R(7) by (rule sched_frame_trans)
      ultimately show ?thesis using batch [of fi toks s' A] S(1,8) Some R by simp
    qed
  qed
qed

end

end
