(* ===== verification/SchedMsgs.thy ===== *)
theory SchedMsgs
  imports SchedRun
begin

text \<open>
  The message step: prompts join the pending list, aborts release what they name at once or, for a
  request of the batch in flight, after its results were read.
\<close>

section \<open>Messages in sequence\<close>

text \<open>A nested batch message is processed as the sequence of its leaves.\<close>

fun flat_msg :: "backend_msg \<Rightarrow> backend_msg list" and flat_msgs :: "backend_msg list \<Rightarrow> backend_msg list" where
  "flat_msg (BatchBackendMsg ms) = flat_msgs ms"
| "flat_msg ExitMsg = [ExitMsg]"
| "flat_msg (UserMsg u ids sp) = [UserMsg u ids sp]"
| "flat_msg (AbortBackendMsg u) = [AbortBackendMsg u]"
| "flat_msgs [] = []"
| "flat_msgs (m # ms) = flat_msg m @ flat_msgs ms"

lemma process_msgs_append: "process_msgs cls (xs @ ys) s = rbind (process_msgs cls xs s) (process_msgs cls ys)"
proof (induction xs arbitrary: s)
  case (Cons m xs)
  then have "process_msgs cls (xs @ ys) = (\<lambda>s. rbind (process_msgs cls xs s) (process_msgs cls ys))" by blast
  then show ?case by (simp only: append_Cons process_msgs.simps rbind_assoc)
qed simp

lemma process_single: "process_msgs cls [m] s = process_one_msg cls m s"
  by (cases "process_one_msg cls m s") simp_all

lemma process_flat:
  "process_one_msg cls m = process_msgs cls (flat_msg m)" "process_msgs cls ms = process_msgs cls (flat_msgs ms)"
proof (induction m and ms rule: flat_msg_flat_msgs.induct)
  case (1 ms)
  then show ?case by (simp only: flat_msg.simps process_one_msg.simps fun_eq_iff) simp
next
  case (6 m ms)
  show ?case by (rule ext) (simp only: process_msgs.simps process_msgs_append flat_msgs.simps 6)
qed (simp_all only: flat_msg.simps flat_msgs.simps process_single fun_eq_iff simp_thms)

text \<open>The prompts a list of messages submits, and what the loop relies on of them.\<close>

fun submitted :: "backend_msg list \<Rightarrow> int list" where
  "submitted [] = []"
| "submitted (UserMsg u ids sp # ms) = u # submitted ms"
| "submitted (m # ms) = submitted ms"

fun msg_ok :: "int list \<Rightarrow> backend_msg \<Rightarrow> bool" where
  "msg_ok done (UserMsg u ids sp) \<longleftrightarrow> ids \<noteq> [] \<and> 0 \<le> sp_max_tokens sp"
| "msg_ok done (AbortBackendMsg u) \<longleftrightarrow> u \<notin> set done"
| "msg_ok done ExitMsg \<longleftrightarrow> False"
| "msg_ok done (BatchBackendMsg ms) \<longleftrightarrow> False"

definition valid_msgs :: "int list \<Rightarrow> int list \<Rightarrow> backend_msg list \<Rightarrow> bool" where
  "valid_msgs used done ms \<longleftrightarrow> list_all (msg_ok done) (flat_msgs ms) \<and> distinct (used @ submitted (flat_msgs ms))"

section \<open>Releasing a live request\<close>

text \<open>The fields a message leaves alone.\<close>

definition msg_frame :: "'c sched \<Rightarrow> 'c sched \<Rightarrow> bool" where
  "msg_frame s s' \<longleftrightarrow> s_engine s' = s_engine s \<and> s_graph s' = s_graph s \<and> s_finished s' = s_finished s \<and>
     s_inflight s' = s_inflight s \<and> s_eos s' = s_eos s \<and> s_prefill_budget s' = s_prefill_budget s \<and>
     s_max_seq_len s' = s_max_seq_len s \<and> s_sent s' = s_sent s"

lemma msg_frame_refl [simp]: "msg_frame s s"
  by (simp add: msg_frame_def)

lemma msg_frame_trans: "msg_frame s t \<Longrightarrow> msg_frame t u \<Longrightarrow> msg_frame s u"
  by (simp add: msg_frame_def)

lemma env_ok_frame: "env_ok n w L A s \<Longrightarrow> msg_frame s s' \<Longrightarrow> set A' \<subseteq> set A \<Longrightarrow> env_ok n w L A' s'"
  by (auto simp: env_ok_def msg_frame_def)

lemma remain_sum_remove1:
  assumes "r \<in> set xs"
  shows "(\<Sum>x\<leftarrow>remove1 r xs. f x) = (\<Sum>x\<leftarrow>xs. f x) - (f r :: int)"
proof -
  have "mset xs = mset (r # remove1 r xs)" using assms by simp
  from sum_list_mset_cong [OF this, of f] show ?thesis by simp
qed

lemma live_split: "r \<in> set A \<Longrightarrow> mset (map f A) = add_mset (f r) (mset (map f (remove1 r A)))"
proof -
  assume "r \<in> set A"
  then have "mset A = add_mset r (mset (remove1 r A))" by simp
  then show ?thesis by (metis image_mset_add_mset mset_map)
qed

context prefix_cache
begin

lemma free_live:
  assumes "held n w (mset (map ((!) (s_heap s)) A)) (s_cm s) (s_tm s)" and "r \<in> set A"
    and "r_cached_len (s_heap s ! r) \<le> length (r_input_ids (s_heap s ! r))"
  obtains cm tm where "free_req_resources cls r s = Inr (s\<lparr>s_tm := tm, s_cm := cm\<rparr>)"
    and "held n w (mset (map ((!) (s_heap s)) (remove1 r A))) cm tm" and "cm_frame (s_cm s) cm"
    and "cm_lazy cm = None \<longleftrightarrow> cm_lazy (s_cm s) = None"
    and "spare (mset (map ((!) (s_heap s)) A)) (s_cm s) \<le> spare (mset (map ((!) (s_heap s)) (remove1 r A))) cm"
proof -
  note sp = live_split [OF assms(2), of "(!) (s_heap s)"]
  obtain cm where c: "cache_req cls (s_cm s) (s_heap s ! r) True = Inr (s_heap s ! r, cm)"
    "held n w (mset (map ((!) (s_heap s)) (remove1 r A))) cm (tm_release (s_tm s) (r_table_idx (s_heap s ! r)))"
    "cm_frame (s_cm s) cm" "cm_lazy cm = None \<longleftrightarrow> cm_lazy (s_cm s) = None"
    "spare (add_mset (s_heap s ! r) (mset (map ((!) (s_heap s)) (remove1 r A)))) (s_cm s) \<le>
       spare (mset (map ((!) (s_heap s)) (remove1 r A))) cm"
    by (rule held_free [OF assms(1) [unfolded sp] assms(3)]) (rule that)
  have "free_req_resources cls r s = Inr (s\<lparr>s_tm := tm_release (s_tm s) (r_table_idx (s_heap s ! r)), s_cm := cm\<rparr>)"
    using c(1) by (simp add: free_req_resources_def Let_def)
  then show ?thesis by (rule that [OF _ c(2-4) c(5) [folded sp]])
qed

section \<open>The invariant while messages are received\<close>

text \<open>
  At most one batch is unread, its requests are live unless they finished before, and the deferred
  aborts name requests of it. \<open>U\<close> holds every uid in use.
\<close>

definition recv_inv :: "nat \<Rightarrow> nat \<Rightarrow> int set \<Rightarrow> rid list \<Rightarrow> rid list list \<Rightarrow> rid list \<Rightarrow> rid list \<Rightarrow> 'c sched \<Rightarrow> bool" where
  "recv_inv n w U F L D A s \<longleftrightarrow> sinv n w F L D A s \<and> cm_lazy (s_cm s) = None \<and> length L \<le> 1 \<and>
     set (s_inflight s) = (\<lambda>r. r_uid (s_heap s ! r)) ` set (concat L) \<and>
     set (s_deferred s) = (\<lambda>r. r_uid (s_heap s ! r)) ` set D \<and> set D \<subseteq> set (concat L) \<and>
     (\<forall>r\<in>set (concat L). r \<in> set F \<or> r \<in> set A) \<and>
     (\<lambda>r. r_uid (s_heap s ! r)) ` set D \<inter> (\<lambda>r. r_uid (s_heap s ! r)) ` (set F \<inter> set (concat L)) = {} \<and>
     p_uid ` set (s_pending s) \<union> (\<lambda>r. r_uid (s_heap s ! r)) ` set A \<subseteq> U"

lemma recv_invD:
  assumes "recv_inv n w U F L D A s"
  shows "sinv n w F L D A s" "cm_lazy (s_cm s) = None" "length L \<le> 1"
    "set (s_inflight s) = (\<lambda>r. r_uid (s_heap s ! r)) ` set (concat L)"
    "set (s_deferred s) = (\<lambda>r. r_uid (s_heap s ! r)) ` set D" "set D \<subseteq> set (concat L)"
    "\<forall>r\<in>set (concat L). r \<in> set F \<or> r \<in> set A" "p_uid ` set (s_pending s) \<subseteq> U"
    "(\<lambda>r. r_uid (s_heap s ! r)) ` set A \<subseteq> U"
    "(\<lambda>r. r_uid (s_heap s ! r)) ` set D \<inter> (\<lambda>r. r_uid (s_heap s ! r)) ` (set F \<inter> set (concat L)) = {}"
  using assms unfolding recv_inv_def by simp_all

lemma recv_inv_mono:
  assumes "recv_inv n w U F L D A s" and "U \<subseteq> U'" shows "recv_inv n w U' F L D A s"
proof -
  note R = recv_invD [OF assms(1)]
  have "p_uid ` set (s_pending s) \<union> (\<lambda>r. r_uid (s_heap s ! r)) ` set A \<subseteq> U'" using R(8,9) assms(2) by blast
  then show ?thesis unfolding recv_inv_def by (intro conjI R(1-7,10))
qed

lemma recv_user:
  assumes I: "recv_inv n w U F L D A s" and u: "u \<notin> U" and ids: "ids \<noteq> []" and sp: "0 \<le> sp_max_tokens sp"
  shows "\<exists>s'. process_one_msg cls (UserMsg u ids sp) s = Inr s' \<and> recv_inv n w (insert u U) F L D A s' \<and> msg_frame s s'"
proof (cases "s_max_seq_len s - int (length ids) \<le> 0")
  case True
  then show ?thesis using I by (intro exI [of _ s]) (auto simp: recv_inv_def)
next
  case False
  let ?mx = "s_max_seq_len s - int (length ids)"
  let ?sp = "if sp_max_tokens sp > ?mx then sp\<lparr>sp_max_tokens := ?mx\<rparr> else sp"
  let ?p = "\<lparr>p_uid = u, p_input_ids = ids, p_sampling = ?sp, p_chunked = None\<rparr>"
  let ?s = "s\<lparr>s_pending := s_pending s @ [?p]\<rparr>"
  note R = recv_invD [OF I]
  note S = sinvD [OF R(1)]
  have "pend_ok (s_max_seq_len s) (s_heap s) ?p"
    using False ids sp by (auto simp: pend_ok_def p_output_len_def p_input_len_def)
  then have q: "queues_ok (s_max_seq_len s) (s_heap s) L D A (s_running s) (s_pending s @ [?p]) F"
    using R(8,9) u by (intro queues_add [OF S(2)]) auto
  have "demand ?s = demand s" by (simp add: demand_def claims_append_list)
  then have "sinv n w F L D A ?s"
    using S q by (simp add: sinv_def env_ok_def)
  then have "recv_inv n w (insert u U) F L D A ?s" using I u by (auto simp: recv_inv_def)
  moreover have "process_one_msg cls (UserMsg u ids sp) s = Inr ?s"
    using False by (simp add: prefill_add_one_req_def Let_def)
  ultimately show ?thesis by (intro exI [of _ ?s]) (simp add: msg_frame_def)
qed

text \<open>A request leaves the queues and is released.\<close>

lemma sinv_free:
  assumes I: "sinv n w F L D A s" and r: "r \<in> set A" "r_cached_len (s_heap s ! r) \<le> length (r_input_ids (s_heap s ! r))"
    and q: "queues_ok (s_max_seq_len s) (s_heap s) L D (remove1 r A) running pending F"
    and dem: "demand (s\<lparr>s_running := running, s_pending := pending\<rparr>) \<le> demand s"
  obtains s' where "free_req_resources cls r (s\<lparr>s_running := running, s_pending := pending\<rparr>) = Inr s'"
    and "sinv n w F L D (remove1 r A) s'" and "msg_frame s s'" and "s_pending s' = pending" and "s_running s' = running"
    and "s_deferred s' = s_deferred s" and "s_acks s' = s_acks s" and "cm_lazy (s_cm s') = None \<longleftrightarrow> cm_lazy (s_cm s) = None"
proof -
  let ?s = "s\<lparr>s_running := running, s_pending := pending\<rparr>"
  have f: "s_heap ?s = s_heap s" "s_cm ?s = s_cm s" "s_tm ?s = s_tm s" by simp_all
  note S = sinvD [OF I]
  obtain cm tm where c: "free_req_resources cls r ?s = Inr (?s\<lparr>s_tm := tm, s_cm := cm\<rparr>)"
    "held n w (mset (map ((!) (s_heap s)) (remove1 r A))) cm tm" "cm_lazy cm = None \<longleftrightarrow> cm_lazy (s_cm s) = None"
    "spare (mset (map ((!) (s_heap s)) A)) (s_cm s) \<le> spare (mset (map ((!) (s_heap s)) (remove1 r A))) cm"
    by (rule free_live [of n w ?s A r, unfolded f, OF S(1) r]) (rule that)
  let ?s' = "?s\<lparr>s_tm := tm, s_cm := cm\<rparr>"
  have fr: "msg_frame s ?s'" by (simp add: msg_frame_def)
  have "demand ?s' = demand ?s" by (simp add: demand_def)
  then have "demand ?s' \<le> spare (mset (map ((!) (s_heap s)) (remove1 r A))) cm" using dem S(3) c(4) by linarith
  moreover have "env_ok n w L (remove1 r A) ?s'"
    using env_ok_frame [OF S(4) fr] set_remove1_subset [of r A] by blast
  ultimately have "sinv n w F L D (remove1 r A) ?s'" using c(2) q unfolding sinv_def by simp
  then show ?thesis by (rule that [OF c(1) _ fr]) (simp_all add: c(3))
qed

lemma recv_abort_now:
  assumes I: "recv_inv n w U F L D A s" and u: "u \<notin> set (s_inflight s)"
  shows "\<exists>s' A'. process_one_msg cls (AbortBackendMsg u) s = Inr s' \<and> recv_inv n w U F L D A' s' \<and> msg_frame s s'"
proof -
  note R = recv_invD [OF I]
  note S = sinvD [OF R(1)]
  note Q = queues_okD [OF S(2)]
  let ?M = "s_max_seq_len s" and ?hp = "s_heap s"
  have pk: "\<forall>p\<in>set (s_pending s). pend_ok ?M ?hp p" using Q(4) by (simp add: pendings_ok_def)
  have pos: "0 \<le> claims ?hp [p]" if "p \<in> set (s_pending s)" for p
    using pk that by (intro pend_claims_nonneg [of _ ?M]) simp
  have ack: "recv_inv n w U F L D A' (s'\<lparr>s_acks := a\<rparr>)" if "recv_inv n w U F L D A' s'" for A' s' a
    using that by (simp add: recv_inv_def sinv_def env_ok_def demand_def)
  have fr: "msg_frame s (s'\<lparr>s_acks := a\<rparr>)" if "msg_frame s s'" for s' a using that by (simp add: msg_frame_def)
  have keep: "recv_inv n w U F L D A' s'"
    if "sinv n w F L D A' s'" "msg_frame s s'" "s_deferred s' = s_deferred s" "cm_lazy (s_cm s') = None"
      "set (s_pending s') \<subseteq> set (s_pending s)" "A' = A \<or> (\<exists>r. A' = remove1 r A \<and> r_uid (?hp ! r) = u)" for A' s'
  proof -
    have "r \<in> set A'" if "r \<in> set (concat L)" "r \<in> set A" for r
    proof -
      have "r_uid (?hp ! r) \<noteq> u" using u R(4) that(1) by blast
      then show ?thesis using that(2) \<open>A' = A \<or> _\<close> by (metis in_set_remove1)
    qed
    then have live: "\<forall>r\<in>set (concat L). r \<in> set F \<or> r \<in> set A'" using R(7) by blast
    have "set A' \<subseteq> set A" using that(6) set_remove1_subset by fastforce
    then have uids: "p_uid ` set (s_pending s') \<union> (\<lambda>r. r_uid (?hp ! r)) ` set A' \<subseteq> U" using R(8,9) that(5) by blast
    have e: "s_heap s' = ?hp" "s_inflight s' = s_inflight s" using that(2) by (simp_all add: msg_frame_def)
    show ?thesis
      unfolding recv_inv_def e that(3) by (intro conjI that(1,4) R(3-6,10) live uids)
  qed
  show ?thesis
  proof (cases rule: prefill_abort_cases [of "s_pending s" u])
    case none
    show ?thesis
    proof (cases "List.find (\<lambda>r. r_uid (?hp ! r) = u) (s_running s)")
      case None
      then have "process_one_msg cls (AbortBackendMsg u) s = Inr (s\<lparr>s_acks := s_acks s @ [u]\<rparr>)"
        using none(1) u by (simp add: decode_abort_req_def)
      then show ?thesis using ack [OF I] fr [OF msg_frame_refl] by blast
    next
      case (Some r)
      then have r: "r \<in> set (s_running s)" "r_uid (?hp ! r) = u" by (auto simp: find_Some_iff in_set_conv_nth)
      then have rA: "r \<in> set A" using Q(2) by (auto simp: members_ok_def)
      have rL: "\<forall>B\<in>set L. r \<notin> set B" using u R(4) r(2) by fastforce
      have "read_ok L (set D) r (?hp ! r)" using Q(5) rA by (simp add: reads_ok_def)
      moreover have "unread L r = 0" using rL by (simp add: unread_0)
      ultimately have len: "r_cached_len (?hp ! r) \<le> length (r_input_ids (?hp ! r))"
        by (auto simp: read_ok_def split: if_splits)
      have "0 < remain_len (?hp ! r)" using Q(3) r(1) can_decode_remain by (simp add: running_ok_def)
      then have dem: "demand (s\<lparr>s_running := remove1 r (s_running s), s_pending := s_pending s\<rparr>) \<le> demand s"
        by (simp add: demand_def remain_sum_remove1 [OF r(1)])
      obtain s' where s': "free_req_resources cls r (s\<lparr>s_running := remove1 r (s_running s), s_pending := s_pending s\<rparr>) = Inr s'"
        "sinv n w F L D (remove1 r A) s'" "msg_frame s s'" "s_pending s' = s_pending s"
        "s_deferred s' = s_deferred s" "cm_lazy (s_cm s') = None \<longleftrightarrow> cm_lazy (s_cm s) = None"
        by (rule sinv_free [OF R(1) rA len queues_free_running [OF S(2) r(1) rL] dem]) (rule that)
      have "s\<lparr>s_pending := s_pending s, s_running := remove1 r (s_running s)\<rparr> =
          s\<lparr>s_running := remove1 r (s_running s), s_pending := s_pending s\<rparr>" by simp
      then have "process_one_msg cls (AbortBackendMsg u) s = Inr (s'\<lparr>s_acks := s_acks s' @ [u]\<rparr>)"
        using none(1) u Some s'(1) by (simp add: decode_abort_req_def)
      moreover have "recv_inv n w U F L D (remove1 r A) s'"
        using s' R(2) r(2) by (intro keep) auto
      ultimately show ?thesis using ack fr s'(3) by blast
    qed
  next
    case (some xs p ys)
    have p: "pend_ok ?M ?hp p" "0 \<le> claims ?hp [p]" using pk pos some(1) by auto
    have dem: "demand (s\<lparr>s_running := s_running s, s_pending := xs @ ys\<rparr>) \<le> demand s"
      using p(2) by (simp add: demand_def some(1) claims_append_list)
    show ?thesis
    proof (cases "p_chunked p")
      case None
      have nofind: "List.find (\<lambda>r. r_uid (?hp ! r) = u) (s_running s) = None"
      proof -
        have "p_uid p \<notin> (\<lambda>r. r_uid (?hp ! r)) ` set A" using Q(4) None some(1) by (auto simp: pendings_ok_def)
        moreover have "set (s_running s) \<subseteq> set A" using Q(2) by (simp add: members_ok_def)
        ultimately show ?thesis unfolding find_None_iff some(2) [symmetric] by (metis image_eqI subsetD)
      qed
      let ?s = "s\<lparr>s_pending := xs @ ys\<rparr>"
      have "demand ?s \<le> demand s" using dem by (simp add: demand_def)
      then have "sinv n w F L D A ?s"
        using S queues_drop [OF S(2) [unfolded some(1)] None] by (simp add: sinv_def env_ok_def)
      then have "recv_inv n w U F L D A ?s"
        using R(2) some(1) by (intro keep) (auto simp: msg_frame_def)
      moreover have "process_one_msg cls (AbortBackendMsg u) s = Inr (?s\<lparr>s_acks := s_acks ?s @ [u]\<rparr>)"
        using some(3) None u nofind by (simp add: decode_abort_req_def)
      moreover have "msg_frame s ?s" by (simp add: msg_frame_def)
      ultimately show ?thesis using ack fr by blast
    next
      case (Some c)
      have cA: "c \<in> set A" using Q(2) some(1) Some by (auto simp: members_ok_def)
      have cc: "r_class (?hp ! c) = ChunkedReq" "r_uid (?hp ! c) = u" using p(1) Some some(2) by (auto simp: pend_ok_def)
      have "read_ok L (set D) c (?hp ! c)" using Q(5) cA by (simp add: reads_ok_def)
      then have len: "r_cached_len (?hp ! c) \<le> length (r_input_ids (?hp ! c))" using cc(1) by (simp add: read_ok_def)
      obtain s' where s': "free_req_resources cls c (s\<lparr>s_running := s_running s, s_pending := xs @ ys\<rparr>) = Inr s'"
        "sinv n w F L D (remove1 c A) s'" "msg_frame s s'" "s_pending s' = xs @ ys"
        "s_deferred s' = s_deferred s" "cm_lazy (s_cm s') = None \<longleftrightarrow> cm_lazy (s_cm s) = None"
        by (rule sinv_free [OF R(1) cA len queues_free_chunk [OF S(2) [unfolded some(1)] Some] dem]) (rule that)
      have "s\<lparr>s_running := s_running s, s_pending := xs @ ys\<rparr> = s\<lparr>s_pending := xs @ ys\<rparr>" by simp
      then have "process_one_msg cls (AbortBackendMsg u) s = Inr (s'\<lparr>s_acks := s_acks s' @ [u]\<rparr>)"
        using some(3) u Some s'(1) by simp
      moreover have "recv_inv n w U F L D (remove1 c A) s'"
        using s' R(2) cc(2) some(1) by (intro keep) auto
      ultimately show ?thesis using ack fr s'(3) by blast
    qed
  qed
qed

lemma recv_abort_later:
  assumes I: "recv_inv n w U F L D A s" and u: "u \<in> set (s_inflight s)" "u \<notin> (\<lambda>r. r_uid (s_heap s ! r)) ` (set F \<inter> set (concat L))"
  shows "\<exists>s' D'. process_one_msg cls (AbortBackendMsg u) s = Inr s' \<and> recv_inv n w U F L D' A s' \<and> msg_frame s s'"
proof -
  note R = recv_invD [OF I]
  note S = sinvD [OF R(1)]
  note Q = queues_okD [OF S(2)]
  let ?M = "s_max_seq_len s" and ?hp = "s_heap s" and ?pending = "snd (prefill_abort_req (s_pending s) u)"
  obtain r where r: "r \<in> set (concat L)" "r_uid (?hp ! r) = u" using u(1) R(4) by auto
  obtain B where L: "L = [B]" using R(3) r(1) by (cases L) auto
  have rA: "r \<in> set A" using R(7) r u(2) unfolding image_iff by blast
  have rB: "r \<in> set B" using r(1) L by simp
  let ?s = "s\<lparr>s_running := remove1 r (s_running s), s_pending := ?pending, s_deferred := List.insert u (s_deferred s)\<rparr>"
  have run: "decode_abort_req ?hp (s_running s) u = (if r \<in> set (s_running s) then Some r else None, remove1 r (s_running s))"
    using decode_abort_by_uid [OF Q(1) _ rA r(2)] Q(2) by (simp add: members_ok_def)
  have step: "process_one_msg cls (AbortBackendMsg u) s = Inr ?s"
    using u(1) run by (simp add: split_beta)
  have q: "queues_ok ?M ?hp L (List.insert r D) A (remove1 r (s_running s)) ?pending F"
    using queues_defer [OF S(2) [unfolded L] rA rB r(2)] L by simp
  have sub: "set ?pending \<subseteq> set (s_pending s)" and cl: "claims ?hp ?pending \<le> claims ?hp (s_pending s)"
  proof -
    have pk: "\<forall>p\<in>set (s_pending s). pend_ok ?M ?hp p" using Q(4) by (simp add: pendings_ok_def)
    have "set ?pending \<subseteq> set (s_pending s) \<and> claims ?hp ?pending \<le> claims ?hp (s_pending s)"
    proof (cases rule: prefill_abort_cases [of "s_pending s" u])
      case (some xs p ys)
      have "0 \<le> claims ?hp [p]" using pk some(1) by (intro pend_claims_nonneg [of _ ?M]) simp
      then show ?thesis using some(1,3) by (auto simp: claims_append_list)
    qed simp
    then show "set ?pending \<subseteq> set (s_pending s)" "claims ?hp ?pending \<le> claims ?hp (s_pending s)" by simp_all
  qed
  have "(\<Sum>x\<leftarrow>remove1 r (s_running s). remain_len (?hp ! x)) \<le> (\<Sum>x\<leftarrow>s_running s. remain_len (?hp ! x))"
  proof (cases "r \<in> set (s_running s)")
    case True
    then have "0 < remain_len (?hp ! r)" using Q(3) can_decode_remain by (simp add: running_ok_def)
    then show ?thesis by (simp add: remain_sum_remove1 [OF True])
  qed (simp add: remove1_idem)
  then have dem: "demand ?s \<le> demand s" using cl by (simp add: demand_def)
  have "env_ok n w L A ?s" using S(4) by (simp add: env_ok_def)
  then have inv': "sinv n w F L (List.insert r D) A ?s"
    unfolding sinv_def using S(1,3) q dem by simp
  have "set (s_deferred ?s) = (\<lambda>r. r_uid (?hp ! r)) ` set (List.insert r D)" using R(5) r(2) by simp
  moreover have "set (List.insert r D) \<subseteq> set (concat L)" using R(6) r(1) by simp
  moreover have "p_uid ` set ?pending \<union> (\<lambda>r. r_uid (?hp ! r)) ` set A \<subseteq> U" using R(8,9) sub by blast
  moreover have "(\<lambda>r. r_uid (?hp ! r)) ` set (List.insert r D) \<inter> (\<lambda>r. r_uid (?hp ! r)) ` (set F \<inter> set (concat L)) = {}"
    using R(10) u(2) r(2) by simp
  ultimately have "recv_inv n w U F L (List.insert r D) A ?s"
    using inv' R(2-4,7) unfolding recv_inv_def by simp
  then show ?thesis using step by (intro exI [of _ ?s] exI [of _ "List.insert r D"]) (simp add: msg_frame_def)
qed

lemma recv_msg:
  assumes I: "recv_inv n w U F L D A s" and m: "msg_ok done m" and done_: "set done = (\<lambda>r. r_uid (s_heap s ! r)) ` (set F \<inter> set (concat L))"
    and u: "set (submitted [m]) \<inter> U = {}"
  shows "\<exists>s' D' A'. process_one_msg cls m s = Inr s' \<and> recv_inv n w (U \<union> set (submitted [m])) F L D' A' s' \<and> msg_frame s s'"
proof (cases m)
  case (UserMsg uid ids sp)
  then show ?thesis using recv_user [OF I, of uid ids sp] m u by auto
next
  case (AbortBackendMsg uid)
  then have "uid \<notin> (\<lambda>r. r_uid (s_heap s ! r)) ` (set F \<inter> set (concat L))" using m done_ by simp
  then have "\<exists>s' D' A'. process_one_msg cls (AbortBackendMsg uid) s = Inr s' \<and> recv_inv n w U F L D' A' s' \<and> msg_frame s s'"
    using recv_abort_now [OF I, of uid] recv_abort_later [OF I, of uid] by (cases "uid \<in> set (s_inflight s)") blast+
  then show ?thesis using AbortBackendMsg by simp
qed (use m in simp_all)

lemma submitted_append: "submitted (xs @ ys) = submitted xs @ submitted ys"
  by (induction xs rule: submitted.induct) simp_all

lemma recv_flat:
  assumes "recv_inv n w U F L D A s" and "list_all (msg_ok done) ms" and "set done = (\<lambda>r. r_uid (s_heap s ! r)) ` (set F \<inter> set (concat L))"
    and "set (submitted ms) \<inter> U = {}" and "distinct (submitted ms)"
  shows "\<exists>s' D' A'. process_msgs cls ms s = Inr s' \<and> recv_inv n w (U \<union> set (submitted ms)) F L D' A' s' \<and> msg_frame s s'"
  using assms
proof (induction ms arbitrary: U D A s)
  case (Cons m ms)
  have app: "submitted (m # ms) = submitted [m] @ submitted ms" using submitted_append [of "[m]" ms] by simp
  have "msg_ok done m" "set (submitted [m]) \<inter> U = {}" using Cons.prems(2,4) app by auto
  then obtain s1 D1 A1 where s1: "process_one_msg cls m s = Inr s1"
    "recv_inv n w (U \<union> set (submitted [m])) F L D1 A1 s1" "msg_frame s s1"
    using recv_msg [OF Cons.prems(1) _ Cons.prems(3)] by blast
  have "set done = (\<lambda>r. r_uid (s_heap s1 ! r)) ` (set F \<inter> set (concat L))" using Cons.prems(3) s1(3) by (simp add: msg_frame_def)
  moreover have "set (submitted ms) \<inter> (U \<union> set (submitted [m])) = {}" "distinct (submitted ms)"
    using Cons.prems(4,5) app by auto
  ultimately obtain s2 D2 A2 where s2: "process_msgs cls ms s1 = Inr s2"
    "recv_inv n w (U \<union> set (submitted [m]) \<union> set (submitted ms)) F L D2 A2 s2" "msg_frame s1 s2"
    using Cons.IH [OF s1(2)] Cons.prems(2) by auto
  moreover have "U \<union> set (submitted (m # ms)) = U \<union> set (submitted [m]) \<union> set (submitted ms)" using app by auto
  ultimately show ?case using s1(1) msg_frame_trans [OF s1(3) s2(3)] by (auto simp: Un_assoc)
next
  case Nil
  then show ?case by (intro exI [of _ s] exI [of _ D] exI [of _ A]) simp
qed

lemma recv_all:
  assumes "recv_inv n w U F L D A s" and "valid_msgs used (map (\<lambda>r. r_uid (s_heap s ! r)) (filter (\<lambda>r. r \<in> set F) (concat L))) ms" and "U \<subseteq> set used"
  obtains s' D' A' where "process_msgs cls ms s = Inr s'"
    and "recv_inv n w (set (used @ submitted (flat_msgs ms))) F L D' A' s'" and "msg_frame s s'"
proof -
  let ?ms = "flat_msgs ms" and ?done = "map (\<lambda>r. r_uid (s_heap s ! r)) (filter (\<lambda>r. r \<in> set F) (concat L))"
  have I: "recv_inv n w (set used) F L D A s" using assms(1,3) by (rule recv_inv_mono)
  have m: "list_all (msg_ok ?done) ?ms" using assms(2) unfolding valid_msgs_def by blast
  have d: "set (submitted ?ms) \<inter> set used = {}" "distinct (submitted ?ms)" using assms(2) by (auto simp: valid_msgs_def)
  have "set ?done = (\<lambda>r. r_uid (s_heap s ! r)) ` (set F \<inter> set (concat L))" by auto
  from recv_flat [OF I m this d] obtain s' D' A' where "process_msgs cls ?ms s = Inr s'"
    "recv_inv n w (set used \<union> set (submitted ?ms)) F L D' A' s'" "msg_frame s s'" by blast
  moreover from this(1) have "process_msgs cls ms s = Inr s'" by (subst process_flat(2))
  ultimately show ?thesis using that [of s' D' A'] by simp
qed

end

end
