(* ===== verification/SchedRead.thy ===== *)
theory SchedRead
  imports SchedMsgs
begin

text \<open>
  Reading the results of a batch: every result is appended, replied to and either releases its
  request or caches its prompt. The loop never fails and keeps the invariant, with the part of the
  batch that is still to be read as the first unread batch.
\<close>

section \<open>Changing what the host knows of one request\<close>

definition same_objs :: "heap \<Rightarrow> heap \<Rightarrow> bool" where
  "same_objs hp hp' \<longleftrightarrow> length hp' = length hp \<and> (\<forall>x<length hp. same_req (hp ! x) (hp' ! x))"

lemma same_req_refl [simp]: "same_req q q"
  by (simp add: same_req_def)

lemma same_req_trans: "same_req p q \<Longrightarrow> same_req q r \<Longrightarrow> same_req p r"
  by (simp add: same_req_def)

lemma same_objs_refl [simp]: "same_objs hp hp"
  by (simp add: same_objs_def)

lemma same_objs_trans: "same_objs hp hp' \<Longrightarrow> same_objs hp' hp'' \<Longrightarrow> same_objs hp hp''"
  using same_req_trans by (fastforce simp: same_objs_def)

lemma same_objs_update: "same_req (hp ! r) q \<Longrightarrow> same_objs hp (hp[r := q])"
proof -
  assume "same_req (hp ! r) q"
  then have "same_req (hp ! x) (hp[r := q] ! x)" if "x < length hp" for x using that by (cases "x = r") simp_all
  then show ?thesis by (simp add: same_objs_def)
qed

lemma same_req_remain: "same_req q q' \<Longrightarrow> remain_len q' = remain_len q"
  by (simp add: same_req_def remain_len_def)

lemma claims_same:
  assumes "same_objs hp hp'" and "\<forall>p\<in>set ps. pend_ok M hp p"
  shows "claims hp' ps = claims hp ps"
proof (rule claims_cong, intro ballI allI impI)
  fix p c assume "p \<in> set ps" "p_chunked p = Some c"
  then have "c < length hp" using assms(2) by (auto simp: pend_ok_def)
  then show "r_cached_len (hp' ! c) = r_cached_len (hp ! c)" using assms(1) by (simp add: same_objs_def same_req_def)
qed

lemma running_same:
  assumes "same_objs hp hp'" and "\<forall>r\<in>set rs. r < length hp"
  shows "(\<Sum>r\<leftarrow>rs. remain_len (hp' ! r)) = (\<Sum>r\<leftarrow>rs. remain_len (hp ! r))"
  using assms same_req_remain by (intro arg_cong [of _ _ sum_list] map_cong) (auto simp: same_objs_def)

lemma map_update_live:
  assumes "r \<in> set A" and "distinct A" and "\<forall>x\<in>set A. x < length hp"
  shows "mset (map ((!) (hp[r := q])) A) = add_mset q (mset (map ((!) hp) (remove1 r A)))"
proof -
  have "(hp[r := q]) ! r = q" using assms(1,3) by simp
  moreover have "map ((!) (hp[r := q])) (remove1 r A) = map ((!) hp) (remove1 r A)"
    using assms(2) by (intro map_cong) auto
  ultimately show ?thesis using live_split [OF assms(1), of "(!) (hp[r := q])"] by metis
qed

lemma map_update_dead: "r \<notin> set A \<Longrightarrow> map ((!) (hp[r := q])) A = map ((!) hp) A"
  by (intro map_cong refl) (metis nth_list_update_neq)

context prefix_cache
begin

text \<open>Appending to the host's tokens touches no resource.\<close>

lemma held_append:
  fixes ts :: "tok list"
  assumes h: "held n w (add_mset r R) cm tm"
  defines "r' \<equiv> r\<lparr>r_input_ids := r_input_ids r @ ts\<rparr>"
  shows "held n w (add_mset r' R) cm tm" and "spare (add_mset r' R) cm = spare (add_mset r R) cm"
proof -
  have I: "inv 1 (cm_cache cm) (image_mset r_handle (add_mset r R))" by (rule held_inv [OF h])
  have own: "own_of cm (add_mset r' R) = own_of cm (add_mset r R)" by (simp add: r'_def req_own_def)
  have "req_held cm r" using h by (simp add: held_def)
  then obtain vs where l: "live (cm_cache cm) (r_handle r) (take (handle_len (r_handle r)) (r_input_ids r)) vs"
    by (auto simp: req_held_def)
  then have "handle_len (r_handle r) \<le> length (r_input_ids r)" using live_length [OF I l] by (simp add: min_def split: if_splits)
  then have tk: "take (handle_len (r_handle r)) (r_input_ids r @ ts) = take (handle_len (r_handle r)) (r_input_ids r)" by simp
  have "req_held cm r'" using \<open>req_held cm r\<close> by (simp add: req_held_def r'_def tk del: take_append)
  moreover have e: "image_mset r_handle (add_mset r' R) = image_mset r_handle (add_mset r R)"
    "image_mset r_table_idx (add_mset r' R) = image_mset r_table_idx (add_mset r R)" by (simp_all add: r'_def)
  ultimately show "held n w (add_mset r' R) cm tm"
    using h unfolding held_def own e by simp
  show "spare (add_mset r' R) cm = spare (add_mset r R) cm" unfolding spare_def own e ..
qed

section \<open>The invariant of the loop\<close>

text \<open>\<open>Bs\<close> are the requests still to be read, \<open>new\<close> those found to be finished so far, \<open>old\<close> those of the step before.\<close>

definition read_inv :: "nat \<Rightarrow> nat \<Rightarrow> rid list \<Rightarrow> rid list list \<Rightarrow> rid list \<Rightarrow> rid list \<Rightarrow> rid list \<Rightarrow> 'c results \<Rightarrow> bool" where
  "read_inv n w old L2 D A Bs rs \<longleftrightarrow> sinv n w (rs_new_finished rs @ old) (Bs # L2) D A (rs_sched rs) \<and>
     s_finished (rs_sched rs) = old \<and> cm_lazy (s_cm (rs_sched rs)) \<noteq> None \<and> length L2 \<le> 1 \<and>
     set (s_deferred (rs_sched rs)) = (\<lambda>r. r_uid (s_heap (rs_sched rs) ! r)) ` set D \<and>
     set (rs_new_finished rs) \<inter> set Bs = {}"

text \<open>The fields that reading does not touch.\<close>

definition read_frame :: "'c sched \<Rightarrow> 'c sched \<Rightarrow> bool" where
  "read_frame s s' \<longleftrightarrow> sched_frame s s' \<and> s_pending s' = s_pending s \<and> same_objs (s_heap s) (s_heap s') \<and>
     ctx_batch (es_ctx (s_engine s')) = ctx_batch (es_ctx (s_engine s))"

lemma read_frame_refl [simp]: "read_frame s s"
  by (simp add: read_frame_def)

lemma read_frame_trans: "read_frame s t \<Longrightarrow> read_frame t u \<Longrightarrow> read_frame s u"
  unfolding read_frame_def using sched_frame_trans same_objs_trans by metis

section \<open>One result\<close>

lemma set_heap_simps [simp]:
  "s_heap (set_heap hp s) = hp" "s_cm (set_heap hp s) = s_cm s" "s_tm (set_heap hp s) = s_tm s"
  "s_running (set_heap hp s) = s_running s" "s_pending (set_heap hp s) = s_pending s" "s_graph (set_heap hp s) = s_graph s"
  "s_finished (set_heap hp s) = s_finished s" "s_deferred (set_heap hp s) = s_deferred s" "s_eos (set_heap hp s) = s_eos s"
  "s_max_seq_len (set_heap hp s) = s_max_seq_len s" "es_ctx (s_engine (set_heap hp s)) = es_ctx (s_engine s)"
  by (simp_all add: set_heap_def)

lemma sched_frame_set_heap [simp]: "sched_frame s (set_heap hp s)"
  by (simp add: set_heap_def sched_frame_def)

lemma live_facts:
  assumes "sinv n w F L D A s"
  shows "distinct A" "x \<in> set A \<Longrightarrow> x < length (s_heap s)" "B \<in> set L \<Longrightarrow> x \<in> set B \<Longrightarrow> x < length (s_heap s)"
    "B \<in> set L \<Longrightarrow> distinct B" "x \<in> set (s_running s) \<Longrightarrow> x < length (s_heap s)"
    "\<forall>p\<in>set (s_pending s). pend_ok (s_max_seq_len s) (s_heap s) p" "x \<in> set F \<Longrightarrow> x \<notin> set A"
  using queues_okD [OF sinvD(2) [OF assms]]
  by (auto simp: owners_ok_def batches_ok_def members_ok_def pendings_ok_def)

text \<open>The object of a request that is being read changes, in a state whose queues and accounting are known.\<close>

lemma sinv_update:
  assumes I: "sinv n w F L D A s" and r: "g_dummy (s_graph s) \<noteq> r" "same_req (s_heap s ! r) q'"
    and q: "queues_ok (s_max_seq_len s) ((s_heap s)[r := q']) L' D A (s_running s) (s_pending s) F"
    and h: "held n w (mset (map ((!) ((s_heap s)[r := q'])) A)) cm (s_tm s)"
    and sp: "spare (mset (map ((!) (s_heap s)) A)) (s_cm s) \<le> spare (mset (map ((!) ((s_heap s)[r := q'])) A)) cm"
    and L': "\<forall>B\<in>set L'. \<exists>B'\<in>set L. set B \<subseteq> set B'"
  shows "sinv n w F L' D A (set_heap ((s_heap s)[r := q']) (s\<lparr>s_cm := cm\<rparr>))"
proof -
  let ?hp' = "(s_heap s)[r := q']" and ?s' = "set_heap ((s_heap s)[r := q']) (s\<lparr>s_cm := cm\<rparr>)"
  note S = sinvD [OF I]
  have same: "same_objs (s_heap s) ?hp'" by (rule same_objs_update [OF r(2)])
  have "demand ?s' = demand s"
    using running_same [OF same] claims_same [OF same live_facts(6) [OF I]] live_facts(5) [OF I] by (simp add: demand_def)
  moreover have "env_ok n w L' A ?s'"
  proof (rule env_ok_step [OF S(4)])
    show "s_heap ?s' ! g_dummy (s_graph s) = s_heap s ! g_dummy (s_graph s)" using r(1) by simp
    show "sched_frame s ?s'" by (simp add: sched_frame_def set_heap_def)
    show "ctx_batch (es_ctx (s_engine ?s')) = None" "g_dummy (s_graph s) \<notin> set A" using S(4) by (simp_all add: env_ok_def)
    show "\<forall>B\<in>set L'. g_dummy (s_graph s) \<notin> set B" using S(4) L' unfolding env_ok_def by blast
  qed simp
  ultimately show ?thesis using q h sp S(3) unfolding sinv_def by simp
qed

lemma read_append:
  assumes I: "sinv n w F ((r # Bs) # L2) D A s" and r: "plain (s_heap s ! r)" "r \<notin> set D" "r \<in> set A \<longrightarrow> can_decode (s_heap s ! r)"
  shows "sinv n w F (Bs # L2) D A
    (set_heap ((s_heap s)[r := (s_heap s ! r)\<lparr>r_input_ids := r_input_ids (s_heap s ! r) @ [t]\<rparr>]) s)"
proof -
  let ?q = "s_heap s ! r" and ?q' = "(s_heap s ! r)\<lparr>r_input_ids := r_input_ids (s_heap s ! r) @ [t]\<rparr>"
  let ?hp' = "(s_heap s)[r := ?q']"
  note S = sinvD [OF I]
  note Q = queues_okD [OF S(2)]
  note V = live_facts [OF I]
  have d: "distinct (r # Bs)" and rl: "r < length (s_heap s)" using V(4) [of "r # Bs"] V(3) [of "r # Bs" r] by simp_all
  have dm: "g_dummy (s_graph s) \<noteq> r" using S(4) by (auto simp: env_ok_def)
  have same: "same_req ?q ?q'" by (simp add: same_req_def)
  have q: "queues_ok (s_max_seq_len s) ?hp' (Bs # L2) D A (s_running s) (s_pending s) F"
  proof (rule queues_update [OF S(2) rl same r(1)])
    assume "r \<in> set A"
    then have "read_ok ((r # Bs) # L2) (set D) r ?q" using Q(5) by (simp add: reads_ok_def)
    then show "read_ok (Bs # L2) (set D) r ?q'" using r(1,2) d by (simp add: read_ok_def)
  next
    show "unread (Bs # L2) x = unread ((r # Bs) # L2) x" if "x \<noteq> r" for x using that by simp
    show "\<forall>B\<in>set (Bs # L2). distinct B \<and> (\<exists>B'\<in>set ((r # Bs) # L2). set B \<subseteq> set B')"
      using V(4) d by auto
    show "covered (Bs # L2) (set (s_running s) \<union> set (chunk_rids (s_pending s)) \<union> set D) A (s_heap s)"
      using Q(6) r(3) by (auto simp: covered_def)
  qed
  have hA: "held n w (mset (map ((!) ?hp') A)) (s_cm s) (s_tm s) \<and>
      spare (mset (map ((!) ?hp') A)) (s_cm s) = spare (mset (map ((!) (s_heap s)) A)) (s_cm s)"
  proof (cases "r \<in> set A")
    case True
    let ?R = "mset (map ((!) (s_heap s)) (remove1 r A))"
    have a: "mset (map ((!) (s_heap s)) A) = add_mset ?q ?R" by (rule live_split [OF True])
    have b: "mset (map ((!) ?hp') A) = add_mset ?q' ?R" using V(1,2) by (intro map_update_live [OF True]) auto
    show ?thesis unfolding a b using held_append [OF S(1) [unfolded a], of "[t]"] by simp
  next
    case False
    then show ?thesis using S(1) unfolding map_update_dead [OF False] by simp
  qed
  have "sinv n w F (Bs # L2) D A (set_heap ?hp' (s\<lparr>s_cm := s_cm s\<rparr>))"
    by (rule sinv_update [OF I dm same q]) (use hA in auto)
  then show ?thesis by simp
qed

text \<open>Caching the prefix of a live request.\<close>

lemma read_cache:
  assumes I: "sinv n w F L D A s" and r: "r \<in> set A" "r \<notin> set D" "plain (s_heap s ! r)"
    and dm: "g_dummy (s_graph s) \<noteq> r" and len: "r_cached_len (s_heap s ! r) \<le> length (r_input_ids (s_heap s ! r))"
  obtains q' cm where "cache_req cls (s_cm s) (s_heap s ! r) False = Inr (q', cm)" and "same_req (s_heap s ! r) q'"
    and "sinv n w F L D A (set_heap ((s_heap s)[r := q']) (s\<lparr>s_cm := cm\<rparr>))" and "cm_lazy cm = None \<longleftrightarrow> cm_lazy (s_cm s) = None"
proof -
  let ?q = "s_heap s ! r" and ?R = "mset (map ((!) (s_heap s)) (remove1 r A))"
  note S = sinvD [OF I]
  note Q = queues_okD [OF S(2)]
  note V = live_facts [OF I]
  note sp = live_split [OF r(1), of "(!) (s_heap s)"]
  obtain hd cm where c: "cache_req cls (s_cm s) ?q False = Inr (?q\<lparr>r_handle := hd\<rparr>, cm)"
    "held n w (add_mset (?q\<lparr>r_handle := hd\<rparr>) ?R) cm (s_tm s)" "cm_lazy cm = None \<longleftrightarrow> cm_lazy (s_cm s) = None"
    "spare (add_mset ?q ?R) (s_cm s) \<le> spare (add_mset (?q\<lparr>r_handle := hd\<rparr>) ?R) cm"
    by (rule held_cache [OF S(1) [unfolded sp] len]) (rule that)
  let ?q' = "?q\<lparr>r_handle := hd\<rparr>"
  let ?hp' = "(s_heap s)[r := ?q']"
  have same: "same_req ?q ?q'" by (simp add: same_req_def)
  have m: "mset (map ((!) ?hp') A) = add_mset ?q' ?R" using V(1,2) by (intro map_update_live [OF r(1)]) auto
  have q: "queues_ok (s_max_seq_len s) ?hp' L D A (s_running s) (s_pending s) F"
  proof (rule queues_update [OF S(2) V(2) [OF r(1)] same r(3)])
    have "read_ok L (set D) r ?q" using Q(5) r(1) by (simp add: reads_ok_def)
    then show "read_ok L (set D) r ?q'" by (simp add: read_ok_def)
    show "\<forall>B\<in>set L. distinct B \<and> (\<exists>B'\<in>set L. set B \<subseteq> set B')" using V(4) by blast
  qed (use Q(6) in simp_all)
  have "sinv n w F L D A (set_heap ?hp' (s\<lparr>s_cm := cm\<rparr>))"
    by (rule sinv_update [OF I dm same q, unfolded m sp]) (use c(2,4) in auto)
  then show ?thesis by (rule that [OF c(1) same _ c(3)])
qed

text \<open>A request that turns out to be finished leaves the queues and is released.\<close>

lemma unread_le: "unread L r \<le> length L"
  by (simp add: unread_def)

lemma read_finish:
  fixes t :: tok
  assumes I: "sinv n w F ((r # Bs) # L2) D A s" and r: "r \<in> set A" "r \<notin> set D" "plain (s_heap s ! r)" and L2: "length L2 \<le> 1"
  defines "q' \<equiv> (s_heap s ! r)\<lparr>r_input_ids := r_input_ids (s_heap s ! r) @ [t]\<rparr>"
  defines "s1 \<equiv> (set_heap ((s_heap s)[r := q']) s)\<lparr>s_running := remove1 r (s_running s)\<rparr>"
  obtains s' where "free_req_resources cls r s1 = Inr s'" and "sinv n w (r # F) (Bs # L2) D (remove1 r A) s'"
    and "read_frame s s'" and "cm_lazy (s_cm s') = None \<longleftrightarrow> cm_lazy (s_cm s) = None" and "s_heap s' = (s_heap s)[r := q']"
proof -
  let ?q = "s_heap s ! r" and ?hp' = "(s_heap s)[r := q']" and ?R = "mset (map ((!) (s_heap s)) (remove1 r A))"
  note S = sinvD [OF I]
  note Q = queues_okD [OF S(2)]
  note V = live_facts [OF I]
  have d: "distinct (r # Bs)" and rl: "r < length (s_heap s)" using V(4) [of "r # Bs"] V(3) [of "r # Bs" r] by simp_all
  have same: "same_req ?q q'" by (simp add: same_req_def q'_def)
  have objs: "same_objs (s_heap s) ?hp'" by (rule same_objs_update [OF same])
  have q: "queues_ok (s_max_seq_len s) ?hp' (Bs # L2) D (remove1 r A) (remove1 r (s_running s)) (s_pending s) (r # F)"
  proof (rule queues_update [OF queues_finish [OF S(2) r] rl same r(3)])
    have nr: "r \<notin> set (remove1 r A)" using V(1) by simp
    then show "r \<in> set (remove1 r A) \<Longrightarrow> read_ok (Bs # L2) (set D) r q'" by simp
    show "unread (Bs # L2) x = unread ((r # Bs) # L2) x" if "x \<noteq> r" for x using that by simp
    show "\<forall>B\<in>set (Bs # L2). distinct B \<and> (\<exists>B'\<in>set ((r # Bs) # L2). set B \<subseteq> set B')" using V(4) d by auto
    have "covered ((r # Bs) # L2) (set (remove1 r (s_running s)) \<union> set (chunk_rids (s_pending s)) \<union> set D) (remove1 r A) (s_heap s)"
      by (rule queues_okD(6) [OF queues_finish [OF S(2) r]])
    then show "covered (Bs # L2) (set (remove1 r (s_running s)) \<union> set (chunk_rids (s_pending s)) \<union> set D) (remove1 r A) (s_heap s)"
      using nr by (auto simp: covered_def)
  qed
  have "read_ok ((r # Bs) # L2) (set D) r ?q" using Q(5) r(1) by (simp add: reads_ok_def)
  then have len: "r_cached_len (?hp' ! r) \<le> length (r_input_ids (?hp' ! r))"
    using r(2,3) L2 unread_le [of L2 r] rl by (simp add: read_ok_def q'_def)
  have a: "mset (map ((!) (s_heap s)) A) = add_mset ?q ?R" by (rule live_split [OF r(1)])
  have b: "mset (map ((!) ?hp') A) = add_mset q' ?R" using V(1,2) by (intro map_update_live [OF r(1)]) auto
  note ap = held_append [OF S(1) [unfolded a], of "[t]", folded q'_def]
  have f: "s_heap s1 = ?hp'" "s_cm s1 = s_cm s" "s_tm s1 = s_tm s" by (simp_all add: s1_def set_heap_def)
  have "held n w (mset (map ((!) (s_heap s1)) A)) (s_cm s1) (s_tm s1)" unfolding f b by (rule ap(1))
  then obtain cm tm where c: "free_req_resources cls r s1 = Inr (s1\<lparr>s_tm := tm, s_cm := cm\<rparr>)"
    "held n w (mset (map ((!) (s_heap s1)) (remove1 r A))) cm tm" "cm_lazy cm = None \<longleftrightarrow> cm_lazy (s_cm s1) = None"
    "spare (mset (map ((!) (s_heap s1)) A)) (s_cm s1) \<le> spare (mset (map ((!) (s_heap s1)) (remove1 r A))) cm"
    by (rule free_live [OF _ r(1)]) (use len f in simp, rule that)
  let ?s' = "s1\<lparr>s_tm := tm, s_cm := cm\<rparr>"
  have f': "s_heap ?s' = ?hp'" "s_running ?s' = remove1 r (s_running s)" "s_pending ?s' = s_pending s"
    "s_max_seq_len ?s' = s_max_seq_len s" "sched_frame s ?s'" "ctx_batch (es_ctx (s_engine ?s')) = ctx_batch (es_ctx (s_engine s))"
    by (simp_all add: s1_def sched_frame_def set_heap_def)
  have "demand ?s' \<le> demand s"
  proof -
    have rsum: "(\<Sum>x\<leftarrow>remove1 r (s_running s). remain_len (?hp' ! x)) = (\<Sum>x\<leftarrow>remove1 r (s_running s). remain_len (s_heap s ! x))"
      using V(5) set_remove1_subset [of r "s_running s"] by (intro running_same [OF objs]) blast
    have "(\<Sum>x\<leftarrow>remove1 r (s_running s). remain_len (s_heap s ! x)) \<le> (\<Sum>x\<leftarrow>s_running s. remain_len (s_heap s ! x))"
    proof (cases "r \<in> set (s_running s)")
      case True
      then have "0 < remain_len (s_heap s ! r)" using Q(3) can_decode_remain by (simp add: running_ok_def)
      then show ?thesis by (simp add: remain_sum_remove1 [OF True])
    qed (simp add: remove1_idem)
    then show ?thesis using rsum claims_same [OF objs V(6)] unfolding demand_def f' by simp
  qed
  moreover have "spare (mset (map ((!) (s_heap s)) A)) (s_cm s) = spare (mset (map ((!) (s_heap s1)) A)) (s_cm s1)"
    unfolding f a b by (rule ap(2) [symmetric])
  ultimately have "demand ?s' \<le> spare (mset (map ((!) ?hp') (remove1 r A))) cm" using S(3) c(4) f(1) by simp
  moreover have "env_ok n w (Bs # L2) (remove1 r A) ?s'"
  proof (rule env_ok_step [OF S(4) f'(5)])
    have "g_dummy (s_graph s) \<noteq> r" using S(4) by (auto simp: env_ok_def)
    then show "s_heap ?s' ! g_dummy (s_graph s) = s_heap s ! g_dummy (s_graph s)" unfolding f'(1) by simp
    show "ctx_batch (es_ctx (s_engine ?s')) = None" using S(4) f'(6) by (simp add: env_ok_def)
    show "g_dummy (s_graph s) \<notin> set (remove1 r A)" using S(4) set_remove1_subset by (fastforce simp: env_ok_def)
    show "\<forall>B\<in>set (Bs # L2). g_dummy (s_graph s) \<notin> set B" using S(4) by (auto simp: env_ok_def)
    show "length (s_heap s) \<le> length (s_heap ?s')" unfolding f'(1) by simp
  qed
  ultimately have "sinv n w (r # F) (Bs # L2) D (remove1 r A) ?s'"
    using q c(2) unfolding sinv_def f' f by simp
  then show ?thesis
    using objs f f' c(3) by (intro that [OF c(1)]) (simp_all add: read_frame_def)
qed

text \<open>A chunk, or a request whose result nobody waits for any more, is passed over.\<close>

lemma read_skip:
  assumes I: "sinv n w F ((r # Bs) # L2) D A s" and r: "r_class (s_heap s ! r) = ChunkedReq \<or> r \<in> set D \<or> r \<notin> set A"
  shows "sinv n w F (Bs # L2) D A s"
  using sinvD [OF I] queues_skip [OF sinvD(2) [OF I] r] by (simp add: sinv_def env_ok_def)

lemma read_inv_next:
  assumes I: "read_inv n w old L2 D A (r # Bs) rs" and fr: "read_frame (rs_sched rs) s'"
    and sv: "sinv n w (nw @ old) (Bs # L2) D A' s'" and lazy: "cm_lazy (s_cm s') \<noteq> None"
    and nw: "set nw \<subseteq> insert r (set (rs_new_finished rs))"
  shows "read_inv n w old L2 D A' Bs \<lparr>rs_sched = s', rs_reply = rep, rs_new_finished = nw\<rparr>"
proof -
  let ?s = "rs_sched rs"
  have SI: "sinv n w (rs_new_finished rs @ old) ((r # Bs) # L2) D A ?s" using I by (simp add: read_inv_def)
  have fr': "s_finished s' = s_finished ?s" "s_deferred s' = s_deferred ?s" "same_objs (s_heap ?s) (s_heap s')"
    using fr by (simp_all add: read_frame_def sched_frame_def)
  have "\<forall>x\<in>set D. x < length (s_heap ?s)"
    using queues_okD(2) [OF sinvD(2) [OF SI]] live_facts(2) [OF SI] by (auto simp: members_ok_def)
  then have "(\<lambda>r. r_uid (s_heap s' ! r)) ` set D = (\<lambda>r. r_uid (s_heap ?s ! r)) ` set D"
    using fr'(3) by (intro image_cong refl) (simp add: same_objs_def same_req_def)
  moreover have "distinct (r # Bs)" using live_facts(4) [OF SI, of "r # Bs"] by simp
  ultimately show ?thesis using I sv lazy nw fr' by (auto simp: read_inv_def)
qed

lemma read_step:
  assumes I: "read_inv n w old L2 D A (r # Bs) rs" and i: "i < length toks" and pre: "pre \<longrightarrow> r \<notin> set old"
  obtains rs' A' where "process_result cls pre toks (i, r) rs = Inr rs'" and "read_inv n w old L2 D A' Bs rs'"
    and "read_frame (rs_sched rs) (rs_sched rs')" and "set A' \<union> set (rs_new_finished rs') = set A \<union> set (rs_new_finished rs)"
    and "set (rs_new_finished rs') \<subseteq> insert r (set (rs_new_finished rs))"
proof -
  let ?s = "rs_sched rs" and ?new = "rs_new_finished rs"
  let ?hp = "s_heap ?s"
  let ?q = "?hp ! r" and ?t = "toks ! i"
  let ?q' = "?q\<lparr>r_input_ids := r_input_ids ?q @ [?t]\<rparr>"
  let ?s1 = "set_heap (?hp[r := ?q']) ?s"
  have SI: "sinv n w (?new @ old) ((r # Bs) # L2) D A ?s" and lz: "cm_lazy (s_cm ?s) \<noteq> None" and L2: "length L2 \<le> 1"
    and fin: "s_finished ?s = old" and def: "set (s_deferred ?s) = (\<lambda>r. r_uid (?hp ! r)) ` set D" and nn: "r \<notin> set ?new"
    using I by (auto simp: read_inv_def)
  note S = sinvD [OF SI]
  note Q = queues_okD [OF S(2)]
  note V = live_facts [OF SI]
  have d: "distinct (r # Bs)" and rl: "r < length ?hp" using V(4) [of "r # Bs"] V(3) [of "r # Bs" r] by simp_all
  have same: "same_req ?q ?q'" by (simp add: same_req_def)
  have fr1: "read_frame ?s ?s1" using same_objs_update [OF same] by (simp add: read_frame_def)
  show ?thesis
  proof (cases "r_class ?q = ChunkedReq \<or> r_uid ?q \<in> set (s_deferred ?s)")
    case True
    have "r_class ?q = ChunkedReq \<or> r \<in> set D \<or> r \<notin> set A"
    proof (rule ccontr)
      assume "\<not> ?thesis"
      then obtain d where d: "d \<in> set D" "r_uid ?q = r_uid (?hp ! d)" "r \<in> set A" "r \<notin> set D" using True def by auto
      have "d \<in> set A" using Q(2) d(1) by (auto simp: members_ok_def)
      then show False using owner_by_uid [OF Q(1) d(3) _ d(2)] d(1,4) by simp
    qed
    then have "sinv n w (?new @ old) (Bs # L2) D A ?s" by (rule read_skip [OF SI])
    then have "read_inv n w old L2 D A Bs \<lparr>rs_sched = ?s, rs_reply = rs_reply rs, rs_new_finished = ?new\<rparr>"
      by (rule read_inv_next [OF I read_frame_refl]) (use lz in auto)
    then have "read_inv n w old L2 D A Bs rs" by (cases rs) simp
    moreover have "process_result cls pre toks (i, r) rs = Inr rs" using True by (auto simp: process_result_def Let_def)
    ultimately show ?thesis using that [of rs A] by auto
  next
    case False
    then have pl: "plain ?q" and nu: "r_uid ?q \<notin> set (s_deferred ?s)" by (cases "r_class ?q"; simp)+
    have nD: "r \<notin> set D" using nu def by auto
    have ap: "append_host ?q ?t = Inr ?q'" using pl by (simp add: append_host_def)
    define fn where "fn \<longleftrightarrow> \<not> can_decode ?q' \<or> \<not> sp_ignore_eos (r_sampling ?q') \<and> ?t = s_eos ?s1 \<or> ?t \<in> set (sp_stop_token_ids (r_sampling ?q'))"
    let ?rep = "rs_reply rs @ [DetokenizeMsg (r_uid ?q') ?t fn]"
    have PR: "process_result cls pre toks (i, r) rs =
      (if fn \<and> r \<notin> set old then
         rbind (free_req_resources cls r (?s1\<lparr>s_running := remove1 r (s_running ?s)\<rparr>)) (\<lambda>s.
         Inr \<lparr>rs_sched = s, rs_reply = ?rep, rs_new_finished = List.insert r ?new\<rparr>)
       else if pre then
         rbind (cache_req cls (s_cm ?s) ?q' False) (\<lambda>(req, cm).
         Inr \<lparr>rs_sched = set_heap ((?hp[r := ?q'])[r := req]) (?s1\<lparr>s_cm := cm\<rparr>), rs_reply = ?rep, rs_new_finished = ?new\<rparr>)
       else Inr \<lparr>rs_sched = ?s1, rs_reply = ?rep, rs_new_finished = ?new\<rparr>)"
      using pl nu i unfolding fn_def by (simp add: process_result_def Let_def ap remove_req_def fin)
    show ?thesis
    proof (cases "r \<in> set old")
      case True
      then have nA: "r \<notin> set A" using V(7) by auto
      have "sinv n w (?new @ old) (Bs # L2) D A ?s1" by (rule read_append [OF SI pl nD]) (use nA in simp)
      then have "read_inv n w old L2 D A Bs \<lparr>rs_sched = ?s1, rs_reply = ?rep, rs_new_finished = ?new\<rparr>"
        by (rule read_inv_next [OF I fr1]) (use lz in auto)
      moreover have "process_result cls pre toks (i, r) rs = Inr \<lparr>rs_sched = ?s1, rs_reply = ?rep, rs_new_finished = ?new\<rparr>"
        unfolding PR using True pre by simp
      ultimately show ?thesis using that fr1 by fastforce
    next
      case nold: False
      then have rA: "r \<in> set A" using Q(7) pl nn by (auto simp: batches_ok_def)
      show ?thesis
      proof (cases fn)
        case True
        obtain s' where c: "free_req_resources cls r (?s1\<lparr>s_running := remove1 r (s_running ?s)\<rparr>) = Inr s'"
          "sinv n w (r # ?new @ old) (Bs # L2) D (remove1 r A) s'" "read_frame ?s s'"
          "cm_lazy (s_cm s') = None \<longleftrightarrow> cm_lazy (s_cm ?s) = None"
          by (rule read_finish [OF SI rA nD pl L2, of ?t]) (rule that)
        have "read_inv n w old L2 D (remove1 r A) Bs \<lparr>rs_sched = s', rs_reply = ?rep, rs_new_finished = r # ?new\<rparr>"
          using c(2,4) lz by (intro read_inv_next [OF I c(3)]) auto
        moreover have "process_result cls pre toks (i, r) rs = Inr \<lparr>rs_sched = s', rs_reply = ?rep, rs_new_finished = r # ?new\<rparr>"
          unfolding PR using True nold nn by (simp add: c(1))
        moreover have "set (remove1 r A) \<union> set (r # ?new) = set A \<union> set ?new" using V(1) rA by auto
        ultimately show ?thesis using that c(3) by fastforce
      next
        case nfin: False
        then have dec: "can_decode ?q" using same_req_can_decode [OF same] by (simp add: fn_def)
        have I1: "sinv n w (?new @ old) (Bs # L2) D A ?s1" by (rule read_append [OF SI pl nD]) (use dec in simp)
        show ?thesis
        proof (cases pre)
          case False
          have "read_inv n w old L2 D A Bs \<lparr>rs_sched = ?s1, rs_reply = ?rep, rs_new_finished = ?new\<rparr>"
            by (rule read_inv_next [OF I fr1 I1]) (use lz in auto)
          moreover have "process_result cls pre toks (i, r) rs = Inr \<lparr>rs_sched = ?s1, rs_reply = ?rep, rs_new_finished = ?new\<rparr>"
            unfolding PR using nfin False by simp
          ultimately show ?thesis using that fr1 by fastforce
        next
          case True
          have q1: "s_heap ?s1 ! r = ?q'" using rl by simp
          have dm: "g_dummy (s_graph ?s1) \<noteq> r" using S(4) by (auto simp: env_ok_def)
          have "read_ok ((r # Bs) # L2) (set D) r ?q" using Q(5) rA by (simp add: reads_ok_def)
          then have len: "r_cached_len (s_heap ?s1 ! r) \<le> length (r_input_ids (s_heap ?s1 ! r))"
            using nD pl L2 unread_le [of L2 r] unfolding q1 by (simp add: read_ok_def)
          obtain q2 cm where c: "cache_req cls (s_cm ?s1) (s_heap ?s1 ! r) False = Inr (q2, cm)" "same_req (s_heap ?s1 ! r) q2"
            "sinv n w (?new @ old) (Bs # L2) D A (set_heap ((s_heap ?s1)[r := q2]) (?s1\<lparr>s_cm := cm\<rparr>))"
            "cm_lazy cm = None \<longleftrightarrow> cm_lazy (s_cm ?s1) = None"
            by (rule read_cache [OF I1 rA nD _ dm len]) (use pl q1 in simp, rule that)
          let ?s2 = "set_heap ((s_heap ?s1)[r := q2]) (?s1\<lparr>s_cm := cm\<rparr>)"
          have "sched_frame ?s1 ?s2" by (simp add: sched_frame_def set_heap_def)
          then have fr2: "read_frame ?s ?s2"
            using same_objs_update [OF c(2)] by (intro read_frame_trans [OF fr1]) (simp add: read_frame_def)
          have "read_inv n w old L2 D A Bs \<lparr>rs_sched = ?s2, rs_reply = ?rep, rs_new_finished = ?new\<rparr>"
            by (rule read_inv_next [OF I fr2 c(3)]) (use lz c(4) in auto)
          moreover have "process_result cls pre toks (i, r) rs = Inr \<lparr>rs_sched = ?s2, rs_reply = ?rep, rs_new_finished = ?new\<rparr>"
            unfolding PR using nfin True c(1) rl by simp
          ultimately show ?thesis using that fr2 by fastforce
        qed
      qed
    qed
  qed
qed

lemma read_all:
  assumes "read_inv n w old L2 D A Bs rs" and "i + length Bs \<le> length toks" and "pre \<longrightarrow> set Bs \<inter> set old = {}"
  shows "\<exists>rs' A'. res_fold (process_result cls pre toks) (enumerate i Bs) rs = Inr rs' \<and> read_inv n w old L2 D A' [] rs' \<and>
    read_frame (rs_sched rs) (rs_sched rs') \<and> set A' \<union> set (rs_new_finished rs') = set A \<union> set (rs_new_finished rs) \<and>
    set (rs_new_finished rs') \<subseteq> set Bs \<union> set (rs_new_finished rs)"
  using assms
proof (induction Bs arbitrary: i A rs)
  case Nil
  then show ?case by (intro exI [of _ rs] exI [of _ A]) simp
next
  case (Cons r Bs)
  have i: "i < length toks" and pre: "pre \<longrightarrow> r \<notin> set old" using Cons.prems(2,3) by auto
  obtain rs1 A1 where s1: "process_result cls pre toks (i, r) rs = Inr rs1" "read_inv n w old L2 D A1 Bs rs1"
    "read_frame (rs_sched rs) (rs_sched rs1)" "set A1 \<union> set (rs_new_finished rs1) = set A \<union> set (rs_new_finished rs)"
    "set (rs_new_finished rs1) \<subseteq> insert r (set (rs_new_finished rs))"
    by (rule read_step [OF Cons.prems(1) i pre]) (rule that)
  have "Suc i + length Bs \<le> length toks" "pre \<longrightarrow> set Bs \<inter> set old = {}" using Cons.prems(2,3) by auto
  from Cons.IH [OF s1(2) this] obtain rs2 A2 where s2: "res_fold (process_result cls pre toks) (enumerate (Suc i) Bs) rs1 = Inr rs2"
    "read_inv n w old L2 D A2 [] rs2" "read_frame (rs_sched rs1) (rs_sched rs2)"
    "set A2 \<union> set (rs_new_finished rs2) = set A1 \<union> set (rs_new_finished rs1)"
    "set (rs_new_finished rs2) \<subseteq> set Bs \<union> set (rs_new_finished rs1)" by blast
  have "res_fold (process_result cls pre toks) (enumerate i (r # Bs)) rs = Inr rs2" using s1(1) s2(1) by simp
  moreover have "read_frame (rs_sched rs) (rs_sched rs2)" using s1(3) s2(3) by (rule read_frame_trans)
  moreover have "set (rs_new_finished rs2) \<subseteq> set (r # Bs) \<union> set (rs_new_finished rs)" using s1(5) s2(5) by auto
  ultimately show ?case using s1(4) s2(2,4) by blast
qed

lemma held_same_cache:
  assumes "held n w R cm tm" and "cm_frame cm cm'" and "cm_cache cm' = cm_cache cm"
    and "ok (image_mset r_handle R) (own_of cm R) cm'"
  shows "held n w R cm' tm" and "spare R cm' = spare R cm"
proof -
  have own: "own_of cm' R = own_of cm R" by (rule own_of_frame [OF assms(2)])
  have "\<forall>r\<in>#R. req_held cm' r"
    using assms(1,3) req_held_frame [OF _ assms(2)] by (simp add: held_def)
  then show "held n w R cm' tm" using assms unfolding held_def own by (simp add: cm_frame_def)
  show "spare R cm' = spare R cm" unfolding spare_def own using assms(2,3) by (simp add: cm_frame_def)
qed

lemma sinv_same_cache:
  assumes "sinv n w F L D A s" and "cm_frame (s_cm s) cm" and "cm_cache cm = cm_cache (s_cm s)"
    and "\<And>H own. ok H own (s_cm s) \<Longrightarrow> ok H own cm"
  shows "sinv n w F L D A (s\<lparr>s_cm := cm\<rparr>)"
proof -
  note S = sinvD [OF assms(1)]
  have "ok (image_mset r_handle (mset (map ((!) (s_heap s)) A))) (own_of (s_cm s) (mset (map ((!) (s_heap s)) A))) cm"
    using S(1) by (intro assms(4)) (simp add: held_def)
  note H = held_same_cache [OF S(1) assms(2,3) this]
  have "demand (s\<lparr>s_cm := cm\<rparr>) = demand s" "env_ok n w L A (s\<lparr>s_cm := cm\<rparr>)"
    using S(4) by (simp_all add: demand_def env_ok_def)
  then show ?thesis using S(2,3) H unfolding sinv_def by simp
qed

lemma process_last_data_ok:
  assumes I: "sinv n w (s_finished s) (b_reqs (fi_batch fi) # L2) D A s" and lazy: "cm_lazy (s_cm s) = None" and L2: "length L2 \<le> 1"
    and def: "set (s_deferred s) = (\<lambda>r. r_uid (s_heap s ! r)) ` set D" and toks: "length toks = length (b_reqs (fi_batch fi))"
    and pre: "is_prefill (fi_batch fi) \<longrightarrow> set (b_reqs (fi_batch fi)) \<inter> set (s_finished s) = {}"
    and next_: "\<forall>B\<in>set L2. set B \<inter> set (s_finished s) = {}"
  obtains s' A' where "process_last_data cls (Some (fi, toks)) s = Inr s'" and "sinv n w (s_finished s') L2 D A' s'"
    and "cm_lazy (s_cm s') = None" and "set A' \<union> set (s_finished s') = set A" and "set (s_finished s') \<subseteq> set (b_reqs (fi_batch fi))"
    and "same_objs (s_heap s) (s_heap s')" and "s_pending s' = s_pending s" and "s_deferred s' = s_deferred s"
    and "s_inflight s' = s_inflight s" and "s_acks s' = s_acks s" and "set A' \<inter> set (s_finished s') = {}"
proof -
  let ?B = "b_reqs (fi_batch fi)" and ?s0 = "s\<lparr>s_cm := lazy_enter (s_cm s)\<rparr>"
  let ?rs0 = "\<lparr>rs_sched = ?s0, rs_reply = [], rs_new_finished = []\<rparr>"
  have "sinv n w (s_finished s) (?B # L2) D A ?s0"
    using lazy by (intro sinv_same_cache [OF I] lazy_enter_ok) (simp_all add: lazy_enter_def cm_frame_def)
  then have I0: "read_inv n w (s_finished s) L2 D A ?B ?rs0"
    using L2 def by (simp add: read_inv_def lazy_enter_def)
  have "0 + length ?B \<le> length toks" using toks by simp
  from read_all [OF I0 this pre] obtain rs A' where R:
    "res_fold (process_result cls (is_prefill (fi_batch fi)) toks) (enumerate 0 ?B) ?rs0 = Inr rs"
    "read_inv n w (s_finished s) L2 D A' [] rs" "read_frame ?s0 (rs_sched rs)"
    "set A' \<union> set (rs_new_finished rs) = set A" "set (rs_new_finished rs) \<subseteq> set ?B" by auto
  let ?s = "rs_sched rs" and ?new = "rs_new_finished rs"
  have I1: "sinv n w (?new @ s_finished s) ([] # L2) D A' ?s" and lz: "cm_lazy (s_cm ?s) \<noteq> None"
    using R(2) by (simp_all add: read_inv_def)
  note S = sinvD [OF I1]
  have "ok (image_mset r_handle (mset (map ((!) (s_heap ?s)) A'))) (own_of (s_cm ?s) (mset (map ((!) (s_heap ?s)) A'))) (s_cm ?s)"
    using S(1) by (simp add: held_def)
  from lazy_exit_ok [OF this lz] obtain cm where cm: "lazy_exit (s_cm ?s) = Inr cm" "cm_lazy cm = None" "cm_frame (s_cm ?s) cm"
    "cm_cache cm = cm_cache (s_cm ?s)" by blast
  have "ok H own cm" if "ok H own (s_cm ?s)" for H own using lazy_exit_ok [OF that lz] cm(1) by auto
  from sinv_same_cache [OF I1 cm(3,4) this]
  have I2: "sinv n w (?new @ s_finished s) ([] # L2) D A' (?s\<lparr>s_cm := cm\<rparr>)" .
  let ?s' = "send_result (rs_reply rs) (?s\<lparr>s_cm := cm, s_finished := ?new\<rparr>)"
  have "process_last_data cls (Some (fi, toks)) s = Inr ?s'"
    using R(1) cm(1) by (simp add: process_last_data_def Let_def)
  moreover have "queues_ok (s_max_seq_len ?s) (s_heap ?s) L2 D A' (s_running ?s) (s_pending ?s) ?new"
    using queues_read [OF S(2)] next_ by simp
  then have "sinv n w (s_finished ?s') L2 D A' ?s'"
    using sinvD [OF I2] by (simp add: sinv_def env_ok_def demand_def send_result_def)
  moreover have "same_objs (s_heap s) (s_heap ?s')" "s_pending ?s' = s_pending s" "s_deferred ?s' = s_deferred s"
    "s_inflight ?s' = s_inflight s" "s_acks ?s' = s_acks s"
    using R(3) by (simp_all add: read_frame_def sched_frame_def send_result_def)
  moreover have "set A' \<inter> set ?new = {}" using live_facts(7) [OF I1] by auto
  ultimately show ?thesis using R(4,5) cm(2) by (intro that [of ?s' A']) (simp_all add: send_result_def)
qed

end

end
