(* ===== verification/SchedTick.thy ===== *)
theory SchedTick
  imports SchedRead
begin

text \<open>
  One iteration of the plain and of the overlapped loop: neither fails, and the state between
  iterations keeps the invariant.
\<close>

section \<open>Deferred aborts\<close>

text \<open>What applying the aborts leaves alone.\<close>

definition apply_frame :: "'c sched \<Rightarrow> 'c sched \<Rightarrow> bool" where
  "apply_frame s s' \<longleftrightarrow> s_engine s' = s_engine s \<and> s_graph s' = s_graph s \<and> s_finished s' = s_finished s \<and>
     s_inflight s' = s_inflight s \<and> s_eos s' = s_eos s \<and> s_prefill_budget s' = s_prefill_budget s \<and>
     s_max_seq_len s' = s_max_seq_len s \<and> s_sent s' = s_sent s \<and> s_pending s' = s_pending s \<and> s_running s' = s_running s \<and>
     s_deferred s' = s_deferred s"

lemma apply_frame_refl [simp]: "apply_frame s s"
  by (simp add: apply_frame_def)

lemma apply_frame_trans: "apply_frame s t \<Longrightarrow> apply_frame t u \<Longrightarrow> apply_frame s u"
  by (simp add: apply_frame_def)

text \<open>The data of the last step: the batch whose results are still to be read.\<close>

definition last_batches :: "forward_data option \<Rightarrow> rid list list" where
  "last_batches ld = (case ld of None \<Rightarrow> [] | Some (fi, _) \<Rightarrow> [b_reqs (fi_batch fi)])"

definition last_ok :: "forward_data option \<Rightarrow> rid list \<Rightarrow> rid list \<Rightarrow> bool" where
  "last_ok ld A F \<longleftrightarrow> (case ld of None \<Rightarrow> True | Some (fi, toks) \<Rightarrow>
     length toks = length (b_reqs (fi_batch fi)) \<and> (is_prefill (fi_batch fi) \<longrightarrow> set (b_reqs (fi_batch fi)) \<inter> set F = {}) \<and>
     set (b_reqs (fi_batch fi)) \<subseteq> set F \<union> set A)"

text \<open>The uids of the requests in flight that had finished before.\<close>

definition done_uids :: "forward_data option \<Rightarrow> 'c sched \<Rightarrow> int list" where
  "done_uids ld s = map (\<lambda>r. r_uid (s_heap s ! r)) (filter (\<lambda>r. r \<in> set (s_finished s)) (concat (last_batches ld)))"

context prefix_cache
begin

lemma apply_all:
  assumes "held n w (mset (map ((!) (s_heap s)) A)) (s_cm s) (s_tm s)" and "distinct A" and "distinct Bs"
    and "set freed \<inter> set Bs = {}"
    and "\<And>r. r \<in> set Bs \<Longrightarrow> r_uid (s_heap s ! r) \<in> set (s_deferred s) \<Longrightarrow>
      r \<in> set A \<and> r_cached_len (s_heap s ! r) \<le> length (r_input_ids (s_heap s ! r))"
  shows "\<exists>freed' s'. res_fold (apply_one cls) Bs (freed, s) = Inr (freed', s') \<and> apply_frame s s' \<and>
    held n w (mset (map ((!) (s_heap s)) (filter (\<lambda>r. \<not> (r \<in> set Bs \<and> r_uid (s_heap s ! r) \<in> set (s_deferred s))) A))) (s_cm s') (s_tm s') \<and>
    (cm_lazy (s_cm s') = None \<longleftrightarrow> cm_lazy (s_cm s) = None) \<and>
    spare (mset (map ((!) (s_heap s)) A)) (s_cm s) \<le>
      spare (mset (map ((!) (s_heap s)) (filter (\<lambda>r. \<not> (r \<in> set Bs \<and> r_uid (s_heap s ! r) \<in> set (s_deferred s))) A))) (s_cm s')"
  using assms
proof (induction Bs arbitrary: A freed s)
  case (Cons r Bs)
  let ?D = "set (s_deferred s)" and ?u = "\<lambda>r. r_uid (s_heap s ! r)"
  show ?case
  proof (cases "?u r \<in> ?D")
    case False
    have e: "filter (\<lambda>x. \<not> (x \<in> set (r # Bs) \<and> ?u x \<in> ?D)) A = filter (\<lambda>x. \<not> (x \<in> set Bs \<and> ?u x \<in> ?D)) A"
      using False by (intro filter_cong) auto
    have "apply_one cls r (freed, s) = Inr (freed, s)" using False by (simp add: apply_one_def)
    moreover note Cons.IH [OF Cons.prems(1,2), of freed]
    ultimately show ?thesis using Cons.prems(3-5) unfolding e by simp
  next
    case True
    have r: "r \<in> set A" "r_cached_len (s_heap s ! r) \<le> length (r_input_ids (s_heap s ! r))" using Cons.prems(5) [of r] True by auto
    obtain cm tm where c: "free_req_resources cls r s = Inr (s\<lparr>s_tm := tm, s_cm := cm\<rparr>)"
      "held n w (mset (map ((!) (s_heap s)) (remove1 r A))) cm tm" "cm_lazy cm = None \<longleftrightarrow> cm_lazy (s_cm s) = None"
      "spare (mset (map ((!) (s_heap s)) A)) (s_cm s) \<le> spare (mset (map ((!) (s_heap s)) (remove1 r A))) cm"
      by (rule free_live [OF Cons.prems(1) r]) (rule that)
    obtain s1 where s1: "s1 = s\<lparr>s_tm := tm, s_cm := cm, s_acks := s_acks s @ [?u r]\<rparr>" by blast
    have f: "s_heap s1 = s_heap s" "s_deferred s1 = s_deferred s" "s_cm s1 = cm" "s_tm s1 = tm" "apply_frame s s1"
      by (simp_all add: s1 apply_frame_def)
    have "r \<notin> set freed" using Cons.prems(4) by simp
    then have step: "apply_one cls r (freed, s) = Inr (r # freed, s1)" using True c(1) by (simp add: apply_one_def s1)
    let ?A = "remove1 r A"
    have e: "filter (\<lambda>x. \<not> (x \<in> set (r # Bs) \<and> ?u x \<in> ?D)) A = filter (\<lambda>x. \<not> (x \<in> set Bs \<and> ?u x \<in> ?D)) ?A"
      using Cons.prems(2) True by (auto simp: distinct_remove1_removeAll removeAll_filter_not_eq intro: filter_cong)
    have "\<exists>freed' s'. res_fold (apply_one cls) Bs (r # freed, s1) = Inr (freed', s') \<and> apply_frame s1 s' \<and>
      held n w (mset (map ((!) (s_heap s1)) (filter (\<lambda>r. \<not> (r \<in> set Bs \<and> r_uid (s_heap s1 ! r) \<in> set (s_deferred s1))) ?A))) (s_cm s') (s_tm s') \<and>
      (cm_lazy (s_cm s') = None \<longleftrightarrow> cm_lazy (s_cm s1) = None) \<and>
      spare (mset (map ((!) (s_heap s1)) ?A)) (s_cm s1) \<le>
        spare (mset (map ((!) (s_heap s1)) (filter (\<lambda>r. \<not> (r \<in> set Bs \<and> r_uid (s_heap s1 ! r) \<in> set (s_deferred s1))) ?A))) (s_cm s')"
    proof (rule Cons.IH)
      show "held n w (mset (map ((!) (s_heap s1)) ?A)) (s_cm s1) (s_tm s1)" unfolding f by (rule c(2))
      show "x \<in> set ?A \<and> r_cached_len (s_heap s1 ! x) \<le> length (r_input_ids (s_heap s1 ! x))"
        if "x \<in> set Bs" "r_uid (s_heap s1 ! x) \<in> set (s_deferred s1)" for x
      proof -
        have "x \<noteq> r" using that(1) Cons.prems(3) by auto
        then show ?thesis using Cons.prems(5) [of x] that by (simp add: f in_set_remove1)
      qed
    qed (use Cons.prems(2-4) in auto)
    then obtain freed' s' where E: "res_fold (apply_one cls) Bs (r # freed, s1) = Inr (freed', s') \<and> apply_frame s1 s' \<and>
      held n w (mset (map ((!) (s_heap s)) (filter (\<lambda>r. \<not> (r \<in> set Bs \<and> ?u r \<in> ?D)) ?A))) (s_cm s') (s_tm s') \<and>
      (cm_lazy (s_cm s') = None \<longleftrightarrow> cm_lazy cm = None) \<and>
      spare (mset (map ((!) (s_heap s)) ?A)) cm \<le> spare (mset (map ((!) (s_heap s)) (filter (\<lambda>r. \<not> (r \<in> set Bs \<and> ?u r \<in> ?D)) ?A))) (s_cm s')"
      unfolding f by (elim exE)
    note s' = E [THEN conjunct1] E [THEN conjunct2, THEN conjunct1] E [THEN conjunct2, THEN conjunct2, THEN conjunct1]
      E [THEN conjunct2, THEN conjunct2, THEN conjunct2, THEN conjunct1] E [THEN conjunct2, THEN conjunct2, THEN conjunct2, THEN conjunct2]
    have "res_fold (apply_one cls) (r # Bs) (freed, s) = Inr (freed', s')" using step s'(1) by simp
    moreover have "apply_frame s s'" using f(5) s'(2) by (rule apply_frame_trans)
    moreover have "cm_lazy (s_cm s') = None \<longleftrightarrow> cm_lazy (s_cm s) = None" using s'(4) c(3) by (rule trans)
    ultimately show ?thesis unfolding e by (intro exI [of _ freed'] exI [of _ s'] conjI s'(3) order_trans [OF c(4) s'(5)])
  qed
qed simp

lemma apply_deferred_ok:
  assumes I: "sinv n w F L D A s" and lazy: "cm_lazy (s_cm s) = None" and B: "distinct (b_reqs (fi_batch fi))"
    and def: "set (s_deferred s) = (\<lambda>r. r_uid (s_heap s ! r)) ` set D" "set D \<subseteq> set (b_reqs (fi_batch fi))"
    and own: "\<And>r. r \<in> set (b_reqs (fi_batch fi)) \<Longrightarrow> r_uid (s_heap s ! r) \<in> set (s_deferred s) \<Longrightarrow> r \<in> set D"
    and L: "\<forall>B\<in>set L. set B \<inter> set D = {}"
  obtains s' where "apply_deferred_aborts cls (Some (fi, toks)) s = Inr s'" and "sinv n w F L [] (filter (\<lambda>r. r \<notin> set D) A) s'"
    and "cm_lazy (s_cm s') = None" and "s_deferred s' = []" and "s_heap s' = s_heap s" and "s_finished s' = s_finished s"
    and "s_pending s' = s_pending s"
proof (cases "s_deferred s = []")
  case True
  then have "D = []" using def(1) by simp
  moreover have "apply_deferred_aborts cls (Some (fi, toks)) s = Inr s" using True by (simp add: apply_deferred_aborts_def)
  ultimately show ?thesis using that [of s] I lazy True by simp
next
  case False
  let ?B = "b_reqs (fi_batch fi)" and ?A = "filter (\<lambda>r. r \<notin> set D) A"
  note S = sinvD [OF I]
  note Q = queues_okD [OF S(2)]
  have DA: "set D \<subseteq> set A" using Q(2) by (simp add: members_ok_def)
  have e: "filter (\<lambda>r. \<not> (r \<in> set ?B \<and> r_uid (s_heap s ! r) \<in> set (s_deferred s))) A = ?A"
    using def own by (intro filter_cong refl) auto
  have "r \<in> set A \<and> r_cached_len (s_heap s ! r) \<le> length (r_input_ids (s_heap s ! r))"
    if "r \<in> set ?B" "r_uid (s_heap s ! r) \<in> set (s_deferred s)" for r
  proof -
    have "r \<in> set D" using own that by blast
    then show ?thesis using DA Q(5) by (auto simp: reads_ok_def read_ok_def)
  qed
  then obtain freed s1 where E: "res_fold (apply_one cls) ?B ([], s) = Inr (freed, s1) \<and> apply_frame s s1 \<and>
      held n w (mset (map ((!) (s_heap s)) ?A)) (s_cm s1) (s_tm s1) \<and> (cm_lazy (s_cm s1) = None \<longleftrightarrow> cm_lazy (s_cm s) = None) \<and>
      spare (mset (map ((!) (s_heap s)) A)) (s_cm s) \<le> spare (mset (map ((!) (s_heap s)) ?A)) (s_cm s1)"
    using apply_all [OF S(1) live_facts(1) [OF I] B, of "[]"] unfolding e by auto
  let ?s' = "s1\<lparr>s_deferred := []\<rparr>"
  have f: "s_heap ?s' = s_heap s" "s_finished ?s' = s_finished s" "s_pending ?s' = s_pending s" "s_running ?s' = s_running s"
    "s_max_seq_len ?s' = s_max_seq_len s" "s_graph ?s' = s_graph s" "s_engine ?s' = s_engine s"
    using E by (simp_all add: apply_frame_def)
  have "demand ?s' = demand s" unfolding demand_def f ..
  moreover have "env_ok n w L ?A ?s'" using S(4) unfolding env_ok_def f by auto
  ultimately have "sinv n w F L [] ?A ?s'"
    using E S(3) queues_undefer [OF S(2) L] unfolding sinv_def f by simp
  moreover have "apply_deferred_aborts cls (Some (fi, toks)) s = Inr ?s'"
    using False E by (simp add: apply_deferred_aborts_def)
  ultimately show ?thesis using E lazy f(1-3) by (intro that [of ?s']) simp_all
qed

section \<open>The state between two iterations\<close>

definition rest :: "nat \<Rightarrow> nat \<Rightarrow> int list \<Rightarrow> forward_data option \<Rightarrow> rid list \<Rightarrow> 'c sched \<Rightarrow> bool" where
  "rest n w used ld A s \<longleftrightarrow> sinv n w (s_finished s) (last_batches ld) [] A s \<and> cm_lazy (s_cm s) = None \<and>
     s_inflight s = [] \<and> s_deferred s = [] \<and> last_ok ld A (s_finished s) \<and>
     p_uid ` set (s_pending s) \<union> (\<lambda>r. r_uid (s_heap s ! r)) ` set A \<subseteq> set used"

lemma rest_flush: "rest n w used ld A s \<Longrightarrow> rest n w used ld A (flush_pending_acks s)"
  by (simp add: rest_def flush_pending_acks_def send_result_def sinv_def env_ok_def demand_def)

text \<open>With nothing to run and nothing unread, the idle check passes.\<close>

lemma idle_ok:
  assumes I: "sinv n w F [] [] A s" and "\<not> prefill_runnable (s_pending s)" and "\<not> decode_runnable (s_running s)"
    and lazy: "cm_lazy (s_cm s) = None"
  shows "A = []" and "run_when_idle cls s = Inr ()"
proof -
  note S = sinvD [OF I]
  have "s_pending s = []" "s_running s = []" using assms(2,3) by (simp_all add: prefill_runnable_def decode_runnable_def)
  then show A: "A = []" using queues_rest [OF S(2)] by simp
  then have "ok {#} {#} (s_cm s)" using S(1) by (simp add: held_def)
  then show "run_when_idle cls s = Inr ()" unfolding run_when_idle_def using lazy by (subst check_integrity_iff) auto
qed

text \<open>Receiving, with the batch of the last step in flight.\<close>

lemma last_ok_live: "last_ok ld A F \<Longrightarrow> \<forall>r\<in>set (concat (last_batches ld)). r \<in> set F \<or> r \<in> set A"
  by (auto simp: last_ok_def last_batches_def split: option.splits)

lemma receive_ok:
  assumes R: "rest n w used ld A s" and ms: "valid_msgs used (done_uids ld s) ms"
    and inflight: "set u = (\<lambda>r. r_uid (s_heap s ! r)) ` set (concat (last_batches ld))"
  obtains s' D A' where "process_msgs cls ms (s\<lparr>s_inflight := u\<rparr>) = Inr s'"
    and "recv_inv n w (set (used @ submitted (flat_msgs ms))) (s_finished s) (last_batches ld) D A' s'"
    and "msg_frame (s\<lparr>s_inflight := u\<rparr>) s'"
proof -
  let ?s = "s\<lparr>s_inflight := u\<rparr>"
  have "sinv n w (s_finished s) (last_batches ld) [] A ?s" using R by (simp add: rest_def sinv_def env_ok_def demand_def)
  moreover have "length (last_batches ld) \<le> 1" by (simp add: last_batches_def split: option.split prod.split)
  ultimately have "recv_inv n w (set used) (s_finished s) (last_batches ld) [] A ?s"
    using R inflight last_ok_live [of ld A "s_finished s"] by (simp add: recv_inv_def rest_def)
  then show ?thesis
    by (rule recv_all [OF _ _ subset_refl]) (use ms that in \<open>auto simp: done_uids_def\<close>)
qed

section \<open>The overlapped loop\<close>

text \<open>After the batch was run: the results of the last step are read, then its aborts applied.\<close>

lemma finish_tick:
  assumes I: "sinv n w (s_finished s) (last_batches ld @ last_batches ld') D A s" and lazy: "cm_lazy (s_cm s) = None"
    and len: "\<And>fi toks. ld = Some (fi, toks) \<Longrightarrow> length toks = length (b_reqs (fi_batch fi)) \<and>
      (is_prefill (fi_batch fi) \<longrightarrow> set (b_reqs (fi_batch fi)) \<inter> set (s_finished s) = {})"
    and def: "set (s_deferred s) = (\<lambda>r. r_uid (s_heap s ! r)) ` set D" "set D \<subseteq> set (concat (last_batches ld))"
    and own: "\<And>r. r \<in> set (concat (last_batches ld)) \<Longrightarrow> r_uid (s_heap s ! r) \<in> set (s_deferred s) \<Longrightarrow> r \<in> set D"
    and new: "\<forall>B\<in>set (last_batches ld'). set B \<inter> set D = {} \<and> set B \<inter> set (s_finished s) = {}"
  obtains s1 s2 A' where "process_last_data cls ld s = Inr s1" and "apply_deferred_aborts cls ld s1 = Inr s2"
    and "sinv n w (s_finished s2) (last_batches ld') [] A' s2" and "cm_lazy (s_cm s2) = None" and "s_deferred s2 = []"
    and "same_objs (s_heap s) (s_heap s2)" and "s_pending s2 = s_pending s" and "set A' \<subseteq> set A"
    and "\<forall>r\<in>set A. r \<in> set A' \<or> r \<in> set (s_finished s2) \<or> r \<in> set D"
    and "set (s_finished s2) \<subseteq> set (s_finished s) \<union> set (concat (last_batches ld))"
proof (cases ld)
  case None
  have "D = []" using def(2) None by (simp add: last_batches_def)
  let ?s2 = "s\<lparr>s_deferred := []\<rparr>"
  have "sinv n w (s_finished ?s2) (last_batches ld') [] A ?s2"
    using I None \<open>D = []\<close> by (simp add: last_batches_def sinv_def env_ok_def demand_def)
  then show ?thesis
    using that [of s ?s2 A] None lazy by (simp add: process_last_data_def apply_deferred_aborts_def)
next
  case (Some ft)
  obtain fi toks where ft: "ft = (fi, toks)" by (cases ft)
  let ?B = "b_reqs (fi_batch fi)"
  have lb: "last_batches ld = [?B]" using Some ft by (simp add: last_batches_def)
  have l1: "length (last_batches ld') \<le> 1" by (simp add: last_batches_def split: option.split prod.split)
  have I': "sinv n w (s_finished s) (?B # last_batches ld') D A s" using I lb by simp
  have l2: "length toks = length ?B" "is_prefill (fi_batch fi) \<longrightarrow> set ?B \<inter> set (s_finished s) = {}" using len Some ft by auto
  have l3: "\<forall>B\<in>set (last_batches ld'). set B \<inter> set (s_finished s) = {}" using new by blast
  obtain s1 A1 where P: "process_last_data cls (Some (fi, toks)) s = Inr s1" "sinv n w (s_finished s1) (last_batches ld') D A1 s1"
    "cm_lazy (s_cm s1) = None" "set A1 \<union> set (s_finished s1) = set A" "set (s_finished s1) \<subseteq> set ?B"
    "same_objs (s_heap s) (s_heap s1)" "s_pending s1 = s_pending s" "s_deferred s1 = s_deferred s"
    by (rule process_last_data_ok [OF I' lazy l1 def(1) l2 l3]) (rule that)
  have bound: "r < length (s_heap s)" if "r \<in> set ?B" for r using live_facts(3) [OF I' _ that] by simp
  have uid: "r_uid (s_heap s1 ! r) = r_uid (s_heap s ! r)" if "r \<in> set ?B" for r
    using P(6) bound [OF that] by (simp add: same_objs_def same_req_def)
  have D: "set D \<subseteq> set ?B" using def(2) lb by simp
  have dB: "distinct ?B" using live_facts(4) [OF I'] by simp
  have d1: "set (s_deferred s1) = (\<lambda>r. r_uid (s_heap s1 ! r)) ` set D"
    unfolding P(8) def(1) using uid D by (intro image_cong) auto
  have o1: "r \<in> set D" if "r \<in> set ?B" "r_uid (s_heap s1 ! r) \<in> set (s_deferred s1)" for r
    using own [of r] that uid [OF that(1)] lb P(8) by simp
  have n1: "\<forall>B\<in>set (last_batches ld'). set B \<inter> set D = {}" using new by blast
  obtain s2 where Q: "apply_deferred_aborts cls (Some (fi, toks)) s1 = Inr s2"
    "sinv n w (s_finished s1) (last_batches ld') [] (filter (\<lambda>r. r \<notin> set D) A1) s2" "cm_lazy (s_cm s2) = None"
    "s_deferred s2 = []" "s_heap s2 = s_heap s1" "s_finished s2 = s_finished s1" "s_pending s2 = s_pending s1"
    by (rule apply_deferred_ok [OF P(2,3) dB d1 D _ n1]) (erule o1, assumption, rule that)
  have p: "process_last_data cls ld s = Inr s1" "apply_deferred_aborts cls ld s1 = Inr s2" using P(1) Q(1) Some ft by simp_all
  show ?thesis
    by (rule that [OF p Q(2) [folded Q(6)] Q(3,4)]) (use P(4-7) Q(5-7) lb in auto)
qed

lemma recv_deferred:
  assumes "recv_inv n w U F L D A s" and "r \<in> set (concat L)" and "r_uid (s_heap s ! r) \<in> (\<lambda>r. r_uid (s_heap s ! r)) ` set D"
  shows "r \<in> set D"
proof -
  note R = recv_invD [OF assms(1)]
  note Q = queues_okD [OF sinvD(2) [OF R(1)]]
  obtain d where d: "d \<in> set D" "r_uid (s_heap s ! r) = r_uid (s_heap s ! d)" using assms(3) by blast
  have "r \<notin> set F" using R(10) assms(2,3) by blast
  then have "r \<in> set A" using R(7) assms(2) by blast
  moreover have "d \<in> set A" using Q(2) d(1) by (auto simp: members_ok_def)
  ultimately have "r = d" using owner_by_uid [OF Q(1) _ _ d(2)] by simp
  then show ?thesis using d(1) by simp
qed

text \<open>The batch that is run after receiving.\<close>

lemma run_after_receive:
  assumes M: "recv_inv n w U F (last_batches ld) D A s" and d: "good_device d"
  obtains ld' s' A' where "run_batch cls d s = Inr (ld', s')" and "sinv n w F (last_batches ld @ last_batches ld') D A' s'"
    and "cm_lazy (s_cm s') = None" and "sched_frame s s'" and "set (concat (last_batches ld')) \<subseteq> set A'"
    and "set (s_deferred s') = (\<lambda>r. r_uid (s_heap s' ! r)) ` set D"
    and "\<And>r. r \<in> set (concat (last_batches ld)) \<Longrightarrow> r_uid (s_heap s' ! r) \<in> set (s_deferred s') \<Longrightarrow> r \<in> set D"
    and "\<forall>B\<in>set (last_batches ld'). set B \<inter> set D = {} \<and> set B \<inter> set F = {}"
    and "p_uid ` set (s_pending s') \<union> (\<lambda>r. r_uid (s_heap s' ! r)) ` set A' \<subseteq> U"
    and "\<And>fi toks. ld' = Some (fi, toks) \<Longrightarrow> length toks = length (b_reqs (fi_batch fi)) \<and>
      (is_prefill (fi_batch fi) \<longrightarrow> set (b_reqs (fi_batch fi)) \<inter> set (concat (last_batches ld)) = {})"
proof -
  note V = recv_invD [OF M]
  have bound: "r < length (s_heap s)" if "r \<in> set (concat (last_batches ld))" for r
    using live_facts(3) [OF V(1)] that by auto
  have UP: "p_uid ` set (s_pending s) \<union> (\<lambda>r. r_uid (s_heap s ! r)) ` set A \<subseteq> U" using V(8,9) by blast
  have keep: "set (s_deferred s') = (\<lambda>r. r_uid (s_heap s' ! r)) ` set D \<and>
      (\<forall>r\<in>set (concat (last_batches ld)). r_uid (s_heap s' ! r) \<in> set (s_deferred s') \<longrightarrow> r \<in> set D)"
    if same: "\<And>r. r < length (s_heap s) \<Longrightarrow> r_uid (s_heap s' ! r) = r_uid (s_heap s ! r)" and fr: "sched_frame s s'" for s'
  proof -
    have df: "s_deferred s' = s_deferred s" using fr by (simp add: sched_frame_def)
    have "set (s_deferred s') = (\<lambda>r. r_uid (s_heap s' ! r)) ` set D"
      unfolding df V(5) using V(6) bound same by (intro image_cong refl) (metis subsetD)
    moreover have "r \<in> set D"
      if r: "r \<in> set (concat (last_batches ld))" "r_uid (s_heap s' ! r) \<in> set (s_deferred s')" for r
    proof (rule recv_deferred [OF M r(1)])
      show "r_uid (s_heap s ! r) \<in> (\<lambda>r. r_uid (s_heap s ! r)) ` set D" using r(2) same [OF bound [OF r(1)]] df V(5) by simp
    qed
    ultimately show ?thesis by blast
  qed
  show ?thesis
    using V(1,2) d
  proof (cases rule: run_batch_ok)
    case (idle s')
    note K = keep [OF _ idle(4)]
    have l: "last_batches None = []" by (simp add: last_batches_def)
    show ?thesis
      by (rule that [OF idle(1) _ idle(3,4)]) (use K idle UP in \<open>auto simp: l\<close>)
  next
    case (batch fi toks s' A')
    have br: "batch_run s F D A A' (fi_batch fi) s'" by (rule batch(7))
    have K: "set (s_deferred s') = (\<lambda>r. r_uid (s_heap s' ! r)) ` set D"
      "\<forall>r\<in>set (concat (last_batches ld)). r_uid (s_heap s' ! r) \<in> set (s_deferred s') \<longrightarrow> r \<in> set D"
      using keep [OF _ batch(5)] batch_runD(5) [OF br] by blast+
    have l: "last_batches (Some (fi, toks)) = [b_reqs (fi_batch fi)]" by (simp add: last_batches_def)
    have u: "p_uid ` set (s_pending s') \<union> (\<lambda>r. r_uid (s_heap s' ! r)) ` set A' \<subseteq> U"
      by (rule order_trans [OF batch_runD(6) [OF br] UP])
    have p: "is_prefill (fi_batch fi) \<longrightarrow> set (b_reqs (fi_batch fi)) \<inter> set (concat (last_batches ld)) = {}"
      using batch_runD(1) [OF br] bound by (meson disjoint_iff leD)
    have a: "set (concat (last_batches (Some (fi, toks)))) \<subseteq> set A'" using batch_runD(2) [OF br] by (simp add: l)
    have b: "\<forall>B\<in>set (last_batches (Some (fi, toks))). set B \<inter> set D = {} \<and> set B \<inter> set F = {}"
      using batch_runD(3,4) [OF br] by (simp add: l)
    show ?thesis
    proof (rule that [OF batch(1) batch(3) [folded l] batch(4,5) a K(1) _ b u])
      show "r \<in> set D" if "r \<in> set (concat (last_batches ld))" "r_uid (s_heap s' ! r) \<in> set (s_deferred s')" for r
        using K(2) that by blast
    qed (use batch(2) p in simp)
  qed
qed

theorem overlap_tick:
  assumes R: "rest n w used ld A s" and d: "good_device d" and ms: "valid_msgs used (done_uids ld s) ms"
  obtains ld' s' A' where "overlap_loop cls d ms ld s = Inr (ld', s')"
    and "rest n w (used @ submitted (flat_msgs ms)) ld' A' s'" and "s_acks s' = []"
proof -
  let ?used = "used @ submitted (flat_msgs ms)"
  let ?u = "case ld of None \<Rightarrow> [] | Some (fi, _) \<Rightarrow> map (\<lambda>r. r_uid (s_heap s ! r)) (b_reqs (fi_batch fi))"
  let ?s = "s\<lparr>s_inflight := ?u\<rparr>"
  have u: "set ?u = (\<lambda>r. r_uid (s_heap s ! r)) ` set (concat (last_batches ld))"
    by (cases ld) (auto simp: last_batches_def)
  have idle: "(if overlap_blocking ld ?s then run_when_idle cls ?s else Inr ()) = Inr ()"
  proof (cases "overlap_blocking ld ?s")
    case True
    then have b: "ld = None" "\<not> prefill_runnable (s_pending s)" "\<not> decode_runnable (s_running s)"
      by (cases ld; simp add: overlap_blocking_def)+
    have "sinv n w (s_finished s) [] [] A s" "cm_lazy (s_cm s) = None" using R b(1) by (simp_all add: rest_def last_batches_def)
    from idle_ok(2) [OF this(1) b(2,3) this(2)] show ?thesis by (simp add: run_when_idle_def)
  qed simp
  obtain s1 D A1 where M: "process_msgs cls ms ?s = Inr s1" "recv_inv n w (set ?used) (s_finished s) (last_batches ld) D A1 s1"
    "msg_frame ?s s1"
    by (rule receive_ok [OF R ms u]) (rule that)
  note V = recv_invD [OF M(2)]
  have fin: "s_finished s1 = s_finished s" using M(3) by (simp add: msg_frame_def)
  have lok: "last_ok ld A (s_finished s)" using R by (simp add: rest_def)
  have len1: "length toks = length (b_reqs (fi_batch fi)) \<and>
      (is_prefill (fi_batch fi) \<longrightarrow> set (b_reqs (fi_batch fi)) \<inter> set (s_finished s) = {})" if "ld = Some (fi, toks)" for fi toks
    using lok that by (simp add: last_ok_def)
  obtain ld' s2 A2 where B: "run_batch cls d s1 = Inr (ld', s2)" "sinv n w (s_finished s) (last_batches ld @ last_batches ld') D A2 s2"
    "cm_lazy (s_cm s2) = None" "sched_frame s1 s2" "set (concat (last_batches ld')) \<subseteq> set A2"
    "set (s_deferred s2) = (\<lambda>r. r_uid (s_heap s2 ! r)) ` set D"
    and own: "\<And>r. r \<in> set (concat (last_batches ld)) \<Longrightarrow> r_uid (s_heap s2 ! r) \<in> set (s_deferred s2) \<Longrightarrow> r \<in> set D"
    and new: "\<forall>B\<in>set (last_batches ld'). set B \<inter> set D = {} \<and> set B \<inter> set (s_finished s) = {}"
    and uids: "p_uid ` set (s_pending s2) \<union> (\<lambda>r. r_uid (s_heap s2 ! r)) ` set A2 \<subseteq> set ?used"
    and len: "\<And>fi toks. ld' = Some (fi, toks) \<Longrightarrow> length toks = length (b_reqs (fi_batch fi)) \<and>
      (is_prefill (fi_batch fi) \<longrightarrow> set (b_reqs (fi_batch fi)) \<inter> set (concat (last_batches ld)) = {})"
    by (rule run_after_receive [OF M(2) d]) (rule that)
  have fin2: "s_finished s2 = s_finished s" using B(4) fin by (simp add: sched_frame_def)
  obtain s3 s4 A4 where T: "process_last_data cls ld s2 = Inr s3" "apply_deferred_aborts cls ld s3 = Inr s4"
    "sinv n w (s_finished s4) (last_batches ld') [] A4 s4" "cm_lazy (s_cm s4) = None" "s_deferred s4 = []"
    "same_objs (s_heap s2) (s_heap s4)" "s_pending s4 = s_pending s2" "set A4 \<subseteq> set A2"
    "\<forall>r\<in>set A2. r \<in> set A4 \<or> r \<in> set (s_finished s4) \<or> r \<in> set D"
    "set (s_finished s4) \<subseteq> set (s_finished s2) \<union> set (concat (last_batches ld))"
    by (rule finish_tick [of n w s2 ld ld' D A2, unfolded fin2, OF B(2,3) _ B(6) V(6) _ new])
      (erule len1, erule own, assumption, rule that, simp_all add: fin2)
  let ?s' = "(flush_pending_acks s4)\<lparr>s_inflight := []\<rparr>"
  have "overlap_loop cls d ms ld s = Inr (ld', ?s')"
    using idle M(1) B(1) T(1,2) by (simp add: overlap_loop_def Let_def)
  moreover have "rest n w ?used ld' A4 ?s'"
  proof -
    have "last_ok ld' A4 (s_finished s4)"
    proof (cases ld')
      case (Some ft)
      obtain fi toks where ft: "ft = (fi, toks)" by (cases ft)
      have lb: "last_batches ld' = [b_reqs (fi_batch fi)]" using Some ft by (simp add: last_batches_def)
      have "set (b_reqs (fi_batch fi)) \<subseteq> set (s_finished s4) \<union> set A4" using B(5) new T(9) lb by auto
      moreover have "is_prefill (fi_batch fi) \<longrightarrow> set (b_reqs (fi_batch fi)) \<inter> set (s_finished s4) = {}"
      proof -
        have "is_prefill (fi_batch fi) \<longrightarrow> set (b_reqs (fi_batch fi)) \<inter> set (concat (last_batches ld)) = {}"
          using len [of fi toks] Some ft by blast
        moreover have "set (b_reqs (fi_batch fi)) \<inter> set (s_finished s) = {}" using new lb by simp
        ultimately show ?thesis using T(10) unfolding fin2 by blast
      qed
      ultimately show ?thesis using len [of fi toks] Some ft by (simp add: last_ok_def)
    qed (simp add: last_ok_def)
    moreover have "p_uid ` set (s_pending s4) \<union> (\<lambda>r. r_uid (s_heap s4 ! r)) ` set A4 \<subseteq> set ?used"
    proof -
      have "r_uid (s_heap s4 ! r) = r_uid (s_heap s2 ! r)" if "r \<in> set A4" for r
        using T(6,8) live_facts(2) [OF B(2), of r] that by (auto simp: same_objs_def same_req_def)
      then have "(\<lambda>r. r_uid (s_heap s4 ! r)) ` set A4 = (\<lambda>r. r_uid (s_heap s2 ! r)) ` set A4" by (rule image_cong [OF refl])
      also have "\<dots> \<subseteq> (\<lambda>r. r_uid (s_heap s2 ! r)) ` set A2" by (rule image_mono [OF T(8)])
      finally show ?thesis using uids unfolding T(7) by blast
    qed
    ultimately show ?thesis
      using T(3-5) by (simp add: rest_def flush_pending_acks_def send_result_def sinv_def env_ok_def demand_def)
  qed
  moreover have "s_acks ?s' = []" by (simp add: flush_pending_acks_def send_result_def)
  ultimately show ?thesis by (rule that)
qed

section \<open>The plain loop\<close>

lemma flush_acks [simp]: "s_acks (flush_pending_acks s) = []"
  by (simp add: flush_pending_acks_def send_result_def)

theorem normal_tick:
  assumes R: "rest n w used None A s" and d: "good_device d" and ms: "valid_msgs used [] ms"
  obtains s' A' where "normal_loop cls d ms s = Inr s'"
    and "rest n w (used @ submitted (flat_msgs ms)) None A' s'" and "s_acks s' = []"
proof -
  let ?used = "used @ submitted (flat_msgs ms)"
  have lb: "last_batches None = []" by (simp add: last_batches_def)
  have idle: "(if normal_blocking s then run_when_idle cls s else Inr ()) = Inr ()"
  proof (cases "normal_blocking s")
    case True
    then have b: "\<not> prefill_runnable (s_pending s)" "\<not> decode_runnable (s_running s)" by (simp_all add: normal_blocking_def)
    have "sinv n w (s_finished s) [] [] A s" "cm_lazy (s_cm s) = None" using R by (simp_all add: rest_def lb)
    from idle_ok(2) [OF this(1) b this(2)] show ?thesis by simp
  qed simp
  have s0: "s\<lparr>s_inflight := []\<rparr> = s" using R by (cases s) (simp add: rest_def)
  have ms': "valid_msgs used (done_uids None s) ms" using ms by (simp add: done_uids_def lb)
  obtain s1 D A1 where M: "process_msgs cls ms s = Inr s1" "recv_inv n w (set ?used) (s_finished s) (last_batches None) D A1 s1"
    "msg_frame s s1"
    by (rule receive_ok [OF R ms', of "[]", unfolded s0]) (use lb in simp, rule that)
  note V = recv_invD [OF M(2)]
  have D: "D = []" using V(6) lb by simp
  have fin: "s_finished s1 = s_finished s" using M(3) by (simp add: msg_frame_def)
  obtain ld s2 A2 where B: "run_batch cls d s1 = Inr (ld, s2)" "sinv n w (s_finished s) (last_batches None @ last_batches ld) D A2 s2"
    "cm_lazy (s_cm s2) = None" "sched_frame s1 s2" "set (s_deferred s2) = (\<lambda>r. r_uid (s_heap s2 ! r)) ` set D"
    and new: "\<forall>B\<in>set (last_batches ld). set B \<inter> set D = {} \<and> set B \<inter> set (s_finished s) = {}"
    and uids: "p_uid ` set (s_pending s2) \<union> (\<lambda>r. r_uid (s_heap s2 ! r)) ` set A2 \<subseteq> set ?used"
    and len: "\<And>fi toks. ld = Some (fi, toks) \<Longrightarrow> length toks = length (b_reqs (fi_batch fi)) \<and>
      (is_prefill (fi_batch fi) \<longrightarrow> set (b_reqs (fi_batch fi)) \<inter> set (concat (last_batches None)) = {})"
    by (rule run_after_receive [OF M(2) d]) (rule that)
  have f2: "s_finished s2 = s_finished s" "s_inflight s2 = []"
    using B(4) fin R M(3) by (simp_all add: sched_frame_def msg_frame_def rest_def)
  have I2: "sinv n w (s_finished s2) (last_batches ld) [] A2 s2" using B(2) unfolding f2 lb D by simp
  have df: "s_deferred s2 = []" using B(5) D by simp
  have "\<exists>s3 A3. process_last_data cls ld s2 = Inr s3 \<and> rest n w ?used None A3 s3"
  proof (cases ld)
    case None
    then show ?thesis
      using I2 B(3) f2(2) df uids by (intro exI [of _ s2] exI [of _ A2]) (simp add: process_last_data_def rest_def last_ok_def lb)
  next
    case (Some ft)
    obtain fi toks where ft: "ft = (fi, toks)" by (cases ft)
    let ?B = "b_reqs (fi_batch fi)"
    have l: "last_batches ld = [?B]" using Some ft by (simp add: last_batches_def)
    have I3: "sinv n w (s_finished s2) (?B # []) [] A2 s2" using I2 l by simp
    have d0: "set (s_deferred s2) = (\<lambda>r. r_uid (s_heap s2 ! r)) ` set []" using df by simp
    have tk: "length toks = length ?B" using len Some ft by simp
    have pr: "is_prefill (fi_batch fi) \<longrightarrow> set ?B \<inter> set (s_finished s2) = {}" using new l f2 by simp
    obtain s3 A3 where P: "process_last_data cls (Some (fi, toks)) s2 = Inr s3" "sinv n w (s_finished s3) [] [] A3 s3"
      "cm_lazy (s_cm s3) = None" "set A3 \<union> set (s_finished s3) = set A2" "same_objs (s_heap s2) (s_heap s3)"
      "s_pending s3 = s_pending s2" "s_deferred s3 = s_deferred s2" "s_inflight s3 = s_inflight s2"
      by (rule process_last_data_ok [OF I3 B(3) _ d0 tk pr]) (simp, simp, rule that)
    have sub: "set A3 \<subseteq> set A2" using P(4) by blast
    have "r_uid (s_heap s3 ! r) = r_uid (s_heap s2 ! r)" if "r \<in> set A3" for r
      using P(5) live_facts(2) [OF I3, of r] sub that by (auto simp: same_objs_def same_req_def)
    then have "(\<lambda>r. r_uid (s_heap s3 ! r)) ` set A3 = (\<lambda>r. r_uid (s_heap s2 ! r)) ` set A3" by (rule image_cong [OF refl])
    also have "\<dots> \<subseteq> (\<lambda>r. r_uid (s_heap s2 ! r)) ` set A2" by (rule image_mono [OF sub])
    finally have "p_uid ` set (s_pending s3) \<union> (\<lambda>r. r_uid (s_heap s3 ! r)) ` set A3 \<subseteq> set ?used"
      using uids unfolding P(6) by blast
    then have "rest n w ?used None A3 s3" using P(2,3,7,8) f2(2) df by (simp add: rest_def lb last_ok_def)
    then show ?thesis using P(1) Some ft by auto
  qed
  then obtain s3 A3 where T: "process_last_data cls ld s2 = Inr s3" "rest n w ?used None A3 s3" by blast
  have "normal_loop cls d ms s = Inr (flush_pending_acks s3)"
    using idle M(1) B(1) T(1) by (simp add: normal_loop_def)
  then show ?thesis by (rule that [OF _ rest_flush [OF T(2)] flush_acks])
qed

end

end
