(* ===== verification/Startup.thy ===== *)
theory Startup
  imports SchedTick
begin

text \<open>
  \<^verbatim>\<open>Engine.__init__\<close> and \<^verbatim>\<open>Scheduler.__init__\<close>, as far as the later behaviour depends on them: the
  memory measurements decide the number of pages, the page table gets one extra row for the dummy
  request, and the managers share that table. The measurements before and after loading the model
  and after the initialisation are given per rank. Model, attention and MoE backends, streams and
  the process group are not state of this model. With page size 1 the state they leave satisfies
  the scheduler's invariant.
\<close>

record engine_parts =
  ep_config :: engine_config
  ep_num_pages :: int
  ep_max_seq_len :: int
  ep_page_table :: "slot list list"
  ep_graph :: graph_runner
  ep_state :: engine_state

record measurements =
  ms_before :: "int \<times> int list"
  ms_loaded :: "int \<times> int list"
  ms_after :: "int \<times> int list"

text \<open>The dummy request: its sampling parameters and its handle are \<open>None\<close> and are never read.\<close>

definition dummy_req :: "engine_config \<Rightarrow> req res" where
  "dummy_req c = new_req PlainReq [0] (ec_max_running_req c) 0 1 (-1) default_sampling_params NaiveHandle"

definition engine_init ::
  "bool \<Rightarrow> bool \<Rightarrow> platform \<Rightarrow> bool \<Rightarrow> bool \<Rightarrow> measurements \<Rightarrow> engine_config \<Rightarrow> engine_parts res" where
  "engine_init sm100 sm90 platform is_cuda cuda_initialized mem config =
     rbind (if is_cuda then py_assert (\<not> cuda_initialized) else Inr ()) (\<lambda>_.
     let config = adjust_config sm100 sm90 platform config;
         has_group = \<not> (platform = PlatformMetax \<and> ec_tp_size config = 1);
         measure = (\<lambda>(own, others). sync_get_memory has_group own others) in
     rbind (measure (ms_before mem)) (\<lambda>(_, init_free_memory).
     rbind (measure (ms_loaded mem)) (\<lambda>(_, new_free_memory).
     rbind (determine_num_pages init_free_memory new_free_memory config) (\<lambda>num_pages.
     rbind (measure (ms_after mem)) (\<lambda>_.
     rbind (dummy_req config) (\<lambda>dummy.
     Inr \<lparr>ep_config = config, ep_num_pages = num_pages, ep_max_seq_len = engine_max_seq_len config num_pages,
          ep_page_table = engine_page_table config num_pages,
          ep_graph = new_graph_runner (ec_cuda_graph_bs config) (ec_cuda_graph_max_bs config) init_free_memory 0,
          ep_state = \<lparr>es_ctx = \<lparr>ctx_page_size = ec_page_size config, ctx_batch = None\<rparr>, es_heap = [dummy]\<rparr>\<rparr>))))))"

definition scheduler_init :: "'c \<Rightarrow> int \<Rightarrow> tok \<Rightarrow> engine_parts \<Rightarrow> 'c sched" where
  "scheduler_init cache max_extend_tokens eos e =
     \<lparr>s_cm = new_cache_manager (nat (ep_num_pages e)) (ec_page_size (ep_config e)) (ep_page_table e) cache,
      s_tm = new_table_manager (ec_max_running_req (ep_config e)) (ep_page_table e),
      s_engine = ep_state e, s_graph = ep_graph e, s_pending = [], s_running = [], s_finished = [],
      s_inflight = [], s_deferred = [], s_acks = [], s_eos = eos, s_prefill_budget = max_extend_tokens,
      s_max_seq_len = ep_max_seq_len e, s_sent = []\<rparr>"

text \<open>\<^verbatim>\<open>run_forever\<close> over the messages that each iteration receives.\<close>

fun overlap_run ::
  "'c prefix_cache_class \<Rightarrow> 'l device \<Rightarrow> backend_msg list list \<Rightarrow> forward_data option \<Rightarrow> 'c sched \<Rightarrow>
   (forward_data option \<times> 'c sched) res" where
  "overlap_run cls d [] ld s = Inr (ld, s)"
| "overlap_run cls d (ms # mss) ld s = rbind (overlap_loop cls d ms ld s) (\<lambda>(ld, s). overlap_run cls d mss ld s)"

fun normal_run :: "'c prefix_cache_class \<Rightarrow> 'l device \<Rightarrow> backend_msg list list \<Rightarrow> 'c sched \<Rightarrow> 'c sched res" where
  "normal_run cls d [] s = Inr s"
| "normal_run cls d (ms # mss) s = rbind (normal_loop cls d ms s) (normal_run cls d mss)"

text \<open>The messages of a run of the overlapped loop are admissible when those of each iteration are.\<close>

fun valid_run :: "'c prefix_cache_class \<Rightarrow> 'l device \<Rightarrow> int list \<Rightarrow> backend_msg list list \<Rightarrow> forward_data option \<Rightarrow> 'c sched \<Rightarrow> bool" where
  "valid_run cls d used [] ld s \<longleftrightarrow> True"
| "valid_run cls d used (ms # mss) ld s \<longleftrightarrow> valid_msgs used (done_uids ld s) ms \<and>
     (case overlap_loop cls d ms ld s of Inl e \<Rightarrow> True
      | Inr (ld', s') \<Rightarrow> valid_run cls d (used @ submitted (flat_msgs ms)) mss ld' s')"

fun all_submitted :: "backend_msg list list \<Rightarrow> int list" where
  "all_submitted [] = []"
| "all_submitted (ms # mss) = submitted (flat_msgs ms) @ all_submitted mss"

section \<open>The initial state\<close>

lemma align_up_32_ge: "x \<le> align_up_32 x" and align_up_32_pos: "0 < x \<Longrightarrow> 0 < align_up_32 x"
proof -
  have "x + 31 = (x + 31) div 32 * 32 + (x + 31) mod 32" by simp
  moreover have "(x + 31) mod 32 < 32" by simp
  ultimately show "x \<le> align_up_32 x" unfolding align_up_32_def by linarith
  then show "0 < x \<Longrightarrow> 0 < align_up_32 x" by linarith
qed

lemma engine_init_parts:
  assumes "engine_init sm100 sm90 platform is_cuda initialized mem config = Inr e"
  shows "ep_config e = adjust_config sm100 sm90 platform config" "1 < ep_num_pages e"
    "ep_max_seq_len e = engine_max_seq_len (ep_config e) (ep_num_pages e)"
    "ep_page_table e = engine_page_table (ep_config e) (ep_num_pages e)"
    "graph_ok (ep_graph e)" "g_dummy (ep_graph e) = 0" "ctx_batch (es_ctx (ep_state e)) = None"
    "\<exists>q. es_heap (ep_state e) = [q] \<and> r_table_idx q = ec_max_running_req (ep_config e) \<and> r_cached_len q = 0 \<and> r_device_len q = 1"
proof -
  let ?c = "adjust_config sm100 sm90 platform config"
  obtain i l p q where e: "e = \<lparr>ep_config = ?c, ep_num_pages = p, ep_max_seq_len = engine_max_seq_len ?c p,
      ep_page_table = engine_page_table ?c p,
      ep_graph = new_graph_runner (ec_cuda_graph_bs ?c) (ec_cuda_graph_max_bs ?c) i 0,
      ep_state = \<lparr>es_ctx = \<lparr>ctx_page_size = ec_page_size ?c, ctx_batch = None\<rparr>, es_heap = [q]\<rparr>\<rparr>"
    and p: "determine_num_pages i l ?c = Inr p" and q: "dummy_req ?c = Inr q"
    using assms by (auto simp: engine_init_def rbind_eq_Inr Let_def)
  have g: "g_dummy (new_graph_runner a b c d) = d" for a b c d by (simp add: new_graph_runner_def Let_def)
  show "ep_config e = ?c" "ep_max_seq_len e = engine_max_seq_len (ep_config e) (ep_num_pages e)"
    "ep_page_table e = engine_page_table (ep_config e) (ep_num_pages e)" "g_dummy (ep_graph e) = 0"
    "ctx_batch (es_ctx (ep_state e)) = None" by (simp_all add: e g)
  show "1 < ep_num_pages e" using p by (auto simp: e determine_num_pages_def rbind_eq_Inr)
  show "graph_ok (ep_graph e)" unfolding e graph_ok_def by (auto simp: g)
  show "\<exists>q. es_heap (ep_state e) = [q] \<and> r_table_idx q = ec_max_running_req (ep_config e) \<and> r_cached_len q = 0 \<and> r_device_len q = 1"
    using q by (auto simp: e dummy_req_def new_req_def rbind_eq_Inr Let_def)
qed

context prefix_cache
begin

theorem init_rest:
  assumes e: "engine_init sm100 sm90 platform is_cuda initialized mem config = Inr e"
    and ps: "ec_page_size (ep_config e) = 1" and len: "0 < ep_max_seq_len e"
    and c: "inv 1 c {#}" "pages 1 c = {#}"
  shows "rest (ec_max_running_req (ep_config e)) (nat (align_up_32 (ep_max_seq_len e))) [] None []
    (scheduler_init c budget eos e)"
proof -
  note E = engine_init_parts [OF e]
  let ?n = "ec_max_running_req (ep_config e)" and ?w = "nat (align_up_32 (ep_max_seq_len e))" and ?s = "scheduler_init c budget eos e"
  have d: "dims (Suc ?n) ?w (ep_page_table e)" using E(3,4) by (auto simp: dims_def engine_page_table_def Let_def)
  have "dims (Suc ?n) ?w (tm_token_pool (s_tm ?s))" using d by (auto simp: scheduler_init_def new_table_manager_def dims_def)
  moreover have "rows_conserved ?n {#} (s_tm ?s)" by (simp add: rows_conserved_def scheduler_init_def new_table_manager_def)
  moreover have "ok {#} {#} (s_cm ?s)" using new_ok [OF c] by (simp add: scheduler_init_def ps)
  ultimately have h: "held ?n ?w {#} (s_cm ?s) (s_tm ?s)"
    using d by (simp add: held_def scheduler_init_def new_cache_manager_def ps)
  have q: "queues_ok M hp [] [] [] [] [] []" for M hp
    by (simp add: queues_ok_def owners_ok_def members_ok_def running_ok_def pendings_ok_def reads_ok_def covered_def batches_ok_def)
  have "env_ok ?n ?w [] [] ?s"
    using E(5-8) align_up_32_ge [of "ep_max_seq_len e"] align_up_32_pos [OF len]
    by (auto simp: env_ok_def scheduler_init_def dummy_ok_def)
  moreover have "demand ?s \<le> spare {#} (s_cm ?s)"
    by (simp add: demand_def scheduler_init_def new_cache_manager_def spare_def locked_seqs_def page_prefixes_def)
  ultimately have "sinv ?n ?w [] [] [] [] ?s" using h q unfolding sinv_def by (simp add: scheduler_init_def)
  then show ?thesis by (simp add: rest_def last_batches_def last_ok_def scheduler_init_def new_cache_manager_def)
qed

text \<open>When the loop would block, everything was given back.\<close>

lemma rest_idle:
  assumes R: "rest n w used None A s" and "normal_blocking s"
  shows "available_size cls (s_cm s) = int (cm_num_pages (s_cm s))" and "mset (tm_free (s_tm s)) = mset [0..<n]"
proof -
  have I: "sinv n w (s_finished s) [] [] A s" and lz: "cm_lazy (s_cm s) = None"
    using R by (simp_all add: rest_def last_batches_def)
  have b: "\<not> prefill_runnable (s_pending s)" "\<not> decode_runnable (s_running s)" using assms(2) by (simp_all add: normal_blocking_def)
  have "A = []" by (rule idle_ok(1) [OF I b lz])
  then have h: "held n w {#} (s_cm s) (s_tm s)" using sinvD(1) [OF I] by simp
  have "available_size cls (s_cm s) = spare {#} (s_cm s)" by (rule held_idle [OF h lz])
  then show "available_size cls (s_cm s) = int (cm_num_pages (s_cm s))" by (simp add: spare_def locked_seqs_def page_prefixes_def)
  show "mset (tm_free (s_tm s)) = mset [0..<n]" using h by (simp add: held_def rows_conserved_def)
qed

section \<open>Runs\<close>

theorem overlap_run_ok:
  assumes "rest n w used ld A s" and "good_device d" and "valid_run cls d used mss ld s"
  shows "\<exists>ld' s' A'. overlap_run cls d mss ld s = Inr (ld', s') \<and> rest n w (used @ all_submitted mss) ld' A' s'"
  using assms
proof (induction mss arbitrary: used ld A s)
  case (Cons ms mss)
  have v: "valid_msgs used (done_uids ld s) ms" using Cons.prems(3) by simp
  obtain ld' s' A' where T: "overlap_loop cls d ms ld s = Inr (ld', s')" "rest n w (used @ submitted (flat_msgs ms)) ld' A' s'"
    by (rule overlap_tick [OF Cons.prems(1,2) v]) (rule that)
  have "valid_run cls d (used @ submitted (flat_msgs ms)) mss ld' s'" using Cons.prems(3) T(1) by simp
  from Cons.IH [OF T(2) Cons.prems(2) this] show ?case using T(1) by simp
qed auto

theorem normal_run_ok:
  assumes "rest n w used None A s" and "good_device d" and "\<forall>ms\<in>set mss. list_all (msg_ok []) (flat_msgs ms)"
    and "distinct (used @ all_submitted mss)"
  shows "\<exists>s' A'. normal_run cls d mss s = Inr s' \<and> rest n w (used @ all_submitted mss) None A' s'"
  using assms
proof (induction mss arbitrary: used A s)
  case (Cons ms mss)
  have v: "valid_msgs used [] ms" using Cons.prems(3,4) by (auto simp: valid_msgs_def)
  obtain s' A' where T: "normal_loop cls d ms s = Inr s'" "rest n w (used @ submitted (flat_msgs ms)) None A' s'"
    by (rule normal_tick [OF Cons.prems(1,2) v]) (rule that)
  have "distinct ((used @ submitted (flat_msgs ms)) @ all_submitted mss)" using Cons.prems(4) by simp
  from Cons.IH [OF T(2) Cons.prems(2) _ this] show ?case using T(1) Cons.prems(3) by simp
qed auto

end

end
