(* ===== verification/SchedLive.thy ===== *)
theory SchedLive
  imports Startup
begin

text \<open>
  Progress of the plain loop: with the resources the invariant keeps aside, the backlog, the number
  of tokens the accepted requests may still take, shrinks with every iteration until the loop would
  block.
\<close>

section \<open>Reading the results of a batch only removes work\<close>

lemma cache_req_num_pages: "cache_req cls cm r f = Inr (r', cm') \<Longrightarrow> cm_num_pages cm' = cm_num_pages cm"
  by (auto simp: cache_req_def Let_def rbind_eq_Inr cm_unlock_def cm_lock_def cm_free_indices_def
      split: if_splits option.splits prod.splits)

lemma free_req_keeps:
  "free_req_resources cls r s = Inr s' \<Longrightarrow> s_running s' = s_running s \<and> s_prefill_budget s' = s_prefill_budget s \<and>
     s_max_seq_len s' = s_max_seq_len s \<and> cm_num_pages (s_cm s') = cm_num_pages (s_cm s)"
  by (auto simp: free_req_resources_def Let_def rbind_eq_Inr dest!: cache_req_num_pages)

definition shrinks :: "'c sched \<Rightarrow> 'c sched \<Rightarrow> bool" where
  "shrinks s s' \<longleftrightarrow> mset (s_running s') \<subseteq># mset (s_running s) \<and> s_prefill_budget s' = s_prefill_budget s \<and>
     s_max_seq_len s' = s_max_seq_len s \<and> cm_num_pages (s_cm s') = cm_num_pages (s_cm s)"

lemma shrinks_refl [simp]: "shrinks s s"
  by (simp add: shrinks_def)

lemma shrinks_trans: "shrinks s t \<Longrightarrow> shrinks t u \<Longrightarrow> shrinks s u"
  unfolding shrinks_def by (metis subset_mset.order_trans)

lemma process_result_shrinks:
  "process_result cls pre toks ir rs = Inr rs' \<Longrightarrow> shrinks (rs_sched rs) (rs_sched rs')"
  by (auto simp: process_result_def Let_def rbind_eq_Inr shrinks_def set_heap_def remove_req_def
      split: prod.splits if_splits dest!: free_req_keeps cache_req_num_pages intro: diff_subset_eq_self)

lemma results_shrink: "res_fold (process_result cls pre toks) irs rs = Inr rs' \<Longrightarrow> shrinks (rs_sched rs) (rs_sched rs')"
proof (induction irs arbitrary: rs)
  case (Cons ir irs)
  then show ?case by (auto simp: rbind_eq_Inr intro: shrinks_trans process_result_shrinks)
qed simp

lemma process_last_data_shrinks: "process_last_data cls ld s = Inr s' \<Longrightarrow> shrinks s s'"
  by (auto simp: process_last_data_def Let_def rbind_eq_Inr send_result_def lazy_exit_def lazy_enter_def shrinks_def
      split: option.splits prod.splits dest!: results_shrink)

lemma sum_list_submset: "mset xs \<subseteq># mset ys \<Longrightarrow> \<forall>y\<in>set ys. 0 \<le> f y \<Longrightarrow> (\<Sum>x\<leftarrow>xs. f x) \<le> (\<Sum>y\<leftarrow>ys. f y :: int)"
proof -
  assume s: "mset xs \<subseteq># mset ys" and p: "\<forall>y\<in>set ys. 0 \<le> f y"
  then obtain Z where Z: "mset ys = mset xs + Z" by (auto simp: mset_subset_eq_exists_conv)
  have "\<forall>z\<in>#Z. 0 \<le> f z"
  proof
    fix z assume "z \<in># Z"
    then have "z \<in># mset ys" unfolding Z by simp
    then show "0 \<le> f z" using p by simp
  qed
  then have "0 \<le> (\<Sum>z\<in>#Z. f z)" by (induction Z) auto
  moreover have "(\<Sum>y\<leftarrow>ys. f y) = (\<Sum>x\<leftarrow>xs. f x) + (\<Sum>z\<in>#Z. f z)"
    by (metis Z image_mset_union mset_map sum_mset.union sum_mset_sum_list)
  ultimately show ?thesis by simp
qed

text \<open>What progress needs: rows, a budget for prefill, and pages for a longest sequence.\<close>

definition room :: "nat \<Rightarrow> 'c sched \<Rightarrow> bool" where
  "room n s \<longleftrightarrow> 0 < n \<and> 0 < s_prefill_budget s \<and> s_max_seq_len s \<le> int (cm_num_pages (s_cm s))"

context prefix_cache
begin

lemma backlog_pos:
  assumes "sinv n w F L D A s"
  shows "0 \<le> backlog s" and "backlog s \<le> 0 \<Longrightarrow> normal_blocking s"
proof -
  note Q = queues_okD [OF sinvD(2) [OF assms]]
  have run: "\<forall>r\<in>set (s_running s). 0 < remain_len (s_heap s ! r)" using Q(3) can_decode_remain by (auto simp: running_ok_def)
  have pend: "\<forall>p\<in>set (s_pending s). pend_ok (s_max_seq_len s) (s_heap s) p" using Q(4) by (simp add: pendings_ok_def)
  have work: "\<forall>p\<in>set ps. pend_ok M hp p \<Longrightarrow> int (length ps) \<le> claims hp ps + fresh_work ps" for M hp ps
  proof (induction ps)
    case (Cons p ps)
    have "0 < int (p_input_len p)" using Cons.prems by (simp add: pend_ok_def p_input_len_def)
    then show ?case using Cons by (auto simp: pend_ok_def claim_def split: option.splits)
  qed simp
  have dec: "\<forall>x\<in>set xs. 0 < f x \<Longrightarrow> int (length xs) \<le> (\<Sum>x\<leftarrow>xs. f x :: int)" for xs :: "rid list" and f
    by (induction xs) auto
  have "int (length (s_running s)) + int (length (s_pending s)) \<le> backlog s"
    using work [OF pend] dec [OF run] by (simp add: backlog_def demand_def)
  then have "0 \<le> backlog s" "backlog s \<le> 0 \<Longrightarrow> length (s_running s) = 0 \<and> length (s_pending s) = 0" by linarith+
  then show "0 \<le> backlog s" "backlog s \<le> 0 \<Longrightarrow> normal_blocking s"
    by (simp_all add: normal_blocking_def prefill_runnable_def decode_runnable_def)
qed

text \<open>An idle batch slot: without running requests the first pending one is always admitted.\<close>

lemma ok_available:
  assumes "ok H own cm" and "cm_page_size cm = 1" and "cm_lazy cm = None"
  shows "available_size cls cm = int (cm_num_pages cm) - int (size own) - int (card (page_prefixes 1 (locked_seqs (cm_cache cm) H)))"
proof -
  have I: "inv 1 (cm_cache cm) H" using assms(1,2) by (simp add: cm_ok_def)
  have "mset (cm_free cm) + pages 1 (cm_cache cm) + own = page_set (cm_num_pages cm) 1"
    using assms by (simp add: cm_ok_def lazy_slots_def)
  then have "size (mset (cm_free cm) + pages 1 (cm_cache cm) + own) = cm_num_pages cm" by simp
  then show ?thesis
    using total_pages [OF I] protected [OF I] assms(2) by (simp add: available_size_def total_size_def locked_seqs_def)
qed

lemma lone_lock_available:
  assumes "ok {#h#} {#} cm" and "cm_page_size cm = 1" and "cm_lazy cm = None" and "live (cm_cache cm) h (take n ids) vs"
    and "n \<le> length ids"
  shows "int (cm_num_pages cm) - int n \<le> available_size cls cm"
proof -
  have "inv 1 (cm_cache cm) {#h#}" using assms(1,2) by (simp add: cm_ok_def)
  then have "locked_seqs (cm_cache cm) {#h#} = insert (take n ids) (locked_seqs (cm_cache cm) {#})"
    using assms(4) by (rule locked_seqs_add)
  then have l: "locked_seqs (cm_cache cm) {#h#} = {take n ids}" by (simp add: locked_seqs_def)
  have "page_prefixes 1 {take 0 ids} = {}" by (simp add: page_prefixes_def)
  then have "card (page_prefixes 1 {take n ids}) \<le> n"
    using card_page_prefixes_extend [of "{}" 0 n ids 1] assms(5) by simp
  then show ?thesis using ok_available [OF assms(1-3)] l by simp
qed

lemma lone_request_admitted:
  assumes h: "held n w {#} (pl_cm pl) (pl_tm pl)" and lazy: "cm_lazy (pl_cm pl) = None" and n: "0 < n"
    and ids: "p_input_ids p \<noteq> []" and fits: "int (p_input_len p) + p_output_len p \<le> int (cm_num_pages (pl_cm pl))"
    and a: "a_reserved_size a = 0"
  shows "try_allocate_one cls a p pl \<noteq> Inr (None, pl')"
proof -
  have O: "ok {#} {#} (pl_cm pl)" "cm_page_size (pl_cm pl) = 1" "rows_conserved n {#} (pl_tm pl)"
    using h by (simp_all add: held_def)
  have "mset (tm_free (pl_tm pl)) = mset [0..<n]" using O(3) by (simp add: rows_conserved_def)
  then have rows: "tm_available (pl_tm pl) \<noteq> 0" using n unfolding tm_available_def by (metis length_upt minus_nat.diff_0 not_gr0 size_mset)
  obtain hd cm1 vs where m: "match_req cls (pl_cm pl) (p_input_ids p) = Inr (hd, cm1)" "ok {#} {#} cm1" "cm_frame (pl_cm pl) cm1"
    "cm_lazy cm1 = None" "handle_len hd < length (p_input_ids p)" "live (cm_cache cm1) hd (take (handle_len hd) (p_input_ids p)) vs"
    using match_ok [OF O(1) ids] lazy by auto
  obtain cm2 where l: "cm_lock cls cm1 hd = Inr cm2" "ok {#hd#} {#} cm2" "cm_frame cm1 cm2" "cm_lazy cm2 = None"
    "live (cm_cache cm2) hd (take (handle_len hd) (p_input_ids p)) vs"
    using lock_ok [OF m(2,6)] m(4,6) by auto
  have f: "cm_page_size cm1 = 1" "cm_page_size cm2 = 1" "cm_num_pages cm1 = cm_num_pages (pl_cm pl)" "cm_num_pages cm2 = cm_num_pages (pl_cm pl)"
    using m(3) l(3) O(2) by (simp_all add: cm_frame_def)
  have "available_size cls cm1 = int (cm_num_pages cm1)"
    using ok_available [OF m(2) f(1) m(4)] by (simp add: locked_seqs_def page_prefixes_def)
  moreover have "int (cm_num_pages cm2) - int (handle_len hd) \<le> available_size cls cm2"
    by (rule lone_lock_available [OF l(2) f(2) l(4,5)]) (use m(5) in simp)
  ultimately have "\<not> available_size cls cm1 < int (p_input_len p) - int (handle_len hd) + p_output_len p + a_reserved_size a"
    "\<not> available_size cls cm2 < int (p_input_len p) - int (handle_len hd) + p_output_len p + a_reserved_size a"
    using fits a f by linarith+
  then show ?thesis
    using rows m(1) l(1) by (auto simp: try_allocate_one_def Let_def rbind_eq_Inr split: if_splits prod.splits)
qed

lemma idle_admits:
  assumes inv: "sinv n w F [] [] A s" and lazy: "cm_lazy (s_cm s) = None" and pend: "s_pending s \<noteq> []"
    and run: "s_running s = []" and n: "0 < n" and budget: "0 < s_prefill_budget s"
    and M: "s_max_seq_len s \<le> int (cm_num_pages (s_cm s))"
  shows "prefill_next_batch cls (s_prefill_budget s) (inflight_tokens (cm_page_size (s_cm s)) (s_heap s) (s_running s))
      (s_pending s) \<lparr>pl_cm = s_cm s, pl_tm = s_tm s, pl_heap = s_heap s\<rparr> \<noteq> Inr (None, pending, pl)"
proof
  let ?a = "\<lparr>a_token_budget = s_prefill_budget s, a_reserved_size = inflight_tokens (cm_page_size (s_cm s)) (s_heap s) (s_running s)\<rparr>"
  let ?pl = "\<lparr>pl_cm = s_cm s, pl_tm = s_tm s, pl_heap = s_heap s\<rparr>"
  assume "prefill_next_batch cls (s_prefill_budget s) (inflight_tokens (cm_page_size (s_cm s)) (s_heap s) (s_running s))
      (s_pending s) ?pl = Inr (None, pending, pl)"
  moreover obtain p ps where ps: "s_pending s = p # ps" using pend by (cases "s_pending s") auto
  ultimately obtain a' pl' where none: "try_add_one cls ?a p ?pl = Inr (None, a', pl')"
    by (auto simp: prefill_next_batch_def rbind_eq_Inr Let_def split: if_splits option.splits prod.splits)
  note Q = queues_okD [OF sinvD(2) [OF inv]]
  have "p_chunked p = None" using none budget by (auto simp: try_add_one_def rbind_eq_Inr Let_def split: option.splits)
  then have "chunk_rids (s_pending s) = []"
    using Q(4) ps in_chunk_rids [of _ "s_pending s"] by (fastforce simp: pendings_ok_def)
  then have "A = []" using queues_rest [OF sinvD(2) [OF inv]] run by simp
  then have h: "held n w {#} (pl_cm ?pl) (pl_tm ?pl)" using sinvD(1) [OF inv] by simp
  have p: "pend_ok (s_max_seq_len s) (s_heap s) p" using Q(4) ps by (simp add: pendings_ok_def)
  obtain x where x: "try_allocate_one cls ?a p ?pl = Inr (x, pl')" "\<forall>h i. x \<noteq> Some (h, i)"
    using none budget \<open>p_chunked p = None\<close> by (auto simp: try_add_one_def rbind_eq_Inr split: option.splits)
  from x(2) have "x = None" by (cases x) auto
  moreover have "try_allocate_one cls ?a p ?pl \<noteq> Inr (None, pl')"
    by (rule lone_request_admitted [OF h _ n]) (use lazy p M run in \<open>auto simp: pend_ok_def inflight_tokens_def\<close>)
  ultimately show False using x(1) by simp
qed

section \<open>An iteration without messages\<close>

lemma backlog_read:
  assumes I: "sinv n w F L D A s" and "process_last_data cls ld s = Inr s'" and "same_objs (s_heap s) (s_heap s')"
    and "s_pending s' = s_pending s"
  shows "backlog s' \<le> backlog s"
proof -
  note Q = queues_okD [OF sinvD(2) [OF I]]
  have run: "r < length (s_heap s) \<and> 0 \<le> remain_len (s_heap s ! r)" if "r \<in> set (s_running s)" for r
    using Q(1,2,3) that can_decode_remain by (fastforce simp: running_ok_def owners_ok_def members_ok_def)
  have sub: "mset (s_running s') \<subseteq># mset (s_running s)" using process_last_data_shrinks [OF assms(2)] by (simp add: shrinks_def)
  have "\<forall>r\<in>set (s_running s'). r < length (s_heap s)" using set_mset_mono [OF sub] run by auto
  then have "(\<Sum>r\<leftarrow>s_running s'. remain_len (s_heap s' ! r)) = (\<Sum>r\<leftarrow>s_running s'. remain_len (s_heap s ! r))"
    by (rule running_same [OF assms(3)])
  also have "\<dots> \<le> (\<Sum>r\<leftarrow>s_running s. remain_len (s_heap s ! r))" using sub run by (intro sum_list_submset) auto
  finally have "(\<Sum>r\<leftarrow>s_running s'. remain_len (s_heap s' ! r)) \<le> (\<Sum>r\<leftarrow>s_running s. remain_len (s_heap s ! r))" .
  moreover have "claims (s_heap s') (s_pending s) = claims (s_heap s) (s_pending s)"
    using Q(4) by (intro claims_same [OF assms(3)]) (auto simp: pendings_ok_def)
  ultimately show ?thesis by (simp add: backlog_def demand_def assms(4))
qed

lemma run_batch_works:
  assumes inv: "sinv n w F [] [] A s" and lazy: "cm_lazy (s_cm s) = None" and d: "good_device d" and room: "room n s"
    and run: "run_batch cls d s = Inr (ld, s')"
  shows "nat (backlog s') \<le> nat (backlog s) - 1" and "room n s'"
proof -
  have "nat (backlog s') \<le> nat (backlog s) - 1 \<and> room n s'"
    using inv lazy d
  proof (cases rule: run_batch_ok)
    case (idle s1)
    have "s_pending s = []"
    proof (rule ccontr)
      assume ne: "s_pending s \<noteq> []"
      have "0 < n" "0 < s_prefill_budget s" "s_max_seq_len s \<le> int (cm_num_pages (s_cm s))" using room by (simp_all add: room_def)
      note admits = idle_admits [OF inv lazy ne idle(5) this]
      show False
        using idle(1) admits unfolding run_batch_eq by (auto simp: Let_def rbind_eq_Inr split: sum.splits option.splits prod.splits)
    qed
    then show ?thesis
      using idle run room by (auto simp: backlog_def demand_def room_def sched_frame_def)
  next
    case (batch fi toks s1 A1)
    then have "backlog s1 < backlog s" "0 \<le> backlog s1" using batch_runD(7) backlog_pos(1) by blast+
    then show ?thesis using batch(1,5,6) run room by (auto simp: room_def sched_frame_def)
  qed
  then show "nat (backlog s') \<le> nat (backlog s) - 1" "room n s'" by simp_all
qed

text \<open>
  \<open>normal_tick\<close> without messages, from its parts, once more: what it does to the backlog.
\<close>

lemma quiet_tick:
  assumes R: "rest n w used None A s" and u: "distinct used" and d: "good_device d" and room: "room n s"
  obtains s' A' where "normal_loop cls d [] s = Inr s'" and "rest n w used None A' s'" and "room n s'"
    and "nat (backlog s') \<le> nat (backlog s) - 1"
proof -
  have v: "valid_msgs used [] []" using u by (simp add: valid_msgs_def)
  obtain s' A' where T: "normal_loop cls d [] s = Inr s'" "rest n w used None A' s'"
    by (rule normal_tick [OF R d v]) (use that in simp)
  obtain ld s1 s2 where S: "run_batch cls d s = Inr (ld, s1)" "process_last_data cls ld s1 = Inr s2" "s' = flush_pending_acks s2"
    using T(1) by (auto simp: normal_loop_def rbind_eq_Inr)
  have I: "sinv n w (s_finished s) [] [] A s" and lz: "cm_lazy (s_cm s) = None" using R by (simp_all add: rest_def last_batches_def)
  note W = run_batch_works [OF I lz d room S(1)]
  have df: "s_deferred s = []" using R by (simp add: rest_def)
  have "backlog s2 \<le> backlog s1"
    using I lz d
  proof (cases rule: run_batch_ok)
    case (idle t)
    then show ?thesis using S(1,2) by (simp add: process_last_data_def)
  next
    case (batch fi toks t A1)
    have t: "t = s1" "ld = Some (fi, toks)" using batch(1) S(1) by simp_all
    have fr: "s_finished s1 = s_finished s" "s_deferred s1 = []" using batch(5) df t by (simp_all add: sched_frame_def)
    have I1: "sinv n w (s_finished s1) (b_reqs (fi_batch fi) # []) [] A1 s1" using batch(3) fr t by simp
    have pre: "is_prefill (fi_batch fi) \<longrightarrow> set (b_reqs (fi_batch fi)) \<inter> set (s_finished s1) = {}"
      using batch_runD(4) [OF batch(7)] fr by simp
    have lz1: "cm_lazy (s_cm s1) = None" and l2: "length ([] :: rid list list) \<le> 1"
      and df1: "set (s_deferred s1) = (\<lambda>r. r_uid (s_heap s1 ! r)) ` set []"
      and nx: "\<forall>B\<in>set []. set B \<inter> set (s_finished s1) = {}" using batch(4) t fr by simp_all
    obtain s3 where "process_last_data cls (Some (fi, toks)) s1 = Inr s3" "same_objs (s_heap s1) (s_heap s3)" "s_pending s3 = s_pending s1"
      by (rule process_last_data_ok [OF I1 lz1 l2 df1 batch(2) pre nx]) (rule that)
    then show ?thesis using backlog_read [OF I1] S(2) t by simp
  qed
  moreover have "room n s2" using W(2) process_last_data_shrinks [OF S(2)] by (simp add: room_def shrinks_def)
  ultimately show ?thesis
    using that [OF T] W(1) S(3)
    by (simp add: flush_pending_acks_def send_result_def backlog_def demand_def room_def)
qed

text \<open>As many iterations without messages as the backlog is long empty the queues.\<close>

lemma quiet_run:
  assumes "rest n w used None A s" and "distinct used" and "good_device d" and "room n s" and "backlog s \<le> int k"
  shows "\<exists>s' A'. normal_run cls d (replicate k []) s = Inr s' \<and> rest n w used None A' s' \<and> normal_blocking s'"
  using assms(1,4,5)
proof (induction k arbitrary: s A)
  case 0
  then show ?case using backlog_pos(2) by (auto simp: rest_def)
next
  case (Suc k)
  obtain s' A' where T: "normal_loop cls d [] s = Inr s'" "rest n w used None A' s'" "room n s'" "nat (backlog s') \<le> nat (backlog s) - 1"
    by (rule quiet_tick [OF Suc.prems(1) assms(2,3) Suc.prems(2)]) (rule that)
  have "backlog s' \<le> int k" using T(4) Suc.prems(3) by linarith
  from Suc.IH [OF T(2,3) this] show ?case using T(1) by simp
qed

lemma process_keeps:
  "process_one_msg cls m s = Inr s' \<Longrightarrow> room n s \<Longrightarrow> room n s'"
  "process_msgs cls ms s = Inr s' \<Longrightarrow> room n s \<Longrightarrow> room n s'"
proof (induction m s and ms s arbitrary: s' and s' rule: process_one_msg_process_msgs.induct)
  case (4 u s)
  then show ?case
    by (auto simp: Let_def rbind_eq_Inr room_def split: if_splits prod.splits option.splits dest!: free_req_keeps)
qed (auto simp: Let_def rbind_eq_Inr room_def split: if_splits)

lemma tick_room:
  assumes R: "rest n w used None A s" and d: "good_device d" and ms: "valid_msgs used [] ms" and room: "room n s"
    and loop: "normal_loop cls d ms s = Inr s'"
  shows "room n s'"
proof -
  have lb: "last_batches None = []" by (simp add: last_batches_def)
  have s0: "s\<lparr>s_inflight := []\<rparr> = s" using R by (cases s) (simp add: rest_def)
  have ms': "valid_msgs used (done_uids None s) ms" using ms by (simp add: done_uids_def lb)
  obtain s1 D A1 where M: "process_msgs cls ms s = Inr s1" "recv_inv n w (set (used @ submitted (flat_msgs ms))) (s_finished s) (last_batches None) D A1 s1"
    by (rule receive_ok [OF R ms', of "[]", unfolded s0]) (use lb in simp, rule that)
  note V = recv_invD [OF M(2)]
  obtain ld s2 s3 where S: "run_batch cls d s1 = Inr (ld, s2)" "process_last_data cls ld s2 = Inr s3" "s' = flush_pending_acks s3"
    using loop M(1) by (auto simp: normal_loop_def rbind_eq_Inr split: if_splits)
  have "room n s1" using process_keeps(2) [OF M(1) room] .
  have "room n s2"
    using V(1,2) d
  proof (cases rule: run_batch_ok)
    case (idle t)
    then show ?thesis using \<open>room n s1\<close> S(1) by (simp add: room_def sched_frame_def)
  next
    case (batch fi toks t A')
    then show ?thesis using \<open>room n s1\<close> S(1) by (simp add: room_def sched_frame_def)
  qed
  then show ?thesis
    using process_last_data_shrinks [OF S(2)] S(3)
    by (simp add: room_def shrinks_def flush_pending_acks_def send_result_def)
qed

lemma run_room:
  assumes "rest n w used None A s" and "good_device d" and "\<forall>ms\<in>set mss. list_all (msg_ok []) (flat_msgs ms)"
    and "distinct (used @ all_submitted mss)" and "room n s"
  shows "\<exists>s' A'. normal_run cls d mss s = Inr s' \<and> rest n w (used @ all_submitted mss) None A' s' \<and> room n s'"
  using assms
proof (induction mss arbitrary: used A s)
  case (Cons ms mss)
  have v: "valid_msgs used [] ms" using Cons.prems(3,4) by (auto simp: valid_msgs_def)
  obtain s' A' where T: "normal_loop cls d ms s = Inr s'" "rest n w (used @ submitted (flat_msgs ms)) None A' s'"
    by (rule normal_tick [OF Cons.prems(1,2) v]) (rule that)
  have "distinct ((used @ submitted (flat_msgs ms)) @ all_submitted mss)" using Cons.prems(4) by simp
  from Cons.IH [OF T(2) Cons.prems(2) _ this tick_room [OF Cons.prems(1,2) v Cons.prems(5) T(1)]] Cons.prems(3) T(1)
  show ?case by simp
qed auto

lemma normal_run_append: "normal_run cls d (xs @ ys) s = rbind (normal_run cls d xs s) (normal_run cls d ys)"
  by (induction xs arbitrary: s) (auto simp: rbind_def split: sum.splits)

lemma run_finishes:
  assumes "rest n w [] None [] s" and "good_device d" and "\<forall>ms\<in>set mss. list_all (msg_ok []) (flat_msgs ms)"
    and "distinct (all_submitted mss)" and "room n s"
  shows "\<exists>s'. normal_run cls d mss s = Inr s' \<and> (\<forall>k. backlog s' \<le> int k \<longrightarrow>
      (\<exists>t. normal_run cls d (mss @ replicate k []) s = Inr t \<and> s_pending t = [] \<and> s_running t = [] \<and>
         available_size cls (s_cm t) = int (cm_num_pages (s_cm t)) \<and> mset (tm_free (s_tm t)) = mset [0..<n]))"
proof -
  obtain s' A' where T: "normal_run cls d mss s = Inr s'" "rest n w (all_submitted mss) None A' s'" "room n s'"
    using run_room [OF assms(1-3) _ assms(5)] assms(4) by auto
  have "\<exists>t. normal_run cls d (mss @ replicate k []) s = Inr t \<and> s_pending t = [] \<and> s_running t = [] \<and>
      available_size cls (s_cm t) = int (cm_num_pages (s_cm t)) \<and> mset (tm_free (s_tm t)) = mset [0..<n]"
    if k: "backlog s' \<le> int k" for k
  proof -
    obtain t A'' where t: "normal_run cls d (replicate k []) s' = Inr t" "rest n w (all_submitted mss) None A'' t" "normal_blocking t"
      using quiet_run [OF T(2) assms(4,2) T(3) k] by blast
    then show ?thesis
      using T(1) rest_idle [OF t(2,3)]
      by (simp add: normal_run_append normal_blocking_def prefill_runnable_def decode_runnable_def)
  qed
  then show ?thesis using T(1) by blast
qed

end

end
