(* ===== verification/RadixCache.thy ===== *)
theory RadixCache
  imports RadixLocked SchedLive
begin

text \<open>
  The radix cache meets the contract of \<^verbatim>\<open>BasePrefixCache\<close>. A handle is live when its node is in
  the tree and spells as many tokens as the handle claims; the pages of the cache are the pages of
  all its nodes.
\<close>

fun handle_node :: "handle \<Rightarrow> nid" where
  "handle_node (RadixHandle _ n) = n"
| "handle_node NaiveHandle = 0"

definition radix_live :: "radix \<Rightarrow> handle \<Rightarrow> tok list \<Rightarrow> slot list \<Rightarrow> bool" where
  "radix_live s h xs vs \<longleftrightarrow> (\<exists>n. h = RadixHandle (length xs) n \<and> spells s n xs vs)"

definition radix_ok :: "nat \<Rightarrow> radix \<Rightarrow> handle multiset \<Rightarrow> bool" where
  "radix_ok p s H \<longleftrightarrow> rpage_size s = p \<and> radix_inv s (image_mset handle_node H) \<and>
     (\<forall>h\<in>#H. \<exists>xs vs. radix_live s h xs vs)"

definition radix_pages :: "nat \<Rightarrow> radix \<Rightarrow> slot multiset" where
  "radix_pages p s = tree_pages s (tree_nodes s)"

lemma radix_inv_full_ok: "radix_inv s L \<longleftrightarrow> (\<exists>A pk pv. full_ok s A pk pv L)"
  by (simp add: radix_inv_def full_ok_def)

lemma radix_ok_E:
  assumes "radix_ok p s H"
  obtains A pk pv where "full_ok s A pk pv (image_mset handle_node H)" and "tree_ok s A pk pv"
    and "rpage_size s = p" and "radix_pages p s = tree_pages s A"
    and "\<And>h xs vs. radix_live s h xs vs \<longleftrightarrow> (\<exists>n\<in>A. h = RadixHandle (length (pk n)) n \<and> xs = pk n \<and> vs = pv n)"
proof -
  obtain A pk pv where f: "full_ok s A pk pv (image_mset handle_node H)"
    using assms by (auto simp: radix_ok_def radix_inv_full_ok)
  then have t: "tree_ok s A pk pv" by (simp add: full_ok_def)
  show ?thesis
    using that [OF f t] assms tree_nodes_eq [OF t]
    by (auto simp: radix_ok_def radix_pages_def radix_live_def spells_iff [OF t])
qed

text \<open>How to re-establish the contract's invariant after an operation.\<close>

lemma radix_ok_I:
  assumes f: "full_ok t A pk pv (image_mset handle_node H)" and p: "rpage_size t = p"
    and H: "\<And>h. h \<in># H \<Longrightarrow> \<exists>n\<in>A. h = RadixHandle (length (pk n)) n"
  shows "radix_ok p t H" and "radix_pages p t = tree_pages t A"
    and "radix_live t h xs vs \<longleftrightarrow> (\<exists>n\<in>A. h = RadixHandle (length (pk n)) n \<and> xs = pk n \<and> vs = pv n)"
proof -
  have t: "tree_ok t A pk pv" using f by (simp add: full_ok_def)
  show live: "radix_live t h xs vs \<longleftrightarrow> (\<exists>n\<in>A. h = RadixHandle (length (pk n)) n \<and> xs = pk n \<and> vs = pv n)" for h xs vs
    by (auto simp: radix_live_def spells_iff [OF t])
  show "radix_ok p t H" using f p H unfolding radix_ok_def radix_inv_full_ok live by blast
  show "radix_pages p t = tree_pages t A" by (simp add: radix_pages_def tree_nodes_eq [OF t])
qed

lemma radix_ok_handles:
  assumes "radix_ok p s H" and "tree_ok s A pk pv" and "h \<in># H"
  shows "\<exists>n\<in>A. h = RadixHandle (length (pk n)) n"
  using assms by (auto simp: radix_ok_def radix_live_def spells_iff)

section \<open>The initial cache\<close>

lemma radix_init_ok: "0 < p \<Longrightarrow> radix_ok p (radix_init p clk) {#}"
  and radix_init_pages: "radix_pages p (radix_init p clk) = {#}"
proof -
  let ?s = "radix_init p clk"
  have s: "store ?s = [0 \<mapsto> \<lparr>children = [], parent_ptr = None, ref_count = 1, timestamp = clk 0,
      node_key = [], node_value = []\<rparr>]" "root_node ?s = 0" "rpage_size ?s = p" "next_uuid ?s = 1"
      "evictable_size ?s = 0" "protected_size ?s = 0"
    by (auto simp: radix_init_def new_node_def monotonic_ns_def put_node_def Let_def)
  {
    assume "0 < p"
    then have "full_ok ?s {0} (\<lambda>_. []) (\<lambda>_. []) {#}"
      by (simp add: full_ok_def tree_ok_def ref_ok_def size_ok_def root_ok_def down_ok_def
          unlocked_nodes_def locked_nodes_def s lessThan_Suc, auto intro!: sum.neutral)
    then show "radix_ok p ?s {#}" using radix_ok_I(1) [of ?s "{0}" "\<lambda>_. []" "\<lambda>_. []" "{#}" p] s by simp
  }
  have "tree_nodes ?s \<subseteq> {0}"
  proof
    fix n assume "n \<in> tree_nodes ?s"
    then obtain xs vs where "spells ?s n xs vs" by (auto simp: tree_nodes_def)
    then have "n = 0" by induction (auto simp: s)
    then show "n \<in> {0}" by simp
  qed
  moreover have "0 \<in> tree_nodes ?s" using spells.root [of ?s] s by (auto simp: tree_nodes_def)
  ultimately have "tree_nodes ?s = {0}" by auto
  then show "radix_pages p ?s = {#}" by (simp add: radix_pages_def tree_pages_def s)
qed

section \<open>The laws\<close>

lemma tree_length_pages:
  assumes t: "tree_ok s A pk pv"
  shows "(\<Sum>n\<in>A. int (node_length (nd s n))) = int (rpage_size s * size (tree_pages s A))"
proof -
  have fin: "finite A" by (rule tree_ok_finite [OF t])
  have "size (tree_pages s A) = (\<Sum>n\<in>A. length (stride (rpage_size s) (node_value (nd s n))))"
    using fin unfolding tree_pages_def by (induction A rule: finite_induct) auto
  then have "rpage_size s * size (tree_pages s A)
      = (\<Sum>n\<in>A. rpage_size s * length (stride (rpage_size s) (node_value (nd s n))))"
    by (simp add: sum_distrib_left)
  also have "\<dots> = (\<Sum>n\<in>A. node_length (nd s n))"
  proof (rule sum.cong)
    fix n assume n: "n \<in> A"
    have "rpage_size s dvd length (node_value (nd s n))"
      using page_dvd_key [OF t n] length_value_key [OF t n] by simp
    then show "rpage_size s * length (stride (rpage_size s) (node_value (nd s n))) = node_length (nd s n)"
      using length_stride [OF tree_ok_ps [OF t], of "node_value (nd s n)"] length_value_key [OF t n]
      unfolding node_length_def by simp
  qed simp
  finally show ?thesis by simp
qed

lemma radix_total:
  assumes "radix_ok p s H"
  shows "total_size (radix_size_info s) = int (p * size (radix_pages p s))"
    and "0 \<le> si_evictable (radix_size_info s)"
proof -
  obtain A pk pv where f: "full_ok s A pk pv (image_mset handle_node H)" and t: "tree_ok s A pk pv"
    and p: "rpage_size s = p" "radix_pages p s = tree_pages s A" using assms by (rule radix_ok_E) (rule that)
  have fin: "finite A" by (rule tree_ok_finite [OF t])
  have root: "node_length (nd s (root_node s)) = 0"
    using tree_ok_root_ok [OF t] by (simp add: root_ok_def node_length_def)
  have z: "size_ok s A" using f by (simp add: full_ok_def)
  then have "evictable_size s + protected_size s = (\<Sum>n\<in>A. int (node_length (nd s n)))"
    unfolding size_ok_alt [OF fin] using root
    by (auto simp: sum.distrib [symmetric] intro!: sum.cong)
  then show "total_size (radix_size_info s) = int (p * size (radix_pages p s))"
    using tree_length_pages [OF t] p by (simp add: total_size_def radix_size_info_def)
  show "0 \<le> si_evictable (radix_size_info s)"
    using z by (auto simp: size_ok_def radix_size_info_def intro: sum_nonneg)
qed

lemma radix_match:
  assumes ok: "radix_ok p s H"
  shows "\<exists>h t vs. match_prefix s ids = Inr (h, t) \<and> radix_ok p t H \<and>
      radix_pages p t = radix_pages p s \<and> radix_size_info t = radix_size_info s \<and>
      handle_len h \<le> length ids \<and> radix_live t h (take (handle_len h) ids) vs \<and>
      (\<forall>h xs vs. radix_live s h xs vs \<longrightarrow> radix_live t h xs vs)"
proof -
  obtain A pk pv where f: "full_ok s A pk pv (image_mset handle_node H)" and t: "tree_ok s A pk pv"
    and p: "rpage_size s = p" "radix_pages p s = tree_pages s A"
    and live: "\<And>h xs vs. radix_live s h xs vs \<longleftrightarrow> (\<exists>n\<in>A. h = RadixHandle (length (pk n)) n \<and> xs = pk n \<and> vs = pv n)"
    using ok by (rule radix_ok_E) (rule that)
  obtain m q u A' pk' pv' where eq: "match_prefix s ids = Inr (RadixHandle q m, u)"
    and post: "walk_post ids s A pk pv (image_mset handle_node H) m q u A' pk' pv'"
    by (rule match_prefix_ok [OF f])
  then have fu: "full_ok u A' pk' pv' (image_mset handle_node H)" and g: "grows s A pk pv u A' pk' pv'"
    and m: "m \<in> A'" "q \<le> length ids" "pk' m = take q ids" by (auto simp: walk_post_def)
  have H: "\<exists>n\<in>A'. h = RadixHandle (length (pk' n)) n" if "h \<in># H" for h
    using radix_ok_handles [OF ok t that] g by (fastforce simp: grows_def)
  have ps: "rpage_size u = p" using g p by (simp add: grows_def)
  note I = radix_ok_I [OF fu ps H]
  have "radix_live u (RadixHandle q m) (take q ids) (pv' m)" using m by (auto simp: I(3))
  moreover have "radix_live u h xs vs" if "radix_live s h xs vs" for h xs vs
    using that g by (fastforce simp: live I(3) grows_def)
  moreover have "radix_size_info u = radix_size_info s" "radix_pages p u = radix_pages p s"
    using g p I(2) by (auto simp: radix_size_info_def grows_def)
  ultimately show ?thesis using eq I(1) m by auto
qed

lemma radix_lock:
  assumes ok: "radix_ok p s H" and h: "radix_live s h xs vs"
  shows "\<exists>t. lock_handle s h False = Inr t \<and> radix_ok p t (add_mset h H) \<and>
      radix_pages p t = radix_pages p s \<and> si_evictable (radix_size_info t) \<le> si_evictable (radix_size_info s) \<and>
      (\<forall>h xs vs. radix_live s h xs vs \<longrightarrow> radix_live t h xs vs)"
proof -
  obtain A pk pv where f: "full_ok s A pk pv (image_mset handle_node H)" and t: "tree_ok s A pk pv"
    and p: "rpage_size s = p" "radix_pages p s = tree_pages s A"
    and live: "\<And>h xs vs. radix_live s h xs vs \<longleftrightarrow> (\<exists>n\<in>A. h = RadixHandle (length (pk n)) n \<and> xs = pk n \<and> vs = pv n)"
    using ok by (rule radix_ok_E) (rule that)
  obtain n where n: "n \<in> A" "h = RadixHandle (length (pk n)) n" using h live by auto
  obtain u where u: "lock_loop (Suc (length (pk n))) n s = Inr u"
    and e: "lock_effect 1 0 s A (path_nodes (root_node s) A pk n) u"
    using lock_loop_ok [OF t n(1)] by blast
  have fu: "full_ok u A pk pv (image_mset handle_node (add_mset h H))"
    using lock_effect_full_ok(1) [OF f n(1) e] n(2) by simp
  have sh: "same_shape s u" using e by (simp add: lock_effect_def)
  have H: "\<exists>n\<in>A. h' = RadixHandle (length (pk n)) n" if "h' \<in># add_mset h H" for h'
    using radix_ok_handles [OF ok t] that n by auto
  have ps: "rpage_size u = p" using same_shapeD(2) [OF sh] p by simp
  note I = radix_ok_I [OF fu ps H]
  have "evictable_size u \<le> evictable_size s"
    using e unfolding lock_effect_def by (simp add: sum_nonneg)
  then show ?thesis
    using u n(2) I p same_shape_tree_pages [OF sh] by (auto simp: lock_handle_def live radix_size_info_def)
qed

lemma radix_unlock:
  assumes ok: "radix_ok p s (add_mset h H)"
  shows "\<exists>t. lock_handle s h True = Inr t \<and> radix_ok p t H \<and>
      radix_pages p t = radix_pages p s \<and> si_evictable (radix_size_info s) \<le> si_evictable (radix_size_info t) \<and>
      (\<forall>h xs vs. radix_live s h xs vs \<longrightarrow> radix_live t h xs vs)"
proof -
  obtain A pk pv where f: "full_ok s A pk pv (image_mset handle_node (add_mset h H))" and t: "tree_ok s A pk pv"
    and p: "rpage_size s = p" "radix_pages p s = tree_pages s A"
    and live: "\<And>h xs vs. radix_live s h xs vs \<longleftrightarrow> (\<exists>n\<in>A. h = RadixHandle (length (pk n)) n \<and> xs = pk n \<and> vs = pv n)"
    using ok by (rule radix_ok_E) (rule that)
  obtain n where n: "n \<in> A" "h = RadixHandle (length (pk n)) n" using radix_ok_handles [OF ok t] by force
  have r: "ref_ok s A pk (add_mset n (image_mset handle_node H))" using f n(2) by (simp add: full_ok_def)
  have pos: "1 \<le> ref_count (nd s a)" if "a \<in> path_nodes (root_node s) A pk n" for a
    using r that by (auto simp: ref_ok_def path_nodes_def)
  obtain u where u: "unlock_loop (Suc (length (pk n))) n s = Inr u"
    and e: "lock_effect (-1) 1 s A (path_nodes (root_node s) A pk n) u"
    using unlock_loop_ok [OF t n(1) _ pos] by blast
  have "full_ok s A pk pv (add_mset n (image_mset handle_node H))" using f n(2) by simp
  note fu = unlock_effect_full_ok [OF this e]
  have H: "\<exists>n\<in>A. h' = RadixHandle (length (pk n)) n" if "h' \<in># H" for h'
    using radix_ok_handles [OF ok t, of h'] that by simp
  have ps: "rpage_size u = p" using fu(3) p by simp
  note I = radix_ok_I [OF fu(1) ps H]
  have "evictable_size s \<le> evictable_size u"
    using e unfolding lock_effect_def by (simp add: sum_nonneg)
  then show ?thesis
    using u n(2) I p fu(2) by (auto simp: lock_handle_def live radix_size_info_def)
qed

text \<open>Locking and then unlocking restores every count.\<close>

lemma radix_lock_unlock:
  assumes ok: "radix_ok p s H" and h: "radix_live s h xs vs"
  shows "\<exists>t u. lock_handle s h False = Inr t \<and> lock_handle t h True = Inr u \<and>
    (\<forall>n ys ws. spells s n ys ws \<longrightarrow> n \<noteq> root_node s \<longrightarrow> prefix ys xs \<longrightarrow> 0 < ref_count (nd t n)) \<and>
    (\<forall>n ys ws. spells s n ys ws \<longrightarrow> ref_count (nd u n) = ref_count (nd s n)) \<and>
    same_shape s t \<and> same_shape s u \<and> radix_size_info u = radix_size_info s"
proof -
  obtain A pk pv where f: "full_ok s A pk pv (image_mset handle_node H)" and t: "tree_ok s A pk pv"
    and live: "\<And>h xs vs. radix_live s h xs vs \<longleftrightarrow> (\<exists>n\<in>A. h = RadixHandle (length (pk n)) n \<and> xs = pk n \<and> vs = pv n)"
    using ok by (rule radix_ok_E) (rule that)
  obtain n where n: "n \<in> A" "h = RadixHandle (length (pk n)) n" "xs = pk n" using h live by auto
  let ?P = "path_nodes (root_node s) A pk n"
  obtain t where lt: "lock_loop (Suc (length (pk n))) n s = Inr t" and e: "lock_effect 1 0 s A ?P t"
    using lock_loop_ok [OF t n(1)] by blast
  have sh: "same_shape s t" using e by (simp add: lock_effect_def)
  note same = same_shapeD [OF sh]
  have nonneg: "0 \<le> ref_count (nd s a)" if "a \<in> A" "a \<noteq> root_node s" for a
    using f that by (auto simp: full_ok_def ref_ok_def)
  have PA: "a \<in> A" "a \<noteq> root_node s" if "a \<in> ?P" for a using that by (auto simp: path_nodes_def)
  have ref_t: "ref_count (nd t a) = ref_count (nd s a) + (if a \<in> ?P then 1 else 0)" if "a \<in> A" for a
    using e that by (simp add: lock_effect_def)
  have tt: "tree_ok t A pk pv" using same_shape_tree_ok [OF sh] t by simp
  have pos: "1 \<le> ref_count (nd t a)" if "a \<in> path_nodes (root_node t) A pk n" for a
    using that nonneg PA ref_t same(1) by fastforce
  obtain u where lu: "unlock_loop (Suc (length (pk n))) n t = Inr u"
    and e': "lock_effect (-1) 1 t A (path_nodes (root_node t) A pk n) u"
    using unlock_loop_ok [OF tt n(1) _ pos] by blast
  note e'' = e' [unfolded same(1)]
  have "(\<Sum>a\<in>?P. if ref_count (nd t a) = 1 then int (node_length (nd t a)) else 0)
      = (\<Sum>a\<in>?P. if ref_count (nd s a) = 0 then int (node_length (nd s a)) else 0)"
    using PA ref_t same by (intro sum.cong refl) auto
  then have "radix_size_info u = radix_size_info s"
    using e e'' by (simp add: lock_effect_def radix_size_info_def)
  moreover have "ref_count (nd u a) = ref_count (nd s a)" if "a \<in> A" for a
    using e'' ref_t [OF that] that by (auto simp: lock_effect_def)
  moreover have "same_shape s u" using sh e'' same_shape_trans by (auto simp: lock_effect_def)
  moreover have "0 < ref_count (nd t a)" if "a \<in> A" "a \<noteq> root_node s" "prefix (pk a) xs" for a
    using pos [of a] that same(1) n(3) by (force simp: path_nodes_def)
  ultimately show ?thesis
    using lt lu sh by (intro exI [of _ t] exI [of _ u]) (auto simp: lock_handle_def n spells_iff [OF t])
qed

lemma radix_insert:
  assumes ok: "radix_ok p s H" and len: "length us = length ids"
  shows "\<exists>q h t vs. insert_prefix s ids us = Inr ((q, h), t) \<and> radix_ok p t H \<and>
      q \<le> handle_len h \<and> handle_len h \<le> length ids \<and> p dvd q \<and>
      radix_live t h (take (handle_len h) ids) vs \<and> drop q vs = slice q (handle_len h) us \<and>
      radix_pages p t = radix_pages p s + mset (stride p (slice q (handle_len h) us)) \<and>
      (\<forall>h xs vs. radix_live s h xs vs \<longrightarrow> radix_live t h xs vs) \<and>
      (\<forall>h xs vs. radix_live s h xs vs \<longrightarrow> length xs \<le> length ids \<longrightarrow> take (length xs) ids = xs \<longrightarrow>
         length xs \<le> q)"
proof -
  obtain A pk pv where f: "full_ok s A pk pv (image_mset handle_node H)" and t: "tree_ok s A pk pv"
    and p: "rpage_size s = p" "radix_pages p s = tree_pages s A"
    and live: "\<And>h xs vs. radix_live s h xs vs \<longleftrightarrow> (\<exists>n\<in>A. h = RadixHandle (length (pk n)) n \<and> xs = pk n \<and> vs = pv n)"
    using ok by (rule radix_ok_E) (rule that)
  obtain q m u A' pk' pv'
    where eq: "insert_prefix s ids us = Inr ((q, RadixHandle (align_page (length ids) (rpage_size s)) m), u)"
    and post: "insert_post ids us s A pk pv (image_mset handle_node H) q m u A' pk' pv'"
    by (rule insert_prefix_ok [OF f len])
  define n where "n = align_page (length ids) (rpage_size s)"
  note eq = eq [folded n_def]
  note post' = post [unfolded insert_post_def Let_def n_def [symmetric]]
  have nle: "n \<le> length ids" and pn: "p dvd n"
    unfolding n_def p(1) [symmetric] by (rule align_page_facts(1,2) [OF tree_ok_ps [OF t]])+
  have fu: "full_ok u A' pk' pv' (image_mset handle_node H)" and ps: "rpage_size u = p"
    using post' p by auto
  have H: "\<exists>n\<in>A'. h = RadixHandle (length (pk' n)) n" if "h \<in># H" for h
    using radix_ok_handles [OF ok t that] post' by fastforce
  note I = radix_ok_I [OF fu ps H]
  have "radix_live u (RadixHandle n m) (take n ids) (pv' m)" using post' nle by (auto simp: I(3))
  moreover have "radix_live u h xs vs" if "radix_live s h xs vs" for h xs vs
    using that post' by (fastforce simp: live I(3))
  moreover have "length xs \<le> q" if l: "radix_live s h xs vs" "length xs \<le> length ids" "take (length xs) ids = xs" for h xs vs
  proof -
    obtain a where a: "a \<in> A" "xs = pk a" using l(1) live by auto
    have dv: "rpage_size s dvd length xs" using page_dvd_pk [OF t a(1)] a(2) by simp
    have "length xs \<le> n"
      using align_page_facts [OF tree_ok_ps [OF t], of "length ids"] l(2) dv pn p(1) unfolding n_def
      by (metis (no_types, lifting) align_page_eq div_le_mono dvd_div_mult_self mult_le_mono1)
    with dv a l(3) post' show ?thesis by auto
  qed
  ultimately show ?thesis using eq I(1,2) post' nle p by auto
qed

lemma radix_evict:
  assumes ok: "radix_ok p s H" and need: "int k \<le> si_evictable (radix_size_info s)"
  shows "\<exists>ev t. evict s k = Inr (ev, t) \<and> k \<le> length ev \<and> p dvd length ev \<and> radix_ok p t H \<and>
      radix_pages p s = radix_pages p t + mset (stride p ev) \<and>
      si_evictable (radix_size_info t) = si_evictable (radix_size_info s) - int (length ev) \<and>
      (\<forall>h\<in>#H. \<forall>xs vs. radix_live s h xs vs \<longrightarrow> radix_live t h xs vs)"
proof -
  obtain A pk pv where f: "full_ok s A pk pv (image_mset handle_node H)" and t: "tree_ok s A pk pv"
    and p: "rpage_size s = p" "radix_pages p s = tree_pages s A"
    and live: "\<And>h xs vs. radix_live s h xs vs \<longleftrightarrow> (\<exists>n\<in>A. h = RadixHandle (length (pk n)) n \<and> xs = pk n \<and> vs = pv n)"
    using ok by (rule radix_ok_E) (rule that)
  have "int k \<le> evictable_size s" using need by (simp add: radix_size_info_def)
  then obtain ev u A' where eq: "evict s k = Inr (ev, u)" "k \<le> length ev"
    and post: "evict_post s A pk pv (image_mset handle_node H) ev u A'" using evict_ok [OF f] by metis
  have fu: "full_ok u A' pk pv (image_mset handle_node H)" and ps: "rpage_size u = p"
    using post p by (auto simp: evict_post_def)
  have in_A': "handle_node h \<in> A'" if "h \<in># H" for h
    using fu that by (auto simp: full_ok_def ref_ok_def)
  have H: "\<exists>n\<in>A'. h = RadixHandle (length (pk n)) n" if "h \<in># H" for h
    using radix_ok_handles [OF ok t that] in_A' [OF that] by auto
  note I = radix_ok_I [OF fu ps H]
  have "radix_live u h xs vs" if "h \<in># H" "radix_live s h xs vs" for h xs vs
    using that in_A' by (fastforce simp: live I(3))
  then show ?thesis using eq I(1,2) post p by (auto simp: evict_post_def radix_size_info_def)
qed

lemma radix_protected:
  assumes ok: "radix_ok p s H"
  shows "protected_size s = int (p * card (page_prefixes p {xs. \<exists>h vs. h \<in># H \<and> radix_live s h xs vs}))"
proof -
  obtain A pk pv where f: "full_ok s A pk pv (image_mset handle_node H)" and t: "tree_ok s A pk pv" and p: "rpage_size s = p"
    and live: "\<And>h xs vs. radix_live s h xs vs \<longleftrightarrow> (\<exists>n\<in>A. h = RadixHandle (length (pk n)) n \<and> xs = pk n \<and> vs = pv n)"
    using ok by (rule radix_ok_E) (rule that)
  have "{xs. \<exists>h vs. h \<in># H \<and> radix_live s h xs vs} = pk ` set_mset (image_mset handle_node H)"
  proof (intro equalityI subsetI)
    fix xs assume "xs \<in> {xs. \<exists>h vs. h \<in># H \<and> radix_live s h xs vs}"
    then obtain h n where "h \<in># H" "h = RadixHandle (length (pk n)) n" "xs = pk n" by (auto simp: live)
    then show "xs \<in> pk ` set_mset (image_mset handle_node H)" by force
  next
    fix xs assume "xs \<in> pk ` set_mset (image_mset handle_node H)"
    then obtain h where h: "h \<in># H" "xs = pk (handle_node h)" by auto
    then show "xs \<in> {xs. \<exists>h vs. h \<in># H \<and> radix_live s h xs vs}"
      using radix_ok_handles [OF ok t h(1)] by (auto simp: live)
  qed
  with locked_prefixes_card [OF f] p show ?thesis by simp
qed

interpretation radix: prefix_cache radix_class radix_ok radix_live radix_pages
proof unfold_locales
  fix p s H assume ok: "radix_ok p s H"
  obtain A pk pv where t: "tree_ok s A pk pv" and p: "rpage_size s = p"
    and live: "\<And>h xs vs. radix_live s h xs vs \<longleftrightarrow> (\<exists>n\<in>A. h = RadixHandle (length (pk n)) n \<and> xs = pk n \<and> vs = pv n)"
    using ok by (rule radix_ok_E) (rule that)
  show "0 < p" using tree_ok_ps [OF t] p by simp
  fix h xs vs assume h: "radix_live s h xs vs"
  show "length xs = handle_len h \<and> length vs = handle_len h"
    using h live length_pk_pv [OF t] by auto
  show "p dvd length xs" using h live page_dvd_pk [OF t] p by auto
  show "xs' = xs \<and> vs' = vs" if "radix_live s h xs' vs'" for xs' vs'
    using h that live by auto
  show "pc_matched_indices radix_class s h = Inr vs" if "xs \<noteq> []"
    using h that live get_matched_indices_ok [OF t] tree_ok_root_ok [OF t]
    by (auto simp: radix_class_def root_ok_def)
next
  fix p s H h xs vs t u
  assume "radix_ok p s H" "radix_live s h xs vs" "pc_lock_handle radix_class s h False = Inr t"
    "pc_lock_handle radix_class t h True = Inr u"
  then show "pc_size_info radix_class u = pc_size_info radix_class s"
    using radix_lock_unlock [of p s H h xs vs] by (auto simp: radix_class_def)
next
  fix p s H assume "radix_ok p s H"
  then show "si_protected (pc_size_info radix_class s) =
      int (p * card (page_prefixes p {xs. \<exists>h vs. h \<in># H \<and> radix_live s h xs vs}))"
    using radix_protected by (simp add: radix_class_def radix_size_info_def)
qed (use radix_total radix_match radix_lock radix_unlock radix_insert radix_evict in
    \<open>auto simp: radix_class_def radix_ok_def\<close>)

end
