(* ===== verification/RadixProps.thy ===== *)
theory RadixProps
  imports RadixCache
begin

text \<open>
  The radix cache under its client: the states reached from the empty cache by any sequence of
  method calls that keeps the contract of \<^verbatim>\<open>BasePrefixCache\<close>, and what holds in all of them. \<open>H\<close>
  is the multiset of handles locked and not yet unlocked.
\<close>

section \<open>Reachable caches\<close>

inductive radix_step ::
  "radix \<times> handle multiset \<Rightarrow> radix \<times> handle multiset \<Rightarrow> bool" where
  match: "match_prefix s ids = Inr (h, t) \<Longrightarrow> radix_step (s, H) (t, H)"
| insert: "length us = length ids \<Longrightarrow> insert_prefix s ids us = Inr (r, t) \<Longrightarrow> radix_step (s, H) (t, H)"
| lock: "radix_live s h xs vs \<Longrightarrow> lock_handle s h False = Inr t \<Longrightarrow> radix_step (s, H) (t, add_mset h H)"
| unlock: "lock_handle s h True = Inr t \<Longrightarrow> radix_step (s, add_mset h H) (t, H)"
| evict: "evict s k = Inr (ev, t) \<Longrightarrow> radix_step (s, H) (t, H)"

inductive radix_reach :: "nat \<Rightarrow> (nat \<Rightarrow> int) \<Rightarrow> radix \<times> handle multiset \<Rightarrow> bool" for p clk where
  init: "0 < p \<Longrightarrow> radix_reach p clk (radix_init p clk, {#})"
| step: "radix_reach p clk c \<Longrightarrow> radix_step c d \<Longrightarrow> radix_reach p clk d"

inductive_cases radix_stepE: "radix_step (s, H) d"

lemma evict_Inr_need:
  assumes "radix_ok p s H" and "evict s k = Inr (ev, t)"
  shows "int k \<le> evictable_size s"
  using assms radix.evictable_nonneg [OF assms(1)]
  by (cases "k = 0") (auto simp: evict_def radix_class_def radix_size_info_def rbind_eq_Inr)

lemma radix_step_ok:
  assumes "radix_step c d" and "radix_ok p (fst c) (snd c)"
  shows "radix_ok p (fst d) (snd d)"
  using assms
proof (cases rule: radix_step.cases)
  case (match s ids h t H)
  then show ?thesis using radix_match [of p s H ids] assms(2) by auto
next
  case (insert us ids s r t H)
  then show ?thesis using radix_insert [of p s H us ids] assms(2) by auto
next
  case (lock s h xs vs t H)
  then show ?thesis using radix_lock [of p s H h xs vs] assms(2) by auto
next
  case (unlock s h t H)
  then show ?thesis using radix_unlock [of p s h H] assms(2) by auto
next
  case (evict s k ev t H)
  then show ?thesis using radix_evict [of p s H k] evict_Inr_need [of p s H k ev t] assms(2)
    by (auto simp: radix_size_info_def)
qed

lemma radix_reach_ok: "radix_reach p clk c \<Longrightarrow> radix_ok p (fst c) (snd c)"
  by (induction rule: radix_reach.induct) (auto simp: radix_init_ok intro: radix_step_ok)

text \<open>Witnesses run on a cache with page size 2 into which two sequences sharing a page were inserted.\<close>

definition demo_first :: radix where
  "demo_first = snd (projr (insert_prefix (radix_init 2 int) [1, 2, 3, 4] [10, 11, 12, 13]))"

definition demo_cache :: radix where
  "demo_cache = snd (projr (insert_prefix demo_first [1, 2, 7, 8, 9] [10, 11, 16, 17, 18]))"

lemma not_isl_pair: "\<not> isl (x :: ('a \<times> 'b) res) \<Longrightarrow> x = Inr (fst (projr x), snd (projr x))"
  by (cases x) auto

lemma demo_reach: "radix_reach 2 int (demo_cache, {#})"
proof -
  have "\<not> isl (insert_prefix (radix_init 2 int) [1, 2, 3, 4] [10, 11, 12, 13])" by code_simp
  then have "radix_step (radix_init 2 int, {#}) (demo_first, {#})"
    unfolding demo_first_def by (intro radix_step.insert [OF _ not_isl_pair]) simp_all
  moreover have "\<not> isl (insert_prefix demo_first [1, 2, 7, 8, 9] [10, 11, 16, 17, 18])" by code_simp
  then have "radix_step (demo_first, {#}) (demo_cache, {#})"
    unfolding demo_cache_def by (intro radix_step.insert [OF _ not_isl_pair]) simp_all
  ultimately show ?thesis using radix_reach.init [of 2 int] by (auto intro: radix_reach.step)
qed

lemma demo_live: "radix_live demo_cache (RadixHandle 4 1) [1, 2, 3, 4] [10, 11, 12, 13]"
proof -
  have "(KTuple [1, 2], 2) \<in> set (children (nd demo_cache (root_node demo_cache)))"
    "(KTuple [3, 4], 1) \<in> set (children (nd demo_cache 2))"
    "node_key (nd demo_cache 2) = [1, 2]" "node_value (nd demo_cache 2) = [10, 11]"
    "node_key (nd demo_cache 1) = [3, 4]" "node_value (nd demo_cache 1) = [12, 13]" by code_simp+
  with spells.child [OF spells.child [OF spells.root]] show ?thesis
    unfolding radix_live_def by fastforce
qed

definition demo_locked :: radix where
  "demo_locked = projr (lock_handle demo_cache (RadixHandle 4 1) False)"

lemma demo_locked_reach: "radix_reach 2 int (demo_locked, {#RadixHandle 4 1#})"
proof -
  have "\<not> isl (lock_handle demo_cache (RadixHandle 4 1) False)" by code_simp
  then have "lock_handle demo_cache (RadixHandle 4 1) False = Inr demo_locked"
    unfolding demo_locked_def by (cases "lock_handle demo_cache (RadixHandle 4 1) False") auto
  with radix_step.lock [OF demo_live] show ?thesis
    using radix_reach.step [OF demo_reach] by force
qed

lemma demo_locked_spells: "spells demo_locked 2 [1, 2] [10, 11]"
proof -
  have "(KTuple [1, 2], 2) \<in> set (children (nd demo_locked (root_node demo_locked)))"
    "node_key (nd demo_locked 2) = [1, 2]" "node_value (nd demo_locked 2) = [10, 11]" by code_simp+
  with spells.child [OF spells.root] show ?thesis by fastforce
qed

section \<open>No call fails\<close>



section \<open>Accounting\<close>

text \<open>
  C13: in every reachable cache the counters are exact. Every node but the root carries a non-empty
  key of whole pages with a slot per token, its reference count is the number of locked handles at
  or below it, \<^verbatim>\<open>evictable_size\<close> and \<^verbatim>\<open>protected_size\<close> are the token counts of the unlocked and the
  locked nodes, and together they count each page of the cache once.
\<close>

theorem radix_accounting:
  assumes "radix_reach p clk (s, H)"
  shows "(\<forall>n xs vs. spells s n xs vs \<longrightarrow> n \<noteq> root_node s \<longrightarrow>
      node_key (nd s n) \<noteq> [] \<and> p dvd length (node_key (nd s n)) \<and>
      length (node_value (nd s n)) = length (node_key (nd s n)) \<and>
      ref_count (nd s n) = int (size {#h \<in># H. \<exists>ys ws. radix_live s h ys ws \<and> prefix xs ys#})) \<and>
    evictable_size s = (\<Sum>n\<in>unlocked_nodes s (tree_nodes s). int (node_length (nd s n))) \<and>
    protected_size s = (\<Sum>n\<in>locked_nodes s (tree_nodes s). int (node_length (nd s n))) \<and>
    total_size (radix_size_info s) = int (p * size (radix_pages p s))"
proof -
  have ok: "radix_ok p s H" using radix_reach_ok [OF assms] by simp
  obtain A pk pv where f: "full_ok s A pk pv (image_mset handle_node H)" and t: "tree_ok s A pk pv"
    and p: "rpage_size s = p" "radix_pages p s = tree_pages s A"
    and live: "\<And>h xs vs. radix_live s h xs vs \<longleftrightarrow> (\<exists>n\<in>A. h = RadixHandle (length (pk n)) n \<and> xs = pk n \<and> vs = pv n)"
    using ok by (rule radix_ok_E) (rule that)
  have r: "ref_ok s A pk (image_mset handle_node H)" and z: "size_ok s A" using f by (auto simp: full_ok_def)
  have node: "node_key (nd s n) \<noteq> [] \<and> p dvd length (node_key (nd s n)) \<and>
      length (node_value (nd s n)) = length (node_key (nd s n)) \<and>
      ref_count (nd s n) = int (size {#h \<in># H. \<exists>ys ws. radix_live s h ys ws \<and> prefix xs ys#})"
    if sp: "spells s n xs vs" and nr: "n \<noteq> root_node s" for n xs vs
  proof -
    have n: "n \<in> A" "xs = pk n" using sp spells_iff [OF t] by auto
    obtain q where q: "up_ok s A pk pv n q" using tree_ok_up [OF t n(1) nr] .
    have "(\<exists>ys ws. radix_live s h ys ws \<and> prefix xs ys) \<longleftrightarrow> prefix (pk n) (pk (handle_node h))" if "h \<in># H" for h
      using radix_ok_handles [OF ok t that] n(2) by (auto simp: live)
    then have "{#h \<in># H. \<exists>ys ws. radix_live s h ys ws \<and> prefix xs ys#} = {#h \<in># H. prefix (pk n) (pk (handle_node h))#}"
      by (simp cong: filter_mset_cong)
    then show ?thesis using q r n nr p(1)
      by (auto simp: up_ok_def ref_ok_def filter_mset_image_mset)
  qed
  then show ?thesis
    using z radix_total(1) [OF ok] tree_nodes_eq [OF t] unfolding size_ok_def by auto
qed

theorem radix_accounting_witness:
  "ref_count (nd demo_locked 2) = 1 \<and> total_size (radix_size_info demo_locked) = 6 \<and>
   size {#h \<in># {#RadixHandle 4 1#}. \<exists>ys ws. radix_live demo_locked h ys ws \<and> prefix [1, 2] ys#} = 1"
proof -
  have "2 \<noteq> root_node demo_locked" by code_simp
  then have "ref_count (nd demo_locked 2) = int (size {#h \<in># {#RadixHandle 4 1#}.
      \<exists>ys ws. radix_live demo_locked h ys ws \<and> prefix [1, 2] ys#})"
    using radix_accounting [OF demo_locked_reach] demo_locked_spells by blast
  moreover have "ref_count (nd demo_locked 2) = 1" "total_size (radix_size_info demo_locked) = 6"
    by code_simp+
  ultimately show ?thesis by simp
qed

section \<open>Matching\<close>

lemma match_maximal:
  assumes ok: "radix_ok p s H" and eq: "match_prefix s ids = Inr (h, t)"
    and sp: "spells s n xs vs" and k: "p dvd k" "k \<le> length ids" "k \<le> length xs" "take k xs = take k ids"
  shows "k \<le> handle_len h"
proof -
  obtain A pk pv where f: "full_ok s A pk pv (image_mset handle_node H)" and t: "tree_ok s A pk pv"
    and p: "rpage_size s = p" using ok by (rule radix_ok_E) (rule that)
  obtain m q u A' pk' pv' where m: "match_prefix s ids = Inr (RadixHandle q m, u)"
    and post: "walk_post ids s A pk pv (image_mset handle_node H) m q u A' pk' pv'"
    by (rule match_prefix_ok [OF f])
  have "n \<in> A" "xs = pk n" using sp spells_iff [OF t] by auto
  then have "n \<in> A'" "xs = pk' n" using post by (auto simp: walk_post_def grows_def)
  then have "k \<le> q" using walk_maximal [OF post] k p by auto
  with m eq show ?thesis by simp
qed

lemma live_indices:
  assumes ok: "radix_ok p t H" and h: "radix_live t h (take (handle_len h) ids) vs"
    and len: "handle_len h \<le> length ids" and pos: "0 < handle_len h"
  shows "get_matched_indices t h = Inr vs"
proof -
  have "length (take (handle_len h) ids) = handle_len h" using len by simp
  then have "take (handle_len h) ids \<noteq> []" using pos by (metis length_0_conv less_numeral_extra(3))
  with radix.indices [OF ok h] show ?thesis by (simp add: radix_class_def)
qed



section \<open>Insert, then match\<close>

text \<open>
  C15: what was inserted is found again. Inserting tokens with their slots keeps the slots the cache
  already had for the first \<open>q\<close> tokens, takes over the given slots for the rest of the whole
  pages, and a match of the same tokens right afterwards returns all of them, aligned down to a
  page, with exactly those slots.
\<close>

theorem insert_then_match:
  assumes "radix_reach p clk (s, H)" and "length us = length ids"
  shows "\<exists>q h t h' t' vs. insert_prefix s ids us = Inr ((q, h), t) \<and> match_prefix t ids = Inr (h', t') \<and>
      q \<le> handle_len h' \<and> handle_len h' = align_page (length ids) p \<and>
      radix_live t' h' (take (handle_len h') ids) vs \<and> drop q vs = slice q (handle_len h') us \<and>
      radix_pages p t' = radix_pages p s + mset (stride p (slice q (handle_len h') us)) \<and>
      (0 < handle_len h' \<longrightarrow> get_matched_indices t' h' = Inr vs)"
proof -
  have ok: "radix_ok p s H" using radix_reach_ok [OF assms(1)] by simp
  obtain A pk pv where f: "full_ok s A pk pv (image_mset handle_node H)" and t: "tree_ok s A pk pv"
    and p: "rpage_size s = p" using ok by (rule radix_ok_E) (rule that)
  obtain q m t2 A' pk' pv' where eq': "insert_prefix s ids us = Inr ((q, RadixHandle (align_page (length ids) (rpage_size s)) m), t2)"
    by (rule insert_prefix_ok [OF f assms(2)])
  define n where "n = align_page (length ids) p"
  note eq = eq' [unfolded p, folded n_def]
  obtain vs where i: "radix_ok p t2 H" "q \<le> n" "n \<le> length ids"
     "radix_live t2 (RadixHandle n m) (take n ids) vs" "drop q vs = slice q n us"
     "radix_pages p t2 = radix_pages p s + mset (stride p (slice q n us))"
    using radix_insert [OF ok assms(2)] eq by auto
  have reach: "radix_reach p clk (t2, H)" using assms eq by (blast intro: radix_reach.step radix_step.insert)
  obtain h' t' ws where r: "match_prefix t2 ids = Inr (h', t')" "radix_ok p t' H" "handle_len h' \<le> length ids"
    "radix_live t' h' (take (handle_len h') ids) ws" "radix_pages p t' = radix_pages p t2"
    "\<And>h xs ws. radix_live t2 h xs ws \<Longrightarrow> radix_live t' h xs ws"
    using radix_match [OF i(1), of ids] by blast
  have ps: "0 < p" using tree_ok_ps [OF t] p by simp
  have "n \<le> handle_len h'"
  proof (rule match_maximal [OF i(1) r(1)])
    show "spells t2 m (take n ids) vs" using i(4) by (simp add: radix_live_def)
    show "p dvd n" "n \<le> length ids" unfolding n_def by (rule align_page_facts [OF ps])+
  qed (use i in auto)
  moreover have "handle_len h' \<le> n"
  proof -
    have "p dvd handle_len h'" using radix.live_aligned [OF r(2,4)] r(3) by (simp add: min.absorb2)
    with r(3) show ?thesis unfolding n_def by (simp add: align_page_eq) (metis div_le_mono dvd_div_mult_self mult_le_mono1)
  qed
  ultimately have len: "handle_len h' = n" by simp
  have "ws = vs"
  proof -
    obtain B bk bv where tb: "tree_ok t' B bk bv" using r(2) by (rule radix_ok_E) (rule that)
    from r(4) r(6) [OF i(4)] obtain a b where "spells t' a (take n ids) ws" "spells t' b (take n ids) vs"
      by (auto simp: radix_live_def len)
    then show ?thesis using pk_inj [OF tb] by (auto simp: spells_iff [OF tb])
  qed
  moreover have "get_matched_indices t' h' = Inr ws" if "0 < n"
    using live_indices [OF r(2,4,3)] that len by simp
  ultimately show ?thesis using eq r i len n_def by (intro exI conjI) auto
qed

theorem insert_then_match_witness:
  "\<exists>q h t h' t' vs. insert_prefix demo_locked [1, 2, 5, 6, 7] [20, 21, 22, 23, 24] = Inr ((q, h), t) \<and>
     match_prefix t [1, 2, 5, 6, 7] = Inr (h', t') \<and> handle_len h' = 4 \<and> get_matched_indices t' h' = Inr vs \<and>
     drop q vs = slice q 4 [20, 21, 22, 23, 24]"
proof -
  have "align_page (length [1, 2, 5, 6, 7 :: tok]) 2 = 4" by code_simp
  moreover have "length [20, 21, 22, 23, 24 :: slot] = length [1, 2, 5, 6, 7 :: tok]" by simp
  note insert_then_match [OF demo_locked_reach this]
  ultimately show ?thesis by (metis zero_less_numeral)
qed

section \<open>Locks\<close>

text \<open>
  C16: locking protects. Locking a handle leaves every node on its path with a positive reference
  count, so none of its tokens counts as evictable; unlocking it again returns the counters and
  every reference count to what they were, and neither changes the tree's structure.
\<close>

theorem lock_unlock_roundtrip:
  assumes "radix_reach p clk (s, H)" and "radix_live s h xs vs"
  shows "\<exists>t u. lock_handle s h False = Inr t \<and> lock_handle t h True = Inr u \<and>
    (\<forall>n ys ws. spells s n ys ws \<longrightarrow> n \<noteq> root_node s \<longrightarrow> prefix ys xs \<longrightarrow> 0 < ref_count (nd t n)) \<and>
    (\<forall>n ys ws. spells s n ys ws \<longrightarrow> ref_count (nd u n) = ref_count (nd s n)) \<and>
    same_shape s t \<and> same_shape s u \<and> radix_size_info u = radix_size_info s"
  by (rule radix_lock_unlock [OF _ assms(2)]) (use radix_reach_ok [OF assms(1)] in simp)

theorem lock_unlock_roundtrip_witness:
  "\<exists>t u. lock_handle demo_cache (RadixHandle 4 1) False = Inr t \<and> lock_handle t (RadixHandle 4 1) True = Inr u \<and>
    radix_size_info u = radix_size_info demo_cache"
  using lock_unlock_roundtrip [OF demo_reach demo_live] by blast

section \<open>Eviction\<close>

text \<open>
  C17: eviction is safe and sufficient. A request for at most \<^verbatim>\<open>evictable_size\<close> slots frees at least
  that many, in whole pages that the tree gives up exactly once; every locked handle keeps naming
  the same tokens in the same slots, \<^verbatim>\<open>protected_size\<close> is untouched and \<^verbatim>\<open>evictable_size\<close> falls by
  exactly the number of slots freed.
\<close>

theorem evict_safe:
  assumes "radix_reach p clk (s, H)" and "int k \<le> evictable_size s"
  shows "\<exists>ev t. evict s k = Inr (ev, t) \<and> k \<le> length ev \<and> p dvd length ev \<and>
    radix_pages p s = radix_pages p t + mset (stride p ev) \<and>
    (\<forall>h\<in>#H. \<exists>xs vs. radix_live s h xs vs \<and> radix_live t h xs vs) \<and>
    evictable_size t = evictable_size s - int (length ev) \<and> protected_size t = protected_size s"
proof -
  have ok: "radix_ok p s H" using radix_reach_ok [OF assms(1)] by simp
  have need: "int k \<le> si_evictable (radix_size_info s)" using assms(2) by (simp add: radix_size_info_def)
  obtain A pk pv where f: "full_ok s A pk pv (image_mset handle_node H)" using ok by (rule radix_ok_E) (rule that)
  obtain ev t where ev: "evict s k = Inr (ev, t)" "k \<le> length ev" "p dvd length ev"
    "radix_pages p s = radix_pages p t + mset (stride p ev)"
    "si_evictable (radix_size_info t) = si_evictable (radix_size_info s) - int (length ev)"
    "\<forall>h\<in>#H. \<forall>xs vs. radix_live s h xs vs \<longrightarrow> radix_live t h xs vs"
    using radix_evict [OF ok need] by blast
  moreover have "protected_size t = protected_size s"
    using evict_ok [OF f assms(2)] ev(1) by (auto simp: evict_post_def)
  moreover have "\<forall>h\<in>#H. \<exists>xs vs. radix_live s h xs vs" using ok by (simp add: radix_ok_def)
  ultimately show ?thesis by (auto simp: radix_size_info_def) blast
qed

theorem evict_safe_witness:
  "\<exists>ev t. evict demo_locked 1 = Inr (ev, t) \<and> length ev \<ge> 1 \<and> evictable_size demo_locked = 2 \<and>
     (\<exists>xs vs. radix_live t (RadixHandle 4 1) xs vs)"
proof -
  have e: "evictable_size demo_locked = 2" by code_simp
  then show ?thesis using evict_safe [OF demo_locked_reach, of 1] by auto
qed

end
