(* ===== verification/Naive.thy ===== *)
theory Naive
  imports SchedLive
begin

text \<open>
  \<^verbatim>\<open>kvcache/naive_cache.py\<close>: the cache that caches nothing. It has no state; its handles have
  length zero, an insertion gives everything back to the caller, and only an eviction of nothing
  is supported. It meets the contract with no pages and the empty prefix as the only live one.
\<close>

datatype naive = NaivePrefixCache

definition naive_match_prefix :: "naive \<Rightarrow> tok list \<Rightarrow> (handle \<times> naive) res" where
  "naive_match_prefix c ids = Inr (NaiveHandle, c)"

definition naive_insert_prefix ::
  "naive \<Rightarrow> tok list \<Rightarrow> slot list \<Rightarrow> ((nat \<times> handle) \<times> naive) res" where
  "naive_insert_prefix c ids indices = Inr ((0, NaiveHandle), c)"

definition naive_evict :: "naive \<Rightarrow> nat \<Rightarrow> (slot list \<times> naive) res" where
  "naive_evict c n = (if n = 0 then Inr ([], c) else Inl NotImplementedError)"

definition naive_class :: "naive prefix_cache_class" where
  "naive_class = \<lparr>
     pc_lock_handle = (\<lambda>c h unlock. Inr c),
     pc_match_prefix = naive_match_prefix,
     pc_insert_prefix = naive_insert_prefix,
     pc_evict = naive_evict,
     pc_reset = (\<lambda>c. Inr c),
     pc_size_info = (\<lambda>c. \<lparr>si_evictable = 0, si_protected = 0\<rparr>),
     pc_check_integrity = (\<lambda>c. Inr ()),
     pc_matched_indices = (\<lambda>c h. Inr [])\<rparr>"

definition naive_inv :: "nat \<Rightarrow> naive \<Rightarrow> handle multiset \<Rightarrow> bool" where
  "naive_inv p c H \<longleftrightarrow> 0 < p \<and> set_mset H \<subseteq> {NaiveHandle}"

definition naive_live :: "naive \<Rightarrow> handle \<Rightarrow> tok list \<Rightarrow> slot list \<Rightarrow> bool" where
  "naive_live c h xs vs \<longleftrightarrow> h = NaiveHandle \<and> xs = [] \<and> vs = []"

interpretation naive: prefix_cache naive_class naive_inv naive_live "\<lambda>p c. {#}"
  by unfold_locales
    (auto simp: naive_class_def naive_inv_def naive_live_def naive_match_prefix_def
      naive_insert_prefix_def naive_evict_def total_size_def page_prefixes_def)

end
