(* ===== verification/CacheProps.thy ===== *)
theory CacheProps
  imports RadixProps Naive
begin

text \<open>
  The properties of the cache manager over the radix cache: allocation and its rollback, giving
  pages back, and what the integrity check means. \<open>radix_cm_ok H own cm\<close> is page conservation with
  \<open>H\<close> the locked handles and \<open>own\<close> the pages that belong to requests.
\<close>

abbreviation radix_cm_ok :: "handle multiset \<Rightarrow> slot multiset \<Rightarrow> radix cache_manager \<Rightarrow> bool" where
  "radix_cm_ok \<equiv> cm_ok radix_ok radix_pages"

section \<open>A manager for the witnesses\<close>

text \<open>Eight pages of two slots, two rows; one request with the empty prefix locked and four tokens.\<close>

definition demo_req :: req where
  "demo_req = \<lparr>r_class = PlainReq, r_input_ids = [1, 2, 3], r_table_idx = 1, r_cached_len = 0,
     r_device_len = 3, r_max_device_len = 8, r_output_len = 5, r_uid = 7,
     r_sampling = default_sampling_params, r_handle = RadixHandle 0 0\<rparr>"

definition demo_cm0 :: "radix cache_manager" where
  "demo_cm0 = new_cache_manager 8 2 [replicate 8 0, replicate 8 0] (radix_init 2 int)"

definition demo_cm1 :: "radix cache_manager" where
  "demo_cm1 = projr (cm_lock radix_class demo_cm0 (RadixHandle 0 0))"

definition demo_cm2 :: "radix cache_manager" where
  "demo_cm2 = snd (projr (allocate_paged radix_class demo_cm1 [demo_req]))"

lemma demo_cm0_ok: "radix_cm_ok {#} {#} demo_cm0"
  unfolding demo_cm0_def using radix_init_ok [of 2 int] radix_init_pages [of 2 int] by (intro radix.new_ok) simp_all

lemma demo_cm1_ok: "radix_cm_ok {#RadixHandle 0 0#} {#} demo_cm1"
proof -
  have "radix_live (cm_cache demo_cm0) (RadixHandle 0 0) [] []"
  proof -
    have "root_node (cm_cache demo_cm0) = 0" by code_simp
    then show ?thesis using spells.root [of "cm_cache demo_cm0"] by (auto simp: radix_live_def)
  qed
  from radix.lock_ok [OF demo_cm0_ok this] show ?thesis by (auto simp: demo_cm1_def)
qed

lemma demo_fits: "rows_ok (cm_page_size demo_cm1) (cm_table demo_cm1) [demo_req]"
  "int (pages_needed (cm_page_size demo_cm1) [demo_req] * cm_page_size demo_cm1) \<le> available_size radix_class demo_cm1"
  "cm_lazy demo_cm1 = None"
  by code_simp+

section \<open>Allocation\<close>

text \<open>
  C18: allocating the pages of a batch. If the pages the batch still needs fit the available size,
  the allocation succeeds, evicting unlocked cache entries where the free list is too short; the
  pages leave the free list or the cache and belong to the batch, exactly once each; the page table
  is written only behind the cached part of the batch's own rows, where each row receives whole new
  pages; and the available size shrinks by exactly what was handed out.
\<close>

theorem allocate_paged_conserves:
  assumes "radix_cm_ok H own cm" and "rows_ok (cm_page_size cm) (cm_table cm) reqs"
    and "int (pages_needed (cm_page_size cm) reqs * cm_page_size cm) \<le> available_size radix_class cm"
    and "distinct (map r_table_idx reqs)"
  shows "\<exists>tok cm'. allocate_paged radix_class cm reqs = Inr (tok, cm') \<and>
    radix_cm_ok H (mset (stride (cm_page_size cm) (tk_allocated tok)) + own) cm' \<and>
    length (tk_allocated tok) = pages_needed (cm_page_size cm) reqs * cm_page_size cm \<and>
    available_size radix_class cm' = available_size radix_class cm - int (length (tk_allocated tok)) \<and>
    (\<forall>i p. i < length (cm_table cm) \<longrightarrow> p < length (cm_table cm ! i) \<longrightarrow>
       (\<forall>r\<in>set reqs. r_table_idx r = i \<longrightarrow> p < page_ceil (cm_page_size cm) (r_cached_len r) * cm_page_size cm) \<longrightarrow>
       cm_table cm' ! i ! p = cm_table cm ! i ! p) \<and>
    concat (map (\<lambda>r. slice (page_ceil (cm_page_size cm) (r_cached_len r) * cm_page_size cm)
         (page_ceil (cm_page_size cm) (r_device_len r) * cm_page_size cm) (cm_table cm' ! r_table_idx r)) reqs) =
       tk_allocated tok"
  using radix.allocate_paged_ok [OF assms(1-3)] assms(4) by blast

theorem allocate_paged_conserves_witness:
  "\<exists>tok cm'. allocate_paged radix_class demo_cm1 [demo_req] = Inr (tok, cm') \<and>
    radix_cm_ok {#RadixHandle 0 0#} (mset (stride 2 (tk_allocated tok)) + {#}) cm' \<and>
    length (tk_allocated tok) = 4 \<and> slice 0 4 (cm_table cm' ! 1) = tk_allocated tok"
proof -
  have v: "cm_page_size demo_cm1 = 2" "pages_needed 2 [demo_req] = 2" "page_ceil 2 (r_cached_len demo_req) = 0"
    "page_ceil 2 (r_device_len demo_req) = 2" "r_table_idx demo_req = 1" by code_simp+
  show ?thesis
    using allocate_paged_conserves [OF demo_cm1_ok demo_fits(1,2)] unfolding v by (auto simp: v)
qed

text \<open>
  A failed batch leaves no trace. Rolling an allocation back restores every cell of the page
  table and returns every page, so that the same pages are free or cached as before and the same
  size is available; the prefix cache and the locked handles are not touched by the rollback.
\<close>

theorem rollback_undoes_allocation:
  assumes "radix_cm_ok H own cm" and "rows_ok (cm_page_size cm) (cm_table cm) reqs" and "cm_lazy cm = None"
    and "int (pages_needed (cm_page_size cm) reqs * cm_page_size cm) \<le> available_size radix_class cm"
  shows "\<exists>tok cm' cm''. allocate_paged radix_class cm reqs = Inr (tok, cm') \<and>
    rollback_allocation cm' tok = Inr cm'' \<and> cm_table cm'' = cm_table cm \<and> cm_cache cm'' = cm_cache cm' \<and>
    radix_cm_ok H own cm'' \<and> available_size radix_class cm'' = available_size radix_class cm"
proof -
  obtain tok cm' where a: "allocate_paged radix_class cm reqs = Inr (tok, cm')"
    using radix.allocate_paged_ok [OF assms(1,2,4)] by blast
  with radix.rollback_ok [OF assms(1-4) a] show ?thesis by blast
qed

theorem rollback_undoes_allocation_witness:
  "\<exists>tok cm' cm''. allocate_paged radix_class demo_cm1 [demo_req] = Inr (tok, cm') \<and>
    rollback_allocation cm' tok = Inr cm'' \<and> cm_table cm'' = [replicate 8 0, replicate 8 0] \<and>
    available_size radix_class cm'' = 16"
proof -
  have "cm_table demo_cm1 = [replicate 8 0, replicate 8 0]" "available_size radix_class demo_cm1 = 16" by code_simp+
  then show ?thesis
    using rollback_undoes_allocation [OF demo_cm1_ok demo_fits(1,3,2)] by auto
qed

section \<open>Giving pages back\<close>

lemma demo_cm2_ok: "radix_cm_ok {#RadixHandle 0 0#} (radix.req_own demo_cm2 (complete_one demo_req) 3 + {#}) demo_cm2"
  and demo_cm2_wf: "radix.req_wf demo_cm2 (complete_one demo_req)"
proof -
  have v: "cm_page_size demo_cm1 = 2" by code_simp
  obtain tok cm' where a: "allocate_paged radix_class demo_cm1 [demo_req] = Inr (tok, cm')"
    "radix_cm_ok {#RadixHandle 0 0#} (mset (stride 2 (tk_allocated tok)) + {#}) cm'"
    and live: "\<forall>h\<in>#{#RadixHandle 0 0#}. \<forall>xs vs. radix_live (cm_cache demo_cm1) h xs vs \<longrightarrow> radix_live (cm_cache cm') h xs vs"
    using radix.allocate_paged_ok [OF demo_cm1_ok demo_fits(1,2)] unfolding v by blast
  have cm': "cm' = demo_cm2" using a(1) by (simp add: demo_cm2_def)
  have "stride 2 (tk_allocated (fst (projr (allocate_paged radix_class demo_cm1 [demo_req])))) =
      stride (cm_page_size demo_cm2) (slice 0 3 (cm_table demo_cm2 ! 1))" by code_simp
  then show "radix_cm_ok {#RadixHandle 0 0#} (radix.req_own demo_cm2 (complete_one demo_req) 3 + {#}) demo_cm2"
    using a cm' by (simp add: radix.req_own_def complete_one_def demo_req_def)
  have "root_node (cm_cache demo_cm2) = 0" "r_table_idx demo_req < length (cm_table demo_cm2)"
    "3 \<le> length (cm_table demo_cm2 ! 1)" by code_simp+
  then show "radix.req_wf demo_cm2 (complete_one demo_req)"
    using spells.root [of "cm_cache demo_cm2"]
    by (auto simp: radix.req_wf_def complete_one_def demo_req_def radix_live_def)
qed

text \<open>
  C19: giving a request's pages back conserves pages and locks. When the request has finished, its
  pages and its lock are gone from the accounting: each page is now in the cache or free. When
  it continues, its lock moves to the new, longer handle and it keeps exactly the pages behind it.
\<close>

theorem cache_req_conserves:
  assumes "radix_cm_ok (add_mset (r_handle r) H) (radix.req_own cm r (r_cached_len r) + own) cm"
    and "radix.req_wf cm r"
  shows "(\<exists>cm'. cache_req radix_class cm r True = Inr (r, cm') \<and> radix_cm_ok H own cm') \<and>
    (\<exists>h cm'. cache_req radix_class cm r False = Inr (r\<lparr>r_handle := h\<rparr>, cm') \<and>
       handle_len (r_handle r) \<le> handle_len h \<and> radix.req_wf cm' (r\<lparr>r_handle := h\<rparr>) \<and>
       radix_cm_ok (add_mset h H) (radix.req_own cm' (r\<lparr>r_handle := h\<rparr>) (r_cached_len r) + own) cm')"
  using radix.cache_req_finished [OF assms] radix.cache_req_unfinished [OF assms] by blast

theorem cache_req_conserves_witness:
  "\<exists>cm'. cache_req radix_class demo_cm2 (complete_one demo_req) True = Inr (complete_one demo_req, cm') \<and>
     radix_cm_ok {#} {#} cm'"
proof -
  have "r_handle (complete_one demo_req) = RadixHandle 0 0" "r_cached_len (complete_one demo_req) = 3" by code_simp+
  then show ?thesis
    using cache_req_conserves [of "complete_one demo_req" "{#}" demo_cm2 "{#}"] demo_cm2_ok demo_cm2_wf by auto
qed

text \<open>
  the integrity check is exact. While every page is accounted for, it succeeds precisely when
  no request owns a page, and otherwise raises: it reports every leak and nothing else.
\<close>

theorem check_integrity_exact:
  assumes "radix_cm_ok H own cm" and "cm_lazy cm = None"
  shows "check_integrity radix_class cm = (if own = {#} then Inr () else Inl RuntimeError)"
  by (rule radix.check_integrity_iff [OF assms])

theorem check_integrity_exact_witness:
  "check_integrity radix_class demo_cm1 = Inr () \<and> check_integrity radix_class demo_cm2 = Inl RuntimeError"
proof -
  have "stride (cm_page_size demo_cm2) (slice 0 3 (cm_table demo_cm2 ! 1)) = [0, 2]" by code_simp
  then have "radix.req_own demo_cm2 (complete_one demo_req) 3 + {#} \<noteq> {#}"
    by (simp add: radix.req_own_def complete_one_def demo_req_def)
  moreover have "cm_lazy demo_cm2 = None" by code_simp
  ultimately show ?thesis
    using check_integrity_exact [OF demo_cm1_ok demo_fits(3)] check_integrity_exact [OF demo_cm2_ok] by simp
qed

section \<open>Two identical prompts in one batch\<close>




end
