(* ===== verification/RadixLoops.thy ===== *)
theory RadixLoops
  imports RadixProps
begin

text \<open>
  The while loops of the radix cache end. The model bounds them by fuel; here the bounds are shown to be
  no restriction: with any larger bound each loop returns the same.
\<close>

section \<open>More fuel changes nothing\<close>

lemmas loop_cases = sum.splits option.splits prod.splits if_splits

lemma tree_walk_fuel:
  "tree_walk_loop f ids tic n q s \<noteq> Inl Diverges \<Longrightarrow>
     tree_walk_loop (f + k) ids tic n q s = tree_walk_loop f ids tic n q s"
proof (induction f arbitrary: n q s)
  case 0
  then show ?case by (simp add: tree_walk_loop.simps split: if_splits)
next
  case (Suc f)
  then show ?case
    unfolding tree_walk_loop.simps [of "Suc f + k"] tree_walk_loop.simps [of "Suc f"]
    by (auto simp: rbind_def Let_def split: loop_cases)
qed

lemma lock_fuel: "lock_loop f n s \<noteq> Inl Diverges \<Longrightarrow> lock_loop (f + k) n s = lock_loop f n s"
proof (induction f arbitrary: n s)
  case 0
  then show ?case by (subst (1 2) lock_loop.simps, subst (asm) lock_loop.simps) (auto simp: rbind_def split: loop_cases)
next
  case (Suc f)
  then show ?case
    unfolding lock_loop.simps [of "Suc f + k"] lock_loop.simps [of "Suc f"]
    by (auto simp: rbind_def Let_def split: loop_cases)
qed

lemma unlock_fuel: "unlock_loop f n s \<noteq> Inl Diverges \<Longrightarrow> unlock_loop (f + k) n s = unlock_loop f n s"
proof (induction f arbitrary: n s)
  case 0
  then show ?case by (subst (1 2) unlock_loop.simps, subst (asm) unlock_loop.simps) (auto simp: rbind_def split: loop_cases)
next
  case (Suc f)
  then show ?case
    unfolding unlock_loop.simps [of "Suc f + k"] unlock_loop.simps [of "Suc f"]
    by (auto simp: rbind_def Let_def split: loop_cases)
qed

lemma matched_fuel: "matched_loop f n s acc \<noteq> Inl Diverges \<Longrightarrow> matched_loop (f + k) n s acc = matched_loop f n s acc"
proof (induction f arbitrary: n acc)
  case 0
  then show ?case by (subst (1 2) matched_loop.simps, subst (asm) matched_loop.simps) (auto simp: rbind_def split: loop_cases)
next
  case (Suc f)
  then show ?case
    unfolding matched_loop.simps [of "Suc f + k"] matched_loop.simps [of "Suc f"]
    by (auto simp: rbind_def Let_def split: loop_cases)
qed

lemma collect_fuel: "collect_loop f s ns acc \<noteq> Inl Diverges \<Longrightarrow> collect_loop (f + k) s ns acc = collect_loop f s ns acc"
proof (induction f arbitrary: ns acc)
  case 0
  then show ?case by (simp add: collect_loop.simps split: if_splits)
next
  case (Suc f)
  then show ?case
    unfolding collect_loop.simps [of "Suc f + k"] collect_loop.simps [of "Suc f"]
    by (auto simp: rbind_def Let_def split: loop_cases)
qed

lemma evict_fuel:
  "evict_loop f need ls ev sz s \<noteq> Inl Diverges \<Longrightarrow> evict_loop (f + k) need ls ev sz s = evict_loop f need ls ev sz s"
proof (induction f arbitrary: ls ev sz s)
  case 0
  then show ?case by (simp add: evict_loop.simps split: if_splits)
next
  case (Suc f)
  then show ?case
    unfolding evict_loop.simps [of "Suc f + k"] evict_loop.simps [of "Suc f"]
    by (auto simp: rbind_def Let_def split: loop_cases intro: rev_image_eqI)
qed

section \<open>The bounds are enough\<close>

text \<open>
  C12: in every reachable radix cache every loop ends within the bound its model has: the walk down from the root after
  at most one round per token, the climbs to the root from a handle after one round per cached
  token and one more, the search for leaves after one round per node ever made, and the
  eviction after at most one round per slot asked for. With any larger bound, and so without
  one, the result is the same, and it is a result.
\<close>

theorem radix_loops_terminate:
  assumes "radix_reach p clk (s, H)"
  shows "(\<exists>r. tree_walk_loop (length ids) ids tic (root_node s) 0 s = Inr r \<and>
      tree_walk_loop (length ids + k) ids tic (root_node s) 0 s = Inr r) \<and>
    (\<forall>n xs vs. radix_live s (RadixHandle (length xs) n) xs vs \<longrightarrow>
      (\<exists>t. lock_loop (Suc (length xs)) n s = Inr t \<and> lock_loop (Suc (length xs) + k) n s = Inr t) \<and>
      (\<exists>l. matched_loop (Suc (length xs)) n s [] = Inr l \<and> matched_loop (Suc (length xs) + k) n s [] = Inr l)) \<and>
    (\<forall>l n. RadixHandle l n \<in># H \<longrightarrow> (\<exists>t. unlock_loop (Suc l) n s = Inr t \<and> unlock_loop (Suc l + k) n s = Inr t)) \<and>
    (\<exists>ls. collect_leave_nodes_for_evict s = Inr ls \<and> collect_loop (next_uuid s + k) s [root_node s] [] = Inr ls \<and>
      (0 < need \<and> int need \<le> evictable_size s \<longrightarrow>
        (\<exists>r. evict_loop need need ls [] 0 s = Inr r \<and> evict_loop (need + k) need ls [] 0 s = Inr r)))"
proof -
  have ok: "radix_ok p s H" using radix_reach_ok [OF assms] by simp
  obtain A pk pv where full: "full_ok s A pk pv (image_mset handle_node H)" and t: "tree_ok s A pk pv"
    and lives: "\<And>h xs vs. radix_live s h xs vs \<longleftrightarrow> (\<exists>n\<in>A. h = RadixHandle (length (pk n)) n \<and> xs = pk n \<and> vs = pv n)"
    using ok by (rule radix_ok_E) (rule that)
  have root: "root_node s \<in> A" "pk (root_node s) = take 0 ids"
    using tree_ok_root [OF t] tree_ok_root_ok [OF t] by (auto simp: root_ok_def)
  obtain r where r: "tree_walk_loop (length ids) ids tic (root_node s) 0 s = Inr r"
    using tree_walk_loop_ok [OF full root, of "length ids" tic] by auto
  have "tree_walk_loop (length ids + k) ids tic (root_node s) 0 s = Inr r"
    using tree_walk_fuel [of "length ids" ids tic "root_node s" 0 s k] r by simp
  moreover have "(\<exists>t. lock_loop (Suc (length xs)) n s = Inr t \<and> lock_loop (Suc (length xs) + k) n s = Inr t) \<and>
      (\<exists>l. matched_loop (Suc (length xs)) n s [] = Inr l \<and> matched_loop (Suc (length xs) + k) n s [] = Inr l)"
    if live: "radix_live s (RadixHandle (length xs) n) xs vs" for n xs vs
  proof -
    obtain u where u: "lock_loop (Suc (length xs)) n s = Inr u"
      using radix_lock [OF ok live] by (auto simp: lock_handle_def)
    have "n \<in> A" "xs = pk n" using live unfolding lives by auto
    then have l: "\<exists>l. matched_loop (Suc (length xs)) n s [] = Inr l" using matched_loop_ok [OF t, of n "Suc (length xs)" "[]"] by auto
    show ?thesis using u l lock_fuel [of "Suc (length xs)" n s k] matched_fuel [of "Suc (length xs)" n s "[]" k] by force
  qed
  moreover have "\<exists>t. unlock_loop (Suc l) n s = Inr t \<and> unlock_loop (Suc l + k) n s = Inr t" if "RadixHandle l n \<in># H" for l n
  proof -
    have "radix_ok p s (add_mset (RadixHandle l n) (H - {#RadixHandle l n#}))" using ok that by simp
    from radix_unlock [OF this] obtain u where "unlock_loop (Suc l) n s = Inr u" by (auto simp: lock_handle_def)
    then show ?thesis using unlock_fuel [of "Suc l" n s k] by simp
  qed
  moreover have "\<exists>ls. collect_leave_nodes_for_evict s = Inr ls \<and> collect_loop (next_uuid s + k) s [root_node s] [] = Inr ls \<and>
      (0 < need \<and> int need \<le> evictable_size s \<longrightarrow>
        (\<exists>r. evict_loop need need ls [] 0 s = Inr r \<and> evict_loop (need + k) need ls [] 0 s = Inr r))"
  proof -
    obtain ls where ls: "collect_leave_nodes_for_evict s = Inr ls" using collect_leave_nodes_ok [OF t] .
    then have "collect_loop (next_uuid s + k) s [root_node s] [] = Inr ls"
      using collect_fuel [of "next_uuid s" s "[root_node s]" "[]" k] by (simp add: collect_leave_nodes_for_evict_def)
    moreover have "\<exists>r. evict_loop need need ls [] 0 s = Inr r \<and> evict_loop (need + k) need ls [] 0 s = Inr r"
      if pos: "0 < need" and le: "int need \<le> evictable_size s"
    proof -
      have "\<exists>r. evict s need = Inr r" using radix_evict [OF ok, of need] le by (auto simp: radix_size_info_def)
      then obtain r where "evict_loop need need ls [] 0 s = Inr r"
        using pos ls by (auto simp: evict_def rbind_eq_Inr)
      then show ?thesis using evict_fuel [of need need ls "[]" 0 s k] by simp
    qed
    ultimately show ?thesis using ls by blast
  qed
  ultimately show ?thesis using r by blast
qed

theorem radix_loops_terminate_witness:
  "(\<exists>r. tree_walk_loop 2 [1, 2] 9 (root_node demo_cache) 0 demo_cache = Inr r \<and>
      tree_walk_loop (2 + 100) [1, 2] 9 (root_node demo_cache) 0 demo_cache = Inr r) \<and>
   (\<exists>ls. collect_leave_nodes_for_evict demo_cache = Inr ls \<and>
      collect_loop (next_uuid demo_cache + 100) demo_cache [root_node demo_cache] [] = Inr ls \<and>
      (\<exists>r. evict_loop 5 5 ls [] 0 demo_cache = Inr r \<and> evict_loop (5 + 100) 5 ls [] 0 demo_cache = Inr r))"
proof -
  have e: "int 5 \<le> evictable_size demo_cache" by code_simp
  have l: "length [1, 2 :: tok] = 2" by simp
  note T = radix_loops_terminate [OF demo_reach, of "[1, 2]" 9 100 5, unfolded l]
  have "\<exists>ls. collect_leave_nodes_for_evict demo_cache = Inr ls \<and>
      collect_loop (next_uuid demo_cache + 100) demo_cache [root_node demo_cache] [] = Inr ls \<and>
      (0 < (5 :: nat) \<and> int 5 \<le> evictable_size demo_cache \<longrightarrow>
       (\<exists>r. evict_loop 5 5 ls [] 0 demo_cache = Inr r \<and> evict_loop (5 + 100) 5 ls [] 0 demo_cache = Inr r))"
    using T by blast
  moreover have "0 < (5 :: nat)" by simp
  ultimately show ?thesis using T e by blast
qed

end
