(* ===== verification/Tokenizer.thy ===== *)
theory Tokenizer
  imports Messages
begin

text \<open>
  \<^verbatim>\<open>tokenizer/detokenize.py\<close>, \<^verbatim>\<open>tokenizer/tokenize.py\<close> and the dispatch of \<^verbatim>\<open>tokenizer/server.py\<close>. Text is a list of
  code points. The tokenizer itself is not part of the repository: encoding a prompt, applying
  the chat template and decoding token ids are parameters.
\<close>

type_synonym ustr = "int list"

section \<open>Printable text\<close>

definition is_chinese_char :: "int \<Rightarrow> bool" where
  "is_chinese_char cp \<longleftrightarrow>
     (0x4E00 \<le> cp \<and> cp \<le> 0x9FFF) \<or> (0x3400 \<le> cp \<and> cp \<le> 0x4DBF) \<or> (0x20000 \<le> cp \<and> cp \<le> 0x2A6DF) \<or>
     (0x2A700 \<le> cp \<and> cp \<le> 0x2B73F) \<or> (0x2B740 \<le> cp \<and> cp \<le> 0x2B81F) \<or> (0x2B820 \<le> cp \<and> cp \<le> 0x2CEAF) \<or>
     (0xF900 \<le> cp \<and> cp \<le> 0xFAFF) \<or> (0x2F800 \<le> cp \<and> cp \<le> 0x2FA1F)"

text \<open>\<^verbatim>\<open>text[: text.rfind(c) + 1]\<close>: up to the last occurrence, nothing when there is none.\<close>

definition upto_last :: "int \<Rightarrow> ustr \<Rightarrow> ustr" where
  "upto_last c s = rev (dropWhile (\<lambda>x. x \<noteq> c) (rev s))"

definition find_printable_text :: "ustr \<Rightarrow> ustr" where
  "find_printable_text t =
     (if t \<noteq> [] \<and> last t = 10 then t
      else if length t > 0 \<and> is_chinese_char (last t) then t
      else if length t > 1 \<and> is_chinese_char (t ! (length t - 2)) then butlast t
      else upto_last 32 t)"

section \<open>Incremental detokenization\<close>

record decode_status =
  ds_ids :: "tok list"
  ds_str :: ustr
  ds_read :: nat
  ds_surr :: nat
  ds_sent :: nat

type_synonym decode_map = "int \<Rightarrow> decode_status option"

definition new_status :: decode_status where
  "new_status = \<lparr>ds_ids = [], ds_str = [], ds_read = 0, ds_surr = 0, ds_sent = 0\<rparr>"

text \<open>The first pass appends the token of a message and cuts the two id lists to decode.\<close>

definition detok_feed :: "tok \<Rightarrow> int \<times> tok \<times> bool \<Rightarrow> decode_map \<Rightarrow> (tok list \<times> tok list) \<times> decode_map" where
  "detok_feed eos msg m = (case msg of (u, t, fin) \<Rightarrow>
     let s = (case m u of None \<Rightarrow> new_status | Some s \<Rightarrow> s);
         s = (if \<not> (fin \<and> t = eos) then s\<lparr>ds_ids := ds_ids s @ [t]\<rparr> else s)
     in ((drop (ds_surr s) (ds_ids s), slice (ds_surr s) (ds_read s) (ds_ids s)), m(u \<mapsto> s)))"

fun detok_feeds :: "tok \<Rightarrow> (int \<times> tok \<times> bool) list \<Rightarrow> decode_map \<Rightarrow> (tok list \<times> tok list) list \<times> decode_map" where
  "detok_feeds eos [] m = ([], m)"
| "detok_feeds eos (msg # msgs) m =
     (let (p, m) = detok_feed eos msg m; (ps, m) = detok_feeds eos msgs m in (p # ps, m))"

text \<open>The second pass turns the decoded texts into the text to send; 65533 is the replacement character.\<close>

definition ends_bad :: "ustr \<Rightarrow> bool" where
  "ends_bad t \<longleftrightarrow> t \<noteq> [] \<and> last t = 65533"

definition detok_emit :: "ustr \<Rightarrow> ustr \<Rightarrow> decode_status \<Rightarrow> ustr \<times> decode_status" where
  "detok_emit read_str surr_str s =
     (let new_text = drop (length surr_str) read_str;
          (output_str, s) =
            (if length new_text > 0 \<and> \<not> ends_bad new_text then
               let output_str = ds_str s @ new_text
               in (output_str, s\<lparr>ds_str := output_str, ds_surr := ds_read s, ds_read := length (ds_ids s)\<rparr>)
             else (ds_str s @ find_printable_text new_text, s))
      in (drop (ds_sent s) output_str, s\<lparr>ds_sent := length output_str\<rparr>))"

fun detok_emits ::
  "(int \<times> tok \<times> bool) list \<Rightarrow> (ustr \<times> ustr) list \<Rightarrow> decode_map \<Rightarrow> (ustr list \<times> decode_map) res" where
  "detok_emits [] [] m = Inr ([], m)"
| "detok_emits ((u, t, fin) # msgs) ((read_str, surr_str) # ts) m =
     (case m u of
        None \<Rightarrow> Inl KeyError
      | Some s \<Rightarrow>
          let (out, s) = detok_emit read_str surr_str s;
              m = (if fin then m(u := None) else m(u \<mapsto> s)) in
          rbind (detok_emits msgs ts m) (\<lambda>(outs, m). Inr (out # outs, m)))"
| "detok_emits _ _ m = Inl ValueError"

definition detokenize :: "(tok list \<Rightarrow> ustr) \<Rightarrow> tok \<Rightarrow> (int \<times> tok \<times> bool) list \<Rightarrow> decode_map \<Rightarrow> (ustr list \<times> decode_map) res" where
  "detokenize dec eos msgs m =
     (let (ps, m) = detok_feeds eos msgs m
      in detok_emits msgs (map (\<lambda>(r, s). (dec r, dec s)) ps) m)"

section \<open>Tokenization\<close>

text \<open>A list of chat messages goes through the template, which must yield a string (\<open>None\<close> stands for anything else).\<close>

definition tokenize_one :: "((string \<times> string) list list \<Rightarrow> string option) \<Rightarrow> (string \<Rightarrow> tok list) \<Rightarrow> chat_text \<Rightarrow> tok list res" where
  "tokenize_one tmpl enc t = (case t of
      PlainText p \<Rightarrow> Inr (enc p)
    | ChatMessages ms \<Rightarrow> (case tmpl ms of None \<Rightarrow> Inl AssertionError | Some p \<Rightarrow> Inr (enc p)))"

definition tokenize ::
  "((string \<times> string) list list \<Rightarrow> string option) \<Rightarrow> (string \<Rightarrow> tok list) \<Rightarrow> chat_text list \<Rightarrow> tok list list res" where
  "tokenize tmpl enc ts = res_map (tokenize_one tmpl enc) ts"

section \<open>The worker\<close>

definition unwrap_tok :: "tokenizer_msg \<Rightarrow> tokenizer_msg list" where
  "unwrap_tok m = (case m of BatchTokenizerMsg ms \<Rightarrow> ms | m \<Rightarrow> [m])"

text \<open>
  One round of receiving: the first message is waited for, then more are taken while the batch is
  short and the queue is not empty. The queue is the list of messages that have arrived.
\<close>

fun gather_more :: "nat \<Rightarrow> tokenizer_msg list \<Rightarrow> tokenizer_msg list \<Rightarrow> tokenizer_msg list \<times> tokenizer_msg list" where
  "gather_more local_bs pending [] = (pending, [])"
| "gather_more local_bs pending (m # queue) =
     (if length pending < local_bs then gather_more local_bs (pending @ unwrap_tok m) queue else (pending, m # queue))"

definition receive_round :: "nat \<Rightarrow> tokenizer_msg list \<Rightarrow> (tokenizer_msg list \<times> tokenizer_msg list) option" where
  "receive_round local_bs queue = (case queue of [] \<Rightarrow> None | m # queue \<Rightarrow> Some (gather_more local_bs (unwrap_tok m) queue))"

definition detok_part :: "tokenizer_msg list \<Rightarrow> (int \<times> tok \<times> bool) list" where
  "detok_part ms = List.map_filter (\<lambda>m. case m of DetokenizeMsg u t f \<Rightarrow> Some (u, t, f) | _ \<Rightarrow> None) ms"

definition tok_part :: "tokenizer_msg list \<Rightarrow> (int \<times> chat_text \<times> sampling_params) list" where
  "tok_part ms = List.map_filter (\<lambda>m. case m of TokenizeMsg u t sp \<Rightarrow> Some (u, t, sp) | _ \<Rightarrow> None) ms"

definition abort_part :: "tokenizer_msg list \<Rightarrow> int list" where
  "abort_part ms = List.map_filter (\<lambda>m. case m of AbortMsg u \<Rightarrow> Some u | _ \<Rightarrow> None) ms"

definition ack_part :: "tokenizer_msg list \<Rightarrow> int list" where
  "ack_part ms = List.map_filter (\<lambda>m. case m of AbortAckMsg u \<Rightarrow> Some u | _ \<Rightarrow> None) ms"

text \<open>A list of messages is sent as one, wrapped when it is not a singleton, and not at all when empty.\<close>

definition wrap_frontend :: "'s frontend_msg list \<Rightarrow> 's frontend_msg list" where
  "wrap_frontend ms = (case ms of [] \<Rightarrow> [] | [m] \<Rightarrow> [m] | ms \<Rightarrow> [BatchFrontendMsg ms])"

definition wrap_backend :: "backend_msg list \<Rightarrow> backend_msg list" where
  "wrap_backend ms = (case ms of [] \<Rightarrow> [] | [m] \<Rightarrow> [m] | ms \<Rightarrow> [BatchBackendMsg ms])"

record worker =
  w_decode :: decode_map
  w_frontend :: "ustr frontend_msg list"
  w_backend :: "backend_msg list"

definition worker_round ::
  "((string \<times> string) list list \<Rightarrow> string option) \<Rightarrow> (string \<Rightarrow> tok list) \<Rightarrow> (tok list \<Rightarrow> ustr) \<Rightarrow> tok \<Rightarrow>
   tokenizer_msg list \<Rightarrow> worker \<Rightarrow> worker res" where
  "worker_round tmpl enc dec eos pending w =
     (let dm = detok_part pending; tm = tok_part pending; am = abort_part pending; km = ack_part pending in
      rbind (py_assert (length dm + length tm + length am + length km = length pending)) (\<lambda>_.
      rbind (if length dm > 0 then detokenize dec eos dm (w_decode w) else Inr ([], w_decode w)) (\<lambda>(replies, m).
      let w = w\<lparr>w_decode := m, w_frontend := w_frontend w @
                wrap_frontend (map (\<lambda>((u, t, f), r). UserReply u r f) (zip dm replies))\<rparr> in
      rbind (tokenize tmpl enc (map (fst \<circ> snd) tm)) (\<lambda>tensors.
      Inr (w\<lparr>w_backend := w_backend w @
               wrap_backend (map (\<lambda>((u, t, sp), ids). UserMsg u ids sp) (zip tm tensors)) @
               wrap_backend (map AbortBackendMsg am),
             w_frontend := w_frontend w @ wrap_frontend (map AbortAckReply km)\<rparr>)))))"

end
