(* ===== verification/Frontend.thy ===== *)
theory Frontend
  imports Tokenizer PyText
begin

text \<open>
  \<^verbatim>\<open>server/api_server.py\<close>: the bookkeeping of \<^verbatim>\<open>FrontendManager\<close>, its coroutines cut at their awaits and
  yields, and the HTTP and shell handlers on top of it. \<^verbatim>\<open>asyncio.Event\<close> objects are shared between the
  maps and suspended coroutines, so they are indices into a list of flags. Sending a chunk to
  a client, JSON and the sockets are outside.
\<close>

section \<open>Requests\<close>

datatype role = System | User | Assistant

definition role_name :: "role \<Rightarrow> string" where
  "role_name r = (case r of System \<Rightarrow> ''system'' | User \<Rightarrow> ''user'' | Assistant \<Rightarrow> ''assistant'')"

record message =
  m_role :: role
  m_content :: string

definition model_dump :: "message \<Rightarrow> (string \<times> string) list" where
  "model_dump m = [(''role'', role_name (m_role m)), (''content'', m_content m)]"

record generate_request =
  gr_prompt :: string
  gr_max_tokens :: int
  gr_ignore_eos :: bool

record completion_request =
  or_prompt :: "string option"
  or_messages :: "message list option"
  or_max_tokens :: int
  or_temperature :: rat
  or_top_k :: int
  or_top_p :: rat
  or_stream :: bool
  or_ignore_eos :: bool

section \<open>The manager\<close>

type_synonym reply = "int \<times> ustr \<times> bool"

record frontend =
  fe_uid_counter :: int
  fe_initialized :: bool
  fe_ack :: "int \<Rightarrow> reply list option"
  fe_event :: "int \<Rightarrow> nat option"
  fe_events :: "bool list"
  fe_abort :: "int list"
  fe_abort_event :: "int \<Rightarrow> nat option"
  fe_sent :: "tokenizer_msg list"

definition new_frontend :: frontend where
  "new_frontend = \<lparr>fe_uid_counter = 0, fe_initialized = False, fe_ack = Map.empty, fe_event = Map.empty,
     fe_events = [], fe_abort = [], fe_abort_event = Map.empty, fe_sent = []\<rparr>"

definition new_user :: "frontend \<Rightarrow> int \<times> frontend" where
  "new_user f =
     (let uid = fe_uid_counter f in
      (uid, f\<lparr>fe_uid_counter := uid + 1, fe_ack := (fe_ack f)(uid \<mapsto> []),
              fe_event := (fe_event f)(uid \<mapsto> length (fe_events f)), fe_events := fe_events f @ [False]\<rparr>))"

definition set_event :: "nat option \<Rightarrow> bool \<Rightarrow> frontend \<Rightarrow> frontend" where
  "set_event e b f = (case e of None \<Rightarrow> f | Some e \<Rightarrow> f\<lparr>fe_events := (fe_events f)[e := b]\<rparr>)"

definition unwrap_frontend :: "ustr frontend_msg \<Rightarrow> ustr frontend_msg list" where
  "unwrap_frontend m = (case m of BatchFrontendMsg ms \<Rightarrow> ms | m \<Rightarrow> [m])"

definition listen_one :: "ustr frontend_msg \<Rightarrow> frontend \<Rightarrow> frontend res" where
  "listen_one m f = (case m of
      AbortAckReply uid \<Rightarrow>
        let ev = fe_event f uid; pending_ev = fe_abort_event f uid;
            f = f\<lparr>fe_abort := removeAll uid (fe_abort f), fe_ack := (fe_ack f)(uid := None),
                  fe_event := (fe_event f)(uid := None)\<rparr>;
            f = set_event ev True f;
            f = f\<lparr>fe_abort_event := (fe_abort_event f)(uid := None)\<rparr>
        in Inr (set_event pending_ev True f)
    | UserReply uid txt fin \<Rightarrow>
        (case fe_ack f uid of
           None \<Rightarrow> Inr f
         | Some q \<Rightarrow>
             if uid \<in> set (fe_abort f) then Inr f
             else (case fe_event f uid of
                 None \<Rightarrow> Inl KeyError
               | Some e \<Rightarrow> Inr (set_event (Some e) True (f\<lparr>fe_ack := (fe_ack f)(uid \<mapsto> q @ [(uid, txt, fin)])\<rparr>))))
    | BatchFrontendMsg ms \<Rightarrow> Inl AssertionError)"

definition listen :: "ustr frontend_msg \<Rightarrow> frontend \<Rightarrow> frontend res" where
  "listen m f = res_fold listen_one (unwrap_frontend m) f"

definition send_one :: "tokenizer_msg \<Rightarrow> frontend \<Rightarrow> frontend" where
  "send_one m f = f\<lparr>fe_initialized := True, fe_sent := fe_sent f @ [m]\<rparr>"

definition abort_user :: "int \<Rightarrow> frontend \<Rightarrow> frontend" where
  "abort_user uid f =
     (let f = f\<lparr>fe_abort := List.insert uid (fe_abort f)\<rparr>;
          f = (if fe_abort_event f uid = None then
                 f\<lparr>fe_abort_event := (fe_abort_event f)(uid \<mapsto> length (fe_events f)), fe_events := fe_events f @ [False]\<rparr>
               else f)
      in send_one (AbortMsg uid) f)"

text \<open>Whether the coroutine that waits for an acknowledgement can go on.\<close>

definition wait_for_abort_ack :: "int \<Rightarrow> frontend \<Rightarrow> bool" where
  "wait_for_abort_ack uid f = (case fe_abort_event f uid of None \<Rightarrow> True | Some e \<Rightarrow> fe_events f ! e)"

section \<open>The generator of replies\<close>

text \<open>
  \<^verbatim>\<open>wait_for_ack\<close> suspended: not started, at \<^verbatim>\<open>await event.wait()\<close>, or at a \<^verbatim>\<open>yield\<close> with the replies left to
  yield and the last one yielded.
\<close>

datatype waiter =
    Fresh int
  | Waiting int nat
  | Yielding int nat "reply list" reply

datatype outcome = Yield reply waiter | Blocked waiter | Stop

text \<open>
  From the wait on: when the event is set the drained list is yielded; an empty one leads back to the
  wait, where the event has just been cleared.
\<close>

definition wait_resume :: "int \<Rightarrow> nat \<Rightarrow> frontend \<Rightarrow> outcome \<times> frontend" where
  "wait_resume uid e f =
     (if \<not> fe_events f ! e then (Blocked (Waiting uid e), f)
      else
        let f = f\<lparr>fe_events := (fe_events f)[e := False]\<rparr> in
        (case fe_ack f uid of
           None \<Rightarrow> (Stop, f)
         | Some pending \<Rightarrow>
             let f = f\<lparr>fe_ack := (fe_ack f)(uid \<mapsto> [])\<rparr> in
             (case pending of
                [] \<Rightarrow> (Blocked (Waiting uid e), f)
              | a # rest \<Rightarrow> (Yield a (Yielding uid e rest a), f))))"

fun gen_next :: "waiter \<Rightarrow> frontend \<Rightarrow> (outcome \<times> frontend) res" where
  "gen_next (Fresh uid) f = (case fe_event f uid of None \<Rightarrow> Inl KeyError | Some e \<Rightarrow> Inr (wait_resume uid e f))"
| "gen_next (Waiting uid e) f = Inr (wait_resume uid e f)"
| "gen_next (Yielding uid e (a # rest) _) f = Inr (Yield a (Yielding uid e rest a), f)"
| "gen_next (Yielding uid e [] (_, _, fin)) f =
     (if fin then
        (if fe_ack f uid = None \<or> fe_event f uid = None then Inl KeyError
         else Inr (Stop, f\<lparr>fe_ack := (fe_ack f)(uid := None), fe_event := (fe_event f)(uid := None)\<rparr>))
      else Inr (wait_resume uid e f))"

section \<open>Streams\<close>

definition ascii :: "string \<Rightarrow> ustr" where
  "ascii s = map of_char s"

text \<open>\<^verbatim>\<open>stream_generate\<close>: the chunk of a reply; after a finished one, or when the generator stops, the end marker.\<close>

definition generate_chunk :: "reply \<Rightarrow> ustr" where
  "generate_chunk a = (case a of (_, txt, _) \<Rightarrow> ascii ''data: '' @ txt @ [10])"

definition generate_done :: ustr where
  "generate_done = ascii ''data: [DONE]'' @ [10]"

text \<open>\<^verbatim>\<open>stream_chat_completions\<close>: the first chunk names the role, an empty text has no content.\<close>

record chat_chunk =
  cc_id :: int
  cc_role :: "string option"
  cc_content :: "ustr option"
  cc_finish :: "string option"

definition chat_chunk_of :: "bool \<Rightarrow> reply \<Rightarrow> chat_chunk" where
  "chat_chunk_of first_chunk a = (case a of (uid, txt, _) \<Rightarrow>
     \<lparr>cc_id = uid, cc_role = (if first_chunk then Some ''assistant'' else None),
      cc_content = (if txt \<noteq> [] then Some txt else None), cc_finish = None\<rparr>)"

definition chat_end :: "int \<Rightarrow> chat_chunk" where
  "chat_end uid = \<lparr>cc_id = uid, cc_role = None, cc_content = None, cc_finish = Some ''stop''\<rparr>"

fun chat_stream :: "bool \<Rightarrow> int \<Rightarrow> reply list \<Rightarrow> chat_chunk list" where
  "chat_stream first_chunk uid [] = [chat_end uid]"
| "chat_stream first_chunk uid (a # as) =
     chat_chunk_of first_chunk a # (if snd (snd a) then [chat_end uid] else chat_stream False uid as)"

fun generate_stream :: "reply list \<Rightarrow> ustr list" where
  "generate_stream [] = [generate_done]"
| "generate_stream (a # as) = generate_chunk a # (if snd (snd a) then [generate_done] else generate_stream as)"

text \<open>The content of a reply that is not streamed.\<close>

fun full_content :: "reply list \<Rightarrow> ustr" where
  "full_content [] = []"
| "full_content ((_, txt, fin) # as) = txt @ (if fin then [] else full_content as)"

section \<open>Handlers\<close>

definition generate_params :: "generate_request \<Rightarrow> sampling_params" where
  "generate_params r = default_sampling_params\<lparr>sp_ignore_eos := gr_ignore_eos r, sp_max_tokens := gr_max_tokens r\<rparr>"

definition generate :: "generate_request \<Rightarrow> frontend \<Rightarrow> int \<times> frontend" where
  "generate r f =
     (let (uid, f) = new_user f
      in (uid, send_one (TokenizeMsg uid (PlainText (gr_prompt r)) (generate_params r)) f))"

definition completion_params :: "completion_request \<Rightarrow> sampling_params" where
  "completion_params r = default_sampling_params\<lparr>sp_ignore_eos := or_ignore_eos r, sp_max_tokens := or_max_tokens r,
     sp_temperature := or_temperature r, sp_top_k := or_top_k r, sp_top_p := or_top_p r\<rparr>"

definition v1_completions :: "completion_request \<Rightarrow> frontend \<Rightarrow> (int \<times> frontend) res" where
  "v1_completions r f =
     rbind (case or_messages r of
         Some (m # ms) \<Rightarrow> Inr (ChatMessages (map model_dump (m # ms)))
       | _ \<Rightarrow> (case or_prompt r of None \<Rightarrow> Inl AssertionError | Some p \<Rightarrow> Inr (PlainText p))) (\<lambda>prompt.
     let (uid, f) = new_user f
     in Inr (uid, send_one (TokenizeMsg uid prompt (completion_params r)) f))"

definition shell_completion :: "completion_request \<Rightarrow> frontend \<Rightarrow> (int \<times> frontend) res" where
  "shell_completion r f = (case or_messages r of
      None \<Rightarrow> Inl AssertionError
    | Some ms \<Rightarrow>
        let (uid, f) = new_user f
        in Inr (uid, send_one (TokenizeMsg uid (ChatMessages (map model_dump ms)) (completion_params r)) f))"

section \<open>The shell\<close>

datatype command = SkipLine | ExitShell | ResetHistory | Prompt string

definition shell_command :: "string \<Rightarrow> command res" where
  "shell_command line =
     (let cmd = strip line in
      if cmd = [] then Inr SkipLine
      else if take 1 cmd = ''/'' then
        if cmd = ''/exit'' then Inr ExitShell
        else if cmd = ''/reset'' then Inr ResetHistory
        else Inl ValueError
      else Inr (Prompt cmd))"

definition history_messages :: "(string \<times> string) list \<Rightarrow> string \<Rightarrow> message list" where
  "history_messages history cmd =
     concat (map (\<lambda>(u, a). [\<lparr>m_role = User, m_content = u\<rparr>, \<lparr>m_role = Assistant, m_content = a\<rparr>]) history) @
     [\<lparr>m_role = User, m_content = cmd\<rparr>]"

text \<open>The text the shell prints for a chunk; the end marker prints nothing.\<close>

definition shell_chunk :: "ustr \<Rightarrow> ustr option res" where
  "shell_chunk msg =
     rbind (py_assert (take 6 msg = ascii ''data: '')) (\<lambda>_.
     let msg = drop 6 msg in
     rbind (py_assert (msg \<noteq> [] \<and> last msg = 10)) (\<lambda>_.
     let msg = butlast msg in
     Inr (if msg = ascii ''[DONE]'' then None else Some msg)))"

definition shell_text :: "ustr list \<Rightarrow> ustr res" where
  "shell_text chunks = rbind (res_map shell_chunk chunks) (\<lambda>ts. Inr (concat (List.map_filter id ts)))"

end
