(* ===== verification/TokenizerProps.thy ===== *)
theory TokenizerProps
  imports Tokenizer "HOL-Library.Sublist"
begin

text \<open>
  Streaming is exact: the pieces sent for a request make up the decoding of all its tokens. What is
  asked of the tokenizer is that decoding is additive at complete characters and that at most one
  replacement character is pending.
\<close>

section \<open>A stream of one request\<close>






lemma find_printable_Nil [simp]: "find_printable_text [] = []"
  by (simp add: find_printable_text_def upto_last_def)

















section \<open>What goes wrong\<close>


end
