(* ===== verification/FrontendProps.thy ===== *)
theory FrontendProps
  imports Frontend TokenizerProps
begin

text \<open>
  The frontend as a transition system: clients submit and disconnect, the listener dispatches what
  arrives, and handlers pull their generators. Every stream delivers what was received for it, in
  order and without loss.
\<close>

section \<open>The system\<close>

text \<open>A stream is a handler's suspended generator with what it delivered; \<open>sy_got\<close> records what arrived per uid.\<close>

record system =
  sy_fe :: frontend
  sy_streams :: "int \<Rightarrow> (waiter \<times> reply list) option"
  sy_got :: "int \<Rightarrow> reply list"

definition init_system :: system where
  "init_system = \<lparr>sy_fe = new_frontend, sy_streams = Map.empty, sy_got = (\<lambda>_. [])\<rparr>"

inductive fe_step :: "system \<Rightarrow> system \<Rightarrow> bool" where
  submit: "new_user (sy_fe s) = (uid, f) \<Longrightarrow>
    fe_step s (s\<lparr>sy_fe := send_one m f, sy_streams := (sy_streams s)(uid \<mapsto> (Fresh uid, [])), sy_got := (sy_got s)(uid := [])\<rparr>)"
| reply: "listen_one (UserReply uid txt fin) (sy_fe s) = Inr f \<Longrightarrow>
    fe_step s (s\<lparr>sy_fe := f, sy_got := (sy_got s)(uid := sy_got s uid @ [(uid, txt, fin)])\<rparr>)"
| ack: "listen_one (AbortAckReply uid) (sy_fe s) = Inr f \<Longrightarrow> fe_step s (s\<lparr>sy_fe := f\<rparr>)"
| pull: "sy_streams s uid = Some (w, d) \<Longrightarrow> gen_next w (sy_fe s) = Inr (Yield a w', f) \<Longrightarrow> \<not> snd (snd a) \<Longrightarrow>
    fe_step s (s\<lparr>sy_fe := f, sy_streams := (sy_streams s)(uid \<mapsto> (w', d @ [a]))\<rparr>)"
| last: "sy_streams s uid = Some (w, d) \<Longrightarrow> gen_next w (sy_fe s) = Inr (Yield a w', f) \<Longrightarrow> snd (snd a) \<Longrightarrow>
    fe_step s (s\<lparr>sy_fe := f, sy_streams := (sy_streams s)(uid := None)\<rparr>)"
| wait: "sy_streams s uid = Some (w, d) \<Longrightarrow> gen_next w (sy_fe s) = Inr (Blocked w', f) \<Longrightarrow>
    fe_step s (s\<lparr>sy_fe := f, sy_streams := (sy_streams s)(uid \<mapsto> (w', d))\<rparr>)"
| stop: "sy_streams s uid = Some (w, d) \<Longrightarrow> gen_next w (sy_fe s) = Inr (Stop, f) \<Longrightarrow>
    fe_step s (s\<lparr>sy_fe := f, sy_streams := (sy_streams s)(uid := None)\<rparr>)"
| disconnect: "sy_streams s uid = Some (w, d) \<Longrightarrow>
    fe_step s (s\<lparr>sy_fe := abort_user uid (sy_fe s), sy_streams := (sy_streams s)(uid := None)\<rparr>)"

inductive_cases fe_step_cases: "fe_step s s'"

inductive reachable :: "system \<Rightarrow> bool" where
  start: "reachable init_system"
| step: "reachable s \<Longrightarrow> fe_step s s' \<Longrightarrow> reachable s'"

section \<open>The invariant\<close>

fun rest_of :: "waiter \<Rightarrow> reply list" where
  "rest_of (Fresh _) = []"
| "rest_of (Waiting _ _) = []"
| "rest_of (Yielding _ _ rest _) = rest"

text \<open>A suspended generator belongs to its uid, and waits for the event the listener will set, which is nobody else's.\<close>

definition event_of :: "frontend \<Rightarrow> int \<Rightarrow> nat \<Rightarrow> bool" where
  "event_of f uid e \<longleftrightarrow> e < length (fe_events f) \<and> (fe_ack f uid \<noteq> None \<longrightarrow> fe_event f uid = Some e) \<and>
     (\<forall>v. fe_event f v = Some e \<longrightarrow> v = uid)"

fun waiter_ok :: "frontend \<Rightarrow> int \<Rightarrow> waiter \<Rightarrow> bool" where
  "waiter_ok f uid (Fresh u) \<longleftrightarrow> u = uid"
| "waiter_ok f uid (Waiting u e) \<longleftrightarrow> u = uid \<and> event_of f uid e"
| "waiter_ok f uid (Yielding u e rest a) \<longleftrightarrow> u = uid \<and> event_of f uid e \<and> \<not> snd (snd a)"

text \<open>
  The events of the two maps are valid and those of waiting streams distinct; a queue that is not
  empty has its event set, so that no wake-up is lost.
\<close>

definition events_ok :: "frontend \<Rightarrow> bool" where
  "events_ok f \<longleftrightarrow> (\<forall>uid e. fe_event f uid = Some e \<longrightarrow> e < length (fe_events f)) \<and>
     (\<forall>uid e. fe_abort_event f uid = Some e \<longrightarrow> e < length (fe_events f)) \<and>
     (\<forall>u v e. fe_event f u = Some e \<longrightarrow> fe_event f v = Some e \<longrightarrow> u = v) \<and>
     (\<forall>u v e. fe_event f u = Some e \<longrightarrow> fe_abort_event f v \<noteq> Some e) \<and>
     dom (fe_ack f) = dom (fe_event f)"

definition queue_ok :: "frontend \<Rightarrow> bool" where
  "queue_ok f \<longleftrightarrow> (\<forall>uid q e. fe_ack f uid = Some q \<longrightarrow> q \<noteq> [] \<longrightarrow> fe_event f uid = Some e \<longrightarrow> fe_events f ! e)"

definition uids_ok :: "frontend \<Rightarrow> bool" where
  "uids_ok f \<longleftrightarrow> (\<forall>uid. fe_ack f uid \<noteq> None \<longrightarrow> uid < fe_uid_counter f) \<and> (\<forall>uid\<in>set (fe_abort f). uid < fe_uid_counter f)"

definition frontend_ok :: "frontend \<Rightarrow> bool" where
  "frontend_ok f \<longleftrightarrow> events_ok f \<and> queue_ok f \<and> uids_ok f"

lemmas frontend_ok_defs = frontend_ok_def events_ok_def queue_ok_def uids_ok_def

text \<open>
  What a stream has delivered, what its generator holds and what is queued make up what was received;
  after an acknowledgement took the queue away, the first two are a prefix of it.
\<close>

definition stream_ok :: "frontend \<Rightarrow> reply list \<Rightarrow> int \<Rightarrow> waiter \<Rightarrow> reply list \<Rightarrow> bool" where
  "stream_ok f got uid w d \<longleftrightarrow> uid \<notin> set (fe_abort f) \<and> waiter_ok f uid w \<and> uid < fe_uid_counter f \<and>
     prefix (d @ rest_of w) got \<and> (\<forall>q. fe_ack f uid = Some q \<longrightarrow> got = d @ rest_of w @ q)"

definition system_ok :: "system \<Rightarrow> bool" where
  "system_ok s \<longleftrightarrow> frontend_ok (sy_fe s) \<and>
     (\<forall>uid w d. sy_streams s uid = Some (w, d) \<longrightarrow> stream_ok (sy_fe s) (sy_got s uid) uid w d)"

text \<open>What a step leaves alone at the other streams.\<close>

definition same_at :: "int \<Rightarrow> frontend \<Rightarrow> frontend \<Rightarrow> bool" where
  "same_at uid f f' \<longleftrightarrow> fe_ack f' uid = fe_ack f uid \<and> fe_event f' uid = fe_event f uid \<and>
     (uid \<in> set (fe_abort f') \<longrightarrow> uid \<in> set (fe_abort f)) \<and> fe_uid_counter f \<le> fe_uid_counter f' \<and>
     length (fe_events f) \<le> length (fe_events f') \<and>
     (\<forall>v e. fe_event f' v = Some e \<longrightarrow> fe_event f v = Some e \<or> length (fe_events f) \<le> e)"

lemma event_of_same: "same_at uid f f' \<Longrightarrow> event_of f uid e \<Longrightarrow> event_of f' uid e"
  unfolding same_at_def event_of_def by (metis leD less_le_trans)

lemma stream_ok_same:
  assumes "same_at uid f f'" and "stream_ok f got uid w d"
  shows "stream_ok f' got uid w d"
proof -
  have "waiter_ok f uid w \<Longrightarrow> waiter_ok f' uid w"
    using event_of_same[OF assms(1)] by (cases w) auto
  then show ?thesis using assms by (auto simp: stream_ok_def same_at_def)
qed

section \<open>Every operation keeps it\<close>

lemma frontend_ok_new: "frontend_ok new_frontend"
  by (simp add: frontend_ok_defs new_frontend_def)

lemma frontend_ok_sent [simp]: "frontend_ok (f\<lparr>fe_initialized := b, fe_sent := ms\<rparr>) = frontend_ok f"
  by (simp add: frontend_ok_defs)

lemma frontend_ok_send_one [simp]: "frontend_ok (send_one m f) = frontend_ok f"
  by (simp add: send_one_def)

lemma same_at_send_one [simp]: "same_at uid f (send_one m g) = same_at uid f g"
  by (simp add: same_at_def send_one_def)

lemma new_user_ok:
  assumes ok: "frontend_ok f" and new: "new_user f = (uid, f')"
  shows "frontend_ok f'" "v \<noteq> uid \<Longrightarrow> same_at v f f'" "stream_ok f' [] uid (Fresh uid) []"
proof -
  have f': "f' = f\<lparr>fe_uid_counter := uid + 1, fe_ack := (fe_ack f)(uid \<mapsto> []),
      fe_event := (fe_event f)(uid \<mapsto> length (fe_events f)), fe_events := fe_events f @ [False]\<rparr>"
    and uid: "uid = fe_uid_counter f"
    using new by (auto simp: new_user_def Let_def)
  have ev: "fe_event f u = Some e \<Longrightarrow> e < length (fe_events f)"
    and ab: "fe_abort_event f u = Some e \<Longrightarrow> e < length (fe_events f)" for u e
    using ok by (simp_all add: frontend_ok_defs)
  have ev1: "fe_event f u \<noteq> Some (length (fe_events f))" and ab1: "fe_abort_event f u \<noteq> Some (length (fe_events f))" for u
    using ev ab by fastforce+
  have inj: "fe_event f u = Some e \<Longrightarrow> fe_event f v = Some e \<Longrightarrow> u = v"
    and apart: "fe_event f u = Some e \<Longrightarrow> fe_abort_event f v \<noteq> Some e" and dom: "dom (fe_ack f) = dom (fe_event f)" for u v e
    using ok by (simp_all add: frontend_ok_defs)
  have "events_ok f'"
    unfolding events_ok_def by (intro conjI allI impI) (auto simp: f' ev1 ab1 dom less_SucI ev ab inj apart split: if_splits)
  moreover have "queue_ok f'"
    using ok unfolding f' frontend_ok_def queue_ok_def by (auto simp: nth_append dest: ev)
  moreover have "uids_ok f'"
    using ok unfolding f' uid frontend_ok_def uids_ok_def by auto
  ultimately show "frontend_ok f'" by (simp add: frontend_ok_def)
  show "v \<noteq> uid \<Longrightarrow> same_at v f f'" by (simp add: f' uid same_at_def)
  show "stream_ok f' [] uid (Fresh uid) []"
    using ok by (auto simp: f' uid stream_ok_def frontend_ok_def uids_ok_def)
qed

lemma abort_user_simps:
  "fe_ack (abort_user uid f) = fe_ack f" "fe_event (abort_user uid f) = fe_event f"
  "fe_uid_counter (abort_user uid f) = fe_uid_counter f" "set (fe_abort (abort_user uid f)) = insert uid (set (fe_abort f))"
  "fe_abort_event (abort_user uid f) =
     (if fe_abort_event f uid = None then (fe_abort_event f)(uid \<mapsto> length (fe_events f)) else fe_abort_event f)"
  "fe_events (abort_user uid f) = fe_events f @ (if fe_abort_event f uid = None then [False] else [])"
  by (simp_all add: abort_user_def send_one_def Let_def)

lemma abort_user_ok:
  assumes ok: "frontend_ok f" and uid: "uid < fe_uid_counter f"
  shows "frontend_ok (abort_user uid f)" "v \<noteq> uid \<Longrightarrow> same_at v f (abort_user uid f)"
proof -
  have ev: "fe_event f u = Some e \<Longrightarrow> e < length (fe_events f)"
    and ab: "fe_abort_event f u = Some e \<Longrightarrow> e < length (fe_events f)" for u e
    using ok by (simp_all add: frontend_ok_defs)
  have ev1: "fe_event f u \<noteq> Some (length (fe_events f))" and ab1: "fe_abort_event f u \<noteq> Some (length (fe_events f))" for u
    using ev ab by fastforce+
  have inj: "fe_event f u = Some e \<Longrightarrow> fe_event f v = Some e \<Longrightarrow> u = v"
    and apart: "fe_event f u = Some e \<Longrightarrow> fe_abort_event f v \<noteq> Some e" and dom: "dom (fe_ack f) = dom (fe_event f)" for u v e
    using ok by (simp_all add: frontend_ok_defs)
  have "events_ok (abort_user uid f)"
    unfolding events_ok_def
    by (intro conjI allI impI) (auto simp: abort_user_simps ev1 ab1 dom less_SucI ev ab inj apart split: if_splits)
  moreover have "queue_ok (abort_user uid f)"
    using ok unfolding frontend_ok_def queue_ok_def by (auto simp: abort_user_simps nth_append dest: ev)
  moreover have "uids_ok (abort_user uid f)"
    using ok uid unfolding frontend_ok_def uids_ok_def by (auto simp: abort_user_simps)
  ultimately show "frontend_ok (abort_user uid f)" by (simp add: frontend_ok_def)
  show "v \<noteq> uid \<Longrightarrow> same_at v f (abort_user uid f)"
    by (simp add: abort_user_simps same_at_def)
qed


lemma set_event_simps [simp]:
  "fe_ack (set_event e b f) = fe_ack f" "fe_event (set_event e b f) = fe_event f" "fe_abort (set_event e b f) = fe_abort f"
  "fe_abort_event (set_event e b f) = fe_abort_event f" "fe_uid_counter (set_event e b f) = fe_uid_counter f"
  "length (fe_events (set_event e b f)) = length (fe_events f)"
  "fe_events (set_event None b f) = fe_events f" "fe_events (set_event (Some i) b f) = (fe_events f)[i := b]"
  by (cases e; simp add: set_event_def)+

lemma nth_set_True [simp]: "xs ! e \<Longrightarrow> xs[a := True] ! e"
  by (cases "a = e"; cases "a < length xs") (auto simp: list_update_beyond)

lemma listen_reply_ok:
  assumes ok: "frontend_ok f" and run: "listen_one (UserReply uid txt fin) f = Inr f'"
  shows "frontend_ok f'" "v \<noteq> uid \<Longrightarrow> same_at v f f'"
    "stream_ok f got uid w d \<Longrightarrow> stream_ok f' (got @ [(uid, txt, fin)]) uid w d"
proof -
  have ev: "fe_event f u = Some e \<Longrightarrow> e < length (fe_events f)"
    and inj: "fe_event f u = Some e \<Longrightarrow> fe_event f v = Some e \<Longrightarrow> u = v" for u v e
    using ok by (simp_all add: frontend_ok_defs)
  consider (drop) "f' = f" "fe_ack f uid = None \<or> uid \<in> set (fe_abort f)"
    | (got) q e where "fe_ack f uid = Some q" "fe_event f uid = Some e"
        "f' = set_event (Some e) True (f\<lparr>fe_ack := (fe_ack f)(uid \<mapsto> q @ [(uid, txt, fin)])\<rparr>)"
    using run by (auto simp: listen_one_def split: option.splits if_splits)
  then have "frontend_ok f' \<and> (v \<noteq> uid \<longrightarrow> same_at v f f') \<and>
      (stream_ok f got uid w d \<longrightarrow> stream_ok f' (got @ [(uid, txt, fin)]) uid w d)"
  proof cases
    case drop
    then show ?thesis using ok by (auto simp: same_at_def stream_ok_def prefix_prefix)
  next
    case got
    have "events_ok f'"
      using ok got unfolding frontend_ok_def events_ok_def by (simp add: insert_absorb domI)
    moreover have "queue_ok f'"
      using ok got ev inj unfolding frontend_ok_def queue_ok_def by (auto simp: nth_list_update)
    moreover have "uids_ok f'"
      using ok got unfolding frontend_ok_def uids_ok_def by auto
    moreover have "event_of f uid i \<Longrightarrow> event_of f' uid i" for i
      by (simp add: got event_of_def)
    then have "waiter_ok f uid w \<Longrightarrow> waiter_ok f' uid w" by (cases w) auto
    then have "stream_ok f got' uid w d \<Longrightarrow> stream_ok f' (got' @ [(uid, txt, fin)]) uid w d" for got'
      using got(1) by (simp add: stream_ok_def prefix_prefix) (simp add: got(3))
    ultimately show ?thesis by (simp add: frontend_ok_def) (simp add: got(3) same_at_def)
  qed
  then show "frontend_ok f'" "v \<noteq> uid \<Longrightarrow> same_at v f f'"
    "stream_ok f got uid w d \<Longrightarrow> stream_ok f' (got @ [(uid, txt, fin)]) uid w d" by auto
qed

lemma listen_ack_ok:
  assumes ok: "frontend_ok f" and run: "listen_one (AbortAckReply uid) f = Inr f'"
  shows "frontend_ok f'" "v \<noteq> uid \<Longrightarrow> same_at v f f'" "stream_ok f got uid w d \<Longrightarrow> stream_ok f' got uid w d"
proof -
  have ev: "fe_event f u = Some e \<Longrightarrow> e < length (fe_events f)"
    and ab: "fe_abort_event f u = Some e \<Longrightarrow> e < length (fe_events f)"
    and inj: "fe_event f u = Some e \<Longrightarrow> fe_event f v = Some e \<Longrightarrow> u = v"
    and apart: "fe_event f u = Some e \<Longrightarrow> fe_abort_event f v \<noteq> Some e" and dom: "dom (fe_ack f) = dom (fe_event f)" for u v e
    using ok by (simp_all add: frontend_ok_defs)
  have f': "fe_ack f' = (fe_ack f)(uid := None)" "fe_event f' = (fe_event f)(uid := None)"
    "fe_abort_event f' = (fe_abort_event f)(uid := None)" "set (fe_abort f') = set (fe_abort f) - {uid}"
    "fe_uid_counter f' = fe_uid_counter f" "length (fe_events f') = length (fe_events f)"
    using run by (auto simp: listen_one_def Let_def)
  have set: "fe_events f ! e \<Longrightarrow> e < length (fe_events f) \<Longrightarrow> fe_events f' ! e" for e
    using run by (cases "fe_event f uid"; cases "fe_abort_event f uid") (auto simp: listen_one_def Let_def nth_list_update)
  have "events_ok f'"
    unfolding events_ok_def by (intro conjI allI impI) (auto simp: f' ev ab inj apart dom split: if_splits)
  moreover have "queue_ok f'"
    using ok unfolding frontend_ok_def queue_ok_def by (auto simp: f' intro!: set ev split: if_splits)
  moreover have "uids_ok f'"
    using ok unfolding frontend_ok_def uids_ok_def by (auto simp: f')
  ultimately show "frontend_ok f'" by (simp add: frontend_ok_def)
  show "v \<noteq> uid \<Longrightarrow> same_at v f f'" by (simp add: f' same_at_def)
  show "stream_ok f got uid w d \<Longrightarrow> stream_ok f' got uid w d"
    by (cases w) (auto simp: f' stream_ok_def event_of_def split: if_splits)
qed


lemma wait_resume_ok:
  assumes ok: "frontend_ok f" and str: "stream_ok f got uid (Waiting uid e) d" and run: "wait_resume uid e f = (r, f')"
  shows "frontend_ok f'" "v \<noteq> uid \<Longrightarrow> same_at v f f'"
    "r = Blocked w \<Longrightarrow> stream_ok f' got uid w d \<and> (fe_ack f uid \<noteq> None \<longrightarrow> d = got)"
    "r = Yield a w \<Longrightarrow> \<not> snd (snd a) \<Longrightarrow> stream_ok f' got uid w (d @ [a])"
proof -
  have e: "event_of f uid e" using str by (simp add: stream_ok_def)
  have quiet: "fe_ack f uid = Some q \<Longrightarrow> \<not> fe_events f ! e \<Longrightarrow> q = []" for q
    using ok e unfolding frontend_ok_def queue_ok_def event_of_def by blast
  have clear: "queue_ok (f\<lparr>fe_events := (fe_events f)[e := False], fe_ack := A\<rparr>)"
    if "\<And>u. u \<noteq> uid \<Longrightarrow> A u = fe_ack f u" "A uid = None \<or> A uid = Some []" for A
    unfolding queue_ok_def
  proof (intro allI impI)
    fix u q i
    assume u: "fe_ack (f\<lparr>fe_events := (fe_events f)[e := False], fe_ack := A\<rparr>) u = Some q" "q \<noteq> []"
      and i: "fe_event (f\<lparr>fe_events := (fe_events f)[e := False], fe_ack := A\<rparr>) u = Some i"
    have "u \<noteq> uid" using u that(2) by auto
    then have "fe_ack f u = Some q" "i \<noteq> e" using u i that(1) e by (auto simp: event_of_def)
    then show "fe_events (f\<lparr>fe_events := (fe_events f)[e := False], fe_ack := A\<rparr>) ! i"
      using ok u(2) i by (simp add: frontend_ok_def queue_ok_def)
  qed
  have ok_clear: "frontend_ok (f\<lparr>fe_events := (fe_events f)[e := False], fe_ack := A\<rparr>)"
    if "\<And>u. u \<noteq> uid \<Longrightarrow> A u = fe_ack f u" "A uid = None \<or> A uid = Some []" "dom A = dom (fe_ack f)" for A
  proof -
    have "A u \<noteq> None \<Longrightarrow> u < fe_uid_counter f" for u
      using ok that(3) by (auto simp: frontend_ok_def uids_ok_def)
    then have "uids_ok (f\<lparr>fe_events := (fe_events f)[e := False], fe_ack := A\<rparr>)"
      using ok by (simp add: frontend_ok_def uids_ok_def)
    moreover have "events_ok (f\<lparr>fe_events := (fe_events f)[e := False], fe_ack := A\<rparr>)"
      using ok that(3) by (simp add: frontend_ok_def events_ok_def)
    ultimately show ?thesis using clear[OF that(1,2)] by (simp add: frontend_ok_def)
  qed
  consider (wait) "r = Blocked (Waiting uid e)" "f' = f" "\<not> fe_events f ! e"
    | (stop) "r = Stop" "f' = f\<lparr>fe_events := (fe_events f)[e := False]\<rparr>" "fe_ack f uid = None"
    | (empty) "r = Blocked (Waiting uid e)"
        "f' = f\<lparr>fe_events := (fe_events f)[e := False], fe_ack := (fe_ack f)(uid \<mapsto> [])\<rparr>" "fe_ack f uid = Some []"
    | (yield) a rest where "r = Yield a (Yielding uid e rest a)"
        "f' = f\<lparr>fe_events := (fe_events f)[e := False], fe_ack := (fe_ack f)(uid \<mapsto> [])\<rparr>" "fe_ack f uid = Some (a # rest)"
    using run by (auto simp: wait_resume_def Let_def split: if_splits option.splits list.splits)
  then have "frontend_ok f' \<and> (v \<noteq> uid \<longrightarrow> same_at v f f') \<and>
     (r = Blocked w \<longrightarrow> stream_ok f' got uid w d \<and> (fe_ack f uid \<noteq> None \<longrightarrow> d = got)) \<and>
     (r = Yield a w \<longrightarrow> \<not> snd (snd a) \<longrightarrow> stream_ok f' got uid w (d @ [a]))"
  proof cases
    case wait
    then show ?thesis using quiet ok str by (auto simp: same_at_def stream_ok_def)
  next
    case stop
    then show ?thesis using ok_clear[of "fe_ack f"] by (simp add: same_at_def)
  next
    case empty
    have "event_of f' uid e" using e empty(3) by (simp add: empty(2) event_of_def)
    then show ?thesis using ok_clear[of "(fe_ack f)(uid \<mapsto> [])"] empty str
      by (auto simp: same_at_def stream_ok_def insert_absorb domI)
  next
    case yield
    have "event_of f' uid e" using e yield(3) by (simp add: yield(2) event_of_def)
    then show ?thesis using ok_clear[of "(fe_ack f)(uid \<mapsto> [])"] yield str
      by (auto simp: same_at_def stream_ok_def insert_absorb domI)
  qed
  then show "frontend_ok f'" "v \<noteq> uid \<Longrightarrow> same_at v f f'"
    "r = Blocked w \<Longrightarrow> stream_ok f' got uid w d \<and> (fe_ack f uid \<noteq> None \<longrightarrow> d = got)"
    "r = Yield a w \<Longrightarrow> \<not> snd (snd a) \<Longrightarrow> stream_ok f' got uid w (d @ [a])" by auto
qed


lemma stream_waiting:
  assumes "stream_ok f got uid w d" and "rest_of w = []" and "event_of f uid e"
  shows "stream_ok f got uid (Waiting uid e) d"
  using assms by (auto simp: stream_ok_def)

lemma gen_next_ok:
  assumes ok: "frontend_ok f" and str: "stream_ok f got uid w d" and run: "gen_next w f = Inr (r, f')"
  shows "frontend_ok f'" "v \<noteq> uid \<Longrightarrow> same_at v f f'"
    "r = Blocked w' \<Longrightarrow> stream_ok f' got uid w' d \<and> (fe_ack f uid \<noteq> None \<longrightarrow> d = got)"
    "r = Yield a w' \<Longrightarrow> \<not> snd (snd a) \<Longrightarrow> stream_ok f' got uid w' (d @ [a])"
proof -
  note ev = ok[unfolded frontend_ok_def events_ok_def]
  consider (wait) e where "wait_resume uid e f = (r, f')" "stream_ok f got uid (Waiting uid e) d"
    | (yield) e a rest b where "w = Yielding uid e (a # rest) b" "r = Yield a (Yielding uid e rest a)" "f' = f"
  proof (cases w)
    case (Fresh u)
    then obtain e where e: "fe_event f uid = Some e" "wait_resume uid e f = (r, f')"
      using run str by (auto simp: stream_ok_def split: option.splits)
    then have "event_of f uid e" using ev by (auto simp: event_of_def)
    then show ?thesis using that(1)[OF e(2)] stream_waiting[OF str] Fresh by simp
  next
    case (Waiting u e)
    then show ?thesis using that(1) run str by (simp add: stream_ok_def)
  next
    case (Yielding u e rest b)
    then have b: "u = uid" "event_of f uid e" "\<not> snd (snd b)" using str by (auto simp: stream_ok_def)
    show ?thesis
    proof (cases rest)
      case Nil
      then have "wait_resume uid e f = (r, f')" using run b Yielding by (cases b) auto
      then show ?thesis using that(1) stream_waiting[OF str _ b(2)] Yielding Nil by simp
    next
      case (Cons a rest')
      then show ?thesis using that(2) run b Yielding by simp
    qed
  qed
  then have "frontend_ok f' \<and> (v \<noteq> uid \<longrightarrow> same_at v f f') \<and>
     (r = Blocked w' \<longrightarrow> stream_ok f' got uid w' d \<and> (fe_ack f uid \<noteq> None \<longrightarrow> d = got)) \<and>
     (r = Yield a w' \<longrightarrow> \<not> snd (snd a) \<longrightarrow> stream_ok f' got uid w' (d @ [a]))"
  proof cases
    case wait
    show ?thesis using wait_resume_ok[OF ok wait(2,1)] by blast
  next
    case yield
    then show ?thesis using ok str by (auto simp: same_at_def stream_ok_def)
  qed
  then show "frontend_ok f'" "v \<noteq> uid \<Longrightarrow> same_at v f f'"
    "r = Blocked w' \<Longrightarrow> stream_ok f' got uid w' d \<and> (fe_ack f uid \<noteq> None \<longrightarrow> d = got)"
    "r = Yield a w' \<Longrightarrow> \<not> snd (snd a) \<Longrightarrow> stream_ok f' got uid w' (d @ [a])" by blast+
qed

lemma gen_next_returns:
  assumes "frontend_ok f" and "stream_ok f got uid w d" and "fe_ack f uid \<noteq> None"
  shows "\<exists>r f'. gen_next w f = Inr (r, f')"
proof (cases w)
  case (Fresh u)
  have "fe_event f uid \<noteq> None" using assms(1,3) by (metis domIff events_ok_def frontend_ok_def)
  then show ?thesis using assms(2) Fresh by (auto simp: stream_ok_def)
next
  case (Waiting u e)
  then show ?thesis by simp
next
  case (Yielding u e rest b)
  then show ?thesis using assms(2) by (cases rest; cases b) (auto simp: stream_ok_def)
qed

section \<open>Reachable states\<close>

lemma system_okI:
  assumes "frontend_ok f'" and "\<And>v. v \<noteq> uid \<Longrightarrow> same_at v f f'" and "\<And>v. v \<noteq> uid \<Longrightarrow> got' v = got v"
    and "\<And>v w d. v \<noteq> uid \<Longrightarrow> str' v = Some (w, d) \<Longrightarrow> stream_ok f (got v) v w d"
    and "\<And>w d. str' uid = Some (w, d) \<Longrightarrow> stream_ok f' (got' uid) uid w d"
  shows "system_ok \<lparr>sy_fe = f', sy_streams = str', sy_got = got'\<rparr>"
  unfolding system_ok_def using assms stream_ok_same by (simp, metis)

lemma fe_step_ok:
  assumes ok: "system_ok s" and step: "fe_step s s'"
  shows "system_ok s'"
proof -
  obtain fe st gt where s: "s = \<lparr>sy_fe = fe, sy_streams = st, sy_got = gt\<rparr>" by (cases s)
  have f: "frontend_ok fe" and str: "\<And>uid w d. st uid = Some (w, d) \<Longrightarrow> stream_ok fe (gt uid) uid w d"
    using ok by (auto simp: system_ok_def s)
  show ?thesis using step
  proof cases
    case (submit uid f' m)
    note new = new_user_ok[OF f submit(2)[unfolded s, simplified]]
    have "stream_ok (send_one m f') [] uid (Fresh uid) []" 
      using new(3) stream_ok_same[of uid f' "send_one m f'"] by (simp add: same_at_def send_one_def)
    then show ?thesis unfolding submit(1) s using new str by (auto intro!: system_okI[where f = fe and got = gt and uid = uid])
  next
    case (reply uid t fin f')
    note r = listen_reply_ok[OF f reply(2)[unfolded s, simplified]]
    show ?thesis unfolding reply(1) s using r str by (auto intro!: system_okI[where f = fe and got = gt and uid = uid])
  next
    case (ack uid f')
    note r = listen_ack_ok[OF f ack(2)[unfolded s, simplified]]
    show ?thesis unfolding ack(1) s using r str by (auto intro!: system_okI[where f = fe and got = gt and uid = uid])
  next
    case (pull uid w d a w' f')
    note r = gen_next_ok[OF f str pull(3)[unfolded s, simplified]]
    have "stream_ok f' (gt uid) uid w' (d @ [a])" 
      by (rule r(4)[OF _ refl pull(4)]) (use pull(2) in \<open>simp add: s\<close>)
    then show ?thesis unfolding pull(1) s using r(1,2) pull(2) str by (auto simp: s intro!: system_okI[where f = fe and got = gt and uid = uid])
  next
    case (last uid w d a w' f')
    note r = gen_next_ok[OF f str last(3)[unfolded s, simplified]]
    show ?thesis unfolding last(1) s using r last str by (auto simp: s intro!: system_okI[where f = fe and got = gt and uid = uid])
  next
    case (wait uid w d w' f')
    note r = gen_next_ok[OF f str wait(3)[unfolded s, simplified]]
    show ?thesis unfolding wait(1) s using r wait str by (auto simp: s intro!: system_okI[where f = fe and got = gt and uid = uid])
  next
    case (stop uid w d f')
    note r = gen_next_ok[OF f str stop(3)[unfolded s, simplified]]
    show ?thesis unfolding stop(1) s using r stop str by (auto simp: s intro!: system_okI[where f = fe and got = gt and uid = uid])
  next
    case (disconnect uid w d)
    have "uid < fe_uid_counter fe" using str disconnect(2) by (auto simp: s stream_ok_def)
    note r = abort_user_ok[OF f this]
    show ?thesis unfolding disconnect(1) s using r str by (auto intro!: system_okI[where f = fe and got = gt and uid = uid])
  qed
qed

lemma reachable_ok: "reachable s \<Longrightarrow> system_ok s"
proof (induction rule: reachable.induct)
  case start
  show ?case by (simp add: system_ok_def init_system_def frontend_ok_new)
next
  case (step s s')
  then show ?case using fe_step_ok by blast
qed


section \<open>Exact delivery\<close>

text \<open>
  C40: every stream delivers what was received for its request, in order and without loss. In every
  state that submissions, replies, acknowledgements, disconnections and pulls of the generators can
  lead to, in any order, what a stream has delivered, what its generator still holds and what is
  queued make up what was received since the submission; pulling it never raises while it is not
  acknowledged, and when the pull blocks everything received has been delivered.
\<close>

theorem reply_stream_exact:
  assumes "reachable s" and "sy_streams s uid = Some (w, d)" and "fe_ack (sy_fe s) uid = Some q"
  shows "sy_got s uid = d @ rest_of w @ q \<and>
     (\<exists>r f. gen_next w (sy_fe s) = Inr (r, f) \<and> (\<forall>w'. r = Blocked w' \<longrightarrow> d = sy_got s uid))"
proof -
  have f: "frontend_ok (sy_fe s)" and str: "stream_ok (sy_fe s) (sy_got s uid) uid w d"
    using reachable_ok[OF assms(1)] assms(2) by (auto simp: system_ok_def)
  obtain r f' where r: "gen_next w (sy_fe s) = Inr (r, f')"
    using gen_next_returns[OF f str] assms(3) by auto
  have "r = Blocked w' \<Longrightarrow> d = sy_got s uid" for w'
    using gen_next_ok(3)[OF f str r] assms(3) by simp
  then show ?thesis using str assms(3) r by (auto simp: stream_ok_def)
qed

text \<open>One request: submitted, two replies received, the first one pulled.\<close>

definition demo_submitted :: system where
  "demo_submitted = init_system\<lparr>sy_fe := send_one (AbortMsg 7) (snd (new_user new_frontend)),
     sy_streams := [0 \<mapsto> (Fresh 0, [])], sy_got := (\<lambda>_. [])(0 := [])\<rparr>"

definition demo_received :: "reply list \<Rightarrow> system" where
  "demo_received as = demo_submitted\<lparr>
     sy_fe := (sy_fe demo_submitted)\<lparr>fe_ack := [0 \<mapsto> as], fe_events := [True]\<rparr>, sy_got := (\<lambda>_. [])(0 := as)\<rparr>"

definition demo_pulled :: system where
  "demo_pulled = (demo_received [(0, [72], False), (0, [105], True)])\<lparr>
     sy_fe := (sy_fe demo_submitted)\<lparr>fe_ack := [0 \<mapsto> []], fe_events := [False]\<rparr>,
     sy_streams := [0 \<mapsto> (Yielding 0 0 [(0, [105], True)] (0, [72], False), [(0, [72], False)])]\<rparr>"

lemma demo_received_step: "fe_step (demo_received as) (demo_received (as @ [(0, t, fin)]))"
  using fe_step.reply[of 0 t fin "demo_received as" "sy_fe (demo_received (as @ [(0, t, fin)]))"]
  by (simp add: demo_received_def demo_submitted_def listen_one_def set_event_def new_user_def new_frontend_def
      send_one_def Let_def init_system_def)

lemma demo_reachable: "reachable demo_pulled"
proof -
  have "fe_step init_system demo_submitted"
    using fe_step.submit[of init_system 0 "snd (new_user new_frontend)" "AbortMsg 7"]
    by (simp add: demo_submitted_def init_system_def new_user_def new_frontend_def Let_def)
  then have "reachable demo_submitted" using reachable.intros by blast
  moreover have "fe_step demo_submitted (demo_received [(0, t, fin)])" for t fin
    using fe_step.reply[of 0 t fin demo_submitted "sy_fe (demo_received [(0, t, fin)])"]
    by (simp add: demo_received_def demo_submitted_def listen_one_def set_event_def new_user_def new_frontend_def
        send_one_def Let_def init_system_def)
  moreover note demo_received_step[of "[(0, [72], False)]" "[105]" True]
  moreover have "fe_step (demo_received [(0, [72], False), (0, [105], True)]) demo_pulled"
    using fe_step.pull[of "demo_received [(0, [72], False), (0, [105], True)]" 0 "Fresh 0" "[]" "(0, [72], False)"
        "Yielding 0 0 [(0, [105], True)] (0, [72], False)" "sy_fe demo_pulled"]
    by (simp add: demo_pulled_def demo_received_def demo_submitted_def wait_resume_def new_user_def new_frontend_def
        send_one_def Let_def init_system_def)
  ultimately show ?thesis using reachable.step by (metis append_Cons append_Nil)
qed

theorem reply_stream_exact_witness:
  "sy_got demo_pulled 0 = [(0, [72], False)] @ [(0, [105], True)] @ []"
  using reply_stream_exact[OF demo_reachable, of 0 "Yielding 0 0 [(0, [105], True)] (0, [72], False)" "[(0, [72], False)]" "[]"]
  by (simp add: demo_pulled_def demo_submitted_def)

section \<open>What a finished stream leaves behind\<close>

lemma gen_next_keeps:
  assumes "stream_ok f got uid w d" and "gen_next w f = Inr (r, f')" and "fe_ack f v \<noteq> None"
  shows "fe_ack f' v \<noteq> None"
proof -
  have wait: "wait_resume u e f = (r, f') \<Longrightarrow> fe_ack f' v \<noteq> None" for u e
    using assms(3) by (auto simp: wait_resume_def Let_def split: if_splits option.splits list.splits)
  show ?thesis
  proof (cases w)
    case (Yielding u e rest b)
    then show ?thesis using assms wait by (cases b; cases rest) (auto simp: stream_ok_def)
  qed (use assms wait in \<open>auto split: option.splits\<close>)
qed

text \<open>
  The maps grow with every request. In every reachable state, the only step that removes the queue of a request is
  the acknowledgement of its abort: the consumers leave their loop at the finished reply, while the
  generator is suspended at its yield, so the removal after its loop is never reached.
\<close>

theorem finished_entries_kept:
  assumes "reachable s" and "fe_step s s'" and "fe_ack (sy_fe s) uid \<noteq> None" and "fe_ack (sy_fe s') uid = None"
  shows "listen_one (AbortAckReply uid) (sy_fe s) = Inr (sy_fe s')"
proof -
  have str: "sy_streams s v = Some (w, d) \<Longrightarrow> stream_ok (sy_fe s) (sy_got s v) v w d" for v w d
    using reachable_ok[OF assms(1)] by (auto simp: system_ok_def)
  show ?thesis using assms(2)
  proof cases
    case (submit u f m)
    then show ?thesis using assms(3,4) by (auto simp: new_user_def send_one_def Let_def split: if_splits)
  next
    case (reply u t fin f)
    then show ?thesis using assms(3,4) by (auto simp: listen_one_def split: option.splits if_splits)
  next
    case (ack u f)
    then have "fe_ack f uid = (if uid = u then None else fe_ack (sy_fe s) uid)"
      by (auto simp: listen_one_def Let_def)
    then show ?thesis using ack assms(3,4) by (auto split: if_splits)
  next
    case (pull u w d a w' f)
    then show ?thesis using gen_next_keeps[OF str[OF pull(2)] pull(3) assms(3)] assms(4) by simp
  next
    case (last u w d a w' f)
    then show ?thesis using gen_next_keeps[OF str[OF last(2)] last(3) assms(3)] assms(4) by simp
  next
    case (wait u w d w' f)
    then show ?thesis using gen_next_keeps[OF str[OF wait(2)] wait(3) assms(3)] assms(4) by simp
  next
    case (stop u w d f)
    then show ?thesis using gen_next_keeps[OF str[OF stop(2)] stop(3) assms(3)] assms(4) by simp
  next
    case (disconnect u w d)
    then show ?thesis using assms(3,4) by (simp add: abort_user_simps)
  qed
qed

definition demo_finished :: system where
  "demo_finished = demo_pulled\<lparr>sy_streams := Map.empty\<rparr>"

theorem finished_entries_kept_witness:
  "\<exists>s f. reachable s \<and> sy_streams s = Map.empty \<and> set (map (snd \<circ> snd) (sy_got s 0)) = {True, False} \<and>
     fe_step s (s\<lparr>sy_fe := f\<rparr>) \<and> fe_ack f 0 = None \<and> fe_ack (sy_fe s) 0 = Some [] \<and>
     listen_one (AbortAckReply 0) (sy_fe s) = Inr f"
proof -
  have "fe_step demo_pulled demo_finished"
    using fe_step.last[of demo_pulled 0 "Yielding 0 0 [(0, [105], True)] (0, [72], False)" "[(0, [72], False)]"
        "(0, [105], True)" "Yielding 0 0 [] (0, [105], True)" "sy_fe demo_pulled"]
    by (simp add: demo_finished_def demo_pulled_def)
  then have r: "reachable demo_finished" using demo_reachable reachable.step by blast
  obtain f where f: "listen_one (AbortAckReply 0) (sy_fe demo_finished) = Inr f" "fe_ack f 0 = None"
    by (simp add: listen_one_def Let_def)
  let ?s = "demo_finished\<lparr>sy_fe := f\<rparr>"
  have step: "fe_step demo_finished ?s" using fe_step.ack[OF f(1)] .
  have "fe_ack (sy_fe demo_finished) 0 = Some []" by (simp add: demo_finished_def demo_pulled_def)
  then show ?thesis using r step f finished_entries_kept[OF r step, of 0]
    by (intro exI[of _ demo_finished] exI[of _ f])
      (auto simp: demo_finished_def demo_pulled_def demo_received_def)
qed

end
