(* ===== verification/Observability.thy ===== *)
theory Observability
  imports Scheduler PyText
begin

text \<open>
  The line \<^verbatim>\<open>scheduler.py\<close> logs for every batch, and \<^verbatim>\<open>scripts/metax/batch_observability.py\<close>, which finds these lines in a
  server log and summarises them.
\<close>

section \<open>Writing\<close>

definition phase_name :: "phase \<Rightarrow> string" where
  "phase_name ph = (case ph of Prefill \<Rightarrow> ''prefill'' | Decode \<Rightarrow> ''decode'')"

definition format_batch_observation :: "heap \<Rightarrow> batch \<Rightarrow> nat \<Rightarrow> nat \<Rightarrow> string" where
  "format_batch_observation hp b pending_requests running_requests =
     (let uids = join '','' (map (\<lambda>r. show_int (r_uid (hp ! r))) (b_reqs b));
          token_count = sum_list (map (\<lambda>r. extend_len (hp ! r)) (b_reqs b)) in
      ''SchedulerBatch phase='' @ phase_name (b_phase b) @ '' batch_size='' @ show_nat (batch_size b) @
      '' token_count='' @ show_int token_count @ '' pending_requests='' @ show_nat pending_requests @
      '' running_requests='' @ show_nat running_requests @ '' uids=['' @ uids @ '']'')"

section \<open>Reading\<close>

record observation =
  ob_phase :: string
  ob_batch_size :: nat
  ob_token_count :: nat
  ob_pending :: nat
  ob_running :: nat
  ob_uids :: "nat list"

text \<open>
  The pattern at one position. Each run of digits is followed by a character that is no digit, so the
  greedy match is the only one. \<open>None\<close> is no match.
\<close>

definition lit :: "string \<Rightarrow> string \<Rightarrow> string option" where
  "lit w s = (if starts_with w s then Some (drop (length w) s) else None)"

definition number :: "string \<Rightarrow> (nat \<times> string) option" where
  "number s = (let ds = takeWhile is_digit s in if ds = [] then None else Some (digits_val ds, dropWhile is_digit s))"

definition phase_lit :: "string \<Rightarrow> (string \<times> string) option" where
  "phase_lit s = (case lit ''prefill'' s of Some s \<Rightarrow> Some (''prefill'', s)
     | None \<Rightarrow> (case lit ''decode'' s of Some s \<Rightarrow> Some (''decode'', s) | None \<Rightarrow> None))"

definition is_uid_char :: "char \<Rightarrow> bool" where
  "is_uid_char c \<longleftrightarrow> is_digit c \<or> c = CHR '',''"

definition obind :: "'a option \<Rightarrow> ('a \<Rightarrow> 'b option) \<Rightarrow> 'b option" where
  "obind m f = (case m of None \<Rightarrow> None | Some x \<Rightarrow> f x)"

definition match_at :: "string \<Rightarrow> (string \<times> nat \<times> nat \<times> nat \<times> nat \<times> string) option" where
  "match_at s =
     obind (lit ''SchedulerBatch phase='' s) (\<lambda>s. obind (phase_lit s) (\<lambda>(ph, s).
     obind (lit '' batch_size='' s) (\<lambda>s. obind (number s) (\<lambda>(bs, s).
     obind (lit '' token_count='' s) (\<lambda>s. obind (number s) (\<lambda>(tc, s).
     obind (lit '' pending_requests='' s) (\<lambda>s. obind (number s) (\<lambda>(pd, s).
     obind (lit '' running_requests='' s) (\<lambda>s. obind (number s) (\<lambda>(rn, s).
     obind (lit '' uids=['' s) (\<lambda>s. obind (lit '']'' (dropWhile is_uid_char s)) (\<lambda>_.
     Some (ph, bs, tc, pd, rn, takeWhile is_uid_char s)))))))))))))"

fun pattern_search :: "string \<Rightarrow> (string \<times> nat \<times> nat \<times> nat \<times> nat \<times> string) option" where
  "pattern_search [] = None"
| "pattern_search (c # s) = (case match_at (c # s) of Some m \<Rightarrow> Some m | None \<Rightarrow> pattern_search s)"

definition uid_of :: "string \<Rightarrow> nat res" where
  "uid_of w = (if w = [] then Inl ValueError else Inr (digits_val w))"

definition parse_batch_observation :: "string \<Rightarrow> observation option res" where
  "parse_batch_observation line = (case pattern_search line of
      None \<Rightarrow> Inr None
    | Some (ph, bs, tc, pd, rn, raw_uids) \<Rightarrow>
        rbind (if raw_uids = [] then Inr [] else res_map uid_of (split_on (CHR '','') raw_uids)) (\<lambda>uids.
        Inr (Some \<lparr>ob_phase = ph, ob_batch_size = bs, ob_token_count = tc, ob_pending = pd, ob_running = rn, ob_uids = uids\<rparr>)))"

section \<open>Summary\<close>

record summary =
  su_status :: string
  su_count :: nat
  su_prefill :: nat
  su_decode :: nat
  su_max_batch :: nat
  su_multi :: nat
  su_max_pending :: nat
  su_max_running :: nat
  su_max_tokens :: nat

definition max_default :: "nat list \<Rightarrow> nat" where
  "max_default ns = (if ns = [] then 0 else Max (set ns))"

definition summarize_batch_observations :: "string list \<Rightarrow> summary res" where
  "summarize_batch_observations lines =
     rbind (res_map parse_batch_observation lines) (\<lambda>os.
     let obs = List.map_filter id os in
     Inr \<lparr>su_status = (if obs \<noteq> [] then ''PASS'' else ''FAIL''), su_count = length obs,
       su_prefill = length (filter (\<lambda>ob. ob_phase ob = ''prefill'') obs),
       su_decode = length (filter (\<lambda>ob. ob_phase ob = ''decode'') obs),
       su_max_batch = max_default (map ob_batch_size obs),
       su_multi = length (filter (\<lambda>ob. ob_batch_size ob > 1) obs),
       su_max_pending = max_default (map ob_pending obs), su_max_running = max_default (map ob_running obs),
       su_max_tokens = max_default (map ob_token_count obs)\<rparr>)"

text \<open>The checks of \<^verbatim>\<open>main\<close> after the summary.\<close>

definition observability_gate :: "nat \<Rightarrow> nat \<Rightarrow> summary \<Rightarrow> unit res" where
  "observability_gate min_batch_size min_pending_requests su =
     (if su_max_batch su < min_batch_size then Inl AssertionError
      else if su_max_pending su < min_pending_requests then Inl AssertionError else Inr ())"

section \<open>What is written is read\<close>

lemma lit_app [simp]: "lit w (w @ s) = Some s"
  by (simp add: lit_def starts_with_def)

lemma obind_Some [simp]: "obind (Some x) f = f x"
  by (simp add: obind_def)

lemma number_show [simp]: "s \<noteq> [] \<Longrightarrow> \<not> is_digit (hd s) \<Longrightarrow> number (show_nat n @ s) = Some (n, s)"
  using show_nat_digits[of n] by (cases s) (simp_all add: number_def Let_def takeWhile_append2 dropWhile_append2)

lemma phase_lit_name: "phase_lit (phase_name ph @ s) = Some (phase_name ph, s)"
  by (cases ph) (simp_all add: phase_lit_def phase_name_def lit_def starts_with_def)

lemma join_uids:
  assumes "\<forall>r\<in>set rs. 0 \<le> r_uid (hp ! r)"
  shows "\<forall>c\<in>set (join '','' (map (\<lambda>r. show_int (r_uid (hp ! r))) rs)). is_uid_char c"
  using assms
proof (induction rs rule: induct_list012)
  case (2 r)
  then show ?case using show_nat_digits by (auto simp: show_int_def is_uid_char_def)
next
  case (3 r r' rs)
  then show ?case using show_nat_digits by (auto simp: show_int_def is_uid_char_def)
qed simp

lemma match_at_format:
  assumes uid: "\<forall>r\<in>set (b_reqs b). 0 \<le> r_uid (hp ! r)" and tokens: "0 \<le> sum_list (map (\<lambda>r. extend_len (hp ! r)) (b_reqs b))"
  shows "match_at (format_batch_observation hp b pd rn @ s) =
     Some (phase_name (b_phase b), batch_size b, nat (sum_list (map (\<lambda>r. extend_len (hp ! r)) (b_reqs b))),
       pd, rn, join '','' (map (\<lambda>r. show_int (r_uid (hp ! r))) (b_reqs b)))"
proof -
  define us where "us = join '','' (map (\<lambda>r. show_int (r_uid (hp ! r))) (b_reqs b))"
  have chars: "\<forall>c\<in>set us. is_uid_char c" unfolding us_def by (rule join_uids[OF uid])
  have us: "takeWhile is_uid_char (us @ CHR '']'' # s) = us" "dropWhile is_uid_char (us @ CHR '']'' # s) = CHR '']'' # s"
    using chars by (auto simp: takeWhile_append2 dropWhile_append2 is_uid_char_def is_digit_def)
  define tc where "tc = nat (sum_list (map (\<lambda>r. extend_len (hp ! r)) (b_reqs b)))"
  have tc: "show_int (sum_list (map (\<lambda>r. extend_len (hp ! r)) (b_reqs b))) = show_nat tc"
    using tokens by (simp add: show_int_def tc_def)
  have sp: "\<not> is_digit (CHR '' '')" by (simp add: is_digit_def)
  show ?thesis
    unfolding format_batch_observation_def Let_def us_def[symmetric] tc_def[symmetric] tc match_at_def
    using sp us by (simp add: lit_def starts_with_def phase_lit_name del: show_nat.simps)
qed

lemma search_skip: "CHR ''S'' \<notin> set pre \<Longrightarrow> pattern_search (pre @ s) = pattern_search s"
  by (induction pre) (auto simp: match_at_def lit_def starts_with_def obind_def)

lemma split_uids:
  assumes "\<forall>r\<in>set rs. 0 \<le> r_uid (hp ! r)" and "rs \<noteq> []"
  shows "res_map uid_of (split_on (CHR '','') (join '','' (map (\<lambda>r. show_int (r_uid (hp ! r))) rs))) =
     Inr (map (\<lambda>r. nat (r_uid (hp ! r))) rs)"
proof -
  let ?f = "\<lambda>r. show_int (r_uid (hp ! r))"
  have f: "?f r = show_nat (nat (r_uid (hp ! r)))" if "r \<in> set rs" for r
  proof -
    have "\<not> r_uid (hp ! r) < 0" using assms(1) that by force
    then show ?thesis by (simp add: show_int_def)
  qed
  have "\<forall>w\<in>set (map ?f rs). CHR '','' \<notin> set w"
    using f show_nat_digits digit_not_sign by fastforce
  then have "split_on (CHR '','') (join '','' (map ?f rs)) = map ?f rs" using assms(2) by (intro split_join) auto
  moreover have "res_map uid_of (map ?f rs) = Inr (map (\<lambda>r. nat (r_uid (hp ! r))) rs)"
    using f by (induction rs) (auto simp: uid_of_def)
  ultimately show ?thesis by simp
qed

text \<open>
  C31: what the scheduler logs is what the tool reads. For every batch of requests with
  non-negative uids, wherever the line stands after a log prefix without a capital S and whatever follows, the
  parser finds it and returns the phase, the sizes and the uids that were written.
\<close>

theorem observation_roundtrip:
  assumes "\<forall>r\<in>set (b_reqs b). 0 \<le> r_uid (hp ! r) \<and> r_cached_len (hp ! r) \<le> r_device_len (hp ! r)" and "CHR ''S'' \<notin> set pre"
  shows "parse_batch_observation (pre @ format_batch_observation hp b pd rn @ post) =
     Inr (Some \<lparr>ob_phase = phase_name (b_phase b), ob_batch_size = batch_size b,
       ob_token_count = nat (sum_list (map (\<lambda>r. extend_len (hp ! r)) (b_reqs b))), ob_pending = pd, ob_running = rn,
       ob_uids = map (\<lambda>r. nat (r_uid (hp ! r))) (b_reqs b)\<rparr>)"
proof -
  have u: "\<forall>r\<in>set (b_reqs b). 0 \<le> r_uid (hp ! r)" using assms(1) by blast
  have t: "0 \<le> sum_list (map (\<lambda>r. extend_len (hp ! r)) (b_reqs b))"
    using assms(1) by (intro sum_list_nonneg) (auto simp: extend_len_def)
  let ?us = "join '','' (map (\<lambda>r. show_int (r_uid (hp ! r))) (b_reqs b))"
  have "pattern_search (format_batch_observation hp b pd rn @ post) = match_at (format_batch_observation hp b pd rn @ post)"
    using match_at_format[OF u t, of pd rn post] by (cases "format_batch_observation hp b pd rn @ post") (auto simp: match_at_def lit_def starts_with_def obind_def)
  note m = this[unfolded match_at_format[OF u t]]
  have nil: "?us = [] \<longleftrightarrow> b_reqs b = []"
  proof (cases "b_reqs b")
    case (Cons r rs)
    then show ?thesis by (cases rs) (simp_all add: show_int_def)
  qed simp
  show ?thesis
    unfolding parse_batch_observation_def search_skip[OF assms(2)] m
    using split_uids[OF u] nil by (cases "b_reqs b") auto
qed

definition demo_logged :: heap where
  "demo_logged = [\<lparr>r_class = PlainReq, r_input_ids = [5, 6, 7], r_table_idx = 0, r_cached_len = 1, r_device_len = 3,
     r_max_device_len = 9, r_output_len = 6, r_uid = 41, r_sampling = default_sampling_params, r_handle = NaiveHandle\<rparr>]"

theorem observation_roundtrip_witness:
  "parse_batch_observation (''INFO '' @ format_batch_observation demo_logged (new_batch [0, 0] Decode) 3 12 @ '' ok'') =
     Inr (Some \<lparr>ob_phase = ''decode'', ob_batch_size = 2, ob_token_count = 4, ob_pending = 3, ob_running = 12, ob_uids = [41, 41]\<rparr>)"
  using observation_roundtrip[of "new_batch [0, 0] Decode" demo_logged "''INFO ''" 3 12 "'' ok''"]
  by (simp add: demo_logged_def new_batch_def phase_name_def batch_size_def extend_len_def)

end
