(* ===== verification/AttnMeta.thy ===== *)
theory AttnMeta
  imports Scheduler
begin

text \<open>
  \<^verbatim>\<open>attention/fa.py\<close>, \<^verbatim>\<open>attention/trtllm.py\<close>, \<^verbatim>\<open>attention/fi.py\<close>, and \<^verbatim>\<open>attention/utils.py\<close>: the metadata the attention kernels
  get for a batch, and the buffers a captured graph reads instead. The kernels are outside; planning
  and running them is recorded as calls.
\<close>

section \<open>Running sums\<close>

fun prefix_sums :: "nat \<Rightarrow> nat list \<Rightarrow> nat list" where
  "prefix_sums a [] = []"
| "prefix_sums a (x # xs) = (a + x) # prefix_sums (a + x) xs"

definition max_res :: "nat list \<Rightarrow> nat res" where
  "max_res xs = (if xs = [] then Inl ValueError else Inr (Max (set xs)))"

text \<open>\<open>cu_seqlens\<close> has one entry more than there are sequences.\<close>

definition cu_seqlens :: "nat list \<Rightarrow> nat list" where
  "cu_seqlens lens = prefix_sums 0 (0 # lens)"

definition q_len :: "heap \<Rightarrow> rid \<Rightarrow> nat" where
  "q_len hp r = r_device_len (hp ! r) - r_cached_len (hp ! r)"

text \<open>The three cases of the query offsets: one token each, no cached prefix, and the general one.\<close>

definition cu_seqlens_q :: "heap \<Rightarrow> rid list \<Rightarrow> nat \<Rightarrow> nat list" where
  "cu_seqlens_q hp reqs max_seqlen_q =
     (if max_seqlen_q = 1 then [0 ..< length reqs + 1]
      else if list_all (\<lambda>r. r_cached_len (hp ! r) = 0) reqs then cu_seqlens (map (\<lambda>r. r_device_len (hp ! r)) reqs)
      else cu_seqlens (map (q_len hp) reqs))"

section \<open>FlashAttention and TensorRT-LLM\<close>

record attn_meta =
  am_cu_k :: "nat list"
  am_cu_q :: "nat list"
  am_cache_seqlens :: "nat list"
  am_max_k :: nat
  am_max_q :: nat
  am_page_table :: "slot list list"

definition table_row :: "'a list list \<Rightarrow> nat \<Rightarrow> 'a list res" where
  "table_row t i = (if i < length t then Inr (t ! i) else Inl IndexError)"

definition fa_prepare_metadata :: "nat \<Rightarrow> slot list list \<Rightarrow> heap \<Rightarrow> rid list \<Rightarrow> attn_meta res" where
  "fa_prepare_metadata page_size table hp reqs =
     (let seqlens_q = map (q_len hp) reqs; seqlens_k = map (\<lambda>r. r_device_len (hp ! r)) reqs in
      rbind (max_res seqlens_k) (\<lambda>max_seqlen_k.
      rbind (max_res seqlens_q) (\<lambda>max_seqlen_q.
      rbind (res_map (\<lambda>r. table_row table (r_table_idx (hp ! r))) reqs) (\<lambda>rows.
      let new_page_table = map (\<lambda>row. stride page_size (take max_seqlen_k row)) rows;
          new_page_table = (if page_size > 1 then map (map (\<lambda>s. s div int page_size)) new_page_table else new_page_table) in
      Inr \<lparr>am_cu_k = cu_seqlens seqlens_k, am_cu_q = cu_seqlens_q hp reqs max_seqlen_q, am_cache_seqlens = seqlens_k,
           am_max_k = max_seqlen_k, am_max_q = max_seqlen_q, am_page_table = new_page_table\<rparr>))))"

definition trtllm_prepare_metadata :: "nat \<Rightarrow> slot list list \<Rightarrow> heap \<Rightarrow> rid list \<Rightarrow> attn_meta res" where
  "trtllm_prepare_metadata page_size table hp reqs =
     (let seqlens_q = map (q_len hp) reqs; seqlens_k = map (\<lambda>r. r_device_len (hp ! r)) reqs in
      rbind (max_res seqlens_k) (\<lambda>max_seqlen_k.
      rbind (max_res seqlens_q) (\<lambda>max_seqlen_q.
      rbind (res_map (\<lambda>r. table_row table (r_table_idx (hp ! r))) reqs) (\<lambda>rows.
      let new_page_table = map (\<lambda>row. stride page_size (take max_seqlen_k row)) rows;
          new_page_table = (if page_size > 1 then map (map (\<lambda>s. s div int page_size)) new_page_table else new_page_table) in
      Inr \<lparr>am_cu_k = cu_seqlens seqlens_k, am_cu_q = cu_seqlens_q hp reqs max_seqlen_q, am_cache_seqlens = seqlens_k,
           am_max_k = max_seqlen_k, am_max_q = max_seqlen_q, am_page_table = new_page_table\<rparr>))))"

definition get_last_indices :: "attn_meta \<Rightarrow> nat \<Rightarrow> int list" where
  "get_last_indices m bs = map (\<lambda>x. int x - 1) (slice 1 (1 + bs) (am_cu_q m))"

section \<open>Capture buffers\<close>

record capture_data =
  cp_seq_lens :: "nat list"
  cp_positions :: "nat list"
  cp_cu_k :: "nat list"
  cp_cu_q :: "nat list"
  cp_page_table :: "slot list list"

definition capture_create :: "nat \<Rightarrow> nat \<Rightarrow> capture_data" where
  "capture_create max_bs max_seq_len =
     \<lparr>cp_seq_lens = replicate max_bs 1, cp_positions = replicate max_bs 0, cp_cu_k = [0 ..< max_bs + 1],
      cp_cu_q = [0 ..< max_bs + 1], cp_page_table = replicate max_bs (replicate max_seq_len 0)\<rparr>"

record attn_state =
  at_page_size :: nat
  at_capture :: "capture_data option"
  at_max_graph_bs :: nat
  at_capture_bs :: "nat list"
  at_version :: nat

definition new_attn_state :: "nat \<Rightarrow> bool \<Rightarrow> attn_state" where
  "new_attn_state page_size sm100 =
     \<lparr>at_page_size = page_size, at_capture = None, at_max_graph_bs = 0, at_capture_bs = [],
      at_version = (if sm100 then 4 else 3)\<rparr>"

definition init_capture_graph :: "nat \<Rightarrow> nat list \<Rightarrow> attn_state \<Rightarrow> attn_state res" where
  "init_capture_graph max_seq_len bs_list s =
     rbind (py_assert (at_capture s = None)) (\<lambda>_.
     rbind (max_res bs_list) (\<lambda>max_bs.
     Inr (s\<lparr>at_max_graph_bs := max_bs, at_capture := Some (capture_create max_bs (max_seq_len div at_page_size s)),
            at_capture_bs := sort bs_list\<rparr>)))"

text \<open>\<^verbatim>\<open>page_table.size(1)\<close> of the capture buffer.\<close>

definition row_width :: "'a list list \<Rightarrow> nat" where
  "row_width t = (case t of [] \<Rightarrow> 0 | r # _ \<Rightarrow> length r)"

definition prepare_for_capture :: "nat \<Rightarrow> attn_state \<Rightarrow> attn_meta res" where
  "prepare_for_capture bs s =
     rbind (py_assert (bs \<in> set (at_capture_bs s))) (\<lambda>_.
     case at_capture s of
       None \<Rightarrow> Inl AssertionError
     | Some c \<Rightarrow> Inr \<lparr>am_cu_k = take (bs + 1) (cp_cu_k c), am_cu_q = take (bs + 1) (cp_cu_q c),
         am_cache_seqlens = take bs (cp_seq_lens c), am_max_k = row_width (cp_page_table c) * at_page_size s, am_max_q = 1,
         am_page_table = take bs (cp_page_table c)\<rparr>)"

text \<open>\<^verbatim>\<open>buffer[:n].copy_(x)\<close>: the lengths must agree.\<close>

definition copy_into :: "nat \<Rightarrow> 'a list \<Rightarrow> 'a list \<Rightarrow> 'a list res" where
  "copy_into n buf xs = (if min n (length buf) \<noteq> length xs then Inl RuntimeError else Inr (xs @ drop n buf))"

definition prepare_for_replay :: "attn_meta \<Rightarrow> nat \<Rightarrow> attn_state \<Rightarrow> attn_state res" where
  "prepare_for_replay m bs s = (case at_capture s of
      None \<Rightarrow> Inl AssertionError
    | Some c \<Rightarrow>
        rbind (py_assert (bs \<in> set (at_capture_bs s))) (\<lambda>_.
        rbind (copy_into (bs + 1) (cp_cu_k c) (am_cu_k m)) (\<lambda>cu_k.
        rbind (copy_into bs (cp_seq_lens c) (am_cache_seqlens m)) (\<lambda>seq_lens.
        let table_len = row_width (am_page_table m) in
        if length (am_page_table m) \<noteq> min bs (length (cp_page_table c)) then Inl RuntimeError
        else
          rbind (res_map (\<lambda>(buf, row). copy_into table_len buf row) (zip (cp_page_table c) (am_page_table m))) (\<lambda>rows.
          Inr (s\<lparr>at_capture := Some (c\<lparr>cp_cu_k := cu_k, cp_seq_lens := seq_lens,
                 cp_page_table := rows @ drop bs (cp_page_table c)\<rparr>)\<rparr>))))))"

section \<open>FlashInfer\<close>

datatype wrapper = PrefillWrapper | DecodeWrapper | GraphWrapper nat

record fi_meta =
  fm_cu_q :: "nat list"
  fm_cu_k :: "nat list"
  fm_indices :: "slot list"
  fm_last_page_len :: "nat list"
  fm_seq_lens :: "nat list"
  fm_num_qo_heads :: int
  fm_num_kv_heads :: int
  fm_wrapper :: wrapper
  fm_initialized :: bool

record fi_state =
  fi_qo_heads :: int
  fi_kv_heads :: int
  fi_ones :: nat
  fi_capture :: "capture_data option"
  fi_max_graph_bs :: nat
  fi_capture_bs :: "nat list"
  fi_graph_wrappers :: "nat list"
  fi_plans :: "(wrapper \<times> nat list option \<times> nat list \<times> slot list) list"

definition use_tensor_cores :: "bool option \<Rightarrow> int \<Rightarrow> int \<Rightarrow> bool res" where
  "use_tensor_cores overridden num_qo_heads num_kv_heads = (case overridden of
      Some b \<Rightarrow> Inr b
    | None \<Rightarrow> if num_kv_heads = 0 then Inl ZeroDivisionError else Inr (num_qo_heads div num_kv_heads \<ge> 4))"

definition new_fi_state :: "bool option \<Rightarrow> int \<Rightarrow> int \<Rightarrow> int \<Rightarrow> fi_state res" where
  "new_fi_state overridden num_qo_heads num_kv_heads tp_size =
     rbind (use_tensor_cores overridden num_qo_heads num_kv_heads) (\<lambda>_.
     rbind (div_even num_qo_heads tp_size False) (\<lambda>qo.
     rbind (div_even num_kv_heads tp_size True) (\<lambda>kv.
     Inr \<lparr>fi_qo_heads = qo, fi_kv_heads = kv, fi_ones = 0, fi_capture = None, fi_max_graph_bs = 0, fi_capture_bs = [],
          fi_graph_wrappers = [], fi_plans = []\<rparr>)))"

text \<open>The smallest power of two that is at least \<open>n\<close>.\<close>

function pow2_from :: "nat \<Rightarrow> nat \<Rightarrow> nat" where
  "pow2_from p n = (if p = 0 \<or> n \<le> p then p else pow2_from (2 * p) n)"
  by pat_completeness auto
termination by (relation "measure (\<lambda>(p, n). n - p)") auto

definition next_power_of_2 :: "nat \<Rightarrow> nat" where
  "next_power_of_2 n = (if n \<le> 1 then 1 else pow2_from 1 n)"

definition get_ones_cpu :: "nat \<Rightarrow> fi_state \<Rightarrow> nat list \<times> fi_state" where
  "get_ones_cpu bs s =
     (if bs \<le> fi_ones s then (replicate bs 1, s)
      else let n = next_power_of_2 bs in (take bs (replicate n 1), s\<lparr>fi_ones := n\<rparr>))"

text \<open>The whole rows up to the length of each request, one after the other: pages of one token.\<close>

definition fi_prepare_metadata ::
  "slot list list \<Rightarrow> heap \<Rightarrow> rid list \<Rightarrow> bool \<Rightarrow> fi_state \<Rightarrow> (fi_meta \<times> fi_state) res" where
  "fi_prepare_metadata table hp reqs decode s =
     (let seqlens_q = map (q_len hp) reqs; seqlens_k = map (\<lambda>r. r_device_len (hp ! r)) reqs in
      rbind (max_res seqlens_q) (\<lambda>max_seqlen_q.
      rbind (res_map (\<lambda>r. rbind (table_row table (r_table_idx (hp ! r))) (\<lambda>row. Inr (take (r_device_len (hp ! r)) row))) reqs) (\<lambda>rows.
      let (ones, s) = get_ones_cpu (length reqs) s in
      Inr (\<lparr>fm_cu_q = cu_seqlens_q hp reqs max_seqlen_q, fm_cu_k = cu_seqlens seqlens_k, fm_indices = concat rows,
            fm_last_page_len = ones, fm_seq_lens = seqlens_k, fm_num_qo_heads = fi_qo_heads s, fm_num_kv_heads = fi_kv_heads s,
            fm_wrapper = (if decode then DecodeWrapper else PrefillWrapper), fm_initialized = False\<rparr>, s))))"

text \<open>Planning runs once per metadata; a decode wrapper is planned without the query offsets.\<close>

definition initialize_metadata_once :: "fi_meta \<Rightarrow> fi_state \<Rightarrow> fi_meta \<times> fi_state" where
  "initialize_metadata_once m s =
     (if fm_initialized m then (m, s)
      else (m\<lparr>fm_initialized := True\<rparr>,
            s\<lparr>fi_plans := fi_plans s @ [(fm_wrapper m, if fm_wrapper m = PrefillWrapper then Some (fm_cu_q m) else None,
                                       fm_cu_k m, fm_indices m)]\<rparr>))"

definition fi_init_capture_graph :: "nat \<Rightarrow> nat list \<Rightarrow> fi_state \<Rightarrow> fi_state res" where
  "fi_init_capture_graph max_seq_len bs_list s =
     rbind (py_assert (fi_capture s = None)) (\<lambda>_.
     rbind (max_res bs_list) (\<lambda>max_bs.
     Inr (s\<lparr>fi_max_graph_bs := max_bs, fi_capture := Some (capture_create max_bs max_seq_len), fi_capture_bs := sort bs_list\<rparr>)))"

definition fi_prepare_for_capture ::
  "slot list list \<Rightarrow> heap \<Rightarrow> rid list \<Rightarrow> fi_state \<Rightarrow> (fi_meta \<times> fi_state) res" where
  "fi_prepare_for_capture table hp reqs s =
     (let bs = length reqs in
      rbind (py_assert (bs \<in> set (fi_capture_bs s) \<and> bs \<notin> set (fi_graph_wrappers s) \<and> fi_capture s \<noteq> None)) (\<lambda>_.
      let s = s\<lparr>fi_graph_wrappers := fi_graph_wrappers s @ [bs]\<rparr> in
      rbind (fi_prepare_metadata table hp reqs True s) (\<lambda>(m, s).
      Inr (initialize_metadata_once (m\<lparr>fm_wrapper := GraphWrapper bs\<rparr>) s))))"

definition fi_prepare_for_replay :: "fi_meta \<Rightarrow> nat \<Rightarrow> fi_state \<Rightarrow> (fi_meta \<times> fi_state) res" where
  "fi_prepare_for_replay m bs s =
     rbind (py_assert (\<not> fm_initialized m)) (\<lambda>_.
     rbind (py_assert (fi_capture s \<noteq> None \<and> bs \<in> set (fi_capture_bs s))) (\<lambda>_.
     if bs \<notin> set (fi_graph_wrappers s) then Inl KeyError
     else Inr (initialize_metadata_once (m\<lparr>fm_wrapper := GraphWrapper bs\<rparr>) s)))"

section \<open>The metadata addresses the batch\<close>

lemma length_prefix_sums [simp]: "length (prefix_sums a xs) = length xs"
  by (induction xs arbitrary: a) auto

lemma prefix_sums_nth: "i < length xs \<Longrightarrow> prefix_sums a xs ! i = a + sum_list (take (Suc i) xs)"
proof (induction xs arbitrary: a i)
  case (Cons x xs)
  then show ?case by (cases i) auto
qed simp

lemma cu_seqlens_nth: "i \<le> length lens \<Longrightarrow> cu_seqlens lens ! i = sum_list (take i lens)"
  by (simp add: cu_seqlens_def prefix_sums_nth del: prefix_sums.simps)

lemma length_cu_seqlens [simp]: "length (cu_seqlens lens) = Suc (length lens)"
  by (simp add: cu_seqlens_def del: prefix_sums.simps)

lemma cu_seqlens_ones: "cu_seqlens (replicate n 1) = [0 ..< n + 1]"
  by (rule nth_equalityI) (auto simp: cu_seqlens_nth sum_list_replicate min_def simp del: upt_Suc)

text \<open>In all three cases the query offsets are the running sums of the query lengths.\<close>

lemma cu_seqlens_q_sums:
  assumes "\<forall>r\<in>set reqs. r_cached_len (hp ! r) < r_device_len (hp ! r)"
  shows "cu_seqlens_q hp reqs (Max (set (map (q_len hp) reqs))) = cu_seqlens (map (q_len hp) reqs)"
proof (cases "Max (set (map (q_len hp) reqs)) = 1")
  case True
  have "q_len hp r = 1" if "r \<in> set reqs" for r
  proof -
    have "q_len hp r \<le> Max (set (map (q_len hp) reqs))" using that by (intro Max_ge) auto
    moreover have "0 < q_len hp r" using assms that by (auto simp: q_len_def)
    ultimately show ?thesis using True by simp
  qed
  then have "map (q_len hp) reqs = replicate (length reqs) 1" by (simp add: map_replicate_const list_eq_iff_nth_eq)
  then show ?thesis using True cu_seqlens_ones[of "length reqs"] by (simp add: cu_seqlens_q_def)
next
  case False
  have "map (\<lambda>r. r_device_len (hp ! r)) reqs = map (q_len hp) reqs" if "list_all (\<lambda>r. r_cached_len (hp ! r) = 0) reqs"
    using that by (auto simp: list_all_iff q_len_def)
  then show ?thesis using False by (simp add: cu_seqlens_q_def del: map_eq_conv)
qed

lemma concat_nth_last:
  assumes "i < length xss" and "xss ! i \<noteq> []"
  shows "concat xss ! (sum_list (map length (take (Suc i) xss)) - 1) = last (xss ! i)"
    and "sum_list (map length (take (Suc i) xss)) \<le> length (concat xss)" and "0 < sum_list (map length (take (Suc i) xss))"
proof -
  let ?p = "concat (take (Suc i) xss)"
  have split: "concat xss = ?p @ concat (drop (Suc i) xss)" by (metis append_take_drop_id concat_append)
  have p: "?p = concat (take i xss) @ xss ! i" using assms(1) by (simp add: take_Suc_conv_app_nth)
  have len: "sum_list (map length (take (Suc i) xss)) = length ?p" by (simp add: length_concat)
  then show "0 < sum_list (map length (take (Suc i) xss))" "sum_list (map length (take (Suc i) xss)) \<le> length (concat xss)"
    using p assms(2) split by auto
  have "concat xss ! (length ?p - 1) = last ?p"
    using p assms(2) split by (simp add: nth_append last_conv_nth)
  then show "concat xss ! (sum_list (map length (take (Suc i) xss)) - 1) = last (xss ! i)" using len p assms(2) by simp
qed

lemma stride_nth: "0 < p \<Longrightarrow> k * p < length xs \<Longrightarrow> stride p xs ! k = xs ! (k * p)"
proof (induction p xs arbitrary: k rule: stride.induct)
  case (2 p x xs)
  show ?case
  proof (cases k)
    case (Suc k')
    then have "k' * p < length (drop (p - 1) xs)" using 2(2,3) by simp
    from 2(1)[OF 2(2) this] show ?thesis using Suc 2(2,3) by (simp add: nth_Cons')
  qed simp
qed simp

lemma length_stride_gt: "0 < p \<Longrightarrow> k * p < length xs \<Longrightarrow> k < length (stride p xs)"
proof (induction p xs arbitrary: k rule: stride.induct)
  case (2 p x xs)
  show ?case
  proof (cases k)
    case (Suc k')
    then have "k' * p < length (drop (p - 1) xs)" using 2(2,3) by simp
    from 2(1)[OF 2(2) this] show ?thesis using Suc by simp
  qed simp
qed simp

lemma res_map_nth: "res_map f xs = Inr ys \<Longrightarrow> i < length xs \<Longrightarrow> f (xs ! i) = Inr (ys ! i)"
proof (induction xs arbitrary: ys i)
  case (Cons x xs)
  then show ?case by (cases i) (auto simp: rbind_eq_Inr)
qed simp

lemma fa_page_entry:
  assumes run: "fa_prepare_metadata ps table hp reqs = Inr m" and i: "i < length reqs" and ps: "0 < ps"
    and k: "k * ps < r_device_len (hp ! (reqs ! i))" and width: "k * ps < length (table ! r_table_idx (hp ! (reqs ! i)))"
  shows "k < length (am_page_table m ! i)"
    and "am_page_table m ! i ! k = (table ! r_table_idx (hp ! (reqs ! i)) ! (k * ps)) div int ps"
proof -
  obtain rows mk where rows: "res_map (\<lambda>r. table_row table (r_table_idx (hp ! r))) reqs = Inr rows"
    and mk: "mk = Max (set (map (\<lambda>r. r_device_len (hp ! r)) reqs))"
    and pt: "am_page_table m = (if ps > 1 then map (map (\<lambda>s. s div int ps)) (map (\<lambda>row. stride ps (take mk row)) rows)
       else map (\<lambda>row. stride ps (take mk row)) rows)"
    using run by (auto simp: fa_prepare_metadata_def Let_def rbind_eq_Inr max_res_def split: if_splits)
  have row: "rows ! i = table ! r_table_idx (hp ! (reqs ! i))"
    using res_map_nth[OF rows i] by (auto simp: table_row_def split: if_splits)
  have len: "i < length rows" using length_res_map[OF rows] i by simp
  have "r_device_len (hp ! (reqs ! i)) \<le> mk" unfolding mk using i by (intro Max_ge) auto
  then have kr: "k * ps < length (take mk (rows ! i))" using k width row by simp
  have "k < length (stride ps (take mk (rows ! i)))" using length_stride_gt[OF ps kr] .
  moreover have "stride ps (take mk (rows ! i)) ! k = rows ! i ! (k * ps)" using stride_nth[OF ps kr] kr by simp
  ultimately show "k < length (am_page_table m ! i)"
    "am_page_table m ! i ! k = (table ! r_table_idx (hp ! (reqs ! i)) ! (k * ps)) div int ps"
    using len ps row by (cases "ps = 1"; auto simp: pt)+
qed

text \<open>
  C22: the kernels find the tokens the scheduler put into the batch. For every batch of requests with at least one
  new token each, whatever page size, the query offsets are the running sums of the new
  tokens in all three cases of the code, the last index of the i-th request is, in the flattened positions and table rows of the
  batch, the request's last position and its own row, the lengths are those of the requests, and entry k
  of its row of the page table is the page of position k times the page size. The two backends
  compute the same.
\<close>

theorem metadata_addresses_batch:
  assumes "\<forall>r\<in>set reqs. r_cached_len (hp ! r) < r_device_len (hp ! r)" and "fa_prepare_metadata ps table hp reqs = Inr m"
    and "i < length reqs" and "0 < ps"
  shows "am_cu_q m = cu_seqlens (map (q_len hp) reqs) \<and> am_cache_seqlens m ! i = r_device_len (hp ! (reqs ! i)) \<and>
     (let j = get_last_indices m (length reqs) ! i in
      0 \<le> j \<and> make_positions hp reqs ! nat j = r_device_len (hp ! (reqs ! i)) - 1 \<and>
      make_input_rows hp reqs ! nat j = r_table_idx (hp ! (reqs ! i))) \<and>
     (\<forall>k. k * ps < r_device_len (hp ! (reqs ! i)) \<and> k * ps < length (table ! r_table_idx (hp ! (reqs ! i))) \<longrightarrow>
        k < length (am_page_table m ! i) \<and>
        am_page_table m ! i ! k = (table ! r_table_idx (hp ! (reqs ! i)) ! (k * ps)) div int ps) \<and>
     trtllm_prepare_metadata ps table hp reqs = Inr m"
proof -
  have m: "am_cu_q m = cu_seqlens_q hp reqs (Max (set (map (q_len hp) reqs)))" "am_cache_seqlens m = map (\<lambda>r. r_device_len (hp ! r)) reqs"
    using assms(2) by (auto simp: fa_prepare_metadata_def Let_def rbind_eq_Inr max_res_def split: if_splits)
  note cu = m(1)[unfolded cu_seqlens_q_sums[OF assms(1)]]
  let ?r = "reqs ! i"
  have lt: "r_cached_len (hp ! ?r) < r_device_len (hp ! ?r)" using assms(1,3) by simp
  define n where "n = sum_list (map (q_len hp) (take (Suc i) reqs))"
  have j: "get_last_indices m (length reqs) ! i = int n - 1"
    using assms(3) by (simp add: get_last_indices_def cu cu_seqlens_nth slice_def n_def take_map nth_Cons')
  let ?P = "map (\<lambda>r. [r_cached_len (hp ! r) ..< r_device_len (hp ! r)]) reqs"
  let ?R = "map (\<lambda>r. replicate (r_device_len (hp ! r) - r_cached_len (hp ! r)) (r_table_idx (hp ! r))) reqs"
  have nP: "sum_list (map length (take (Suc i) ?P)) = n" and nR: "sum_list (map length (take (Suc i) ?R)) = n"
    
    unfolding n_def q_len_def[abs_def] by (simp_all add: take_map comp_def)
  have pos: "make_positions hp reqs ! (n - 1) = r_device_len (hp ! ?r) - 1" "0 < n"
    using concat_nth_last[of i ?P] assms(3) lt unfolding nP make_positions_def by (simp_all add: last_upt)
  moreover have "make_input_rows hp reqs ! (n - 1) = r_table_idx (hp ! ?r)"
    using concat_nth_last(1)[of i ?R] assms(3) lt unfolding nR make_input_rows_def by (simp add: last_replicate)
  moreover have "nat (int n - 1) = n - 1" by simp
  ultimately show ?thesis
    using cu m(2) assms(2,3) j fa_page_entry[OF assms(2,3,4)]
    by (simp add: fa_prepare_metadata_def trtllm_prepare_metadata_def Let_def)
qed

definition demo_reqs :: heap where
  "demo_reqs = map (\<lambda>(t, c, d). \<lparr>r_class = PlainReq, r_input_ids = replicate d 5, r_table_idx = t, r_cached_len = c, r_device_len = d,
     r_max_device_len = 9, r_output_len = 6, r_uid = int t, r_sampling = default_sampling_params, r_handle = NaiveHandle\<rparr>)
     [(1, 2, 5), (0, 0, 2)]"

theorem metadata_addresses_batch_witness:
  "\<exists>m. fa_prepare_metadata 2 [[4, 5, 8, 9, 6, 7], [10, 11, 12, 13, 2, 3]] demo_reqs [0, 1] = Inr m \<and>
     am_cu_q m = [0, 3, 5] \<and> am_page_table m = [[5, 6, 1], [2, 4, 3]] \<and> am_cache_seqlens m ! 1 = 2 \<and> am_page_table m ! 1 ! 0 = 4 div 2"
proof -
  let ?m = "\<lparr>am_cu_k = [0, 5, 7], am_cu_q = [0, 3, 5], am_cache_seqlens = [5, 2], am_max_k = 5, am_max_q = 3,
    am_page_table = [[5, 6, 1], [2, 4, 3]]\<rparr>"
  have m: "fa_prepare_metadata 2 [[4, 5, 8, 9, 6, 7], [10, 11, 12, 13, 2, 3]] demo_reqs [0, 1] = Inr ?m" by code_simp
  have "\<forall>r\<in>set [0, 1]. r_cached_len (demo_reqs ! r) < r_device_len (demo_reqs ! r)" by (simp add: demo_reqs_def)
  from metadata_addresses_batch[OF this m, of 1] show ?thesis using m by (simp add: demo_reqs_def)
qed

end
