(* ===== verification/LinAlg.thy ===== *)
theory LinAlg
  imports Complex_Main PyInt
begin

text \<open>
  Vectors and matrices as lists over the rationals, the collectives on them, and the parts a tensor is
  cut into. Every float is an exact rational here: rounding is not modelled.
\<close>

type_synonym vec = "rat list"
type_synonym mat = "rat list list"

definition dot :: "vec \<Rightarrow> vec \<Rightarrow> rat" where
  "dot a b = sum_list (map2 (*) a b)"

text \<open>\<^verbatim>\<open>F.linear(x, W, b)\<close> on a list of rows: \<open>W\<close> has one row per output.\<close>

definition linear_row :: "mat \<Rightarrow> vec option \<Rightarrow> vec \<Rightarrow> vec" where
  "linear_row W b x = (case b of
      None \<Rightarrow> map (\<lambda>w. dot w x) W
    | Some b \<Rightarrow> map (\<lambda>(w, c). dot w x + c) (zip W b))"

definition linear :: "mat \<Rightarrow> vec option \<Rightarrow> mat \<Rightarrow> mat" where
  "linear W b xs = map (linear_row W b) xs"

definition vadd :: "vec \<Rightarrow> vec \<Rightarrow> vec" where
  "vadd a b = map2 (+) a b"

definition scale :: "rat \<Rightarrow> vec \<Rightarrow> vec" where
  "scale c v = map ((*) c) v"

text \<open>The sum over the ranks, and the concatenation along the first dimension.\<close>

fun all_reduce :: "mat list \<Rightarrow> mat" where
  "all_reduce [] = []"
| "all_reduce [m] = m"
| "all_reduce (m # ms) = map2 vadd m (all_reduce ms)"

definition all_gather :: "'a list list \<Rightarrow> 'a list" where
  "all_gather ms = concat ms"

text \<open>\<^verbatim>\<open>torch.chunk\<close> along the first dimension: pieces of equal size, the last may be short, and there may be fewer than asked for.\<close>

definition chunk :: "nat \<Rightarrow> 'a list \<Rightarrow> 'a list list" where
  "chunk n xs = (if xs = [] then replicate n []
     else let k = (length xs + n - 1) div n in map (\<lambda>i. slice (i * k) ((i + 1) * k) xs) [0 ..< (length xs + k - 1) div k])"

section \<open>Lemmas\<close>

lemma all_reduce_map:
  "rs \<noteq> [] \<Longrightarrow> all_reduce (map (\<lambda>r. map (\<lambda>t. map (\<lambda>k. f r t k) ks) ts) rs) =
     map (\<lambda>t. map (\<lambda>k. sum_list (map (\<lambda>r. f r t k) rs)) ks) ts"
proof (induction rs rule: induct_list012)
  case (3 r r' rs)
  have "map2 vadd (map a ts) (map b ts) = map (\<lambda>t. vadd (a t) (b t)) ts" for a b :: "'b \<Rightarrow> vec"
    by (induction ts) auto
  moreover have "vadd (map a ks) (map b ks) = map (\<lambda>k. a k + b k) ks" for a b :: "'c \<Rightarrow> rat"
    unfolding vadd_def by (induction ks) auto
  ultimately show ?case using 3 by simp
qed auto

lemma dot_append: "length a = length c \<Longrightarrow> dot (a @ b) (c @ d) = dot a c + dot b d"
  by (simp add: dot_def)

lemma slices_concat: "concat (map (\<lambda>r. slice (r * k) ((r + 1) * k) xs) [0 ..< n]) = take (n * k) xs"
proof (induction n)
  case (Suc n)
  have "take (n * k) xs @ slice (n * k) (k + n * k) xs = take (k + n * k) xs"
    using slice_split[of 0 "n * k" "k + n * k" xs] by simp
  then show ?case using Suc by simp
qed simp

lemma dot_slices:
  assumes "length a = length b"
  shows "sum_list (map (\<lambda>r. dot (slice (r * k) ((r + 1) * k) a) (slice (r * k) ((r + 1) * k) b)) [0 ..< n]) =
     dot (take (n * k) a) (take (n * k) b)"
proof (induction n)
  case 0
  show ?case by (simp add: dot_def)
next
  case (Suc n)
  have "take (k + n * k) v = take (n * k) v @ slice (n * k) (k + n * k) v" for v :: vec
    using slice_split[of 0 "n * k" "k + n * k" v] by simp
  then show ?case using Suc assms by (simp add: dot_append)
qed

lemma chunk_exact:
  assumes "0 < n" and "length xs = n * k" and "0 < k"
  shows "chunk n xs = map (\<lambda>i. slice (i * k) ((i + 1) * k) xs) [0 ..< n]"
proof -
  have "(n * k + n - 1) div n = k"
    using assms(1) by (simp add: div_nat_eqI)
  moreover have "(n * k + k - 1) div k = n" using assms(3) by (intro div_nat_eqI) (auto simp: algebra_simps)
  ultimately show ?thesis using assms by (auto simp: chunk_def)
qed

end
