(* ===== verification/SchedIO.thy ===== *)
theory SchedIO
  imports Messages
begin

text \<open>
  \<^verbatim>\<open>scheduler/io.py\<close> and \<^verbatim>\<open>distributed/info.py\<close>: how the messages reach every rank of a scheduler, and how
  its results leave. A queue is the list of what has arrived and was not taken; a receive that
  would wait is \<open>None\<close>. The wire format is a type parameter with its decoder.
\<close>

section \<open>Ranks\<close>

record dist_info =
  di_rank :: int
  di_size :: int

definition new_dist_info :: "int \<Rightarrow> int \<Rightarrow> dist_info res" where
  "new_dist_info rank world = rbind (py_assert (0 \<le> rank \<and> rank < world)) (\<lambda>_. Inr \<lparr>di_rank = rank, di_size = world\<rparr>)"

definition is_primary :: "dist_info \<Rightarrow> bool" where
  "is_primary i \<longleftrightarrow> di_rank i = 0"

text \<open>The process-wide \<^verbatim>\<open>_TP_INFO\<close> is set once.\<close>

definition set_tp_info :: "int \<Rightarrow> int \<Rightarrow> dist_info option \<Rightarrow> dist_info option res" where
  "set_tp_info rank world tp = (if tp \<noteq> None then Inl RuntimeError else rbind (new_dist_info rank world) (\<lambda>i. Inr (Some i)))"

definition get_tp_info :: "dist_info option \<Rightarrow> dist_info res" where
  "get_tp_info tp = (case tp of None \<Rightarrow> Inl RuntimeError | Some i \<Rightarrow> Inr i)"

definition try_get_tp_info :: "dist_info option \<Rightarrow> dist_info option" where
  "try_get_tp_info tp = tp"

section \<open>The choice of the endpoints\<close>

datatype recv_kind = OfflineRecv | SingleRank | MultiRank0 | MultiRank1
datatype send_kind = OfflineSend | Rank0Send | Rank1Send

definition io_init :: "bool \<Rightarrow> dist_info \<Rightarrow> recv_kind \<times> send_kind" where
  "io_init offline i =
     (if offline then (OfflineRecv, OfflineSend)
      else if di_size i > 1 then (if is_primary i then (MultiRank0, Rank0Send) else (MultiRank1, Rank1Send))
      else (SingleRank, Rank0Send))"

text \<open>The queues an endpoint opens: those with the tokenizer at rank 0, the broadcast when there are several ranks.\<close>

datatype queue_kind = PullBackend | PushDetokenizer | PubBroadcast | SubBroadcast

definition io_queues :: "bool \<Rightarrow> dist_info \<Rightarrow> queue_kind list" where
  "io_queues offline i =
     (if offline then []
      else (if is_primary i then [PullBackend, PushDetokenizer] else []) @
           (if di_size i > 1 then (if is_primary i then [PubBroadcast] else [SubBroadcast]) else []))"

section \<open>Receiving\<close>

text \<open>\<open>idle\<close> is the outcome of \<^verbatim>\<open>run_when_idle\<close>, called before a rank waits. The queue is empty afterwards.\<close>

definition recv_msg_single_rank :: "('raw \<Rightarrow> 'm res) \<Rightarrow> unit res \<Rightarrow> bool \<Rightarrow> 'raw list \<Rightarrow> 'm list option res" where
  "recv_msg_single_rank decode idle blocking queue =
     (if blocking then rbind idle (\<lambda>_. case queue of
          [] \<Rightarrow> Inr None
        | raw # queue \<Rightarrow> rbind (decode raw) (\<lambda>m. rbind (res_map decode queue) (\<lambda>ms. Inr (Some (m # ms)))))
      else rbind (res_map decode queue) (\<lambda>ms. Inr (Some ms)))"

text \<open>
  Rank 0 publishes what it takes, and broadcasts how many it took without waiting. The result holds
  the messages, what was published and the number broadcast.
\<close>

definition recv_msg_multi_rank0 ::
  "('raw \<Rightarrow> 'm res) \<Rightarrow> unit res \<Rightarrow> bool \<Rightarrow> 'raw list \<Rightarrow> ('m list \<times> 'raw list \<times> int) option res" where
  "recv_msg_multi_rank0 decode idle blocking queue =
     (if blocking then rbind idle (\<lambda>_. case queue of
          [] \<Rightarrow> Inr None
        | raw # queue \<Rightarrow> rbind (decode raw) (\<lambda>m. rbind (res_map decode queue) (\<lambda>ms.
             Inr (Some (m # ms, raw # queue, int (length queue))))))
      else rbind (res_map decode queue) (\<lambda>ms. Inr (Some (ms, queue, int (length queue)))))"

text \<open>Another rank takes from its subscription and waits for the number; the result holds what is left of both.\<close>

definition recv_msg_multi_rank1 ::
  "('raw \<Rightarrow> 'm res) \<Rightarrow> unit res \<Rightarrow> bool \<Rightarrow> 'raw list \<Rightarrow> int list \<Rightarrow> ('m list \<times> 'raw list \<times> int list) option res" where
  "recv_msg_multi_rank1 decode idle blocking sub counts =
     (let more = (\<lambda>pending sub. case counts of
            [] \<Rightarrow> Inr None
          | n # counts \<Rightarrow>
              if length sub < nat n then Inr None
              else rbind (res_map decode (take (nat n) sub)) (\<lambda>ms. Inr (Some (pending @ ms, drop (nat n) sub, counts))))
      in if blocking then rbind idle (\<lambda>_. case sub of
             [] \<Rightarrow> Inr None
           | raw # sub \<Rightarrow> rbind (decode raw) (\<lambda>m. more [m] sub))
         else more [] sub)"

section \<open>Sending\<close>

definition reply_tokenizer_rank0 :: "tokenizer_msg list \<Rightarrow> tokenizer_msg list" where
  "reply_tokenizer_rank0 reply =
     (if length reply = 1 then [hd reply] else if length reply > 1 then [BatchTokenizerMsg reply] else [])"

definition reply_tokenizer_rank1 :: "tokenizer_msg list \<Rightarrow> tokenizer_msg list" where
  "reply_tokenizer_rank1 reply = []"

section \<open>Rounds\<close>

text \<open>A run: in each round, whether the rank waits and what has reached rank 0's queue when it is found empty.\<close>

fun rank0_rounds ::
  "('raw \<Rightarrow> 'm res) \<Rightarrow> unit res \<Rightarrow> (bool \<times> 'raw list) list \<Rightarrow> ('m list list \<times> 'raw list \<times> int list) option res" where
  "rank0_rounds decode idle [] = Inr (Some ([], [], []))"
| "rank0_rounds decode idle ((blocking, queue) # rounds) =
     rbind (recv_msg_multi_rank0 decode idle blocking queue) (\<lambda>r. case r of
         None \<Rightarrow> Inr None
       | Some (ms, pub, n) \<Rightarrow> rbind (rank0_rounds decode idle rounds) (\<lambda>r. case r of
           None \<Rightarrow> Inr None
         | Some (mss, pubs, ns) \<Rightarrow> Inr (Some (ms # mss, pub @ pubs, n # ns))))"

fun rank1_rounds ::
  "('raw \<Rightarrow> 'm res) \<Rightarrow> unit res \<Rightarrow> bool list \<Rightarrow> 'raw list \<Rightarrow> int list \<Rightarrow> ('m list list \<times> 'raw list \<times> int list) option res" where
  "rank1_rounds decode idle [] sub counts = Inr (Some ([], sub, counts))"
| "rank1_rounds decode idle (blocking # bs) sub counts =
     rbind (recv_msg_multi_rank1 decode idle blocking sub counts) (\<lambda>r. case r of
         None \<Rightarrow> Inr None
       | Some (ms, sub, counts) \<Rightarrow> rbind (rank1_rounds decode idle bs sub counts) (\<lambda>r. case r of
           None \<Rightarrow> Inr None
         | Some (mss, sub, counts) \<Rightarrow> Inr (Some (ms # mss, sub, counts))))"

section \<open>Every rank receives the same\<close>

lemma res_map_length_take: "res_map decode q = Inr ms \<Longrightarrow> res_map decode (take (length q) (q @ r)) = Inr ms"
  by simp

lemma rank1_follows:
  assumes "recv_msg_multi_rank0 decode idle blocking queue = Inr (Some (ms, pub, n))"
  shows "recv_msg_multi_rank1 decode idle blocking (pub @ sub) (n # counts) = Inr (Some (ms, sub, counts))"
    and "recv_msg_single_rank decode idle blocking queue = Inr (Some ms)" and "pub = queue"
  using assms
  by (auto simp: recv_msg_multi_rank0_def recv_msg_multi_rank1_def recv_msg_single_rank_def Let_def rbind_eq_Inr
      split: if_splits list.splits)

text \<open>
  C5: all ranks see the same messages. Over any sequence of rounds, waiting or not, with whatever has
  arrived at rank 0 in each, another rank that is asked to wait in the same rounds receives in every
  round exactly the messages rank 0 receives, takes the whole broadcast and all counts, and both are
  what a single rank would have received.
\<close>

theorem ranks_receive_same:
  assumes "rank0_rounds decode idle rounds = Inr (Some (mss, pub, counts))"
  shows "rank1_rounds decode idle (map fst rounds) pub counts = Inr (Some (mss, [], [])) \<and>
     res_map (\<lambda>(b, q). recv_msg_single_rank decode idle b q) rounds = Inr (map Some mss) \<and>
     pub = concat (map snd rounds)"
proof -
  have "rank1_rounds decode idle (map fst rounds) (pub @ sub) (counts @ ns) = Inr (Some (mss, sub, ns)) \<and>
     res_map (\<lambda>(b, q). recv_msg_single_rank decode idle b q) rounds = Inr (map Some mss) \<and>
     pub = concat (map snd rounds)" for sub ns
    using assms
  proof (induction rounds arbitrary: mss pub counts)
    case (Cons r rounds)
    obtain b q where r: "r = (b, q)" by (cases r)
    then obtain ms p n mss' pub' counts' where
      first: "recv_msg_multi_rank0 decode idle b q = Inr (Some (ms, p, n))" and
      rest: "rank0_rounds decode idle rounds = Inr (Some (mss', pub', counts'))" and
      eq: "mss = ms # mss'" "pub = p @ pub'" "counts = n # counts'"
      using Cons.prems by (auto simp: rbind_eq_Inr split: option.splits)
    note now = rank1_follows(1)[OF first, of "pub' @ sub" "counts' @ ns"] rank1_follows(2,3)[OF first]
    have "rank1_rounds decode idle (map fst (r # rounds)) (pub @ sub) (counts @ ns) = Inr (Some (mss, sub, ns))"
      using conjunct1[OF Cons.IH[OF rest]] now(1) by (simp add: r eq)
    then show ?case using conjunct2[OF Cons.IH[OF rest]] now(2,3) by (simp add: r eq)
  qed simp
  from this[of "[]" "[]"] show ?thesis unfolding append_Nil2 .
qed

theorem ranks_receive_same_witness:
  "rank1_rounds (\<lambda>r. Inr (AbortBackendMsg r)) (Inr ()) [True, False, False] [4, 5, 6] [1, 0, 1] =
     Inr (Some ([[AbortBackendMsg 4, AbortBackendMsg 5], [], [AbortBackendMsg 6]], [], []))"
  using ranks_receive_same[of "\<lambda>r. Inr (AbortBackendMsg r)" "Inr ()" "[(True, [4, 5]), (False, []), (False, [6])]"
      "[[AbortBackendMsg 4, AbortBackendMsg 5], [], [AbortBackendMsg 6]]" "[4, 5, 6]" "[1, 0, 1]"]
  by (simp add: recv_msg_multi_rank0_def)

end
