(* ===== verification/Layers.thy ===== *)
theory Layers
  imports LinAlg SchedIO PyText
begin

text \<open>
  \<^verbatim>\<open>layers/base.py\<close>, \<^verbatim>\<open>layers/linear.py\<close> and \<^verbatim>\<open>layers/embedding.py\<close>: operators with their named parameters, and the
  layers cut over the ranks of a tensor parallel group. Values are exact; where the code picks a kernel
  by the device the portable path is the model.
\<close>

section \<open>Operators and their parameters\<close>

text \<open>A tensor here is its shape, its type and its values; the attributes of an operator are in the order of its \<^verbatim>\<open>__dict__\<close>.\<close>

record tensor =
  ts_shape :: "nat list"
  ts_dtype :: string
  ts_data :: "rat list"

datatype op = Param tensor | BaseOP "(string \<times> op) list" | StateLessOP | OPList "op list" | OtherAttr

type_synonym state_map = "(string \<times> tensor) list"

definition concat_prefix :: "string \<Rightarrow> string \<Rightarrow> string" where
  "concat_prefix pre name = (if pre \<noteq> [] then pre @ ''.'' @ name else name)"

text \<open>Assignment to a key of a dictionary keeps its place when the key is there.\<close>

fun dict_put :: "string \<Rightarrow> 'a \<Rightarrow> (string \<times> 'a) list \<Rightarrow> (string \<times> 'a) list" where
  "dict_put k v [] = [(k, v)]"
| "dict_put k v ((k', v') # d) = (if k' = k then (k, v) # d else (k', v') # dict_put k v d)"

definition dict_pop :: "string \<Rightarrow> (string \<times> 'a) list \<Rightarrow> ('a \<times> (string \<times> 'a) list) res" where
  "dict_pop k d = (case map_of d k of None \<Rightarrow> Inl KeyError | Some v \<Rightarrow> Inr (v, filter (\<lambda>(k', _). k' \<noteq> k) d))"

definition hidden :: "string \<Rightarrow> bool" where
  "hidden name \<longleftrightarrow> starts_with ''_'' name"

text \<open>\<^verbatim>\<open>state_dict\<close> of an operator, and of one attribute under its full name.\<close>

fun op_state_dict :: "op \<Rightarrow> string \<Rightarrow> state_map \<Rightarrow> state_map"
  and attr_state_dict :: "(string \<times> op) list \<Rightarrow> string \<Rightarrow> state_map \<Rightarrow> state_map"
  and list_state_dict :: "op list \<Rightarrow> nat \<Rightarrow> string \<Rightarrow> state_map \<Rightarrow> state_map" where
  "op_state_dict (Param t) pre result = dict_put pre t result"
| "op_state_dict (BaseOP attrs) pre result = attr_state_dict attrs pre result"
| "op_state_dict StateLessOP pre result = result"
| "op_state_dict (OPList ops) pre result = list_state_dict ops 0 pre result"
| "op_state_dict OtherAttr pre result = result"
| "attr_state_dict [] pre result = result"
| "attr_state_dict ((name, x) # attrs) pre result =
     attr_state_dict attrs pre
       (if hidden name then result else op_state_dict x (concat_prefix pre name) result)"
| "list_state_dict [] i pre result = result"
| "list_state_dict (x # ops) i pre result =
     list_state_dict ops (Suc i) pre (op_state_dict x (concat_prefix pre (show_nat i)) result)"

text \<open>
  \<^verbatim>\<open>load_state_dict\<close> takes its parameters out of the dictionary, which the outermost call wants empty
  at the end.
\<close>

fun op_load :: "op \<Rightarrow> string \<Rightarrow> state_map \<Rightarrow> (op \<times> state_map) res"
  and attr_load :: "(string \<times> op) list \<Rightarrow> string \<Rightarrow> state_map \<Rightarrow> ((string \<times> op) list \<times> state_map) res"
  and list_load :: "op list \<Rightarrow> nat \<Rightarrow> string \<Rightarrow> state_map \<Rightarrow> (op list \<times> state_map) res" where
  "op_load (Param t) pre d =
     rbind (dict_pop pre d) (\<lambda>(item, d).
     rbind (py_assert (ts_shape t = ts_shape item \<and> ts_dtype t = ts_dtype item)) (\<lambda>_. Inr (Param item, d)))"
| "op_load (BaseOP attrs) pre d = rbind (attr_load attrs pre d) (\<lambda>(attrs, d). Inr (BaseOP attrs, d))"
| "op_load StateLessOP pre d = Inr (StateLessOP, d)"
| "op_load (OPList ops) pre d = rbind (list_load ops 0 pre d) (\<lambda>(ops, d). Inr (OPList ops, d))"
| "op_load OtherAttr pre d = Inr (OtherAttr, d)"
| "attr_load [] pre d = Inr ([], d)"
| "attr_load ((name, x) # attrs) pre d =
     (if hidden name then rbind (attr_load attrs pre d) (\<lambda>(attrs, d). Inr ((name, x) # attrs, d))
      else rbind (op_load x (concat_prefix pre name) d) (\<lambda>(x, d).
           rbind (attr_load attrs pre d) (\<lambda>(attrs, d). Inr ((name, x) # attrs, d))))"
| "list_load [] i pre d = Inr ([], d)"
| "list_load (x # ops) i pre d =
     rbind (op_load x (concat_prefix pre (show_nat i)) d) (\<lambda>(x, d).
     rbind (list_load ops (Suc i) pre d) (\<lambda>(ops, d). Inr (x # ops, d)))"

definition state_dict :: "op \<Rightarrow> state_map" where
  "state_dict x = op_state_dict x [] []"

definition load_state_dict :: "op \<Rightarrow> state_map \<Rightarrow> op res" where
  "load_state_dict x d = rbind (op_load x [] d) (\<lambda>(x, d). if d \<noteq> [] then Inl RuntimeError else Inr x)"

text \<open>A tied output head takes no parameters, and drops its own from the dictionary.\<close>

definition tied_head_load :: "string \<Rightarrow> state_map \<Rightarrow> state_map" where
  "tied_head_load pre d = filter (\<lambda>(k, _). k \<noteq> pre @ ''.weight'' \<and> k \<noteq> pre @ ''.bias'') d"

section \<open>Sizes of the linear layers\<close>

record linear_size =
  ln_full_in :: int
  ln_full_out :: int
  ln_local_in :: int
  ln_local_out :: int

definition linear_replicated :: "int \<Rightarrow> int \<Rightarrow> linear_size" where
  "linear_replicated i k = \<lparr>ln_full_in = i, ln_full_out = k, ln_local_in = i, ln_local_out = k\<rparr>"

definition linear_col_parallel :: "dist_info \<Rightarrow> int \<Rightarrow> int list \<Rightarrow> linear_size res" where
  "linear_col_parallel tp i outs =
     rbind (res_map (\<lambda>k. div_even k (di_size tp) False) outs) (\<lambda>locals.
     Inr \<lparr>ln_full_in = i, ln_full_out = sum_list outs, ln_local_in = i, ln_local_out = sum_list locals\<rparr>)"

definition linear_qkv :: "dist_info \<Rightarrow> int \<Rightarrow> int \<Rightarrow> int \<Rightarrow> int \<Rightarrow> linear_size res" where
  "linear_qkv tp hidden_size head_dim num_qo_heads num_kv_heads =
     rbind (div_even num_qo_heads (di_size tp) False) (\<lambda>local_num_qo.
     rbind (div_even num_kv_heads (di_size tp) True) (\<lambda>local_num_kv.
     Inr \<lparr>ln_full_in = hidden_size, ln_full_out = (num_qo_heads + 2 * num_kv_heads) * head_dim,
          ln_local_in = hidden_size, ln_local_out = (local_num_qo + 2 * local_num_kv) * head_dim\<rparr>))"

definition linear_o_proj :: "dist_info \<Rightarrow> int \<Rightarrow> int \<Rightarrow> linear_size res" where
  "linear_o_proj tp i k =
     rbind (div_even i (di_size tp) False) (\<lambda>local_i.
     Inr \<lparr>ln_full_in = i, ln_full_out = k, ln_local_in = local_i, ln_local_out = k\<rparr>)"

definition linear_row_parallel :: "dist_info \<Rightarrow> int \<Rightarrow> int \<Rightarrow> linear_size res" where
  "linear_row_parallel tp i k =
     rbind (div_even i (di_size tp) False) (\<lambda>local_i.
     Inr \<lparr>ln_full_in = i, ln_full_out = k, ln_local_in = local_i, ln_local_out = k\<rparr>)"

section \<open>Forward passes over all ranks\<close>

text \<open>
  One call on every rank at once: rank \<open>r\<close> has its own weight and input. A row parallel layer adds up
  the ranks' results, the bias of each included.
\<close>

definition col_forward :: "mat list \<Rightarrow> vec list option \<Rightarrow> mat \<Rightarrow> mat list" where
  "col_forward Ws bs xs = map (\<lambda>r. linear (Ws ! r) (map_option (\<lambda>bs. bs ! r) bs) xs) [0 ..< length Ws]"

definition row_forward :: "mat list \<Rightarrow> vec option \<Rightarrow> mat list \<Rightarrow> mat" where
  "row_forward Ws b xss =
     (let ys = map (\<lambda>r. linear (Ws ! r) b (xss ! r)) [0 ..< length Ws] in
      if length Ws > 1 then all_reduce ys else ys ! 0)"

section \<open>Vocabulary parallel embedding\<close>

record vocab =
  vo_tp_size :: nat
  vo_num :: nat
  vo_num_tp :: nat
  vo_start :: nat
  vo_length :: int

definition new_vocab :: "nat \<Rightarrow> nat \<Rightarrow> nat \<Rightarrow> vocab" where
  "new_vocab rank world num =
     (let num_tp = nat (div_ceil (int num) (int world)); start_idx = num_tp * rank; finish_idx = min (start_idx + num_tp) num in
      \<lparr>vo_tp_size = world, vo_num = num, vo_num_tp = num_tp, vo_start = start_idx, vo_length = int finish_idx - int start_idx\<rparr>)"

text \<open>\<^verbatim>\<open>F.embedding\<close> on one id.\<close>

definition embed :: "mat \<Rightarrow> int \<Rightarrow> vec res" where
  "embed W x = (if 0 \<le> x \<and> x < int (length W) then Inr (W ! nat x) else Inl IndexError)"

definition embedding_local :: "vocab \<Rightarrow> mat \<Rightarrow> int list \<Rightarrow> mat res" where
  "embedding_local v W xs =
     (if vo_tp_size v = 1 then res_map (embed W) xs
      else res_map (\<lambda>x.
        let local_id = x - int (vo_start v); out_of_range = (local_id < 0 \<or> local_id \<ge> vo_length v);
            safe_id = (if out_of_range then 0 else local_id) in
        rbind (embed W safe_id) (\<lambda>y. Inr (if out_of_range then map (\<lambda>_. 0) y else y))) xs)"

definition embedding_forward :: "vocab list \<Rightarrow> mat list \<Rightarrow> int list \<Rightarrow> mat res" where
  "embedding_forward vs Ws xs =
     rbind (res_map (\<lambda>(v, W). embedding_local v W xs) (zip vs Ws)) (\<lambda>ys.
     Inr (if length vs > 1 then all_reduce ys else ys ! 0))"

text \<open>
  The output head: logits of every rank's rows, gathered. With one row the ranks' rows are simply
  joined, otherwise the gathered rows are transposed to the token first.
\<close>

definition lm_head_forward :: "nat \<Rightarrow> nat \<Rightarrow> mat list \<Rightarrow> vec list option \<Rightarrow> mat \<Rightarrow> mat" where
  "lm_head_forward bs num Ws biases xs =
     (let logits = col_forward Ws biases xs in
      if length Ws = 1 then logits ! 0
      else let output_tensor = all_gather logits in
        if bs = 1 then [take num (concat output_tensor)]
        else map (\<lambda>t. take num (concat (map (\<lambda>r. output_tensor ! (r * length xs + t)) [0 ..< length Ws]))) [0 ..< length xs])"

text \<open>For a prefill batch only the last token of each request goes through the head.\<close>

definition select_last :: "bool \<Rightarrow> int list \<Rightarrow> 'a list \<Rightarrow> 'a list res" where
  "select_last prefill indices xs = (if prefill then res_map (py_index xs) indices else Inr xs)"

end
