(* ===== verification/LayersProps.thy ===== *)
theory LayersProps
  imports Layers
begin

text \<open>
  What the ranks of a tensor parallel group compute together is what one rank with the whole weights
  would compute.
\<close>

section \<open>Blocks of equal length\<close>

lemma length_concat_uniform: "\<forall>x\<in>set xss. length x = k \<Longrightarrow> length (concat xss) = length xss * k"
  by (induction xss) auto

lemma concat_nth_uniform:
  "\<forall>x\<in>set xss. length x = k \<Longrightarrow> r < length xss \<Longrightarrow> j < k \<Longrightarrow> concat xss ! (r * k + j) = xss ! r ! j"
proof (induction xss arbitrary: r)
  case (Cons x xss)
  then show ?case by (cases r) (auto simp: nth_append algebra_simps)
qed simp

section \<open>Linear layers\<close>





section \<open>Embedding and output head\<close>

definition vocab_shards :: "nat \<Rightarrow> nat \<Rightarrow> mat \<Rightarrow> mat list \<Rightarrow> bool" where
  "vocab_shards n dm E Ws \<longleftrightarrow>
     (let k = nat (div_ceil (int (length E)) (int n)) in
      length Ws = n \<and> list_all (\<lambda>w. length w = k \<and> list_all (\<lambda>row. length row = dm) w) Ws \<and>
      list_all (\<lambda>row. length row = dm) E \<and>
      (\<forall>i<length E. Ws ! (i div k) ! (i mod k) = E ! i))"

lemma vocab_block:
  assumes "0 < n" and "0 < (num :: nat)"
  shows "0 < nat (div_ceil (int num) (int n))" and "num \<le> n * nat (div_ceil (int num) (int n))"
proof -
  have eq: "nat (div_ceil (int num) (int n)) = (num + n - 1) div n"
  proof -
    have "int num + int n - 1 = int (num + n - 1)" using assms by simp
    show ?thesis unfolding div_ceil_def \<open>int num + int n - 1 = int (num + n - 1)\<close> zdiv_int[symmetric] by simp
  qed
  show "0 < nat (div_ceil (int num) (int n))" unfolding eq using assms by (simp add: div_greater_zero_iff)
  have "num + n - 1 < n * ((num + n - 1) div n) + n"
    using assms(1) by (metis add.commute add_less_cancel_left mod_less_divisor mult_div_mod_eq)
  then show "num \<le> n * nat (div_ceil (int num) (int n))" unfolding eq by linarith
qed

lemma embedding_local_rank:
  assumes sh: "vocab_shards n dm E Ws" and r: "r < n" and E: "E \<noteq> []" and n: "1 < n"
    and xs: "\<forall>x\<in>set xs. 0 \<le> x \<and> x < int (length E)"
  shows "embedding_local (new_vocab r n (length E)) (Ws ! r) xs =
     Inr (map (\<lambda>x. map (\<lambda>j. if r = nat x div nat (div_ceil (int (length E)) (int n)) then E ! nat x ! j else 0) [0 ..< dm]) xs)"
proof -
  define k where "k = nat (div_ceil (int (length E)) (int n))"
  note sh = sh[unfolded vocab_shards_def Let_def k_def[symmetric] list_all_iff]
  have k: "0 < k" "length E \<le> n * k" using vocab_block[of n "length E"] n E by (simp_all add: k_def)
  have "Ws ! r \<in> set Ws" using sh r by simp
  then have W: "length (Ws ! r) = k" "\<And>j. j < k \<Longrightarrow> length (Ws ! r ! j) = dm" using sh by (blast, metis nth_mem)
  let ?v = "new_vocab r n (length E)"
  have v: "vo_tp_size ?v = n" "vo_start ?v = k * r" "vo_length ?v = int (min (k * r + k) (length E)) - int (k * r)"
    by (simp_all add: new_vocab_def Let_def k_def)
  have one: "(let local_id = x - int (vo_start ?v); out_of_range = (local_id < 0 \<or> local_id \<ge> vo_length ?v);
            safe_id = (if out_of_range then 0 else local_id) in
        rbind (embed (Ws ! r) safe_id) (\<lambda>y. Inr (if out_of_range then map (\<lambda>_. 0) y else y))) =
      Inr (map (\<lambda>j. if r = nat x div k then E ! nat x ! j else 0) [0 ..< dm])" if "x \<in> set xs" for x
  proof -
    obtain i where i: "x = int i" "i < length E" using xs \<open>x \<in> set xs\<close> by (metis nat_eq_iff2 nat_less_iff)
    have range: "(x - int (vo_start ?v) < 0 \<or> x - int (vo_start ?v) \<ge> vo_length ?v) \<longleftrightarrow> r \<noteq> i div k"
    proof -
      have "r = i div k \<longleftrightarrow> k * r \<le> i \<and> i < k * r + k"
      proof -
        have "r = i div k \<longleftrightarrow> r \<le> i div k \<and> i div k < Suc r" by linarith
        then show ?thesis
          using less_eq_div_iff_mult_less_eq[OF k(1), of r i] div_less_iff_less_mult[OF k(1), of i "Suc r"]
          by (simp add: mult.commute add.commute)
      qed
      moreover have "int i - int m < 0 \<longleftrightarrow> i < m" "int i - int m \<ge> int l - int m \<longleftrightarrow> l \<le> i" for m l by linarith+
      ultimately show ?thesis unfolding i(1) v using i(2) by (simp only:) linarith
    qed
    show ?thesis
    proof (cases "r = i div k")
      case True
      have loc: "x - int (vo_start ?v) = int (i mod k)"
        using True i v by (simp add: minus_mult_div_eq_mod mult.commute zmod_int) (metis minus_mult_div_eq_mod of_nat_div of_nat_mult zmod_int)
      have "Ws ! r ! (i mod k) = E ! i" using sh i(2) True by auto
      moreover have "length (E ! i) = dm" using sh i(2) by auto
      moreover have "i mod k < length (Ws ! r)" using k W by simp
      ultimately show ?thesis
        using True range loc i W k unfolding Let_def
        by (auto simp: embed_def intro!: nth_equalityI)
    next
      case False
      then show ?thesis
        using range W k i unfolding Let_def by (simp add: embed_def) (simp add: map_replicate_const)
    qed
  qed
  show ?thesis
    unfolding embedding_local_def v k_def[symmetric] using n one
    by (simp add: v(1) k_def[symmetric] del: Let_def) (rule res_map_total, simp add: v)
qed

lemma sum_one_rank: "q < n \<Longrightarrow> sum_list (map (\<lambda>r. if r = q then e else (0 :: rat)) [0 ..< n]) = e"
  by (simp add: interv_sum_list_conv_sum_set_nat)

lemma single_rank_shards:
  assumes "vocab_shards 1 dm E Ws"
  shows "Ws = [E]"
proof -
  have k: "nat (div_ceil (int (length E)) 1) = length E" by (simp add: div_ceil_def)
  then have W: "length Ws = 1" "length (Ws ! 0) = length E" "\<forall>i<length E. Ws ! 0 ! i = E ! i"
    using assms by (auto simp: vocab_shards_def Let_def list_all_iff nth_mem)
  then have "Ws ! 0 = E" by (intro nth_equalityI) auto
  then show ?thesis using W(1) by (cases Ws) auto
qed

lemma shards_concat:
  assumes sh: "vocab_shards n dm E Ws" and n: "0 < n"
  shows "take (length E) (concat Ws) = E"
proof (cases "E = []")
  case False
  define k where "k = nat (div_ceil (int (length E)) (int n))"
  note sh = sh[unfolded vocab_shards_def Let_def k_def[symmetric] list_all_iff]
  have k: "0 < k" "length E \<le> n * k" using vocab_block[of n "length E"] n False by (simp_all add: k_def)
  have len: "\<forall>w\<in>set Ws. length w = k" using sh by blast
  have "length (concat Ws) = n * k" using length_concat_uniform[OF len] sh by simp
  moreover have "concat Ws ! i = E ! i" if "i < length E" for i
  proof -
    have "i div k < length Ws" using sh k that by (metis div_less_iff_less_mult less_le_trans)
    from concat_nth_uniform[OF len this, of "i mod k"] have "concat Ws ! i = Ws ! (i div k) ! (i mod k)" using k by simp
    then show ?thesis using sh that by simp
  qed
  ultimately show ?thesis using k(2) by (intro nth_equalityI) auto
qed simp

lemma gathered_row:
  assumes "t < length xs"
  shows "concat (map (\<lambda>r. concat (col_forward Ws None xs) ! (r * length xs + t)) [0 ..< length Ws]) =
     map (\<lambda>w. dot w (xs ! t)) (concat Ws)"
proof -
  have len: "\<forall>m\<in>set (col_forward Ws None xs). length m = length xs" by (auto simp: col_forward_def linear_def)
  have "concat (col_forward Ws None xs) ! (r * length xs + t) = map (\<lambda>w. dot w (xs ! t)) (Ws ! r)" if "r < length Ws" for r
  proof -
    have "r < length (col_forward Ws None xs)" using that by (simp add: col_forward_def)
    then show ?thesis
      using concat_nth_uniform[OF len _ assms, of r] that assms by (simp add: col_forward_def linear_def linear_row_def)
  qed
  then have "map (\<lambda>r. concat (col_forward Ws None xs) ! (r * length xs + t)) [0 ..< length Ws] = map (map (\<lambda>w. dot w (xs ! t))) Ws"
    by (intro nth_equalityI) auto
  then show ?thesis by (simp add: map_concat)
qed

text \<open>
  C23: the vocabulary can be cut over any number of ranks. When rank r holds the r-th block of the
  rows of the embedding, padded to equal size with any rows, the sum over the ranks of the masked
  lookups is the lookup in the whole table, for all ids of the vocabulary; and the gathered logits of
  the output head, cut to the vocabulary, are those of the whole table, for one row and for several.
\<close>

theorem vocab_parallel_exact:
  assumes "vocab_shards n dm E Ws" and "0 < n" and "E \<noteq> []" and "\<forall>x\<in>set xs. 0 \<le> x \<and> x < int (length E)"
    and "hs \<noteq> []"
  shows "embedding_forward (map (\<lambda>r. new_vocab r n (length E)) [0 ..< n]) Ws xs = Inr (map (\<lambda>x. E ! nat x) xs) \<and>
     lm_head_forward (length hs) (length E) Ws None hs = linear E None hs"
proof
  define k where "k = nat (div_ceil (int (length E)) (int n))"
  note sh = assms(1)[unfolded vocab_shards_def Let_def k_def[symmetric] list_all_iff]
  have k: "0 < k" "length E \<le> n * k" using vocab_block[of n "length E"] assms(2,3) by (simp_all add: k_def)
  show "embedding_forward (map (\<lambda>r. new_vocab r n (length E)) [0 ..< n]) Ws xs = Inr (map (\<lambda>x. E ! nat x) xs)"
  proof (cases "n = 1")
    case True
    have "res_map (embed E) xs = Inr (map (\<lambda>x. E ! nat x) xs)"
      using assms(4) by (intro res_map_total) (simp add: embed_def)
    moreover have "Ws = [E]" using single_rank_shards[of dm E Ws] assms(1) True by simp
    ultimately show ?thesis using True
      by (simp add: embedding_forward_def embedding_local_def new_vocab_def Let_def)
  next
    case False
    then have n: "1 < n" using assms(2) by simp
    let ?y = "\<lambda>r. map (\<lambda>x. map (\<lambda>j. if r = nat x div k then E ! nat x ! j else 0) [0 ..< dm]) xs"
    have zip: "zip (map (\<lambda>r. new_vocab r n (length E)) [0 ..< n]) Ws = map (\<lambda>r. (new_vocab r n (length E), Ws ! r)) [0 ..< n]"
      using sh by (intro nth_equalityI) auto
    have local: "res_map (\<lambda>(v, W). embedding_local v W xs) (map (\<lambda>r. (new_vocab r n (length E), Ws ! r)) [0 ..< n]) =
        Inr (map (\<lambda>(v, W). ?y (vo_start v div k)) (map (\<lambda>r. (new_vocab r n (length E), Ws ! r)) [0 ..< n]))"
      using embedding_local_rank[OF assms(1) _ assms(3) n assms(4)] k
      by (intro res_map_total) (auto simp: new_vocab_def Let_def k_def[symmetric])
    have same: "map (\<lambda>(v, W). ?y (vo_start v div k)) (map (\<lambda>r. (new_vocab r n (length E), Ws ! r)) [0 ..< n]) = map ?y [0 ..< n]"
      using k by (simp add: new_vocab_def Let_def k_def[symmetric])
    have "all_reduce (map ?y [0 ..< n]) = map (\<lambda>x. map (\<lambda>j. E ! nat x ! j) [0 ..< dm]) xs"
    proof -
      have "nat x div k < n" if "x \<in> set xs" for x
      proof -
        have "nat x < n * k" using assms(4) that k(2) by fastforce
        then show ?thesis using k(1) by (simp add: div_less_iff_less_mult)
      qed
      then show ?thesis using assms(2) by (subst all_reduce_map) (auto simp: sum_one_rank)
    qed
    moreover have "map (\<lambda>j. E ! nat x ! j) [0 ..< dm] = E ! nat x" if "x \<in> set xs" for x
    proof -
      have "E ! nat x \<in> set E" using assms(4) that by (intro nth_mem) fastforce
      then have "length (E ! nat x) = dm" using sh by blast
      then show ?thesis using map_nth[of "E ! nat x"] by simp
    qed
    ultimately have red: "all_reduce (map ?y [0 ..< n]) = map (\<lambda>x. E ! nat x) xs" by simp
    have "length (map (\<lambda>r. new_vocab r n (length E)) [0 ..< n]) > 1" using n by simp
    then show ?thesis unfolding embedding_forward_def zip local[unfolded same] rbind_Inr red by simp
  qed
  show "lm_head_forward (length hs) (length E) Ws None hs = linear E None hs"
  proof (cases "n = 1")
    case True
    then have "Ws = [E]" using single_rank_shards[of dm E Ws] assms(1) by simp
    then show ?thesis
      by (simp add: lm_head_forward_def col_forward_def Let_def)
  next
    case False
    have W: "length Ws = n" using sh by simp
    have row: "take (length E) (map (\<lambda>w. dot w x) (concat Ws)) = linear_row E None x" for x
      using shards_concat[OF assms(1,2)] by (simp add: take_map linear_row_def)
    show ?thesis
    proof (cases "length hs = 1")
      case True
      then obtain h where h: "hs = [h]" by (cases hs) auto
      have "concat (concat (col_forward Ws None hs)) = map (\<lambda>w. dot w h) (concat Ws)"
      proof -
        have "col_forward Ws None hs = map (\<lambda>W. [map (\<lambda>w. dot w h) W]) Ws"
          by (intro nth_equalityI) (auto simp: col_forward_def linear_def linear_row_def h)
        then show ?thesis by (simp add: map_concat comp_def)
      qed
      then show ?thesis using False W row h by (simp add: lm_head_forward_def Let_def all_gather_def linear_def)
    next
      case several: False
      have "lm_head_forward (length hs) (length E) Ws None hs = map (\<lambda>t. linear_row E None (hs ! t)) [0 ..< length hs]"
        using False W several gathered_row row by (auto simp: lm_head_forward_def Let_def all_gather_def)
      also have "\<dots> = linear E None hs" unfolding linear_def by (intro nth_equalityI) auto
      finally show ?thesis .
    qed
  qed
qed

theorem vocab_parallel_exact_witness:
  "embedding_forward [new_vocab 0 2 3, new_vocab 1 2 3] [[[1, 2], [3, 4]], [[5, 6], [7, 7]]] [2, 0] = Inr [[5, 6], [1, 2]] \<and>
   lm_head_forward 1 3 [[[1, 2], [3, 4]], [[5, 6], [7, 7]]] None [[1, 1]] = [[3, 7, 11]]"
proof -
  have "vocab_shards 2 2 [[1, 2], [3, 4], [5, 6]] [[[1, 2], [3, 4]], [[5, 6], [7, 7]]]"
    by (auto simp: vocab_shards_def Let_def div_ceil_def less_Suc_eq numeral_3_eq_3)
  from vocab_parallel_exact[OF this, of "[2, 0]" "[[1, 1]]"] show ?thesis
    by (simp add: upt_rec numeral_2_eq_2 numeral_3_eq_3 linear_def linear_row_def dot_def)
qed

end
