(* ===== verification/Weights.thy ===== *)
theory Weights
  imports LayersProps
begin

text \<open>
  \<^verbatim>\<open>models/weight.py\<close>: from the tensors of a checkpoint to the parameters of one rank. A weight is nested
  lists, outermost dimension first; reading the files is outside, their contents are the input.
\<close>

datatype 'a weight = Scalar 'a | Dim "'a weight list"

definition split_dim_0 :: "string list" where
  "split_dim_0 = [''.q_proj'', ''.k_proj'', ''.v_proj'', ''.gate_proj'', ''.up_proj'']"

definition split_dim_1 :: "string list" where
  "split_dim_1 = [''.o_proj'', ''.down_proj'']"

definition rows :: "'a weight \<Rightarrow> 'a weight list res" where
  "rows w = (case w of Dim ws \<Rightarrow> Inr ws | Scalar _ \<Rightarrow> Inl IndexError)"

text \<open>\<^verbatim>\<open>value.chunk(n, dim)[r]\<close>.\<close>

definition chunk_0 :: "nat \<Rightarrow> nat \<Rightarrow> 'a weight \<Rightarrow> 'a weight res" where
  "chunk_0 n r w = rbind (rows w) (\<lambda>ws. if r < length (chunk n ws) then Inr (Dim (chunk n ws ! r)) else Inl IndexError)"

definition chunk_1 :: "nat \<Rightarrow> nat \<Rightarrow> 'a weight \<Rightarrow> 'a weight res" where
  "chunk_1 n r w = rbind (rows w) (\<lambda>ws. rbind (res_map (chunk_0 n r) ws) (\<lambda>ws. Inr (Dim ws)))"

text \<open>\<^verbatim>\<open>_shard_tensor\<close>: rank \<open>r\<close>'s part, by the name of the tensor.\<close>

definition shard_tensor :: "string \<Rightarrow> 'a weight \<Rightarrow> nat \<Rightarrow> nat \<Rightarrow> nat option \<Rightarrow> 'a weight res" where
  "shard_tensor key w r n num_kv_heads =
     (if list_ex (\<lambda>sub. contains sub key) split_dim_0 then
        (case num_kv_heads of
           Some kv \<Rightarrow>
             if (contains ''.k_proj'' key \<or> contains ''.v_proj'' key) \<and> kv < n then
               (if kv = 0 then Inl ZeroDivisionError
                else rbind (rows w) (\<lambda>ws.
                  let head_dim = length ws div kv; head_idx = r * kv div n in
                  Inr (Dim (slice (head_idx * head_dim) ((head_idx + 1) * head_dim) ws))))
             else chunk_0 n r w
         | None \<Rightarrow> chunk_0 n r w)
      else if list_ex (\<lambda>sub. contains sub key) split_dim_1 then chunk_1 n r w
      else if contains ''lm_head'' key \<or> contains ''embed_tokens'' key then
        rbind (rows w) (\<lambda>ws.
        let num_embeddings = length ws; per_partition = nat (div_ceil (int num_embeddings) (int n));
            vocab_start_idx = r * per_partition; vocab_end_idx = min ((r + 1) * per_partition) num_embeddings in
        Inr (Dim (slice vocab_start_idx vocab_end_idx ws)))
      else Inr w)"

section \<open>Names\<close>

definition merge_groups :: "(string \<times> (string \<times> string list)) list" where
  "merge_groups =
     [(''.q_proj'', (''.qkv_proj'', [''q'', ''k'', ''v''])), (''.k_proj'', (''.qkv_proj'', [''q'', ''k'', ''v''])),
      (''.v_proj'', (''.qkv_proj'', [''q'', ''k'', ''v''])), (''.gate_proj'', (''.gate_up_proj'', [''gate'', ''up''])),
      (''.up_proj'', (''.gate_up_proj'', [''gate'', ''up'']))]"

definition slot_names :: "(string \<times> string) list" where
  "slot_names = [(''.q_proj'', ''q''), (''.k_proj'', ''k''), (''.v_proj'', ''v''), (''.gate_proj'', ''gate''), (''.up_proj'', ''up'')]"

definition get_merge_info :: "string \<Rightarrow> (string \<times> string \<times> string list) option" where
  "get_merge_info key = (case List.find (\<lambda>(sfx, _). contains sfx key) merge_groups of
      None \<Rightarrow> None
    | Some (sfx, (fused_suffix, slots)) \<Rightarrow>
        Some (replace sfx fused_suffix key, the (map_of slot_names sfx), slots))"

text \<open>
  The pattern \<^verbatim>\<open>^(.+\.experts)\.(\d+)\.(.+)$\<close>: the prefix is greedy, so the last place where the rest matches
  is taken.
\<close>

definition expert_at :: "string \<Rightarrow> nat \<Rightarrow> (string \<times> nat \<times> string) option" where
  "expert_at key i =
     (let rest = drop i key; ds = takeWhile is_digit (drop 9 rest); tail = dropWhile is_digit (drop 9 rest) in
      if starts_with ''.experts.'' rest \<and> ds \<noteq> [] \<and> starts_with ''.'' tail \<and> length tail > 1
      then Some (take i key @ ''.experts'', digits_val ds, drop 1 tail) else None)"

definition get_expert_stack_info :: "string \<Rightarrow> (string \<times> nat) option" where
  "get_expert_stack_info key =
     (case List.map_filter (expert_at key) (rev [1 ..< length key]) of
        [] \<Rightarrow> None
      | (pre, idx, name) # _ \<Rightarrow>
          let packed_name = (if ends_with ''.weight'' name then take (length name - 7) name else name) in
          Some (pre @ ''.'' @ packed_name, idx))"

definition remove_prefix :: "string \<Rightarrow> string \<Rightarrow> string" where
  "remove_prefix pre s = (if starts_with pre s then drop (length pre) s else s)"

section \<open>Loading\<close>

record 'a loader =
  lo_merge :: "(string \<times> (string \<times> 'a weight) list) list"
  lo_expert :: "(string \<times> (nat \<times> 'a weight) list) list"
  lo_out :: "(string \<times> 'a weight) list"

definition cat_0 :: "'a weight list \<Rightarrow> 'a weight res" where
  "cat_0 ws = rbind (res_map rows ws) (\<lambda>wss. Inr (Dim (concat wss)))"

definition assoc_put :: "'k \<Rightarrow> 'v \<Rightarrow> ('k \<times> 'v) list \<Rightarrow> ('k \<times> 'v) list" where
  "assoc_put k v d = (if k \<in> set (map fst d) then map (\<lambda>(k', v'). (k', if k' = k then v else v')) d else d @ [(k, v)])"

definition assoc_get :: "'k \<Rightarrow> ('k \<times> 'v list) list \<Rightarrow> 'v list" where
  "assoc_get k d = (case map_of d k of None \<Rightarrow> [] | Some v \<Rightarrow> v)"

definition assoc_del :: "'k \<Rightarrow> ('k \<times> 'v) list \<Rightarrow> ('k \<times> 'v) list" where
  "assoc_del k d = filter (\<lambda>(k', _). k' \<noteq> k) d"

text \<open>The merge buffer: a tensor of a merge group waits until its group is complete.\<close>

definition merge_step :: "string \<Rightarrow> 'a weight \<Rightarrow> 'a loader \<Rightarrow> ((string \<times> 'a weight) option \<times> 'a loader) res" where
  "merge_step name w s = (case get_merge_info name of
      None \<Rightarrow> Inr (Some (name, w), s)
    | Some (merged_key, slot, all_slots) \<Rightarrow>
        let buf = assoc_put slot w (assoc_get merged_key (lo_merge s)) in
        if \<not> list_all (\<lambda>sl. sl \<in> set (map fst buf)) all_slots then
          Inr (None, s\<lparr>lo_merge := assoc_put merged_key buf (lo_merge s)\<rparr>)
        else
          rbind (cat_0 (map (\<lambda>sl. the (map_of buf sl)) all_slots)) (\<lambda>w.
          Inr (Some (merged_key, w), s\<lparr>lo_merge := assoc_del merged_key (lo_merge s)\<rparr>)))"

text \<open>The expert buffer: the tensors of all experts are stacked, when the last has come.\<close>

definition expert_step :: "bool \<Rightarrow> nat \<Rightarrow> string \<times> 'a weight \<Rightarrow> 'a loader \<Rightarrow> 'a loader res" where
  "expert_step is_moe num_experts out s =
     (case (if is_moe then get_expert_stack_info (fst out) else None) of
        None \<Rightarrow> Inr (s\<lparr>lo_out := lo_out s @ [out]\<rparr>)
      | Some (packed_key, expert_idx) \<Rightarrow>
          let slots = assoc_put expert_idx (snd out) (assoc_get packed_key (lo_expert s)) in
          if length slots \<noteq> num_experts then Inr (s\<lparr>lo_expert := assoc_put packed_key slots (lo_expert s)\<rparr>)
          else
            rbind (res_map (\<lambda>i. case map_of slots i of None \<Rightarrow> Inl KeyError | Some w \<Rightarrow> Inr w) [0 ..< num_experts]) (\<lambda>experts.
            Inr (s\<lparr>lo_expert := assoc_del packed_key (lo_expert s), lo_out := lo_out s @ [(packed_key, Dim experts)]\<rparr>)))"

definition load_one ::
  "nat \<Rightarrow> nat \<Rightarrow> nat option \<Rightarrow> bool \<Rightarrow> nat \<Rightarrow> string \<times> 'a weight \<Rightarrow> 'a loader \<Rightarrow> 'a loader res" where
  "load_one r n num_kv_heads is_moe num_experts nw s =
     (if starts_with ''vision_tower.'' (fst nw) \<or> starts_with ''multi_modal_projector.'' (fst nw) then Inr s
      else
        let name = remove_prefix ''language_model.'' (fst nw) in
        rbind (shard_tensor name (snd nw) r n num_kv_heads) (\<lambda>w.
        rbind (merge_step name w s) (\<lambda>(out, s). case out of
            None \<Rightarrow> Inr s
          | Some out \<Rightarrow> expert_step is_moe num_experts out s)))"

text \<open>The consolidated file is left out when there are others.\<close>

definition weight_files :: "string list \<Rightarrow> string list" where
  "weight_files files =
     (let fs = filter (\<lambda>f. \<not> ends_with ''consolidated.safetensors'' f) files in if fs \<noteq> [] then fs else files)"

definition load_weight ::
  "nat \<Rightarrow> nat \<Rightarrow> nat option \<Rightarrow> bool \<Rightarrow> nat \<Rightarrow> (string \<times> 'a weight) list \<Rightarrow> (string \<times> 'a weight) list res" where
  "load_weight r n num_kv_heads is_moe num_experts tensors =
     rbind (res_fold (load_one r n num_kv_heads is_moe num_experts) tensors \<lparr>lo_merge = [], lo_expert = [], lo_out = []\<rparr>) (\<lambda>s.
     rbind (py_assert (lo_merge s = [])) (\<lambda>_.
     rbind (py_assert (lo_expert s = [])) (\<lambda>_.
     Inr (lo_out s))))"

section \<open>The shards\<close>

lemma vocab_shard_rows:
  assumes "contains ''lm_head'' key \<or> contains ''embed_tokens'' key"
    and "\<not> list_ex (\<lambda>sub. contains sub key) split_dim_0" and "\<not> list_ex (\<lambda>sub. contains sub key) split_dim_1"
  shows "shard_tensor key (Dim ws) r n kv =
     Inr (Dim (slice (r * nat (div_ceil (int (length ws)) (int n))) ((r + 1) * nat (div_ceil (int (length ws)) (int n))) ws))"
proof -
  have "slice a (min b (length ws)) ws = slice a b ws" for a b by (auto simp: slice_def min_def)
  then show ?thesis using assms by (auto simp: shard_tensor_def rows_def Let_def)
qed

lemma vocab_key: "contains ''lm_head'' ''lm_head.weight''" "\<not> list_ex (\<lambda>sub. contains sub ''lm_head.weight'') split_dim_0"
  "\<not> list_ex (\<lambda>sub. contains sub ''lm_head.weight'') split_dim_1"
  by code_simp+

text \<open>Loading a tensor of one shape into a parameter of another.\<close>

definition load_fails :: "nat list \<Rightarrow> nat list \<Rightarrow> bool" where
  "load_fails p i \<longleftrightarrow> (\<forall>t t'. ts_shape t = p \<longrightarrow> ts_shape t' = i \<longrightarrow>
     load_state_dict (BaseOP [(''weight'', Param t)]) [(''weight'', t')] = Inl AssertionError)"

text \<open>
  C26: the ranks' parts of the output head are the whole head, but a rank whose part is short cannot
  load it. For any number of rows and ranks the parts, joined in rank order, are all rows; when the number of
  ranks does not divide the number of rows, some rank gets fewer rows than the parameter of the
  layer has, and loading it into that parameter fails an assertion.
\<close>

theorem vocab_shards_load:
  assumes "0 < n" and "0 < length ws"
  shows "\<exists>parts. (\<forall>r<n. shard_tensor ''lm_head.weight'' (Dim ws) r n kv = Inr (Dim (parts r))) \<and>
     concat (map parts [0 ..< n]) = ws \<and>
     (\<not> n dvd length ws \<longrightarrow> (\<exists>r<n. load_fails [vo_num_tp (new_vocab r n (length ws)), dm] [length (parts r), dm]))"
proof -
  define k where "k = nat (div_ceil (int (length ws)) (int n))"
  let ?p = "\<lambda>r. slice (r * k) ((r + 1) * k) ws"
  have eq: "k = (length ws + n - 1) div n"
  proof -
    have "int (length ws) + int n - 1 = int (length ws + n - 1)" using assms(1) by simp
    then show ?thesis unfolding k_def div_ceil_def \<open>int (length ws) + int n - 1 = int (length ws + n - 1)\<close> zdiv_int[symmetric] by simp
  qed
  have "length ws + n - 1 < n * ((length ws + n - 1) div n) + n"
    using assms(1) by (metis add.commute add_less_cancel_left mod_less_divisor mult_div_mod_eq)
  then have k: "length ws \<le> n * k" unfolding eq by linarith
  have shard: "\<forall>r<n. shard_tensor ''lm_head.weight'' (Dim ws) r n kv = Inr (Dim (?p r))"
    by (simp add: vocab_shard_rows[OF disjI1[OF vocab_key(1)] vocab_key(2,3)] k_def)
  have all: "concat (map ?p [0 ..< n]) = ws" using slices_concat[of k ws n] k by simp
  have "\<exists>r<n. length (?p r) \<noteq> k" if nd: "\<not> n dvd length ws"
  proof (rule ccontr)
    assume "\<not> (\<exists>r<n. length (?p r) \<noteq> k)"
    then have "\<forall>x\<in>set (map ?p [0 ..< n]). length x = k" by auto
    from length_concat_uniform[OF this] have "length (concat (map ?p [0 ..< n])) = n * k" by simp
    then show False using nd unfolding all by simp
  qed
  moreover have "load_fails [k, dm] [l, dm]" if "l \<noteq> k" for l
    using that by (simp add: load_fails_def load_state_dict_def hidden_def starts_with_def concat_prefix_def dict_pop_def)
  moreover have "vo_num_tp (new_vocab r n (length ws)) = k" for r by (simp add: new_vocab_def Let_def k_def)
  ultimately show ?thesis using shard all by (intro exI[of _ ?p]) auto
qed

theorem vocab_shards_load_witness:
  "\<exists>parts. concat (map parts [0 ..< 2]) = [Scalar (1 :: nat), Scalar 2, Scalar 3] \<and>
     (\<exists>r<2. load_fails [vo_num_tp (new_vocab r 2 3), 8] [length (parts r), 8])"
proof -
  let ?ws = "[Scalar (1 :: nat), Scalar 2, Scalar 3]"
  have "\<not> 2 dvd length ?ws" "length ?ws = 3" by simp_all
  then show ?thesis using vocab_shards_load[of 2 ?ws None 8] by (metis length_greater_0_conv list.distinct(1) zero_less_numeral)
qed

end
