(* ===== verification/Moe.thy ===== *)
theory Moe
  imports LinAlg
begin

text \<open>
  \<^verbatim>\<open>moe/metax.py\<close> and \<^verbatim>\<open>moe/fused.py\<close>: routing tokens to experts. Softmax, the selection of the largest
  and the activation functions are \<^verbatim>\<open>torch\<close>'s and parameters, as are the compiled kernels of the fused backend.
\<close>

section \<open>Routing\<close>

definition renorm :: "vec \<Rightarrow> vec" where
  "renorm ws = map (\<lambda>w. w / (sum_list ws + 1 / 10 ^ 8)) ws"

definition pt_topk_softmax ::
  "(vec \<Rightarrow> vec) \<Rightarrow> (nat \<Rightarrow> vec \<Rightarrow> vec \<times> nat list) \<Rightarrow> mat \<Rightarrow> nat \<Rightarrow> bool \<Rightarrow> mat \<times> nat list list" where
  "pt_topk_softmax softmax topk gating_output k renormalize =
     (let picks = map (\<lambda>row. topk k (softmax row)) gating_output; ws = map fst picks in
      (if renormalize then map renorm ws else ws, map snd picks))"

datatype act = Silu | Gelu

definition apply_activation :: "(act \<Rightarrow> rat \<Rightarrow> rat) \<Rightarrow> string \<Rightarrow> vec \<Rightarrow> vec res" where
  "apply_activation fn activation x =
     (if activation = ''silu'' then Inr (map (fn Silu) x) else if activation = ''gelu'' then Inr (map (fn Gelu) x)
      else Inl ValueError)"

section \<open>The portable backend\<close>

text \<open>
  One expert on one token: the gate and up halves of the first projection, the activation and the
  second projection.
\<close>

definition expert_out :: "(act \<Rightarrow> rat \<Rightarrow> rat) \<Rightarrow> string \<Rightarrow> mat \<Rightarrow> mat \<Rightarrow> vec \<Rightarrow> vec res" where
  "expert_out fn activation w1 w2 x =
     (let gate_up = linear_row w1 None x; h = (length gate_up + 1) div 2; gate = take h gate_up; up = drop h gate_up in
      rbind (apply_activation fn activation gate) (\<lambda>g. Inr (linear_row w2 None (map2 (*) g up))))"

text \<open>The weight of an expert for a token: summed over the slots that chose it.\<close>

definition slot_weight :: "nat \<Rightarrow> nat list \<Rightarrow> vec \<Rightarrow> rat" where
  "slot_weight e ids ws = sum_list (map2 (\<lambda>i w. (if i = e then 1 else 0) * w) ids ws)"

text \<open>The body of the loop over the experts; a token not routed to the expert keeps its row.\<close>

definition metax_token ::
  "(act \<Rightarrow> rat \<Rightarrow> rat) \<Rightarrow> string \<Rightarrow> bool \<Rightarrow> mat \<Rightarrow> mat \<Rightarrow> nat \<Rightarrow> nat list \<Rightarrow> vec \<Rightarrow> vec \<Rightarrow> vec \<Rightarrow> vec res" where
  "metax_token fn activation on_input w1 w2 e ids ws x acc =
     (if e \<notin> set ids then Inr acc
      else
        let x = (if on_input then scale (slot_weight e ids ws) x else x) in
        rbind (expert_out fn activation w1 w2 x) (\<lambda>x_out.
        let x_out = (if \<not> on_input then scale (slot_weight e ids ws) x_out else x_out) in
        Inr (vadd acc x_out)))"

definition metax_expert ::
  "(act \<Rightarrow> rat \<Rightarrow> rat) \<Rightarrow> string \<Rightarrow> bool \<Rightarrow> mat \<Rightarrow> nat list list \<Rightarrow> mat \<Rightarrow> nat \<times> mat \<times> mat \<Rightarrow> mat \<Rightarrow> mat res" where
  "metax_expert fn activation on_input hs topk_ids topk_ws ew output = (case ew of (e, w1, w2) \<Rightarrow>
     if \<not> list_ex (\<lambda>ids. e \<in> set ids) topk_ids then Inr output
     else res_map (\<lambda>(acc, ids, ws, x). metax_token fn activation on_input w1 w2 e ids ws x acc)
            (zip output (zip topk_ids (zip topk_ws hs))))"

definition metax_forward ::
  "(act \<Rightarrow> rat \<Rightarrow> rat) \<Rightarrow> (vec \<Rightarrow> vec) \<Rightarrow> (nat \<Rightarrow> vec \<Rightarrow> vec \<times> nat list) \<Rightarrow> mat \<Rightarrow> mat list \<Rightarrow> mat list \<Rightarrow> mat \<Rightarrow> nat \<Rightarrow>
   bool \<Rightarrow> string \<Rightarrow> bool \<Rightarrow> mat res" where
  "metax_forward fn softmax topk hs w1 w2 gating_output k renormalize activation on_input =
     (let (topk_ws, topk_ids) = pt_topk_softmax softmax topk gating_output k renormalize;
          output = map (\<lambda>x. replicate (length x) 0) hs in
      res_fold (metax_expert fn activation on_input hs topk_ids topk_ws)
        (zip [0 ..< length w1] (zip w1 w2)) output)"

section \<open>The fused backend\<close>

definition fused_topk ::
  "(bool \<Rightarrow> mat \<Rightarrow> mat \<times> int list list) \<Rightarrow> mat \<Rightarrow> mat \<Rightarrow> bool \<Rightarrow> nat option \<Rightarrow> (mat \<times> int list list) res" where
  "fused_topk topk_softmax hs gating_output renormalize num_token_non_padded =
     rbind (py_assert (length hs = length gating_output)) (\<lambda>_.
     let (ws, ids) = topk_softmax renormalize gating_output;
         ws = (if renormalize then map renorm ws else ws);
         ids = (case num_token_non_padded of
             None \<Rightarrow> ids
           | Some n \<Rightarrow> map (\<lambda>(t, row). if t \<ge> n then map (\<lambda>_. -1) row else row) (zip [0 ..< length ids] ids)) in
     Inr (ws, ids))"

text \<open>The sizes of the buffers the alignment kernel fills: ids padded per expert, and the expert of each block.\<close>

definition align_buffers :: "nat \<Rightarrow> nat \<Rightarrow> nat \<Rightarrow> nat \<times> int" where
  "align_buffers numel block_size num_experts =
     (let max_num_tokens_padded = numel + (num_experts + 1) * (block_size - 1) in
      (max_num_tokens_padded, div_ceil (int max_num_tokens_padded) (int block_size)))"

record moe_config =
  BLOCK_SIZE_M :: nat
  BLOCK_SIZE_N :: nat
  BLOCK_SIZE_K :: nat
  GROUP_SIZE_M :: nat

definition get_default_config :: "nat \<Rightarrow> nat \<Rightarrow> moe_config" where
  "get_default_config m e =
     (if m \<le> e then \<lparr>BLOCK_SIZE_M = 16, BLOCK_SIZE_N = 32, BLOCK_SIZE_K = 64, GROUP_SIZE_M = 1\<rparr>
      else \<lparr>BLOCK_SIZE_M = 64, BLOCK_SIZE_N = 64, BLOCK_SIZE_K = 32, GROUP_SIZE_M = 8\<rparr>)"

definition try_get_optimal_moe_config :: "nat \<times> nat \<times> nat \<Rightarrow> nat \<Rightarrow> moe_config" where
  "try_get_optimal_moe_config w2_shape m = (case w2_shape of (e, _, _) \<Rightarrow> get_default_config m e)"

section \<open>Routing is the weighted sum of the experts\<close>

text \<open>What a token should get: the outputs of its experts, weighted slot by slot.\<close>

definition token_reference :: "(nat \<Rightarrow> vec) \<Rightarrow> nat list \<Rightarrow> vec \<Rightarrow> nat \<Rightarrow> vec" where
  "token_reference f ids ws dm = map (\<lambda>j. sum_list (map2 (\<lambda>i w. w * f i ! j) ids ws)) [0 ..< dm]"

definition partial_sum :: "(nat \<Rightarrow> vec) \<Rightarrow> nat list \<Rightarrow> vec \<Rightarrow> nat \<Rightarrow> nat \<Rightarrow> vec" where
  "partial_sum f ids ws dm n = map (\<lambda>j. sum_list (map2 (\<lambda>i w. if i < n then w * f i ! j else 0) ids ws)) [0 ..< dm]"

lemma slot_split:
  "sum_list (map2 (\<lambda>i w. if i < Suc n then w * g i else 0) ids ws) =
   sum_list (map2 (\<lambda>i w. if i < n then w * g i else (0 :: rat)) ids ws) + slot_weight n ids ws * g n"
  unfolding slot_weight_def
proof (induction ids arbitrary: ws)
  case (Cons i ids)
  show ?case
  proof (cases ws)
    case (Cons w ws')
    then show ?thesis using Cons.IH[of ws'] by (auto simp: less_Suc_eq algebra_simps)
  qed simp
qed simp

lemma slot_weight_absent: "e \<notin> set ids \<Longrightarrow> slot_weight e ids ws = 0"
  unfolding slot_weight_def
proof (induction ids arbitrary: ws)
  case (Cons i ids)
  then show ?case by (cases ws) auto
qed simp

lemma partial_sum_step:
  assumes "length (f n) = dm"
  shows "vadd (partial_sum f ids ws dm n) (scale (slot_weight n ids ws) (f n)) = partial_sum f ids ws dm (Suc n)"
    and "n \<notin> set ids \<Longrightarrow> partial_sum f ids ws dm n = partial_sum f ids ws dm (Suc n)"
proof -
  have "scale c (f n) = map (\<lambda>j. c * f n ! j) [0 ..< dm]" for c
    using assms by (auto simp: scale_def intro!: nth_equalityI)
  moreover have "vadd (map a xs) (map b xs) = map (\<lambda>j. a j + b j) xs" for a b and xs :: "nat list"
    unfolding vadd_def by (induction xs) auto
  ultimately show "vadd (partial_sum f ids ws dm n) (scale (slot_weight n ids ws) (f n)) = partial_sum f ids ws dm (Suc n)"
    by (simp add: partial_sum_def slot_split)
  show "n \<notin> set ids \<Longrightarrow> partial_sum f ids ws dm n = partial_sum f ids ws dm (Suc n)"
    by (simp add: partial_sum_def slot_split slot_weight_absent)
qed

lemma partial_sum_all: "\<forall>i\<in>set ids. i < n \<Longrightarrow> partial_sum f ids ws dm n = token_reference f ids ws dm"
proof -
  assume "\<forall>i\<in>set ids. i < n"
  then have "map2 (\<lambda>i w. if i < n then w * f i ! j else 0) ids ws = map2 (\<lambda>i w. w * f i ! j) ids ws" for j
    by (intro map_cong) (auto dest: set_zip_leftD)
  then show ?thesis unfolding partial_sum_def token_reference_def by presburger
qed

lemma res_map_map: "res_map f (map g xs) = res_map (\<lambda>x. f (g x)) xs"
  by (induction xs) auto

definition good_experts :: "(act \<Rightarrow> rat \<Rightarrow> rat) \<Rightarrow> string \<Rightarrow> mat list \<Rightarrow> mat list \<Rightarrow> nat \<Rightarrow> bool" where
  "good_experts fn activation w1 w2 dm \<longleftrightarrow> activation \<in> {''silu'', ''gelu''} \<and> length w1 = length w2 \<and>
     list_all (\<lambda>w. length w = dm) w2"

definition expert_vec :: "(act \<Rightarrow> rat \<Rightarrow> rat) \<Rightarrow> string \<Rightarrow> mat list \<Rightarrow> mat list \<Rightarrow> vec \<Rightarrow> nat \<Rightarrow> vec" where
  "expert_vec fn activation w1 w2 x e = (case expert_out fn activation (w1 ! e) (w2 ! e) x of Inl _ \<Rightarrow> [] | Inr y \<Rightarrow> y)"

lemma expert_vec_ok:
  assumes "good_experts fn activation w1 w2 dm" and "e < length w1"
  shows "expert_out fn activation (w1 ! e) (w2 ! e) x = Inr (expert_vec fn activation w1 w2 x e)"
    and "length (expert_vec fn activation w1 w2 x e) = dm"
proof -
  have "length (w2 ! e) = dm" using assms by (simp add: good_experts_def list_all_length)
  then show "expert_out fn activation (w1 ! e) (w2 ! e) x = Inr (expert_vec fn activation w1 w2 x e)"
    "length (expert_vec fn activation w1 w2 x e) = dm"
    using assms(1) by (auto simp: good_experts_def expert_vec_def expert_out_def Let_def apply_activation_def linear_row_def)
qed

lemma metax_expert_step:
  assumes good: "good_experts fn activation w1 w2 dm" and e: "e < length w1"
    and len: "length ids = length hs" "length ws = length hs"
    and out: "output = map (\<lambda>t. partial_sum (expert_vec fn activation w1 w2 (hs ! t)) (ids ! t) (ws ! t) dm e) [0 ..< length hs]"
  shows "metax_expert fn activation False hs ids ws (e, w1 ! e, w2 ! e) output =
     Inr (map (\<lambda>t. partial_sum (expert_vec fn activation w1 w2 (hs ! t)) (ids ! t) (ws ! t) dm (Suc e)) [0 ..< length hs])"
    (is "_ = Inr ?next")
proof -
  let ?f = "\<lambda>t. expert_vec fn activation w1 w2 (hs ! t)"
  note step = partial_sum_step[where f = "?f t" and n = e and dm = dm for t, OF expert_vec_ok(2)[OF good e]]
  show ?thesis
  proof (cases "list_ex (\<lambda>ids. e \<in> set ids) ids")
    case False
    then have "output = ?next" unfolding out using step(2) len(1) by (auto simp: list_ex_length intro!: map_cong)
    then show ?thesis using False by (simp add: metax_expert_def)
  next
    case True
    have zip: "zip output (zip ids (zip ws hs)) = map (\<lambda>t. (output ! t, ids ! t, ws ! t, hs ! t)) [0 ..< length hs]"
      using len by (auto simp: out intro!: nth_equalityI)
    have "metax_token fn activation False (w1 ! e) (w2 ! e) e (ids ! t) (ws ! t) (hs ! t) (output ! t) =
        Inr (partial_sum (?f t) (ids ! t) (ws ! t) dm (Suc e))" if t: "t < length hs" for t
      using step expert_vec_ok(1)[OF good e, of "hs ! t"] t by (simp add: metax_token_def out)
    then show ?thesis
      using True unfolding metax_expert_def zip by (simp add: res_map_map) (rule res_map_total, simp)
  qed
qed

text \<open>
  C25: the portable backend computes the mixture. For every routing to existing experts, in any order
  and with repetitions, the loop over the experts gives each token the sum over its slots of the slot's
  weight times the output of the slot's expert, whatever the activation function.
\<close>

theorem metax_moe_exact:
  assumes "good_experts fn activation w1 w2 dm" and "\<forall>x\<in>set hs. length x = dm"
    and "pt_topk_softmax softmax topk gating k renormalize = (ws, ids)" and "length ids = length hs" and "length ws = length hs"
    and "\<forall>row\<in>set ids. \<forall>i\<in>set row. i < length w1"
  shows "metax_forward fn softmax topk hs w1 w2 gating k renormalize activation False =
     Inr (map (\<lambda>t. token_reference (expert_vec fn activation w1 w2 (hs ! t)) (ids ! t) (ws ! t) dm) [0 ..< length hs])"
proof -
  let ?ew = "\<lambda>e. (e, w1 ! e, w2 ! e)"
  let ?part = "\<lambda>n. map (\<lambda>t. partial_sum (expert_vec fn activation w1 w2 (hs ! t)) (ids ! t) (ws ! t) dm n) [0 ..< length hs]"
  have "n \<le> length w1 \<Longrightarrow> res_fold (metax_expert fn activation False hs ids ws) (map ?ew [0 ..< n]) (?part 0) = Inr (?part n)" for n
  proof (induction n)
    case (Suc n)
    then show ?case
      using metax_expert_step[OF assms(1) _ assms(4,5) refl, of n] by (simp add: res_fold_append)
  qed simp
  from this[of "length w1"]
  have run: "res_fold (metax_expert fn activation False hs ids ws) (map ?ew [0 ..< length w1]) (?part 0) = Inr (?part (length w1))"
    by simp
  have "zip [0 ..< length w1] (zip w1 w2) = map ?ew [0 ..< length w1]"
    using assms(1) by (auto simp: good_experts_def intro!: nth_equalityI)
  moreover have "map (\<lambda>x. replicate (length x) 0) hs = ?part 0"
    using assms(2) by (intro nth_equalityI) (auto simp: partial_sum_def case_prod_unfold map_replicate_const sum_list_replicate intro!: nth_equalityI)
  moreover have "?part (length w1) =
      map (\<lambda>t. token_reference (expert_vec fn activation w1 w2 (hs ! t)) (ids ! t) (ws ! t) dm) [0 ..< length hs]"
    using assms(4,6) by (intro map_cong refl partial_sum_all) auto
  ultimately show ?thesis using run unfolding metax_forward_def assms(3) by simp
qed

theorem metax_moe_exact_witness:
  "metax_forward (\<lambda>_ x. x) id (\<lambda>k row. ([3, 1], [1, 0])) [[1, 2], [0, 1]]
     [[[1, 0], [0, 1]], [[0, 2], [1, 0]]] [[[1], [0]], [[0], [5]]] [[0, 0], [0, 0]] 2 False ''silu'' False =
   Inr [[2, 60], [0, 0]]"
proof -
  have "good_experts (\<lambda>_ x. x) ''silu'' [[[1, 0], [0, 1]], [[0, 2], [1, 0]]] [[[1], [0]], [[0], [5]]] 2" by (simp add: good_experts_def)
  moreover have "pt_topk_softmax id (\<lambda>k row. ([3, 1], [1, 0])) [[0, 0], [0, 0]] 2 False = ([[3, 1], [3, 1]], [[1, 0], [1, 0]])"
    by (simp add: pt_topk_softmax_def)
  ultimately show ?thesis
    using metax_moe_exact[of "\<lambda>_ x. x" "''silu''" "[[[1, 0], [0, 1]], [[0, 2], [1, 0]]]" "[[[1], [0]], [[0], [5]]]" 2
        "[[1, 2], [0, 1]]" id "\<lambda>k row. ([3, 1], [1, 0])" "[[0, 0], [0, 0]]" 2 False "[[3, 1], [3, 1]]" "[[1, 0], [1, 0]]"]
    by (simp add: token_reference_def expert_vec_def expert_out_def linear_row_def dot_def apply_activation_def upt_rec)
qed

end
