(* ===== verification/Registry.thy ===== *)
theory Registry
  imports Complex_Main PyText
begin

text \<open>
  \<^verbatim>\<open>utils/registry.py\<close>, the registries built on it (\<^verbatim>\<open>kvcache/__init__.py\<close>, \<^verbatim>\<open>attention/__init__.py\<close>,
  \<^verbatim>\<open>moe/__init__.py\<close>, \<^verbatim>\<open>models/register.py\<close>) and \<^verbatim>\<open>env.py\<close>: the values a deployment can choose from.
\<close>

section \<open>Registries\<close>

text \<open>A registry keeps its items in the order of registration.\<close>

type_synonym 'a registry = "(string \<times> 'a) list"

definition register_item :: "string \<Rightarrow> 'a \<Rightarrow> 'a registry \<Rightarrow> 'a registry res" where
  "register_item name item reg = (if name \<in> set (map fst reg) then Inl KeyError else Inr (reg @ [(name, item)]))"

definition get_item :: "'a registry \<Rightarrow> string \<Rightarrow> 'a res" where
  "get_item reg name = (case map_of reg name of None \<Rightarrow> Inl KeyError | Some x \<Rightarrow> Inr x)"

definition supported_names :: "'a registry \<Rightarrow> string list" where
  "supported_names reg = map fst reg"

definition assert_supported :: "'a registry \<Rightarrow> string list \<Rightarrow> unit res" where
  "assert_supported reg names = (if list_all (\<lambda>n. n \<in> set (map fst reg)) names then Inr () else Inl ArgumentTypeError)"

section \<open>The registered implementations\<close>

datatype cache_type = NaiveCache | RadixCache

definition supported_cache_manager :: "cache_type registry res" where
  "supported_cache_manager = rbind (register_item ''naive'' NaiveCache []) (register_item ''radix'' RadixCache)"

definition create_prefix_cache :: "string \<Rightarrow> cache_type res" where
  "create_prefix_cache typ = rbind supported_cache_manager (\<lambda>reg. get_item reg typ)"

datatype attn_impl = TensorRTLLMBackend | FlashInferBackend | FlashAttentionBackend | TorchNativeAttentionBackend

definition supported_attention_backends :: "attn_impl registry res" where
  "supported_attention_backends =
     rbind (register_item ''trtllm'' TensorRTLLMBackend []) (\<lambda>reg.
     rbind (register_item ''fi'' FlashInferBackend reg) (\<lambda>reg.
     rbind (register_item ''fa'' FlashAttentionBackend reg) (\<lambda>reg.
     register_item ''torch_native'' TorchNativeAttentionBackend reg)))"

definition validate_attn_backend :: "string \<Rightarrow> bool \<Rightarrow> string res" where
  "validate_attn_backend backend allow_auto =
     rbind supported_attention_backends (\<lambda>reg.
     if backend \<noteq> ''auto'' then
       rbind (assert_supported reg (if CHR '','' \<in> set backend then split_on (CHR '','') backend else [backend])) (\<lambda>_.
       Inr backend)
     else rbind (py_assert allow_auto) (\<lambda>_. Inr backend))"

datatype attn_backend = SingleBackend attn_impl | HybridBackend attn_impl attn_impl

definition create_attention_backend :: "string \<Rightarrow> attn_backend res" where
  "create_attention_backend backend =
     rbind (validate_attn_backend backend False) (\<lambda>_.
     rbind supported_attention_backends (\<lambda>reg.
     if CHR '','' \<in> set backend then
       rbind (py_assert (length (split_on (CHR '','') backend) = 2)) (\<lambda>_.
       let p_backend = split_on (CHR '','') backend ! 0; d_backend = split_on (CHR '','') backend ! 1 in
       if p_backend \<noteq> d_backend then
         rbind (get_item reg p_backend) (\<lambda>p. rbind (get_item reg d_backend) (\<lambda>d. Inr (HybridBackend p d)))
       else rbind (get_item reg p_backend) (\<lambda>b. Inr (SingleBackend b)))
     else rbind (get_item reg backend) (\<lambda>b. Inr (SingleBackend b))))"

text \<open>\<^verbatim>\<open>HybridBackend\<close>: prefill batches go to one, decode batches and graph capture to the other.\<close>

definition backend_for :: "attn_backend \<Rightarrow> bool \<Rightarrow> attn_impl" where
  "backend_for b prefill = (case b of SingleBackend i \<Rightarrow> i | HybridBackend p d \<Rightarrow> if prefill then p else d)"

definition capture_backend :: "attn_backend \<Rightarrow> attn_impl" where
  "capture_backend b = backend_for b False"

datatype moe_impl = FusedMoe | MetaxMoe

definition supported_moe_backends :: "moe_impl registry res" where
  "supported_moe_backends = rbind (register_item ''fused'' FusedMoe []) (register_item ''metax'' MetaxMoe)"

definition create_moe_backend :: "string \<Rightarrow> moe_impl res" where
  "create_moe_backend backend = rbind supported_moe_backends (\<lambda>reg. get_item reg backend)"

definition model_registry :: "(string \<times> (string \<times> string)) list" where
  "model_registry =
     [(''LlamaForCausalLM'', (''.llama'', ''LlamaForCausalLM'')), (''Qwen2ForCausalLM'', (''.qwen2'', ''Qwen2ForCausalLM'')),
      (''Qwen3ForCausalLM'', (''.qwen3'', ''Qwen3ForCausalLM'')), (''Qwen3MoeForCausalLM'', (''.qwen3_moe'', ''Qwen3MoeForCausalLM'')),
      (''MistralForCausalLM'', (''.mistral'', ''MistralForCausalLM'')),
      (''Mistral3ForConditionalGeneration'', (''.mistral'', ''MistralForCausalLM''))]"

definition get_model_class :: "string \<Rightarrow> (string \<times> string) res" where
  "get_model_class arch = (case map_of model_registry arch of None \<Rightarrow> Inl ValueError | Some c \<Rightarrow> Inr c)"

definition create_model :: "string list \<Rightarrow> (string \<times> string) res" where
  "create_model archs = rbind (py_index archs 0) get_model_class"

lemma attention_registry:
  "supported_attention_backends = Inr [(''trtllm'', TensorRTLLMBackend), (''fi'', FlashInferBackend),
     (''fa'', FlashAttentionBackend), (''torch_native'', TorchNativeAttentionBackend)]"
  by (simp add: supported_attention_backends_def register_item_def)

lemma validated_names:
  assumes "validate_attn_backend b allow = Inr b'" and "b \<noteq> ''auto''"
  shows "\<forall>w\<in>set (split_on (CHR '','') b). w \<in> {''trtllm'', ''fi'', ''fa'', ''torch_native''}"
proof -
  have "split_on (CHR '','') b = [b]" if "CHR '','' \<notin> set b" using split_on_word[OF that] .
  then show ?thesis
    using assms by (auto simp: validate_attn_backend_def attention_registry assert_supported_def rbind_eq_Inr list_all_iff
        split: if_splits)
qed

text \<open>
  What passes the validation of the command line can be created, unless it names more than two
  backends: the validation accepts any number of commas, the creation only one.
\<close>

lemma validated_created:
  assumes "validate_attn_backend b True = Inr b" and "b \<noteq> ''auto''" and "length (split_on (CHR '','') b) \<le> 2"
  shows "\<exists>x. create_attention_backend b = Inr x"
proof -
  have v: "validate_attn_backend b False = Inr b"
    using assms(1,2) by (simp add: validate_attn_backend_def)
  have get: "\<exists>x. get_item [(''trtllm'', TensorRTLLMBackend), (''fi'', FlashInferBackend), (''fa'', FlashAttentionBackend),
     (''torch_native'', TorchNativeAttentionBackend)] w = Inr x" if "w \<in> set (split_on (CHR '','') b)" for w
    using validated_names[OF assms(1,2)] that by (auto simp: get_item_def)
  show ?thesis
  proof (cases "CHR '','' \<in> set b")
    case True
    then obtain u w where "b = u @ CHR '','' # w" "CHR '','' \<notin> set u" by (metis split_list_first)
    then have "length (split_on (CHR '','') b) \<ge> 2"
      using split_on_app[of "CHR '',''" u w] split_on_neq_Nil[of "CHR '',''" w] by (cases "split_on (CHR '','') w") auto
    then have "length (split_on (CHR '','') b) = 2" using assms(3) by simp
    then obtain p d where pd: "split_on (CHR '','') b = [p, d]" by (auto simp: numeral_2_eq_2 length_Suc_conv)
    then obtain x y where "get_item [(''trtllm'', TensorRTLLMBackend), (''fi'', FlashInferBackend), (''fa'', FlashAttentionBackend),
     (''torch_native'', TorchNativeAttentionBackend)] p = Inr x" "get_item [(''trtllm'', TensorRTLLMBackend), (''fi'', FlashInferBackend), (''fa'', FlashAttentionBackend),
     (''torch_native'', TorchNativeAttentionBackend)] d = Inr y" using get[of p] get[of d] by auto
    then show ?thesis using True v pd by (simp add: create_attention_backend_def attention_registry Let_def)
  next
    case False
    then have "split_on (CHR '','') b = [b]" by (rule split_on_word)
    then obtain x where "get_item [(''trtllm'', TensorRTLLMBackend), (''fi'', FlashInferBackend), (''fa'', FlashAttentionBackend),
     (''torch_native'', TorchNativeAttentionBackend)] b = Inr x" using get[of b] by auto
    then show ?thesis using False v by (simp add: create_attention_backend_def attention_registry)
  qed
qed

section \<open>Environment variables\<close>

text \<open>\<^verbatim>\<open>float(s)\<close> on decimal notation, with fraction and exponent. Infinities and NaN are left out, and raise.\<close>

definition span_digits :: "string \<Rightarrow> string \<times> string" where
  "span_digits s = (takeWhile is_digit s, dropWhile is_digit s)"

definition py_float_of :: "string \<Rightarrow> rat res" where
  "py_float_of s =
     (let s = strip s; neg = (s \<noteq> [] \<and> hd s = CHR ''-''); s = (if s \<noteq> [] \<and> hd s \<in> {CHR ''-'', CHR ''+''} then tl s else s);
          (ip, s) = span_digits s;
          (fp, s) = (if s \<noteq> [] \<and> hd s = CHR ''.'' then span_digits (tl s) else ([], s)) in
      if ip = [] \<and> fp = [] then Inl ValueError
      else
        let m = of_nat (digits_val (ip @ fp)) / 10 ^ length fp in
        rbind (case s of
            [] \<Rightarrow> Inr 0
          | c # e \<Rightarrow> if c = CHR ''e'' \<or> c = CHR ''E'' then
               (let es = (if e \<noteq> [] \<and> hd e \<in> {CHR ''-'', CHR ''+''} then tl e else e) in
                if es \<noteq> [] \<and> list_all is_digit es then Inr ((if hd e = CHR ''-'' then -1 else 1) * int (digits_val es))
                else Inl ValueError)
             else Inl ValueError) (\<lambda>ex.
        let v = (if ex \<ge> 0 then m * 10 ^ nat ex else m / 10 ^ nat (- ex)) in
        Inr (if neg then - v else v)))"

definition to_bool :: "string \<Rightarrow> bool" where
  "to_bool x \<longleftrightarrow> lower x \<in> {''1'', ''true'', ''yes''}"

definition upper_char :: "char \<Rightarrow> char" where
  "upper_char c = (let n = of_char c :: nat in
     if (97 \<le> n \<and> n \<le> 122) \<or> (224 \<le> n \<and> n \<le> 254 \<and> n \<noteq> 247) then char_of (n - 32) else c)"

definition is_alpha :: "char \<Rightarrow> bool" where
  "is_alpha c \<longleftrightarrow> (let n = of_char c :: nat in (65 \<le> n \<and> n \<le> 90) \<or> (97 \<le> n \<and> n \<le> 122) \<or> n \<in> {170, 181, 186} \<or>
     (192 \<le> n \<and> n \<noteq> 215 \<and> n \<noteq> 247))"

definition unit_map :: "char \<Rightarrow> rat option" where
  "unit_map c = (if c = CHR ''K'' then Some 1024 else if c = CHR ''M'' then Some (1024 ^ 2)
     else if c = CHR ''G'' then Some (1024 ^ 3) else None)"

definition rat_to_int :: "rat \<Rightarrow> int" where
  "rat_to_int q = (if q \<ge> 0 then floor q else ceiling q)"

definition parse_mem_bytes :: "string \<Rightarrow> int res" where
  "parse_mem_bytes mem =
     (let mem = map upper_char (strip mem) in
      if mem = [] then Inl IndexError
      else if \<not> is_alpha (last mem) then py_int_of mem
      else
        let mem = (if last mem = CHR ''B'' then butlast mem else mem) in
        rbind (py_float_of (butlast mem)) (\<lambda>x.
        if mem = [] then Inl IndexError
        else (case unit_map (last mem) of None \<Rightarrow> Inl KeyError | Some u \<Rightarrow> Inr (rat_to_int (x * u)))))"

text \<open>\<^verbatim>\<open>EnvVar._init\<close>: a value that cannot be read leaves the default, whatever the error.\<close>

definition env_init :: "(string \<Rightarrow> 'a res) \<Rightarrow> string option \<Rightarrow> 'a \<Rightarrow> 'a" where
  "env_init fn env_value dflt = (case env_value of
      None \<Rightarrow> dflt
    | Some v \<Rightarrow> (case fn v of Inl _ \<Rightarrow> dflt | Inr x \<Rightarrow> x))"

record env =
  env_shell_max_tokens :: int
  env_shell_top_k :: int
  env_shell_top_p :: rat
  env_shell_temperature :: rat
  env_flashinfer_use_tensor_cores :: "bool option"
  env_disable_overlap_scheduling :: bool
  env_pynccl_max_buffer_size :: int

definition load_env :: "(string \<Rightarrow> string option) \<Rightarrow> env" where
  "load_env getenv =
     \<lparr>env_shell_max_tokens = env_init py_int_of (getenv ''MINISGL_SHELL_MAX_TOKENS'') 2048,
      env_shell_top_k = env_init py_int_of (getenv ''MINISGL_SHELL_TOP_K'') (-1),
      env_shell_top_p = env_init py_float_of (getenv ''MINISGL_SHELL_TOP_P'') 1,
      env_shell_temperature = env_init py_float_of (getenv ''MINISGL_SHELL_TEMPERATURE'') (6 / 10),
      env_flashinfer_use_tensor_cores =
        env_init (\<lambda>s. Inr (Some (to_bool s))) (getenv ''MINISGL_FLASHINFER_USE_TENSOR_CORES'') None,
      env_disable_overlap_scheduling =
        env_init (\<lambda>s. Inr (to_bool s)) (getenv ''MINISGL_DISABLE_OVERLAP_SCHEDULING'') False,
      env_pynccl_max_buffer_size = env_init parse_mem_bytes (getenv ''MINISGL_PYNCCL_MAX_BUFFER_SIZE'') (1024 ^ 3)\<rparr>"

end
