(* ===== verification/Args.thy ===== *)
theory Args
  imports Registry SchedIO
begin

text \<open>
  \<^verbatim>\<open>server/args.py\<close>, \<^verbatim>\<open>scheduler/config.py\<close> and \<^verbatim>\<open>server/launch.py\<close>: the command line, the addresses derived from it,
  and the processes that are started. \<^verbatim>\<open>argparse\<close> is modelled for what the parser uses: long options with
  one value or none, \<^verbatim>\<open>--name=value\<close> and unique abbreviations; its usage errors are \<open>SystemExit\<close>. The file system, the model hub and the model's own
  configuration are parameters.
\<close>

section \<open>Options\<close>

datatype arg_value = AStr string | AInt int | AFloat rat | ABool bool | ANone

datatype arg_kind = TString | TInt | TFloat | TAttn | StoreTrue | StoreFalse

record arg_option =
  ao_flags :: "string list"
  ao_dest :: string
  ao_kind :: arg_kind
  ao_default :: arg_value
  ao_choices :: "string list option"

definition arg_opt :: "string list \<Rightarrow> string \<Rightarrow> arg_kind \<Rightarrow> arg_value \<Rightarrow> string list option \<Rightarrow> arg_option" where
  "arg_opt flags dest kind dflt choices =
     \<lparr>ao_flags = flags, ao_dest = dest, ao_kind = kind, ao_default = dflt, ao_choices = choices\<rparr>"

definition server_options :: "arg_option list" where
  "server_options =
     [arg_opt [''--model-path'', ''--model''] ''model_path'' TString ANone None,
      arg_opt [''--dtype''] ''dtype'' TString (AStr ''auto'') (Some [''auto'', ''float16'', ''bfloat16'', ''float32'']),
      arg_opt [''--tensor-parallel-size'', ''--tp-size''] ''tensor_parallel_size'' TInt (AInt 1) None,
      arg_opt [''--max-running-requests''] ''max_running_req'' TInt (AInt 256) None,
      arg_opt [''--max-seq-len-override''] ''max_seq_len_override'' TInt ANone None,
      arg_opt [''--memory-ratio''] ''memory_ratio'' TFloat (AFloat (9 / 10)) None,
      arg_opt [''--dummy-weight''] ''use_dummy_weight'' StoreTrue (ABool False) None,
      arg_opt [''--disable-pynccl''] ''use_pynccl'' StoreFalse (ABool True) None,
      arg_opt [''--host''] ''server_host'' TString (AStr ''127.0.0.1'') None,
      arg_opt [''--port''] ''server_port'' TInt (AInt 1919) None,
      arg_opt [''--cuda-graph-max-bs'', ''--graph''] ''cuda_graph_max_bs'' TInt ANone None,
      arg_opt [''--num-tokenizer'', ''--tokenizer-count''] ''num_tokenizer'' TInt (AInt 0) None,
      arg_opt [''--max-prefill-length'', ''--max-extend-length''] ''max_extend_tokens'' TInt (AInt 8192) None,
      arg_opt [''--num-pages''] ''num_page_override'' TInt ANone None,
      arg_opt [''--page-size''] ''page_size'' TInt (AInt 1) None,
      arg_opt [''--attention-backend'', ''--attn''] ''attention_backend'' TAttn (AStr ''auto'') None,
      arg_opt [''--model-source''] ''model_source'' TString (AStr ''huggingface'') (Some [''huggingface'', ''modelscope'']),
      arg_opt [''--cache-type''] ''cache_type'' TString (AStr ''radix'') (Some [''naive'', ''radix'']),
      arg_opt [''--moe-backend''] ''moe_backend'' TString (AStr ''auto'') (Some [''auto'', ''fused'', ''metax'']),
      arg_opt [''--shell-mode''] ''shell_mode'' StoreTrue (ABool False) None]"

text \<open>The option a word names: exactly, or as the only flag it abbreviates.\<close>

definition flag_table :: "(string \<times> arg_option) list" where
  "flag_table = concat (map (\<lambda>ao. map (\<lambda>f. (f, ao)) (ao_flags ao)) server_options)"

definition find_option :: "string \<Rightarrow> arg_option res" where
  "find_option w = (case map_of flag_table w of
      Some ao \<Rightarrow> Inr ao
    | None \<Rightarrow> if starts_with ''--'' w then
         (case filter (\<lambda>(f, _). starts_with w f) flag_table of [(_, ao)] \<Rightarrow> Inr ao | _ \<Rightarrow> Inl SystemExit)
       else Inl SystemExit)"

text \<open>A word that can be a value: no leading dash, a lone dash, a negative number, or a text with a space.\<close>

definition negative_number :: "string \<Rightarrow> bool" where
  "negative_number w \<longleftrightarrow> (case w of [] \<Rightarrow> False | c # ds \<Rightarrow> c = CHR ''-'' \<and>
     (let fp = dropWhile is_digit ds in
      (ds \<noteq> [] \<and> fp = []) \<or> (fp \<noteq> [] \<and> hd fp = CHR ''.'' \<and> tl fp \<noteq> [] \<and> list_all is_digit (tl fp))))"

definition is_value :: "string \<Rightarrow> bool" where
  "is_value w \<longleftrightarrow> w = [] \<or> hd w \<noteq> CHR ''-'' \<or> w = ''-'' \<or> negative_number w \<or>
     (CHR '' '' \<in> set w \<and> (case find_option (takeWhile (\<lambda>c. c \<noteq> CHR ''='') w) of Inl _ \<Rightarrow> True | Inr _ \<Rightarrow> False))"

definition convert :: "arg_option \<Rightarrow> string \<Rightarrow> arg_value res" where
  "convert ao w =
     rbind (case ao_kind ao of
         TInt \<Rightarrow> (case py_int_of w of Inr i \<Rightarrow> Inr (AInt i) | Inl _ \<Rightarrow> Inl SystemExit)
       | TFloat \<Rightarrow> (case py_float_of w of Inr q \<Rightarrow> Inr (AFloat q) | Inl _ \<Rightarrow> Inl SystemExit)
       | TAttn \<Rightarrow> (case validate_attn_backend w True of Inr s \<Rightarrow> Inr (AStr s) | Inl _ \<Rightarrow> Inl SystemExit)
       | _ \<Rightarrow> Inr (AStr w)) (\<lambda>v.
     case ao_choices ao of
       None \<Rightarrow> Inr v
     | Some cs \<Rightarrow> if v \<in> set (map AStr cs) then Inr v else Inl SystemExit)"

type_synonym namespace = "(string \<times> arg_value) list"

definition ns_set :: "string \<Rightarrow> arg_value \<Rightarrow> namespace \<Rightarrow> namespace" where
  "ns_set k v ns = map (\<lambda>(k', v'). (k', if k' = k then v else v')) ns"

function parse_words :: "string list \<Rightarrow> namespace \<Rightarrow> namespace res" where
  "parse_words [] ns = Inr ns"
| "parse_words (w # ws) ns =
     (let name = takeWhile (\<lambda>c. c \<noteq> CHR ''='') w in
      if map_of flag_table w = None \<and> CHR ''='' \<in> set w then
        rbind (find_option name) (\<lambda>ao.
        if ao_kind ao \<in> {StoreTrue, StoreFalse} then Inl SystemExit
        else rbind (convert ao (drop (length name + 1) w)) (\<lambda>v. parse_words ws (ns_set (ao_dest ao) v ns)))
      else
        rbind (find_option w) (\<lambda>ao.
        case ao_kind ao of
          StoreTrue \<Rightarrow> parse_words ws (ns_set (ao_dest ao) (ABool True) ns)
        | StoreFalse \<Rightarrow> parse_words ws (ns_set (ao_dest ao) (ABool False) ns)
        | _ \<Rightarrow> if ws \<noteq> [] \<and> is_value (hd ws)
               then rbind (convert ao (hd ws)) (\<lambda>v. parse_words (tl ws) (ns_set (ao_dest ao) v ns))
               else Inl SystemExit))"
  by pat_completeness auto
termination by (relation "measure (\<lambda>(ws, _). length ws)") auto

definition parse_known :: "string list \<Rightarrow> namespace res" where
  "parse_known args =
     rbind (parse_words args (map (\<lambda>ao. (ao_dest ao, ao_default ao)) server_options)) (\<lambda>ns.
     if map_of ns ''model_path'' = Some ANone then Inl SystemExit else Inr ns)"

section \<open>The arguments of the server\<close>

datatype dtype = Float16 | BFloat16 | Float32 | OtherDtype

record server_args =
  sa_model_path :: string
  sa_tp_info :: dist_info
  sa_dtype :: dtype
  sa_max_running_req :: int
  sa_attention_backend :: string
  sa_moe_backend :: string
  sa_cuda_graph_max_bs :: "int option"
  sa_page_size :: int
  sa_memory_ratio :: rat
  sa_use_dummy_weight :: bool
  sa_use_pynccl :: bool
  sa_max_seq_len_override :: "int option"
  sa_num_page_override :: "int option"
  sa_max_extend_tokens :: int
  sa_cache_type :: string
  sa_server_host :: string
  sa_server_port :: int
  sa_num_tokenizer :: int
  sa_silent_output :: bool
  sa_unique_suffix :: string

definition dtype_map :: "string \<Rightarrow> dtype res" where
  "dtype_map s = (if s = ''float16'' then Inr Float16 else if s = ''bfloat16'' then Inr BFloat16
     else if s = ''float32'' then Inr Float32 else Inl KeyError)"

definition get_str :: "namespace \<Rightarrow> string \<Rightarrow> string" where
  "get_str ns k = (case map_of ns k of Some (AStr s) \<Rightarrow> s | _ \<Rightarrow> [])"

definition get_int :: "namespace \<Rightarrow> string \<Rightarrow> int" where
  "get_int ns k = (case map_of ns k of Some (AInt i) \<Rightarrow> i | _ \<Rightarrow> 0)"

definition get_opt_int :: "namespace \<Rightarrow> string \<Rightarrow> int option" where
  "get_opt_int ns k = (case map_of ns k of Some (AInt i) \<Rightarrow> Some i | _ \<Rightarrow> None)"

definition get_float :: "namespace \<Rightarrow> string \<Rightarrow> rat" where
  "get_float ns k = (case map_of ns k of Some (AFloat q) \<Rightarrow> q | _ \<Rightarrow> 0)"

definition get_bool :: "namespace \<Rightarrow> string \<Rightarrow> bool" where
  "get_bool ns k = (map_of ns k = Some (ABool True))"

record host_env =
  he_expanduser :: "string \<Rightarrow> string"
  he_isdir :: "string \<Rightarrow> bool"
  he_download :: "string \<Rightarrow> bool \<Rightarrow> string"
  he_model_dtype :: "string \<Rightarrow> string + dtype"
  he_pid :: nat

definition get_pid_suffix :: "host_env \<Rightarrow> string" where
  "get_pid_suffix h = ''.pid='' @ show_nat (he_pid h)"

definition parse_args :: "host_env \<Rightarrow> string list \<Rightarrow> bool \<Rightarrow> (server_args \<times> bool) res" where
  "parse_args h args run_shell =
     rbind (parse_known args) (\<lambda>ns.
     let run_shell = (run_shell \<or> get_bool ns ''shell_mode'');
         model_path = get_str ns ''model_path'';
         model_path = (if starts_with ''~'' model_path then he_expanduser h model_path else model_path);
         model_path = (if get_str ns ''model_source'' = ''modelscope'' \<and> \<not> he_isdir h model_path
                       then he_download h model_path (get_bool ns ''use_dummy_weight'') else model_path) in
     rbind (if get_str ns ''dtype'' = ''auto'' then
              (case he_model_dtype h model_path of Inl s \<Rightarrow> dtype_map s | Inr d \<Rightarrow> Inr d)
            else dtype_map (get_str ns ''dtype'')) (\<lambda>dtype.
     rbind (new_dist_info 0 (get_int ns ''tensor_parallel_size'')) (\<lambda>tp.
     Inr (\<lparr>sa_model_path = model_path, sa_tp_info = tp, sa_dtype = dtype,
           sa_max_running_req = (if run_shell then 1 else get_int ns ''max_running_req''),
           sa_attention_backend = get_str ns ''attention_backend'', sa_moe_backend = get_str ns ''moe_backend'',
           sa_cuda_graph_max_bs = (if run_shell then Some 1 else get_opt_int ns ''cuda_graph_max_bs''),
           sa_page_size = get_int ns ''page_size'', sa_memory_ratio = get_float ns ''memory_ratio'',
           sa_use_dummy_weight = get_bool ns ''use_dummy_weight'', sa_use_pynccl = get_bool ns ''use_pynccl'',
           sa_max_seq_len_override = get_opt_int ns ''max_seq_len_override'',
           sa_num_page_override = get_opt_int ns ''num_page_override'', sa_max_extend_tokens = get_int ns ''max_extend_tokens'',
           sa_cache_type = get_str ns ''cache_type'', sa_server_host = get_str ns ''server_host'',
           sa_server_port = get_int ns ''server_port'', sa_num_tokenizer = get_int ns ''num_tokenizer'',
           sa_silent_output = run_shell, sa_unique_suffix = get_pid_suffix h\<rparr>, run_shell))))"

section \<open>Addresses\<close>

definition zmq_addr :: "char \<Rightarrow> server_args \<Rightarrow> string" where
  "zmq_addr c a = ''ipc:///tmp/minisgl_'' @ [c] @ sa_unique_suffix a"

definition zmq_backend_addr :: "server_args \<Rightarrow> string" where
  "zmq_backend_addr a = zmq_addr (CHR ''0'') a"

definition zmq_detokenizer_addr :: "server_args \<Rightarrow> string" where
  "zmq_detokenizer_addr a = zmq_addr (CHR ''1'') a"

definition zmq_scheduler_broadcast_addr :: "server_args \<Rightarrow> string" where
  "zmq_scheduler_broadcast_addr a = zmq_addr (CHR ''2'') a"

definition share_tokenizer :: "server_args \<Rightarrow> bool" where
  "share_tokenizer a \<longleftrightarrow> sa_num_tokenizer a = 0"

definition zmq_frontend_addr :: "server_args \<Rightarrow> string" where
  "zmq_frontend_addr a = zmq_addr (CHR ''3'') a"

definition zmq_tokenizer_addr :: "server_args \<Rightarrow> string res" where
  "zmq_tokenizer_addr a =
     (if share_tokenizer a then Inr (zmq_detokenizer_addr a)
      else rbind (py_assert (zmq_addr (CHR ''4'') a \<noteq> zmq_detokenizer_addr a)) (\<lambda>_. Inr (zmq_addr (CHR ''4'') a)))"

definition tokenizer_create_addr :: "server_args \<Rightarrow> bool" where
  "tokenizer_create_addr a = share_tokenizer a"

definition backend_create_detokenizer_link :: "server_args \<Rightarrow> bool" where
  "backend_create_detokenizer_link a \<longleftrightarrow> \<not> share_tokenizer a"

definition frontend_create_tokenizer_link :: "server_args \<Rightarrow> bool" where
  "frontend_create_tokenizer_link a \<longleftrightarrow> \<not> share_tokenizer a"

definition distributed_addr :: "server_args \<Rightarrow> string" where
  "distributed_addr a = ''tcp://127.0.0.1:'' @ show_int (sa_server_port a + 1)"

definition max_forward_len :: "server_args \<Rightarrow> int" where
  "max_forward_len a = sa_max_extend_tokens a"

end
