(* ===== verification/Launch.thy ===== *)
theory Launch
  imports Args
begin

text \<open>
  \<^verbatim>\<open>server/launch.py\<close> and \<^verbatim>\<open>run_api_server\<close>: which processes a server consists of, which ends of which queues each
  of them opens, and the acknowledgements the launcher waits for.
\<close>

section \<open>Processes and their ends of the queues\<close>

datatype process = FrontendProc | SchedulerProc nat | DetokenizerProc | TokenizerProc nat

datatype socket_kind = Push | Pull | Pub | Sub

record endpoint =
  ep_process :: process
  ep_addr :: string
  ep_kind :: socket_kind
  ep_create :: bool

definition endpoint_of :: "process \<Rightarrow> string \<Rightarrow> socket_kind \<Rightarrow> bool \<Rightarrow> endpoint" where
  "endpoint_of p a k c = \<lparr>ep_process = p, ep_addr = a, ep_kind = k, ep_create = c\<rparr>"

text \<open>\<^verbatim>\<open>run_api_server\<close> opens the frontend's ends; the shell does not run with dummy weights.\<close>

definition run_api_server :: "server_args \<Rightarrow> bool \<Rightarrow> endpoint list res" where
  "run_api_server a run_shell =
     rbind (if run_shell then py_assert (\<not> sa_use_dummy_weight a) else Inr ()) (\<lambda>_.
     rbind (zmq_tokenizer_addr a) (\<lambda>tok_addr.
     Inr [endpoint_of FrontendProc (zmq_frontend_addr a) Pull True,
          endpoint_of FrontendProc tok_addr Push (frontend_create_tokenizer_link a)]))"

text \<open>\<^verbatim>\<open>_run_scheduler\<close> on one rank, through \<^verbatim>\<open>SchedulerIOMixin.__init__\<close>.\<close>

definition run_scheduler :: "server_args \<Rightarrow> nat \<Rightarrow> endpoint list" where
  "run_scheduler a i =
     map (\<lambda>q. case q of
         PullBackend \<Rightarrow> endpoint_of (SchedulerProc i) (zmq_backend_addr a) Pull True
       | PushDetokenizer \<Rightarrow> endpoint_of (SchedulerProc i) (zmq_detokenizer_addr a) Push (backend_create_detokenizer_link a)
       | PubBroadcast \<Rightarrow> endpoint_of (SchedulerProc i) (zmq_scheduler_broadcast_addr a) Pub True
       | SubBroadcast \<Rightarrow> endpoint_of (SchedulerProc i) (zmq_scheduler_broadcast_addr a) Sub False)
       (io_queues False \<lparr>di_rank = int i, di_size = di_size (sa_tp_info a)\<rparr>)"

text \<open>\<^verbatim>\<open>tokenize_worker\<close>: it sends to the scheduler and the frontend, and receives on its own address.\<close>

definition run_tokenizer :: "server_args \<Rightarrow> process \<Rightarrow> string \<Rightarrow> endpoint list" where
  "run_tokenizer a p addr =
     [endpoint_of p (zmq_backend_addr a) Push False, endpoint_of p (zmq_frontend_addr a) Push False,
      endpoint_of p addr Pull (tokenizer_create_addr a)]"

text \<open>The messages the processes put on the queue of acknowledgements; only the primary scheduler reports.\<close>

definition scheduler_acks :: "nat \<Rightarrow> nat" where
  "scheduler_acks i = (if i = 0 then 1 else 0)"

record launched =
  ln_endpoints :: "endpoint list"
  ln_acks :: nat
  ln_expected :: nat

definition start_subprocess :: "server_args \<Rightarrow> launched res" where
  "start_subprocess a =
     (let world_size = nat (di_size (sa_tp_info a)); num_tokenizers = nat (sa_num_tokenizer a) in
      rbind (if num_tokenizers > 0 then zmq_tokenizer_addr a else Inr []) (\<lambda>tok_addr.
      Inr \<lparr>ln_endpoints = concat (map (run_scheduler a) [0 ..< world_size]) @
             run_tokenizer a DetokenizerProc (zmq_detokenizer_addr a) @
             concat (map (\<lambda>i. run_tokenizer a (TokenizerProc i) tok_addr) [0 ..< num_tokenizers]),
           ln_acks = sum_list (map scheduler_acks [0 ..< world_size]) + 1 + num_tokenizers,
           ln_expected = nat (sa_num_tokenizer a + 2)\<rparr>))"

definition launch_server :: "server_args \<Rightarrow> bool \<Rightarrow> launched res" where
  "launch_server a run_shell =
     rbind (run_api_server a run_shell) (\<lambda>front.
     rbind (start_subprocess a) (\<lambda>l. Inr (l\<lparr>ln_endpoints := front @ ln_endpoints l\<rparr>)))"

section \<open>Every queue has one owner\<close>

definition creators :: "string \<Rightarrow> endpoint list \<Rightarrow> endpoint list" where
  "creators addr es = filter (\<lambda>e. ep_addr e = addr \<and> ep_create e) es"

lemma zmq_addr_inj [simp]: "zmq_addr c a = zmq_addr c' a \<longleftrightarrow> c = c'"
  by (simp add: zmq_addr_def)

lemmas addr_defs = zmq_backend_addr_def zmq_detokenizer_addr_def zmq_scheduler_broadcast_addr_def zmq_frontend_addr_def

lemma creators_append: "creators addr (xs @ ys) = creators addr xs @ creators addr ys"
  by (simp add: creators_def)

lemma creators_concat: "creators addr (concat xss) = concat (map (creators addr) xss)"
  by (induction xss) (simp_all add: creators_def)

lemma concat_none: "(\<And>x. x \<in> set xs \<Longrightarrow> f x = []) \<Longrightarrow> concat (map f xs) = []"
  by simp

lemma creators_Nil [simp]: "creators addr [] = []"
  by (simp add: creators_def)

lemma creators_Cons [simp]:
  "creators (zmq_addr c a) (endpoint_of p (zmq_addr d a) k b # es) =
     (if d = c \<and> b then [endpoint_of p (zmq_addr d a) k b] else []) @ creators (zmq_addr c a) es"
  by (simp add: creators_def endpoint_of_def)

lemma run_scheduler_0: "run_scheduler a 0 =
    [endpoint_of (SchedulerProc 0) (zmq_addr (CHR ''0'') a) Pull True,
     endpoint_of (SchedulerProc 0) (zmq_addr (CHR ''1'') a) Push (\<not> share_tokenizer a)] @
    (if di_size (sa_tp_info a) > 1 then [endpoint_of (SchedulerProc 0) (zmq_addr (CHR ''2'') a) Pub True] else [])"
  by (simp add: run_scheduler_def io_queues_def is_primary_def addr_defs backend_create_detokenizer_link_def)

lemma scheduler_rank: "i > 0 \<Longrightarrow> creators addr (run_scheduler a i) = []"
  by (auto simp: run_scheduler_def io_queues_def is_primary_def creators_def endpoint_of_def)

lemma schedulers_creators:
  assumes "0 < di_size (sa_tp_info a)"
  shows "creators addr (concat (map (run_scheduler a) [0 ..< nat (di_size (sa_tp_info a))])) = creators addr (run_scheduler a 0)"
proof -
  obtain n where n: "nat (di_size (sa_tp_info a)) = Suc n" using assms by (metis Suc_pred zero_less_nat_eq)
  have "concat (map (\<lambda>x. creators addr (run_scheduler a x)) (map Suc [0 ..< n])) = []"
    by (rule concat_none) (auto intro: scheduler_rank)
  then show ?thesis unfolding n creators_concat by (simp add: upt_conv_Cons map_Suc_upt[symmetric] del: upt_Suc map_map)
qed

lemma tokenizers_creators:
  assumes "\<not> share_tokenizer a \<or> n = 0"
  shows "creators addr (concat (map (\<lambda>i. run_tokenizer a (TokenizerProc i) tok) [0 ..< n])) = []"
  using assms unfolding creators_concat map_map
  by (intro concat_none) (auto simp: run_tokenizer_def creators_def endpoint_of_def tokenizer_create_addr_def)

text \<open>
  C8: the processes of a server fit together. For every group size and every number of tokenizers from 0
  on, each address that any process opens is created by exactly one of them, and the launcher waits
  for exactly the number of acknowledgements the processes send.
\<close>

theorem every_queue_one_owner:
  assumes "launch_server a shell = Inr l" and "0 < di_size (sa_tp_info a)" and "0 \<le> sa_num_tokenizer a"
  shows "(\<forall>e\<in>set (ln_endpoints l). length (creators (ep_addr e) (ln_endpoints l)) = 1) \<and> ln_acks l = ln_expected l"
proof -
  let ?n = "nat (sa_num_tokenizer a)" let ?w = "nat (di_size (sa_tp_info a))"
  define tok where "tok = (if share_tokenizer a then zmq_detokenizer_addr a else zmq_addr (CHR ''4'') a)"
  have tok_addr: "zmq_tokenizer_addr a = Inr tok"
    by (simp add: zmq_tokenizer_addr_def tok_def zmq_detokenizer_addr_def)
  have share: "share_tokenizer a \<longleftrightarrow> ?n = 0" using assms(3) by (auto simp: share_tokenizer_def)
  let ?toks = "concat (map (\<lambda>i. run_tokenizer a (TokenizerProc i) tok) [0 ..< ?n])"
  let ?scheds = "concat (map (run_scheduler a) [0 ..< ?w])"
  have l: "ln_endpoints l = [endpoint_of FrontendProc (zmq_frontend_addr a) Pull True,
          endpoint_of FrontendProc tok Push (frontend_create_tokenizer_link a)] @ ?scheds @
        run_tokenizer a DetokenizerProc (zmq_detokenizer_addr a) @ ?toks"
    and acks: "ln_acks l = sum_list (map scheduler_acks [0 ..< ?w]) + 1 + ?n" "ln_expected l = nat (sa_num_tokenizer a + 2)"
    using assms(1) by (auto simp: launch_server_def run_api_server_def start_subprocess_def tok_addr rbind_eq_Inr Let_def split: if_splits)
  have cre: "creators addr (ln_endpoints l) =
      creators addr [endpoint_of FrontendProc (zmq_frontend_addr a) Pull True,
          endpoint_of FrontendProc tok Push (frontend_create_tokenizer_link a)] @
      creators addr (run_scheduler a 0) @ creators addr (run_tokenizer a DetokenizerProc (zmq_detokenizer_addr a))" for addr
    unfolding l creators_append schedulers_creators[OF assms(2)]
    using tokenizers_creators[of a ?n addr tok] share by simp
  have addrs: "\<exists>c. ep_addr e = zmq_addr c a \<and> (c = CHR ''0'' \<or> c = CHR ''1'' \<or> c = CHR ''3'' \<or>
      (c = CHR ''4'' \<and> \<not> share_tokenizer a) \<or> (c = CHR ''2'' \<and> di_size (sa_tp_info a) > 1))" if "e \<in> set (ln_endpoints l)" for e
    using that unfolding l
    by (auto simp: run_scheduler_def io_queues_def run_tokenizer_def endpoint_of_def addr_defs tok_def split: if_splits)
  note open_defs = cre run_scheduler_0 run_tokenizer_def addr_defs tok_def frontend_create_tokenizer_link_def tokenizer_create_addr_def
  have one: "length (creators (zmq_addr (CHR ''0'') a) (ln_endpoints l)) = 1"
      "length (creators (zmq_addr (CHR ''1'') a) (ln_endpoints l)) = 1"
      "length (creators (zmq_addr (CHR ''3'') a) (ln_endpoints l)) = 1"
      "\<not> share_tokenizer a \<Longrightarrow> length (creators (zmq_addr (CHR ''4'') a) (ln_endpoints l)) = 1"
      "di_size (sa_tp_info a) > 1 \<Longrightarrow> length (creators (zmq_addr (CHR ''2'') a) (ln_endpoints l)) = 1"
    by (cases "share_tokenizer a"; simp add: open_defs)+
  have "length (creators (ep_addr e) (ln_endpoints l)) = 1" if e: "e \<in> set (ln_endpoints l)" for e
    using addrs[OF e] by (auto simp: one)
  moreover have "sum_list (map scheduler_acks [0 ..< ?w]) = 1"
  proof -
    obtain n where n: "?w = Suc n" using assms(2) by (metis Suc_pred zero_less_nat_eq)
    have "map scheduler_acks (map Suc [0 ..< n]) = replicate n 0" by (simp add: scheduler_acks_def map_replicate_const comp_def)
    then have "sum_list (map scheduler_acks (map Suc [0 ..< n])) = 0" by simp
    then show ?thesis unfolding n by (simp add: upt_conv_Cons map_Suc_upt[symmetric] scheduler_acks_def del: upt_Suc map_map)
  qed
  ultimately show ?thesis using acks assms(3) by (auto simp: nat_add_distrib)
qed

definition demo_host :: host_env where
  "demo_host = \<lparr>he_expanduser = id, he_isdir = (\<lambda>_. True), he_download = (\<lambda>p _. p), he_model_dtype = (\<lambda>_. Inr BFloat16), he_pid = 77\<rparr>"

definition demo_args :: server_args where
  "demo_args = (case parse_args demo_host [''--model'', ''m'', ''--tp-size=2'', ''--num-tok'', ''1''] False of Inr (a, _) \<Rightarrow> a)"

theorem every_queue_one_owner_witness:
  "\<exists>l. launch_server demo_args False = Inr l \<and> length (ln_endpoints l) = 12 \<and> ln_acks l = 3 \<and> ln_expected l = 3 \<and>
     list_all (\<lambda>e. length (creators (ep_addr e) (ln_endpoints l)) = 1) (ln_endpoints l)"
proof -
  have "case launch_server demo_args False of Inl _ \<Rightarrow> False | Inr l \<Rightarrow> length (ln_endpoints l) = 12 \<and> ln_acks l = 3"
    "0 < di_size (sa_tp_info demo_args)" "0 \<le> sa_num_tokenizer demo_args" by code_simp+
  then obtain l where l: "launch_server demo_args False = Inr l" "length (ln_endpoints l) = 12" "ln_acks l = 3"
    by (auto split: sum.splits)
  from every_queue_one_owner[OF l(1)] show ?thesis
    using l \<open>0 < di_size (sa_tp_info demo_args)\<close> \<open>0 \<le> sa_num_tokenizer demo_args\<close> by (auto simp: list_all_iff)
qed

section \<open>What the parser guarantees\<close>


















end
