(* ===== verification/LayerOps.thy ===== *)
theory LayerOps
  imports Moe PyText
begin

text \<open>
  \<^verbatim>\<open>layers/norm.py\<close>, \<^verbatim>\<open>layers/activation.py\<close> and \<^verbatim>\<open>layers/rotary.py\<close>: normalisation, gated activations and rotary
  position embeddings, with their choice between the portable path and the kernels of flashinfer. Values are exact;
  the real functions of torch and the kernels are parameters.
\<close>

section \<open>What the host provides\<close>

record numerics =
  nm_exp :: "rat \<Rightarrow> rat"
  nm_rsqrt :: "rat \<Rightarrow> rat"
  nm_cos :: "rat \<Rightarrow> rat"
  nm_sin :: "rat \<Rightarrow> rat"
  nm_pow :: "rat \<Rightarrow> rat \<Rightarrow> rat"
  nm_log :: "rat \<Rightarrow> rat"
  nm_pi :: rat
  nm_act :: "act \<Rightarrow> rat \<Rightarrow> rat"
  nm_softmax :: "vec \<Rightarrow> vec"
  nm_topk :: "nat \<Rightarrow> vec \<Rightarrow> vec \<times> nat list"

text \<open>The type of the device a tensor is on, the platform, and the kernels of flashinfer: absent when it cannot be imported.\<close>

record kernels =
  kn_device :: string
  kn_metax :: bool
  kn_rmsnorm :: "(vec \<Rightarrow> vec \<Rightarrow> rat \<Rightarrow> vec) option"
  kn_fused_add_rmsnorm :: "(vec \<Rightarrow> vec \<Rightarrow> vec \<Rightarrow> rat \<Rightarrow> vec \<times> vec) option"
  kn_silu_and_mul :: "(vec \<Rightarrow> vec) option"
  kn_gelu_and_mul :: "(vec \<Rightarrow> vec) option"
  kn_apply_rope :: "(mat \<Rightarrow> nat \<Rightarrow> nat list \<Rightarrow> mat list \<Rightarrow> mat list) option"

definition use_flashinfer :: "kernels \<Rightarrow> bool" where
  "use_flashinfer kn \<longleftrightarrow> kn_device kn = ''cuda'' \<and> \<not> kn_metax kn"

definition load_flashinfer :: "'k option \<Rightarrow> 'k res" where
  "load_flashinfer k = (case k of None \<Rightarrow> Inl RuntimeError | Some k \<Rightarrow> Inr k)"

section \<open>Normalisation\<close>

definition rmsnorm_cpu :: "numerics \<Rightarrow> vec \<Rightarrow> rat \<Rightarrow> vec \<Rightarrow> vec" where
  "rmsnorm_cpu nm weight eps x =
     (let variance = sum_list (map (\<lambda>a. a ^ 2) x) / of_nat (length x);
          y = scale (nm_rsqrt nm (variance + eps)) x
      in map2 (*) y weight)"

definition rmsnorm_forward :: "kernels \<Rightarrow> numerics \<Rightarrow> vec \<Rightarrow> rat \<Rightarrow> mat \<Rightarrow> mat res" where
  "rmsnorm_forward kn nm weight eps xs =
     (if use_flashinfer kn then
        rbind (load_flashinfer (kn_rmsnorm kn)) (\<lambda>rmsnorm. Inr (map (\<lambda>x. rmsnorm x weight eps) xs))
      else Inr (map (rmsnorm_cpu nm weight eps) xs))"

text \<open>
  The fused form adds the residual first and returns the sum as the next one.
\<close>

definition rmsnorm_fused_forward ::
  "kernels \<Rightarrow> numerics \<Rightarrow> vec \<Rightarrow> rat \<Rightarrow> mat \<Rightarrow> mat option \<Rightarrow> (mat \<times> mat) res" where
  "rmsnorm_fused_forward kn nm weight eps xs residual = (case residual of
      None \<Rightarrow>
        if use_flashinfer kn then
          rbind (load_flashinfer (kn_rmsnorm kn)) (\<lambda>rmsnorm. Inr (map (\<lambda>x. rmsnorm x weight eps) xs, xs))
        else Inr (map (rmsnorm_cpu nm weight eps) xs, xs)
    | Some rs \<Rightarrow>
        if use_flashinfer kn then
          rbind (load_flashinfer (kn_fused_add_rmsnorm kn)) (\<lambda>fused_add_rmsnorm.
          let ys = map (\<lambda>(x, r). fused_add_rmsnorm x r weight eps) (zip xs rs) in Inr (map fst ys, map snd ys))
        else
          let summed = map2 vadd xs rs in Inr (map (rmsnorm_cpu nm weight eps) summed, summed))"

section \<open>Gated activations\<close>

record tensor_meta =
  mt_shape :: "nat list"
  mt_dtype :: string
  mt_device :: string

text \<open>Python's \<^verbatim>\<open>shape[-1]\<close>, and the shape with the last dimension halved.\<close>

definition halved :: "nat list \<Rightarrow> nat list" where
  "halved shape = butlast shape @ [last shape div 2]"

definition gate_times_up :: "(rat \<Rightarrow> rat) \<Rightarrow> vec \<Rightarrow> vec" where
  "gate_times_up f x = (let h = (length x + 1) div 2; gate = take h x; up = drop h x in map2 (*) (map f gate) up)"

definition silu_and_mul :: "kernels \<Rightarrow> numerics \<Rightarrow> tensor_meta \<Rightarrow> tensor_meta option \<Rightarrow> mat \<Rightarrow> mat res" where
  "silu_and_mul kn nm m out xs =
     (if last (mt_shape m) mod 2 \<noteq> 0 then Inl ValueError
      else
        rbind (case out of
            None \<Rightarrow> Inr ()
          | Some out \<Rightarrow>
              if mt_shape out \<noteq> halved (mt_shape m) then Inl ValueError
              else if mt_dtype out \<noteq> mt_dtype m then Inl ValueError
              else if mt_device out \<noteq> mt_device m then Inl ValueError
              else Inr ()) (\<lambda>_.
        if use_flashinfer kn then
          rbind (load_flashinfer (kn_silu_and_mul kn)) (\<lambda>flashinfer_silu_and_mul. Inr (map flashinfer_silu_and_mul xs))
        else Inr (map (gate_times_up (nm_act nm Silu)) xs)))"

text \<open>
  Without the checks of \<^verbatim>\<open>out\<close>: a result of another shape is caught by the copy. A missing kernel is the plain
  \<^verbatim>\<open>ImportError\<close>.
\<close>

definition gelu_and_mul :: "kernels \<Rightarrow> numerics \<Rightarrow> tensor_meta \<Rightarrow> mat \<Rightarrow> mat res" where
  "gelu_and_mul kn nm m xs =
     (if last (mt_shape m) mod 2 \<noteq> 0 then Inl ValueError
      else if use_flashinfer kn then
        (case kn_gelu_and_mul kn of
           None \<Rightarrow> Inl ImportError | Some flashinfer_gelu_and_mul \<Rightarrow> Inr (map flashinfer_gelu_and_mul xs))
      else Inr (map (gate_times_up (nm_act nm Gelu)) xs))"

section \<open>Rotary embeddings\<close>

record torch_device =
  td_type :: string
  td_index :: "nat option"

record rotary =
  ro_head_size :: nat
  ro_rotary_dim :: nat
  ro_cos_sin :: mat
  ro_device :: torch_device

definition inv_freq :: "numerics \<Rightarrow> rat \<Rightarrow> nat \<Rightarrow> vec" where
  "inv_freq nm base rotary_dim =
     map (\<lambda>i. 1 / nm_pow nm base (of_nat (2 * i) / of_nat rotary_dim)) [0 ..< (rotary_dim + 1) div 2]"

definition new_rotary ::
  "numerics \<Rightarrow> torch_device \<Rightarrow> nat \<Rightarrow> nat \<Rightarrow> nat \<Rightarrow> rat \<Rightarrow> (vec \<Rightarrow> vec) option \<Rightarrow> rotary res" where
  "new_rotary nm dev head_size rotary_dim max_position base post_process =
     rbind (py_assert (rotary_dim = head_size)) (\<lambda>_.
     let f = inv_freq nm base rotary_dim;
         f = (case post_process of None \<Rightarrow> f | Some post_process \<Rightarrow> post_process f);
         cos_sin_cache = map (\<lambda>t. map (\<lambda>w. nm_cos nm (of_nat t * w)) f @ map (\<lambda>w. nm_sin nm (of_nat t * w)) f) [0 ..< max_position]
     in rbind (py_assert (head_size \<in> set [64, 128, 256, 512])) (\<lambda>_.
     Inr \<lparr>ro_head_size = head_size, ro_rotary_dim = rotary_dim, ro_cos_sin = cos_sin_cache, ro_device = dev\<rparr>))"

definition cos_sin_full_from_cache :: "mat \<Rightarrow> nat list \<Rightarrow> nat \<Rightarrow> (vec \<times> vec) list res" where
  "cos_sin_full_from_cache cache positions rotary_dim =
     (let half = rotary_dim div 2 in
      res_map (\<lambda>p. if p < length cache then
          let selected = cache ! p; cos_half = take half selected; sin_half = drop half selected
          in Inr (cos_half @ cos_half, sin_half @ sin_half)
        else Inl IndexError) positions)"

definition rope_neox_cpu :: "vec \<Rightarrow> vec \<Rightarrow> vec \<Rightarrow> vec" where
  "rope_neox_cpu cos_full sin_full x =
     (let half = length x div 2; x1 = take half x; x2 = drop half x; rotated = map uminus x2 @ x1
      in vadd (map2 (*) x cos_full) (map2 (*) rotated sin_full))"

text \<open>Tokens are lists of heads.\<close>

definition rotary_forward ::
  "kernels \<Rightarrow> rotary \<Rightarrow> nat list \<Rightarrow> mat list \<Rightarrow> mat list \<Rightarrow> (mat list \<times> mat list) res" where
  "rotary_forward kn ro positions query key =
     (if use_flashinfer kn then
        rbind (load_flashinfer (kn_apply_rope kn)) (\<lambda>apply_rope.
        let rot = apply_rope (ro_cos_sin ro) (ro_head_size ro) positions in Inr (rot query, rot key))
      else
        rbind (cos_sin_full_from_cache (ro_cos_sin ro) positions (ro_rotary_dim ro)) (\<lambda>cs.
        Inr (map (\<lambda>((c, s), heads). map (rope_neox_cpu c s) heads) (zip cs query),
             map (\<lambda>((c, s), heads). map (rope_neox_cpu c s) heads) (zip cs key))))"

section \<open>Scaled frequencies\<close>

datatype rope_value = RopeName string | RopeNumber rat

type_synonym rope_scaling = "(string \<times> rope_value) list"

definition rope_number :: "rope_scaling \<Rightarrow> string \<Rightarrow> rat res" where
  "rope_number sc k = (case map_of sc k of
      None \<Rightarrow> Inl KeyError | Some (RopeNumber q) \<Rightarrow> Inr q | Some (RopeName _) \<Rightarrow> Inl TypeError)"

definition rope_number_or :: "rope_scaling \<Rightarrow> string \<Rightarrow> rat \<Rightarrow> rat res" where
  "rope_number_or sc k dflt = (if map_of sc k = None then Inr dflt else rope_number sc k)"

definition clamp01 :: "rat \<Rightarrow> rat" where
  "clamp01 x = min 1 (max 0 x)"

definition llama3_post_process :: "numerics \<Rightarrow> rat \<Rightarrow> rat \<Rightarrow> rat \<Rightarrow> rat \<Rightarrow> vec \<Rightarrow> vec" where
  "llama3_post_process nm scaling_factor low_freq_factor high_freq_factor original_max_position f =
     map (\<lambda>w.
       let wave_len = 2 * nm_pi nm / w in
       if low_freq_factor = high_freq_factor then
         (if wave_len < original_max_position / high_freq_factor then w else w / scaling_factor)
       else
         let delta = high_freq_factor - low_freq_factor;
             smooth = clamp01 ((original_max_position / wave_len - low_freq_factor) / delta);
             factor = (1 - smooth) / scaling_factor + smooth
         in factor * w) f"

definition find_correction_dim :: "numerics \<Rightarrow> nat \<Rightarrow> rat \<Rightarrow> rat \<Rightarrow> rat \<Rightarrow> rat res" where
  "find_correction_dim nm rotary_dim base orig_max_pos num_rotations =
     (if num_rotations * 2 * nm_pi nm = 0 \<or> 2 * nm_log nm base = 0 then Inl ZeroDivisionError
      else Inr (of_nat rotary_dim * nm_log nm (orig_max_pos / (num_rotations * 2 * nm_pi nm)) / (2 * nm_log nm base)))"

definition yarn_post_process :: "rat \<Rightarrow> int \<Rightarrow> int \<Rightarrow> vec \<Rightarrow> vec" where
  "yarn_post_process factor low high f =
     map (\<lambda>(i, w).
       let ramp = clamp01 ((of_int (int i - low)) / of_int (max (high - low) 1))
       in (w / factor) * ramp + w * (1 - ramp)) (enumerate 0 f)"

definition build_scaled_rope ::
  "numerics \<Rightarrow> torch_device \<Rightarrow> nat \<Rightarrow> nat \<Rightarrow> nat \<Rightarrow> rat \<Rightarrow> rope_scaling option \<Rightarrow> rotary res" where
  "build_scaled_rope nm dev head_dim rotary_dim max_position base sc = (case sc of
      None \<Rightarrow> new_rotary nm dev head_dim rotary_dim max_position base None
    | Some sc \<Rightarrow> (case map_of sc ''rope_type'' of
          None \<Rightarrow> Inl KeyError
        | Some rope_type \<Rightarrow>
            if rope_type = RopeName ''default'' then new_rotary nm dev head_dim rotary_dim max_position base None
            else if rope_type = RopeName ''llama3'' then
              rbind (rope_number sc ''factor'') (\<lambda>scaling_factor.
              rbind (rope_number sc ''low_freq_factor'') (\<lambda>low_freq_factor.
              rbind (rope_number sc ''high_freq_factor'') (\<lambda>high_freq_factor.
              rbind (rope_number sc ''original_max_position_embeddings'') (\<lambda>original_max_position.
              new_rotary nm dev head_dim rotary_dim max_position base
                (Some (llama3_post_process nm scaling_factor low_freq_factor high_freq_factor original_max_position))))))
            else if rope_type = RopeName ''yarn'' then
              rbind (rope_number sc ''factor'') (\<lambda>factor.
              rbind (rope_number_or sc ''beta_fast'' 32) (\<lambda>beta_fast.
              rbind (rope_number_or sc ''beta_slow'' 1) (\<lambda>beta_slow.
              rbind (rope_number sc ''original_max_position_embeddings'') (\<lambda>orig_max_pos.
              rbind (find_correction_dim nm rotary_dim base orig_max_pos beta_fast) (\<lambda>fast.
              rbind (find_correction_dim nm rotary_dim base orig_max_pos beta_slow) (\<lambda>slow.
              let low = max \<lfloor>fast\<rfloor> 0; high = min \<lceil>slow\<rceil> (int (rotary_dim div 2) - 1) in
              new_rotary nm dev head_dim rotary_dim max_position base (Some (yarn_post_process factor low high))))))))
            else Inl ValueError))"

section \<open>The cache of rotary embeddings\<close>

text \<open>
  The device registered by \<^verbatim>\<open>set_rope_device\<close>, and the embeddings built so far under the arguments they were
  built for: \<^verbatim>\<open>functools.cache\<close> keeps results, not exceptions.
\<close>

type_synonym rope_key = "(nat \<times> nat \<times> nat \<times> rat \<times> rope_scaling option) \<times> torch_device"

record rope_cache =
  rc_device :: "torch_device option"
  rc_built :: "(rope_key \<times> rotary) list"

definition set_rope_device :: "torch_device \<Rightarrow> rope_cache \<Rightarrow> rope_cache" where
  "set_rope_device dev rc = rc\<lparr>rc_device := Some dev\<rparr>"

definition normalize_device :: "torch_device \<Rightarrow> torch_device res" where
  "normalize_device dev =
     (if td_type dev = ''cpu'' \<or> td_type dev = ''meta'' then Inr \<lparr>td_type = td_type dev, td_index = None\<rparr>
      else if td_index dev = None then Inl ValueError
      else Inr dev)"

definition resolve_rope_device :: "torch_device \<Rightarrow> rope_cache \<Rightarrow> torch_device res" where
  "resolve_rope_device current rc = (case rc_device rc of
      Some dev \<Rightarrow> normalize_device dev
    | None \<Rightarrow> if td_type current = ''meta'' then Inl RuntimeError else normalize_device current)"

definition get_rope_cached :: "numerics \<Rightarrow> rope_key \<Rightarrow> rope_cache \<Rightarrow> (rotary \<times> rope_cache) res" where
  "get_rope_cached nm key rc = (case map_of (rc_built rc) key of
      Some ro \<Rightarrow> Inr (ro, rc)
    | None \<Rightarrow> (case key of ((head_dim, rotary_dim, max_position, base, sc), dev) \<Rightarrow>
        rbind (build_scaled_rope nm dev head_dim rotary_dim max_position base sc) (\<lambda>ro.
        Inr (ro, rc\<lparr>rc_built := (key, ro) # rc_built rc\<rparr>))))"

definition get_rope ::
  "numerics \<Rightarrow> torch_device \<Rightarrow> nat \<times> nat \<times> nat \<times> rat \<times> rope_scaling option \<Rightarrow> rope_cache \<Rightarrow> (rotary \<times> rope_cache) res" where
  "get_rope nm current args rc =
     rbind (resolve_rope_device current rc) (\<lambda>target_device. get_rope_cached nm (args, target_device) rc)"

end
