(* ===== verification/Attention.thy ===== *)
theory Attention
  imports LayerOps AttnMeta Layers
begin

text \<open>
  \<^verbatim>\<open>kvcache/mha_pool.py\<close>, \<^verbatim>\<open>attention/torch_native.py\<close> and \<^verbatim>\<open>layers/attention.py\<close>: the pool of cached keys and values, the
  portable attention backend that reads and writes it through the page table, and the layer around it. A token's
  queries, keys and values are lists of heads. The pool is flat, as \<^verbatim>\<open>_storage_shape\<close> views it: a slot is a
  page times the page size plus an offset.
\<close>

section \<open>The pool\<close>

record kv_pool =
  kp_local_kv_heads :: nat
  kp_head_dim :: nat
  kp_num_layers :: nat
  kp_k :: "mat list list"
  kp_v :: "mat list list"

text \<open>\<open>junk\<close> is what the uninitialised memory holds.\<close>

definition new_kv_pool :: "dist_info \<Rightarrow> int \<Rightarrow> nat \<Rightarrow> nat \<Rightarrow> nat \<Rightarrow> nat \<Rightarrow> rat \<Rightarrow> kv_pool res" where
  "new_kv_pool tp num_kv_heads num_layers head_dim num_pages page_size junk =
     rbind (div_even num_kv_heads (di_size tp) True) (\<lambda>local_kv_heads.
     let storage = replicate num_layers
           (replicate (num_pages * page_size) (replicate (nat local_kv_heads) (replicate head_dim junk)))
     in Inr \<lparr>kp_local_kv_heads = nat local_kv_heads, kp_head_dim = head_dim, kp_num_layers = num_layers,
             kp_k = storage, kp_v = storage\<rparr>)"

definition k_cache :: "kv_pool \<Rightarrow> nat \<Rightarrow> mat list res" where
  "k_cache p i = (if i < length (kp_k p) then Inr (kp_k p ! i) else Inl IndexError)"

definition v_cache :: "kv_pool \<Rightarrow> nat \<Rightarrow> mat list res" where
  "v_cache p i = (if i < length (kp_v p) then Inr (kp_v p ! i) else Inl IndexError)"

definition index_copy :: "slot list \<Rightarrow> 'a list \<Rightarrow> 'a list \<Rightarrow> 'a list res" where
  "index_copy locations src xs =
     (if length locations \<noteq> length src then Inl IndexError
      else res_fold (\<lambda>(i, x) xs. if 0 \<le> i \<and> i < int (length xs) then Inr (xs[nat i := x]) else Inl IndexError)
             (zip locations src) xs)"

definition index_select :: "'a list \<Rightarrow> slot list \<Rightarrow> 'a list res" where
  "index_select xs locations = res_map (\<lambda>i. if 0 \<le> i \<and> i < int (length xs) then Inr (xs ! nat i) else Inl IndexError) locations"

definition store_kv :: "mat list \<Rightarrow> mat list \<Rightarrow> slot list \<Rightarrow> nat \<Rightarrow> kv_pool \<Rightarrow> kv_pool res" where
  "store_kv k v out_loc layer_id p =
     rbind (k_cache p layer_id) (\<lambda>kc.
     rbind (v_cache p layer_id) (\<lambda>vc.
     rbind (index_copy out_loc k kc) (\<lambda>kc.
     rbind (index_copy out_loc v vc) (\<lambda>vc.
     Inr (p\<lparr>kp_k := (kp_k p)[layer_id := kc], kp_v := (kp_v p)[layer_id := vc]\<rparr>)))))"

section \<open>Attention for one request\<close>

definition repeat_kv_heads :: "nat \<Rightarrow> nat \<Rightarrow> mat list \<Rightarrow> mat list res" where
  "repeat_kv_heads num_kv_heads num_qo_heads x =
     (if num_qo_heads = num_kv_heads then Inr x
      else if num_kv_heads = 0 then Inl ZeroDivisionError
      else if num_qo_heads mod num_kv_heads \<noteq> 0 then Inl ValueError
      else Inr (map (\<lambda>heads. concat (map (replicate (num_qo_heads div num_kv_heads)) heads)) x))"

definition weighted_sum :: "nat \<Rightarrow> vec \<Rightarrow> mat \<Rightarrow> vec" where
  "weighted_sum head_dim ws vs = map (\<lambda>j. sum_list (map2 (\<lambda>w v. w * v ! j) ws vs)) [0 ..< head_dim]"

text \<open>
  \<^verbatim>\<open>F.scaled_dot_product_attention\<close> for one query and head: the softmax of the scaled scores over
  the keys the mask admits.
\<close>

definition sdpa :: "numerics \<Rightarrow> rat \<Rightarrow> vec \<Rightarrow> mat \<Rightarrow> mat \<Rightarrow> bool list \<Rightarrow> vec" where
  "sdpa nm sc q ks vs allowed =
     (let es = map2 (\<lambda>k a. if a then nm_exp nm (sc * dot q k) else 0) ks allowed
      in weighted_sum (length q) (map (\<lambda>e. e / sum_list es) es) vs)"

definition torch_attention_for_request ::
  "numerics \<Rightarrow> nat \<Rightarrow> nat \<Rightarrow> mat list \<Rightarrow> mat list \<Rightarrow> mat list \<Rightarrow> nat \<Rightarrow> rat \<Rightarrow> mat list res" where
  "torch_attention_for_request nm num_qo_heads num_kv_heads q k v cached_len sc =
     (let q_len = length q; kv_len = length k in
      if cached_len + q_len \<noteq> kv_len then Inl ValueError
      else
        rbind (repeat_kv_heads num_kv_heads num_qo_heads k) (\<lambda>k.
        rbind (repeat_kv_heads num_kv_heads num_qo_heads v) (\<lambda>v.
        Inr (map (\<lambda>i.
          let allowed = map (\<lambda>j. j \<le> cached_len + i) [0 ..< kv_len]
          in map (\<lambda>h. sdpa nm sc (q ! i ! h) (map (\<lambda>ks. ks ! h) k) (map (\<lambda>vs. vs ! h) v) allowed) [0 ..< num_qo_heads])
          [0 ..< q_len]))))"

section \<open>The backend\<close>

definition torch_native_scale :: "numerics \<Rightarrow> nat \<Rightarrow> rat" where
  "torch_native_scale nm head_dim = nm_pow nm (of_nat head_dim) (- 1 / 2)"

text \<open>The loop over the requests, which takes its queries from the batch one request after another.\<close>

fun attend_requests ::
  "numerics \<Rightarrow> rat \<Rightarrow> nat \<Rightarrow> nat \<Rightarrow> mat list \<Rightarrow> mat list \<Rightarrow> slot list list \<Rightarrow> heap \<Rightarrow> rid list \<Rightarrow> mat list \<Rightarrow> nat \<Rightarrow>
   (mat list \<times> nat) res" where
  "attend_requests nm sc nq nkv k_flat v_flat table hp [] q q_offset = Inr ([], q_offset)"
| "attend_requests nm sc nq nkv k_flat v_flat table hp (r # reqs) q q_offset =
     (let q_req = slice q_offset (q_offset + q_len hp r) q in
      rbind (table_slice table (r_table_idx (hp ! r)) 0 (r_device_len (hp ! r))) (\<lambda>locations.
      rbind (index_select k_flat locations) (\<lambda>k_req.
      rbind (index_select v_flat locations) (\<lambda>v_req.
      rbind (torch_attention_for_request nm nq nkv q_req k_req v_req (r_cached_len (hp ! r)) sc) (\<lambda>out.
      rbind (attend_requests nm sc nq nkv k_flat v_flat table hp reqs q (q_offset + q_len hp r)) (\<lambda>(outs, q_offset).
      Inr (out @ outs, q_offset)))))))"

definition torch_native_forward ::
  "numerics \<Rightarrow> rat \<Rightarrow> nat \<Rightarrow> nat \<Rightarrow> slot list list \<Rightarrow> heap \<Rightarrow> rid list \<Rightarrow> slot list \<Rightarrow> mat list \<Rightarrow> mat list \<Rightarrow> mat list \<Rightarrow> nat \<Rightarrow>
   kv_pool \<Rightarrow> (mat list \<times> kv_pool) res" where
  "torch_native_forward nm sc nq nkv table hp padded_reqs out_loc q k v layer_id p =
     rbind (store_kv k v out_loc layer_id p) (\<lambda>p.
     rbind (k_cache p layer_id) (\<lambda>k_flat.
     rbind (v_cache p layer_id) (\<lambda>v_flat.
     rbind (attend_requests nm sc nq nkv k_flat v_flat table hp padded_reqs q 0) (\<lambda>(outputs, q_offset).
     if q_offset \<noteq> length q then Inl RuntimeError
     else if padded_reqs = [] then Inl RuntimeError
     else Inr (outputs, p)))))"

definition torch_native_prepare_metadata :: "heap \<Rightarrow> rid list \<Rightarrow> int list" where
  "torch_native_prepare_metadata hp padded_reqs = map (\<lambda>x. int x - 1) (prefix_sums 0 (map (q_len hp) padded_reqs))"

definition torch_native_get_last_indices :: "int list \<Rightarrow> nat \<Rightarrow> int list" where
  "torch_native_get_last_indices last_indices bs = take bs last_indices"

text \<open>Graphs are refused.\<close>

definition torch_native_init_capture_graph :: "int list \<Rightarrow> unit res" where
  "torch_native_init_capture_graph bs_list = (if bs_list \<noteq> [] then Inl RuntimeError else Inr ())"

definition torch_native_prepare_for_capture :: "batch \<Rightarrow> unit res" where
  "torch_native_prepare_for_capture b = Inl RuntimeError"

definition torch_native_prepare_for_replay :: "batch \<Rightarrow> unit res" where
  "torch_native_prepare_for_replay b = Inl RuntimeError"

section \<open>The attention layer\<close>

text \<open>The norms of queries and keys are pairs of weight and epsilon.\<close>

record attn_layer =
  al_layer_id :: nat
  al_head_dim :: nat
  al_num_qo_heads :: nat
  al_num_kv_heads :: nat
  al_rotary :: rotary
  al_q_norm :: "(vec \<times> rat) option"
  al_k_norm :: "(vec \<times> rat) option"

record rotary_config =
  rt_head_dim :: nat
  rt_rotary_dim :: nat
  rt_max_position :: nat
  rt_base :: rat
  rt_scaling :: "rope_scaling option"

definition new_attn_layer ::
  "numerics \<Rightarrow> torch_device \<Rightarrow> dist_info \<Rightarrow> nat \<Rightarrow> int \<Rightarrow> int \<Rightarrow> nat \<Rightarrow> rotary_config \<Rightarrow> (vec \<times> rat) option \<Rightarrow>
   (vec \<times> rat) option \<Rightarrow> rope_cache \<Rightarrow> (attn_layer \<times> rope_cache) res" where
  "new_attn_layer nm current tp layer_id num_qo_heads num_kv_heads head_dim rc q_norm k_norm ropes =
     (if num_kv_heads = 0 then Inl ZeroDivisionError
      else
        rbind (py_assert (num_qo_heads mod num_kv_heads = 0)) (\<lambda>_.
        rbind (div_even num_qo_heads (di_size tp) False) (\<lambda>nq.
        rbind (div_even num_kv_heads (di_size tp) True) (\<lambda>nkv.
        let sc = (if rt_scaling rc = Some [] then None else rt_scaling rc) in
        rbind (get_rope nm current (head_dim, rt_rotary_dim rc, rt_max_position rc, rt_base rc, sc) ropes) (\<lambda>(ro, ropes).
        Inr (\<lparr>al_layer_id = layer_id, al_head_dim = head_dim, al_num_qo_heads = nat nq, al_num_kv_heads = nat nkv,
              al_rotary = ro, al_q_norm = q_norm, al_k_norm = k_norm\<rparr>, ropes))))))"

definition split_heads :: "nat \<Rightarrow> nat \<Rightarrow> vec \<Rightarrow> mat" where
  "split_heads n d v = map (\<lambda>h. slice (h * d) ((h + 1) * d) v) [0 ..< n]"

definition norm_heads :: "kernels \<Rightarrow> numerics \<Rightarrow> (vec \<times> rat) option \<Rightarrow> mat list \<Rightarrow> mat list res" where
  "norm_heads kn nm nw x = (case nw of None \<Rightarrow> Inr x | Some (w, eps) \<Rightarrow> res_map (rmsnorm_forward kn nm w eps) x)"

text \<open>What comes before the backend: splitting, the norms in place, and the rotation.\<close>

definition attn_project ::
  "kernels \<Rightarrow> numerics \<Rightarrow> attn_layer \<Rightarrow> nat list \<Rightarrow> mat \<Rightarrow> (mat list \<times> mat list \<times> mat list) res" where
  "attn_project kn nm al positions qkv =
     (let d = al_head_dim al; nq = al_num_qo_heads al; nkv = al_num_kv_heads al;
          qo_attn_dim = nq * d; kv_attn_dim = nkv * d in
      if \<not> list_all (\<lambda>row. length row = qo_attn_dim + kv_attn_dim + kv_attn_dim) qkv then Inl RuntimeError
      else
        let q = map (\<lambda>row. split_heads nq d (take qo_attn_dim row)) qkv;
            k = map (\<lambda>row. split_heads nkv d (slice qo_attn_dim (qo_attn_dim + kv_attn_dim) row)) qkv;
            v = map (\<lambda>row. split_heads nkv d (drop (qo_attn_dim + kv_attn_dim) row)) qkv in
        rbind (norm_heads kn nm (al_q_norm al) q) (\<lambda>q.
        rbind (norm_heads kn nm (al_k_norm al) k) (\<lambda>k.
        rbind (rotary_forward kn (al_rotary al) positions q k) (\<lambda>(q, k).
        Inr (q, k, v)))))"

definition attn_layer_forward ::
  "kernels \<Rightarrow> numerics \<Rightarrow> rat \<Rightarrow> attn_layer \<Rightarrow> slot list list \<Rightarrow> heap \<Rightarrow> batch \<Rightarrow> mat \<Rightarrow> kv_pool \<Rightarrow> (mat \<times> kv_pool) res" where
  "attn_layer_forward kn nm sc al table hp b qkv p =
     (case (b_padded_reqs b, b_positions b, b_out_loc b) of
        (Some padded_reqs, Some positions, Some out_loc) \<Rightarrow>
          rbind (attn_project kn nm al positions qkv) (\<lambda>(q, k, v).
          rbind (torch_native_forward nm sc (al_num_qo_heads al) (al_num_kv_heads al) table hp padded_reqs out_loc q k v
                   (al_layer_id al) p) (\<lambda>(out, p).
          Inr (map concat out, p)))
      | _ \<Rightarrow> Inl AttributeError)"

end
