(* ===== verification/Models.thy ===== *)
theory Models
  imports Attention
begin

text \<open>
  \<^verbatim>\<open>models/utils.py\<close>, \<^verbatim>\<open>models/llama.py\<close>, \<^verbatim>\<open>qwen2.py\<close>, \<^verbatim>\<open>qwen3.py\<close>, \<^verbatim>\<open>qwen3_moe.py\<close>, \<^verbatim>\<open>mistral.py\<close> and
  \<^verbatim>\<open>layers/moe.py\<close>: the forward pass of a decoder over all ranks of a tensor parallel group at once. Each rank has its
  part of the weights and its own pool of keys and values; what is the same on all ranks is kept once. The models
  differ in the bias of the first projection, the norms of queries and keys, and the kind of MLP, all of which are in the weights.
\<close>

section \<open>Weights\<close>

record attn_weights =
  at_qkv :: "mat list"
  at_qkv_bias :: "vec list option"
  at_layer :: attn_layer
  at_o :: "mat list"

datatype mlp_weights =
    GatedMLP "mat list" "mat list" act
  | MoEMLP mat "mat list list" "mat list list" nat bool

record layer_weights =
  ly_attn :: attn_weights
  ly_mlp :: mlp_weights
  ly_input_norm :: "vec \<times> rat"
  ly_post_norm :: "vec \<times> rat"

record model_weights =
  md_vocabs :: "vocab list"
  md_embed :: "mat list"
  md_layers :: "layer_weights list"
  md_norm :: "vec \<times> rat"
  md_num_embeddings :: nat
  md_lm_head :: "mat list option"

section \<open>The blocks\<close>

definition fn_map :: "string \<Rightarrow> act res" where
  "fn_map hidden_act =
     (if hidden_act = ''silu'' then Inr Silu else if hidden_act = ''gelu'' then Inr Gelu else Inl ValueError)"

definition act_fn :: "act \<Rightarrow> kernels \<Rightarrow> numerics \<Rightarrow> tensor_meta \<Rightarrow> mat \<Rightarrow> mat res" where
  "act_fn a kn nm m xs = (case a of Silu \<Rightarrow> silu_and_mul kn nm m None xs | Gelu \<Rightarrow> gelu_and_mul kn nm m xs)"

definition gated_mlp_forward ::
  "kernels \<Rightarrow> numerics \<Rightarrow> mat list \<Rightarrow> mat list \<Rightarrow> act \<Rightarrow> mat \<Rightarrow> mat res" where
  "gated_mlp_forward kn nm gate_up_proj down_proj a x =
     rbind (res_map (\<lambda>(W, gate_up). act_fn a kn nm
              \<lparr>mt_shape = [length x, length W], mt_dtype = [], mt_device = kn_device kn\<rparr> gate_up)
            (zip gate_up_proj (col_forward gate_up_proj None x))) (\<lambda>ys.
     Inr (row_forward down_proj None ys))"

text \<open>\<^verbatim>\<open>MoELayer.forward\<close> on every rank, with the portable backend, and the sum over the ranks.\<close>

definition moe_layer_forward ::
  "numerics \<Rightarrow> mat list list \<Rightarrow> mat list list \<Rightarrow> nat \<Rightarrow> bool \<Rightarrow> mat \<Rightarrow> mat \<Rightarrow> mat res" where
  "moe_layer_forward nm gate_up_proj down_proj top_k renormalize hidden_states router_logits =
     rbind (res_map (\<lambda>(w1, w2). metax_forward (nm_act nm) (nm_softmax nm) (nm_topk nm) hidden_states w1 w2 router_logits
              top_k renormalize ''silu'' False) (zip gate_up_proj down_proj)) (\<lambda>final_hidden_states.
     Inr (if length gate_up_proj > 1 then all_reduce final_hidden_states else final_hidden_states ! 0))"

definition mlp_forward :: "kernels \<Rightarrow> numerics \<Rightarrow> mlp_weights \<Rightarrow> mat \<Rightarrow> mat res" where
  "mlp_forward kn nm m x = (case m of
      GatedMLP gate_up_proj down_proj a \<Rightarrow> gated_mlp_forward kn nm gate_up_proj down_proj a x
    | MoEMLP gate gate_up_proj down_proj top_k renormalize \<Rightarrow>
        let router_logits = linear gate None x
        in moe_layer_forward nm gate_up_proj down_proj top_k renormalize x router_logits)"

definition rope_attn_forward ::
  "kernels \<Rightarrow> numerics \<Rightarrow> rat \<Rightarrow> attn_weights \<Rightarrow> slot list list \<Rightarrow> heap \<Rightarrow> batch \<Rightarrow> mat \<Rightarrow> kv_pool list \<Rightarrow>
   (mat \<times> kv_pool list) res" where
  "rope_attn_forward kn nm sc w table hp b x pools =
     rbind (res_map (\<lambda>(qkv, p). attn_layer_forward kn nm sc (at_layer w) table hp b qkv p)
              (zip (col_forward (at_qkv w) (at_qkv_bias w) x) pools)) (\<lambda>os.
     Inr (row_forward (at_o w) None (map fst os), map snd os))"

section \<open>The model\<close>

definition decoder_layer_forward ::
  "kernels \<Rightarrow> numerics \<Rightarrow> rat \<Rightarrow> slot list list \<Rightarrow> heap \<Rightarrow> batch \<Rightarrow> layer_weights \<Rightarrow>
   (mat \<times> mat option) \<times> kv_pool list \<Rightarrow> ((mat \<times> mat option) \<times> kv_pool list) res" where
  "decoder_layer_forward kn nm sc table hp b w st = (case st of ((x, residual), pools) \<Rightarrow>
     rbind (rmsnorm_fused_forward kn nm (fst (ly_input_norm w)) (snd (ly_input_norm w)) x residual) (\<lambda>(x, residual).
     rbind (rope_attn_forward kn nm sc (ly_attn w) table hp b x pools) (\<lambda>(x, pools).
     rbind (rmsnorm_fused_forward kn nm (fst (ly_post_norm w)) (snd (ly_post_norm w)) x (Some residual)) (\<lambda>(x, residual).
     rbind (mlp_forward kn nm (ly_mlp w) x) (\<lambda>x.
     Inr ((x, Some residual), pools))))))"

definition model_forward ::
  "kernels \<Rightarrow> numerics \<Rightarrow> rat \<Rightarrow> model_weights \<Rightarrow> slot list list \<Rightarrow> heap \<Rightarrow> batch \<Rightarrow> tok list \<Rightarrow> kv_pool list \<Rightarrow>
   (mat \<times> kv_pool list) res" where
  "model_forward kn nm sc w table hp b input_ids pools =
     rbind (embedding_forward (md_vocabs w) (md_embed w) input_ids) (\<lambda>x.
     rbind (res_fold (decoder_layer_forward kn nm sc table hp b) (md_layers w) ((x, None), pools)) (\<lambda>((x, residual), pools).
     rbind (rmsnorm_fused_forward kn nm (fst (md_norm w)) (snd (md_norm w)) x residual) (\<lambda>(x, _).
     Inr (x, pools))))"

text \<open>A tied output head uses the table of the embedding.\<close>

definition head_weight :: "model_weights \<Rightarrow> mat list" where
  "head_weight w = (case md_lm_head w of None \<Rightarrow> md_embed w | Some W \<Rightarrow> W)"

definition causal_lm_forward ::
  "kernels \<Rightarrow> numerics \<Rightarrow> rat \<Rightarrow> model_weights \<Rightarrow> slot list list \<Rightarrow> heap \<Rightarrow> batch \<Rightarrow> kv_pool list \<Rightarrow> (mat \<times> kv_pool list) res" where
  "causal_lm_forward kn nm sc w table hp b pools = (case (b_input_ids b, b_padded_reqs b) of
      (Some input_ids, Some padded_reqs) \<Rightarrow>
        rbind (model_forward kn nm sc w table hp b input_ids pools) (\<lambda>(output, pools).
        let indices = torch_native_get_last_indices (torch_native_prepare_metadata hp padded_reqs) (batch_size b) in
        rbind (select_last (is_prefill b) indices output) (\<lambda>x.
        Inr (lm_head_forward (batch_size b) (md_num_embeddings w) (head_weight w) None x, pools)))
    | _ \<Rightarrow> Inl AttributeError)"

end
