(* ===== verification/Rowwise.thy ===== *)
theory Rowwise
  imports Models
begin

text \<open>
  A batch holds the last tokens of several sequences, one after another. Everything a layer does except
  attention treats each token by itself: \<open>rowwise\<close> names this, and the lemmas carry it from the
  parts to the whole, so that what a layer does to a batch follows from what it does to each whole sequence.
\<close>

section \<open>The tokens of a batch\<close>

definition tails :: "('r \<Rightarrow> nat) \<Rightarrow> ('r \<Rightarrow> 'a list) \<Rightarrow> 'r list \<Rightarrow> 'a list" where
  "tails c X rs = concat (map (\<lambda>r. drop (c r) (X r)) rs)"

lemma tails_simps [simp]: "tails c X [] = []" "tails c X (r # rs) = drop (c r) (X r) @ tails c X rs"
  by (simp_all add: tails_def)

lemma tails_map: "map f (tails c X rs) = tails c (\<lambda>r. map f (X r)) rs"
  by (induction rs) (auto simp: drop_map)

lemma tails_zip:
  "(\<And>r. r \<in> set rs \<Longrightarrow> length (X r) = length (Y r)) \<Longrightarrow> zip (tails c X rs) (tails c Y rs) = tails c (\<lambda>r. zip (X r) (Y r)) rs"
  by (induction rs) (auto simp: drop_zip)

lemma tails_cong: "(\<And>r. r \<in> set rs \<Longrightarrow> X r = Y r) \<Longrightarrow> tails c X rs = tails c Y rs"
  by (induction rs) auto

lemma length_tails: "length (tails c X rs) = sum_list (map (\<lambda>r. length (X r) - c r) rs)"
  by (induction rs) auto

section \<open>Functions that act on each row\<close>

definition rowwise :: "('a list \<Rightarrow> 'b list res) \<Rightarrow> bool" where
  "rowwise f \<longleftrightarrow> (\<exists>g. \<forall>xs ys. f xs = Inr ys \<longleftrightarrow> res_map g xs = Inr ys) \<or> (\<forall>xs ys. f xs \<noteq> Inr ys)"

named_theorems rows "functions that act on each row"

lemma rowwise_eq: "rowwise g \<Longrightarrow> (\<And>xs. f xs = g xs) \<Longrightarrow> rowwise f"
  unfolding rowwise_def by simp

lemma rowwise_res_map [rows]: "rowwise (res_map g)"
  unfolding rowwise_def by blast

lemma rowwise_map [rows]: "rowwise (\<lambda>xs. Inr (map f xs))"
  unfolding rowwise_def
proof (intro disjI1 exI allI)
  show "(Inr (map f xs) = Inr ys) = (res_map (\<lambda>x. Inr (f x)) xs = Inr ys)" for xs ys
    using res_map_total [of xs "\<lambda>x. Inr (f x)" f] by auto
qed

lemma rowwise_error [rows]: "rowwise (\<lambda>xs. Inl e)"
  unfolding rowwise_def by simp

lemma res_map_kleisli:
  "res_map (\<lambda>x. rbind (f x) g) xs = Inr zs \<longleftrightarrow> (\<exists>ys. res_map f xs = Inr ys \<and> res_map g ys = Inr zs)"
proof (induction xs arbitrary: zs)
  case (Cons x xs)
  show ?case
  proof
    assume "res_map (\<lambda>x. rbind (f x) g) (x # xs) = Inr zs"
    then obtain y z zs' where "f x = Inr y" "g y = Inr z" "res_map (\<lambda>x. rbind (f x) g) xs = Inr zs'" "zs = z # zs'"
      by (auto simp: rbind_eq_Inr)
    then show "\<exists>ys. res_map f (x # xs) = Inr ys \<and> res_map g ys = Inr zs" using Cons.IH by fastforce
  next
    assume "\<exists>ys. res_map f (x # xs) = Inr ys \<and> res_map g ys = Inr zs"
    then show "res_map (\<lambda>x. rbind (f x) g) (x # xs) = Inr zs" using Cons.IH by (auto simp: rbind_eq_Inr)
  qed
qed auto

lemma rowwise_bind [rows]:
  assumes "rowwise f" and "rowwise g"
  shows "rowwise (\<lambda>xs. rbind (f xs) g)"
proof -
  consider (both) f' g' where "\<forall>xs ys. f xs = Inr ys \<longleftrightarrow> res_map f' xs = Inr ys"
      "\<forall>xs ys. g xs = Inr ys \<longleftrightarrow> res_map g' xs = Inr ys" |
    (none) "\<forall>xs ys. rbind (f xs) g \<noteq> Inr ys"
    using assms unfolding rowwise_def by (fastforce simp: rbind_eq_Inr)
  then show ?thesis
  proof cases
    case both
    then have "rbind (f xs) g = Inr ys \<longleftrightarrow> res_map (\<lambda>x. rbind (f' x) g') xs = Inr ys" for xs ys
      by (auto simp: rbind_eq_Inr res_map_kleisli)
    then show ?thesis unfolding rowwise_def by blast
  next
    case none
    then show ?thesis unfolding rowwise_def by blast
  qed
qed

lemma res_map_pair:
  "res_map (\<lambda>x. rbind (f x) (\<lambda>y. rbind (g x) (\<lambda>z. Inr (y, z)))) xs = Inr ws \<longleftrightarrow>
     (\<exists>ys zs. res_map f xs = Inr ys \<and> res_map g xs = Inr zs \<and> ws = zip ys zs)"
proof (induction xs arbitrary: ws)
  case (Cons x xs)
  show ?case by (auto simp: rbind_eq_Inr Cons.IH)
qed auto

lemma rowwise_pair [rows]:
  assumes "rowwise f" and "rowwise g"
  shows "rowwise (\<lambda>xs. rbind (f xs) (\<lambda>ys. rbind (g xs) (\<lambda>zs. Inr (zip ys zs))))"
proof -
  consider (both) f' g' where "\<forall>xs ys. f xs = Inr ys \<longleftrightarrow> res_map f' xs = Inr ys"
      "\<forall>xs ys. g xs = Inr ys \<longleftrightarrow> res_map g' xs = Inr ys" |
    (none) "\<forall>xs ws. rbind (f xs) (\<lambda>ys. rbind (g xs) (\<lambda>zs. Inr (zip ys zs))) \<noteq> Inr ws"
    using assms unfolding rowwise_def by (fastforce simp: rbind_eq_Inr)
  then show ?thesis
  proof cases
    case both
    then have "rbind (f xs) (\<lambda>ys. rbind (g xs) (\<lambda>zs. Inr (zip ys zs))) = Inr ws \<longleftrightarrow>
        res_map (\<lambda>x. rbind (f' x) (\<lambda>y. rbind (g' x) (\<lambda>z. Inr (y, z)))) xs = Inr ws" for xs ws
      by (auto simp: rbind_eq_Inr res_map_pair)
    then show ?thesis unfolding rowwise_def by blast
  next
    case none
    then show ?thesis unfolding rowwise_def by blast
  qed
qed

lemma res_map_append:
  "res_map f (xs @ ys) = Inr zs \<longleftrightarrow> (\<exists>as bs. res_map f xs = Inr as \<and> res_map f ys = Inr bs \<and> zs = as @ bs)"
proof (induction xs arbitrary: zs)
  case (Cons x xs)
  show ?case by (auto simp: rbind_eq_Inr Cons.IH)
qed simp

lemma res_map_take_drop:
  assumes "res_map f xs = Inr ys"
  shows "res_map f (take n xs) = Inr (take n ys)" and "res_map f (drop n xs) = Inr (drop n ys)"
proof -
  have "res_map f (take n xs @ drop n xs) = Inr ys" using assms by simp
  then obtain as bs where split: "res_map f (take n xs) = Inr as" "res_map f (drop n xs) = Inr bs" "ys = as @ bs"
    unfolding res_map_append by blast
  moreover have "length as = min n (length ys)"
    using length_res_map [OF split(1)] length_res_map [OF assms] by (simp add: min.commute)
  ultimately show "res_map f (take n xs) = Inr (take n ys)" "res_map f (drop n xs) = Inr (drop n ys)" by (auto simp: min_def split: if_splits)
qed

lemma rowwise_take: "rowwise f \<Longrightarrow> f xs = Inr ys \<Longrightarrow> f (take n xs) = Inr (take n ys)"
  unfolding rowwise_def using res_map_take_drop(1) by blast

lemma rowwise_length: "rowwise f \<Longrightarrow> f xs = Inr ys \<Longrightarrow> length ys = length xs"
  unfolding rowwise_def using length_res_map by blast

lemma res_map_in: "res_map f xs = Inr ys \<Longrightarrow> y \<in> set ys \<Longrightarrow> \<exists>x\<in>set xs. f x = Inr y"
  by (induction xs arbitrary: ys) (auto simp: rbind_eq_Inr)

lemma res_map_tails:
  "(\<And>r. r \<in> set rs \<Longrightarrow> res_map f (X r) = Inr (Y r)) \<Longrightarrow> res_map f (tails c X rs) = Inr (tails c Y rs)"
proof (induction rs)
  case (Cons r rs)
  then show ?case using res_map_take_drop(2) [of f "X r" "Y r" "c r"] by (auto simp: res_map_append)
qed simp

text \<open>The batch of tails is treated as the sequences are.\<close>

lemma rowwise_tails:
  assumes "rowwise f" and "\<And>r. r \<in> set rs \<Longrightarrow> f (X r) = Inr (Y r)" and "rs \<noteq> []"
  shows "f (tails c X rs) = Inr (tails c Y rs)"
proof -
  have "\<exists>xs ys. f xs = Inr ys" using assms(2,3) by (cases rs) auto
  then obtain g where g: "\<forall>xs ys. f xs = Inr ys \<longleftrightarrow> res_map g xs = Inr ys"
    using assms(1) unfolding rowwise_def by blast
  then have "res_map g (X r) = Inr (Y r)" if "r \<in> set rs" for r using assms(2) [OF that] by simp
  then show ?thesis using res_map_tails [of rs g X Y c] g by blast
qed

section \<open>Rows over all ranks\<close>

text \<open>What the ranks hold for one token, as a list over the ranks.\<close>

definition by_token :: "nat \<Rightarrow> 'a list list \<Rightarrow> 'a list list" where
  "by_token n xss = map (\<lambda>t. map (\<lambda>xs. xs ! t) xss) [0 ..< n]"

lemma by_token_Nil: "by_token n [] = replicate n []"
  by (auto simp: by_token_def intro: nth_equalityI)

lemma by_token_Cons: "length xs = n \<Longrightarrow> by_token n (xs # xss) = map2 (#) xs (by_token n xss)"
  by (auto simp: by_token_def intro: nth_equalityI)

lemma length_by_token [simp]: "length (by_token n xss) = n"
  by (simp add: by_token_def)

lemma by_token_map: "(\<And>xs. xs \<in> set xss \<Longrightarrow> length xs = n) \<Longrightarrow> m \<le> n \<Longrightarrow> by_token m (map (take m) xss) = take m (by_token n xss)"
  by (auto simp: by_token_def intro!: nth_equalityI)

lemma by_token_tails:
  assumes "\<And>r k. r \<in> set rs \<Longrightarrow> k \<in> set ks \<Longrightarrow> length (X k r) = n r"
  shows "by_token (sum_list (map (\<lambda>r. n r - c r) rs)) (map (\<lambda>k. tails c (X k) rs) ks) =
    tails c (\<lambda>r. by_token (n r) (map (\<lambda>k. X k r) ks)) rs"
  using assms
proof (induction ks)
  case Nil
  have "drop a (replicate b x) = replicate (b - a) x" for a b and x :: "'c list" by (rule drop_replicate)
  then show ?case by (induction rs) (auto simp: by_token_Nil replicate_add)
next
  case (Cons k ks)
  have "length (tails c (X k) rs) = sum_list (map (\<lambda>r. n r - c r) rs)"
    using Cons.prems by (simp add: length_tails cong: map_cong)
  then have "by_token (sum_list (map (\<lambda>r. n r - c r) rs)) (map (\<lambda>k. tails c (X k) rs) (k # ks)) =
      map2 (#) (tails c (X k) rs) (tails c (\<lambda>r. by_token (n r) (map (\<lambda>k. X k r) ks)) rs)"
    using Cons by (simp add: by_token_Cons)
  also have "\<dots> = tails c (\<lambda>r. map2 (#) (X k r) (by_token (n r) (map (\<lambda>k. X k r) ks))) rs"
    using Cons.prems by (simp add: tails_zip tails_map)
  also have "\<dots> = tails c (\<lambda>r. by_token (n r) (map (\<lambda>k. X k r) (k # ks))) rs"
    using Cons.prems by (intro tails_cong) (simp add: by_token_Cons)
  finally show ?case .
qed

lemma rowwise_ranks [rows]:
  assumes "\<And>k. k \<in> set ks \<Longrightarrow> rowwise (F k)"
  shows "rowwise (\<lambda>xs. rbind (res_map (\<lambda>k. F k xs) ks) (\<lambda>yss. Inr (by_token (length xs) yss)))"
  using assms
proof (induction ks)
  case Nil
  have "(\<lambda>xs. rbind (res_map (\<lambda>k. F k xs) []) (\<lambda>yss. Inr (by_token (length xs) yss))) = (\<lambda>xs. Inr (map (\<lambda>_. []) xs))"
    by (simp add: by_token_Nil fun_eq_iff map_replicate_const)
  then show ?case using rowwise_map [of "\<lambda>_. []"] by simp
next
  case (Cons k ks)
  let ?G = "\<lambda>xs. rbind (res_map (\<lambda>k. F k xs) ks) (\<lambda>yss. Inr (by_token (length xs) yss))"
  let ?P = "\<lambda>xs. rbind (rbind (F k xs) (\<lambda>ys. rbind (?G xs) (\<lambda>zs. Inr (zip ys zs)))) (\<lambda>ps. Inr (map (\<lambda>(y, z). y # z) ps))"
  have "rowwise ?P" using Cons by (intro rows) auto
  moreover have "rbind (res_map (\<lambda>k. F k xs) (k # ks)) (\<lambda>yss. Inr (by_token (length xs) yss)) = ?P xs" for xs
    using rowwise_length [of "F k" xs] Cons.prems
    by (cases "F k xs"; cases "res_map (\<lambda>k. F k xs) ks") (auto simp: by_token_Cons)
  ultimately show ?case by simp
qed

end
