(* ===== verification/LayerRows.thy ===== *)
theory LayerRows
  imports Rowwise
begin

text \<open>
  The parts of a decoder layer that treat each token by itself: the sum over the ranks, the gated MLP, the mixture of
  experts, the embedding, and what the attention layer does before it calls the backend.
\<close>

section \<open>Sums over the ranks\<close>

fun vreduce :: "vec list \<Rightarrow> vec" where
  "vreduce [] = []"
| "vreduce [v] = v"
| "vreduce (v # vs) = vadd v (vreduce vs)"

definition combine :: "mat list \<Rightarrow> mat" where
  "combine ys = (if length ys > 1 then all_reduce ys else ys ! 0)"

lemma all_reduce_by_token:
  "ys \<noteq> [] \<Longrightarrow> (\<And>y. y \<in> set ys \<Longrightarrow> length y = n) \<Longrightarrow> all_reduce ys = map vreduce (by_token n ys)"
proof (induction ys rule: induct_list012)
  case (2 y)
  then show ?case by (auto simp: by_token_def intro!: nth_equalityI)
next
  case (3 y y' ys)
  have len: "length y = n" and IH: "all_reduce (y' # ys) = map vreduce (by_token n (y' # ys))" using 3 by auto
  have "all_reduce (y # y' # ys) = map2 vadd y (map vreduce (by_token n (y' # ys)))" using IH by simp
  also have "\<dots> = map vreduce (map2 (#) y (by_token n (y' # ys)))"
    using len by (auto simp: by_token_def intro!: nth_equalityI)
  finally show ?case using len by (simp add: by_token_Cons)
qed simp

lemma combine_by_token:
  assumes "ys \<noteq> []" and "\<And>y. y \<in> set ys \<Longrightarrow> length y = n"
  shows "combine ys = map vreduce (by_token n ys)"
proof -
  have "combine ys = all_reduce ys" using assms(1) by (cases ys rule: all_reduce.cases) (auto simp: combine_def)
  then show ?thesis using all_reduce_by_token [OF assms] by simp
qed

definition row_sum :: "mat list \<Rightarrow> vec option \<Rightarrow> vec list \<Rightarrow> vec" where
  "row_sum Ws b z = vreduce (map2 (\<lambda>W x. linear_row W b x) Ws z)"

lemma row_forward_rows:
  assumes "Ws \<noteq> []" and "length xss = length Ws" and "\<And>xs. xs \<in> set xss \<Longrightarrow> length xs = n"
  shows "row_forward Ws b xss = map (row_sum Ws b) (by_token n xss)"
proof -
  let ?ys = "map (\<lambda>r. linear (Ws ! r) b (xss ! r)) [0 ..< length Ws]"
  have "row_forward Ws b xss = combine ?ys" by (simp add: row_forward_def combine_def Let_def)
  also have "\<dots> = map vreduce (by_token n ?ys)"
    using assms by (intro combine_by_token) (auto simp: linear_def)
  also have "\<dots> = map (row_sum Ws b) (by_token n xss)"
  proof -
    have "map (\<lambda>y. y ! t) ?ys = map2 (\<lambda>W x. linear_row W b x) Ws (map (\<lambda>xs. xs ! t) xss)" if "t < n" for t
      using that assms by (auto simp: linear_def intro!: nth_equalityI)
    then show ?thesis by (auto simp: by_token_def row_sum_def)
  qed
  finally show ?thesis .
qed

section \<open>The MLPs\<close>

lemma col_forward_None: "col_forward Ws None xs = map (\<lambda>W. linear W None xs) Ws"
  by (auto simp: col_forward_def intro!: nth_equalityI)

lemma rowwise_act [rows]: "rowwise (\<lambda>xs. act_fn a kn nm \<lparr>mt_shape = [length xs, w], mt_dtype = dt, mt_device = dv\<rparr> xs)"
proof -
  have fn: "(\<lambda>xs. act_fn a kn nm \<lparr>mt_shape = [length xs, w], mt_dtype = dt, mt_device = dv\<rparr> xs) =
      (if w mod 2 \<noteq> 0 then (\<lambda>xs. Inl ValueError)
       else if use_flashinfer kn then (case (case a of Silu \<Rightarrow> kn_silu_and_mul kn | Gelu \<Rightarrow> kn_gelu_and_mul kn) of
           None \<Rightarrow> (\<lambda>xs. Inl (case a of Silu \<Rightarrow> RuntimeError | Gelu \<Rightarrow> ImportError)) | Some k \<Rightarrow> (\<lambda>xs. Inr (map k xs)))
       else (\<lambda>xs. Inr (map (gate_times_up (nm_act nm a)) xs)))"
    by (auto simp: fun_eq_iff act_fn_def silu_and_mul_def gelu_and_mul_def load_flashinfer_def split: act.splits option.splits)
  show ?thesis unfolding fn by (auto intro: rows split: option.split)
qed

lemma rowwise_linear_act: "rowwise (\<lambda>xs. act_fn a kn nm \<lparr>mt_shape = [length xs, w], mt_dtype = dt, mt_device = dv\<rparr> (linear W None xs))"
proof -
  have "rowwise (\<lambda>xs. rbind (Inr (map (linear_row W None) xs))
      (\<lambda>ys. act_fn a kn nm \<lparr>mt_shape = [length ys, w], mt_dtype = dt, mt_device = dv\<rparr> ys))" by (intro rows)
  then show ?thesis by (simp add: linear_def)
qed

lemma rowwise_gated_mlp:
  assumes "down \<noteq> []" and "length gate_up = length down"
  shows "rowwise (gated_mlp_forward kn nm gate_up down a)"
proof -
  let ?F = "\<lambda>W xs. act_fn a kn nm \<lparr>mt_shape = [length xs, length W], mt_dtype = [], mt_device = kn_device kn\<rparr> (linear W None xs)"
  let ?G = "\<lambda>xs. rbind (rbind (res_map (\<lambda>W. ?F W xs) gate_up) (\<lambda>yss. Inr (by_token (length xs) yss)))
      (\<lambda>zs. Inr (map (row_sum down None) zs))"
  have "rowwise ?G" by (intro rows rowwise_linear_act)
  moreover have "gated_mlp_forward kn nm gate_up down a xs = ?G xs" for xs
  proof -
    have eq: "gated_mlp_forward kn nm gate_up down a xs =
        rbind (res_map (\<lambda>W. ?F W xs) gate_up) (\<lambda>ys. Inr (row_forward down None ys))"
      by (simp add: gated_mlp_forward_def col_forward_None zip_map2 zip_same_conv_map res_map_map comp_def)
    have len: "length ys = length xs" if "res_map (\<lambda>W. ?F W xs) gate_up = Inr yss" "ys \<in> set yss" for ys yss
      using that
    proof (induction gate_up arbitrary: yss)
      case (Cons W Ws)
      then show ?case using rowwise_length [OF rowwise_linear_act] by (fastforce simp: rbind_eq_Inr)
    qed simp
    show ?thesis
    proof (cases "res_map (\<lambda>W. ?F W xs) gate_up")
      case (Inr yss)
      have "row_forward down None yss = map (row_sum down None) (by_token (length xs) yss)"
        using assms length_res_map [OF Inr] len [OF Inr] by (intro row_forward_rows) auto
      then show ?thesis unfolding eq Inr by simp
    qed (simp add: eq)
  qed
  ultimately show ?thesis by (rule rowwise_eq)
qed

section \<open>Mixture of experts\<close>

lemma res_map_zip_kleisli:
  "length as = length xs \<Longrightarrow> res_map (\<lambda>(a, x). rbind (f a x) (\<lambda>b. g b x)) (zip as xs) = Inr zs \<longleftrightarrow>
     (\<exists>bs. res_map (\<lambda>(a, x). f a x) (zip as xs) = Inr bs \<and> res_map (\<lambda>(b, x). g b x) (zip bs xs) = Inr zs)"
proof (induction as xs arbitrary: zs rule: list_induct2)
  case (Cons a as x xs)
  show ?case
  proof
    assume "res_map (\<lambda>(a, x). rbind (f a x) (\<lambda>b. g b x)) (zip (a # as) (x # xs)) = Inr zs"
    then obtain b z zs' where "f a x = Inr b" "g b x = Inr z" "zs = z # zs'"
      "res_map (\<lambda>(a, x). rbind (f a x) (\<lambda>b. g b x)) (zip as xs) = Inr zs'" by (auto simp: rbind_eq_Inr)
    moreover from this obtain bs where "res_map (\<lambda>(a, x). f a x) (zip as xs) = Inr bs"
      "res_map (\<lambda>(b, x). g b x) (zip bs xs) = Inr zs'" using Cons.IH by auto
    ultimately show "\<exists>bs. res_map (\<lambda>(a, x). f a x) (zip (a # as) (x # xs)) = Inr bs \<and>
        res_map (\<lambda>(b, x). g b x) (zip bs (x # xs)) = Inr zs" by (intro exI [of _ "b # bs"]) simp
  next
    assume "\<exists>bs. res_map (\<lambda>(a, x). f a x) (zip (a # as) (x # xs)) = Inr bs \<and>
        res_map (\<lambda>(b, x). g b x) (zip bs (x # xs)) = Inr zs"
    then show "res_map (\<lambda>(a, x). rbind (f a x) (\<lambda>b. g b x)) (zip (a # as) (x # xs)) = Inr zs"
      using Cons.IH by (auto simp: rbind_eq_Inr)
  qed
qed auto

lemma metax_expert_rows:
  assumes "length as = length hs"
  shows "metax_expert fn act oi hs (map ids hs) (map ws hs) (e, w1, w2) as =
     res_map (\<lambda>(a, x). metax_token fn act oi w1 w2 e (ids x) (ws x) x a) (zip as hs)"
proof -
  let ?g = "\<lambda>(acc, ids, ws, x). metax_token fn act oi w1 w2 e ids ws x acc"
  have "zip as (zip (map ids hs) (zip (map ws hs) hs)) = map (\<lambda>(a, x). (a, ids x, ws x, x)) (zip as hs)"
    using assms by (auto intro!: nth_equalityI)
  then have rows: "res_map ?g (zip as (zip (map ids hs) (zip (map ws hs) hs))) =
      res_map (\<lambda>(a, x). metax_token fn act oi w1 w2 e (ids x) (ws x) x a) (zip as hs)"
    by (simp add: res_map_map comp_def case_prod_unfold)
  show ?thesis
  proof (cases "list_ex (\<lambda>ids. e \<in> set ids) (map ids hs)")
    case False
    then have "res_map (\<lambda>(a, x). metax_token fn act oi w1 w2 e (ids x) (ws x) x a) (zip as hs) = Inr (map fst (zip as hs))"
      by (intro res_map_total) (auto simp: metax_token_def list_ex_iff dest!: set_zip_rightD)
    then show ?thesis using False assms by (simp add: metax_expert_def)
  qed (simp add: metax_expert_def rows)
qed

lemma metax_fold_rows:
  "length as = length hs \<Longrightarrow> res_fold (metax_expert fn act oi hs (map ids hs) (map ws hs)) es as = Inr zs \<longleftrightarrow>
     res_map (\<lambda>(a, x). res_fold (\<lambda>(e, w1, w2) a. metax_token fn act oi w1 w2 e (ids x) (ws x) x a) es a) (zip as hs) = Inr zs"
proof (induction es arbitrary: as)
  case Nil
  have "res_map (\<lambda>(a, x). Inr a) (zip as hs) = Inr (map fst (zip as hs))" by (intro res_map_total) auto
  then show ?case using Nil by simp
next
  case (Cons ew es)
  obtain e w1 w2 where ew: "ew = (e, w1, w2)" by (cases ew)
  let ?f = "\<lambda>a x. metax_token fn act oi w1 w2 e (ids x) (ws x) x a"
  let ?g = "\<lambda>a x. res_fold (\<lambda>(e, w1, w2) a. metax_token fn act oi w1 w2 e (ids x) (ws x) x a) es a"
  have "res_fold (metax_expert fn act oi hs (map ids hs) (map ws hs)) (ew # es) as = Inr zs \<longleftrightarrow>
      (\<exists>bs. res_map (\<lambda>(a, x). ?f a x) (zip as hs) = Inr bs \<and>
        res_fold (metax_expert fn act oi hs (map ids hs) (map ws hs)) es bs = Inr zs)"
    using metax_expert_rows [OF Cons.prems] by (simp add: ew rbind_eq_Inr)
  also have "\<dots> \<longleftrightarrow> (\<exists>bs. res_map (\<lambda>(a, x). ?f a x) (zip as hs) = Inr bs \<and> res_map (\<lambda>(b, x). ?g b x) (zip bs hs) = Inr zs)"
    using Cons.IH Cons.prems length_res_map by fastforce
  also have "\<dots> \<longleftrightarrow> res_map (\<lambda>(a, x). rbind (?f a x) (\<lambda>b. ?g b x)) (zip as hs) = Inr zs"
    using res_map_zip_kleisli [OF Cons.prems, of ?f ?g zs] by simp
  finally show ?case by (simp add: ew)
qed

lemma rowwise_metax:
  "rowwise (\<lambda>hs. metax_forward fn softmax topk hs w1 w2 (linear gate None hs) k renormalize act oi)"
proof -
  define pick where "pick = (\<lambda>x. topk k (softmax (linear_row gate None x)))"
  define ws where "ws = (\<lambda>x. (if renormalize then renorm (fst (pick x)) else fst (pick x)))"
  let ?es = "zip [0 ..< length w1] (zip w1 w2)"
  let ?g = "\<lambda>x. res_fold (\<lambda>(e, w1, w2) a. metax_token fn act oi w1 w2 e (snd (pick x)) (ws x) x a) ?es (replicate (length x) 0)"
  have "metax_forward fn softmax topk hs w1 w2 (linear gate None hs) k renormalize act oi = Inr zs \<longleftrightarrow> res_map ?g hs = Inr zs" for hs zs
  proof -
    have "metax_forward fn softmax topk hs w1 w2 (linear gate None hs) k renormalize act oi =
        res_fold (metax_expert fn act oi hs (map (\<lambda>x. snd (pick x)) hs) (map ws hs)) ?es (map (\<lambda>x. replicate (length x) 0) hs)"
      by (simp add: metax_forward_def pt_topk_softmax_def linear_def pick_def ws_def comp_def Let_def)
    also have "\<dots> = Inr zs \<longleftrightarrow> res_map ?g hs = Inr zs"
      by (subst metax_fold_rows) (simp_all add: zip_map1 zip_same_conv_map res_map_map comp_def)
    finally show ?thesis .
  qed
  then show ?thesis unfolding rowwise_def by blast
qed

lemma ranks_combine:
  assumes "\<And>k. k \<in> set ks \<Longrightarrow> rowwise (F k)" and "ks \<noteq> []"
  shows "rowwise (\<lambda>xs. rbind (res_map (\<lambda>k. F k xs) ks) (\<lambda>yss. Inr (combine yss)))"
proof -
  let ?G = "\<lambda>xs. rbind (rbind (res_map (\<lambda>k. F k xs) ks) (\<lambda>yss. Inr (by_token (length xs) yss))) (\<lambda>zs. Inr (map vreduce zs))"
  have "rowwise ?G" by (intro rows assms(1))
  moreover have "rbind (res_map (\<lambda>k. F k xs) ks) (\<lambda>yss. Inr (combine yss)) = ?G xs" for xs
  proof (cases "res_map (\<lambda>k. F k xs) ks")
    case (Inr yss)
    have "length ys = length xs" if "ys \<in> set yss" for ys
      using that Inr assms(1)
    proof (induction ks arbitrary: yss)
      case (Cons k ks)
      then show ?case using rowwise_length [of "F k" xs] by (fastforce simp: rbind_eq_Inr)
    qed simp
    moreover have "yss \<noteq> []" using Inr assms(2) length_res_map by fastforce
    ultimately show ?thesis using Inr by (simp add: combine_by_token)
  qed simp
  ultimately show ?thesis by simp
qed

lemma rowwise_mlp:
  assumes "case m of GatedMLP gu down a \<Rightarrow> down \<noteq> [] \<and> length gu = length down
      | MoEMLP g w1s w2s k ren \<Rightarrow> w1s \<noteq> [] \<and> length w1s = length w2s"
  shows "rowwise (mlp_forward kn nm m)"
proof (cases m)
  case (GatedMLP gu down a)
  then have "mlp_forward kn nm m = gated_mlp_forward kn nm gu down a" by (simp add: fun_eq_iff mlp_forward_def)
  then show ?thesis using assms GatedMLP by (simp add: rowwise_gated_mlp)
next
  case (MoEMLP g w1s w2s k ren)
  let ?F = "\<lambda>(w1, w2) x. metax_forward (nm_act nm) (nm_softmax nm) (nm_topk nm) x w1 w2 (linear g None x) k ren ''silu'' False"
  have "rowwise (\<lambda>xs. rbind (res_map (\<lambda>w. ?F w xs) (zip w1s w2s)) (\<lambda>yss. Inr (combine yss)))"
    using assms MoEMLP by (intro ranks_combine) (auto intro: rowwise_metax)
  moreover have "mlp_forward kn nm m x = rbind (res_map (\<lambda>w. ?F w x) (zip w1s w2s)) (\<lambda>yss. Inr (combine yss))" for x
    using assms MoEMLP
    by (cases "res_map (\<lambda>w. ?F w x) (zip w1s w2s)")
      (auto simp: mlp_forward_def moe_layer_forward_def combine_def case_prod_unfold dest: length_res_map)
  ultimately show ?thesis by (rule rowwise_eq)
qed

section \<open>The embedding\<close>

lemma rowwise_embedding:
  assumes "vs \<noteq> []" and "length Ws = length vs"
  shows "rowwise (embedding_forward vs Ws)"
proof -
  let ?F = "\<lambda>k xs. case k of (v, W) \<Rightarrow> embedding_local v W xs"
  have "rowwise (embedding_local v W)" for v W
    unfolding embedding_local_def by (cases "vo_tp_size v = 1") (simp_all add: rowwise_res_map)
  then have "rowwise (?F k)" for k by (cases k) (simp add: fun_eq_iff)
  then have "rowwise (\<lambda>xs. rbind (res_map (\<lambda>k. ?F k xs) (zip vs Ws)) (\<lambda>yss. Inr (combine yss)))"
    using assms by (intro ranks_combine) auto
  moreover have "embedding_forward vs Ws xs = rbind (res_map (\<lambda>k. ?F k xs) (zip vs Ws)) (\<lambda>yss. Inr (combine yss))" for xs
    using assms by (cases "res_map (\<lambda>k. ?F k xs) (zip vs Ws)")
      (auto simp: embedding_forward_def combine_def dest: length_res_map)
  ultimately show ?thesis by (rule rowwise_eq)
qed

end
