(* ===== verification/AttnExact.thy ===== *)
theory AttnExact
  imports LayerRows
begin

text \<open>
  Attention over cached keys and values, and what it should compute: causal attention over whole sequences, without
  pages, batches or a cache.
\<close>

section \<open>The reference\<close>

definition attend1 :: "numerics \<Rightarrow> rat \<Rightarrow> vec \<Rightarrow> mat \<Rightarrow> mat \<Rightarrow> vec" where
  "attend1 nm sc q ks vs =
     (let es = map (\<lambda>k. nm_exp nm (sc * dot q k)) ks in weighted_sum (length q) (map (\<lambda>e. e / sum_list es) es) vs)"

text \<open>Query head \<open>h\<close> of a token attends to the tokens up to it; several query heads share a key head.\<close>

definition causal_attention :: "numerics \<Rightarrow> rat \<Rightarrow> nat \<Rightarrow> nat \<Rightarrow> mat list \<Rightarrow> mat list \<Rightarrow> mat list \<Rightarrow> mat list" where
  "causal_attention nm sc nq nkv q k v =
     map (\<lambda>i. map (\<lambda>h. let g = h div (nq div nkv) in
        attend1 nm sc (q ! i ! h) (map (\<lambda>ks. ks ! g) (take (i + 1) k)) (map (\<lambda>vs. vs ! g) (take (i + 1) v)))
       [0 ..< nq]) [0 ..< length q]"

lemma length_causal_attention [simp]: "length (causal_attention nm sc nq nkv q k v) = length q"
  by (simp add: causal_attention_def)

lemma causal_attention_take:
  "causal_attention nm sc nq nkv (take n q) (take n k) (take n v) = take n (causal_attention nm sc nq nkv q k v)"
  by (auto simp: causal_attention_def min_def intro!: nth_equalityI)

section \<open>The mask\<close>

lemma map2_append: "length as = length bs \<Longrightarrow> map2 f (as @ as') (bs @ bs') = map2 f as bs @ map2 f as' bs'"
  by simp

lemma weighted_sum_zeros:
  assumes "length ws = length vs"
  shows "weighted_sum d (ws @ replicate m 0) (vs @ us) = weighted_sum d ws vs"
proof -
  have "sum_list (map2 (\<lambda>w v. w * v ! j) (replicate m 0) us) = 0" for j
  proof (induction m arbitrary: us)
    case (Suc m)
    then show ?case by (cases us) auto
  qed simp
  then show ?thesis using assms by (simp add: weighted_sum_def)
qed

lemma sdpa_masked:
  assumes "m \<le> length ks" and "length vs = length ks"
  shows "sdpa nm sc q ks vs (map (\<lambda>j. j < m) [0 ..< length ks]) = attend1 nm sc q (take m ks) (take m vs)"
proof -
  let ?e = "\<lambda>k. nm_exp nm (sc * dot q k)"
  have mask: "map (\<lambda>j. j < m) [0 ..< length ks] = replicate m True @ replicate (length ks - m) False"
    using assms(1) by (intro nth_equalityI) (auto simp: nth_append)
  have T: "map2 (\<lambda>k a. if a then ?e k else 0) xs (replicate (length xs) True) = map ?e xs" for xs
    by (induction xs) auto
  have F: "map2 (\<lambda>k a. if a then ?e k else 0) xs (replicate (length xs) False) = replicate (length xs) 0" for xs
    by (induction xs) auto
  have "map2 (\<lambda>k a. if a then ?e k else 0) (take m ks @ drop m ks) (map (\<lambda>j. j < m) [0 ..< length ks]) =
      map ?e (take m ks) @ replicate (length ks - m) 0"
    unfolding mask using assms(1) T [of "take m ks"] F [of "drop m ks"] by (subst map2_append) simp_all
  then have es: "map2 (\<lambda>k a. if a then ?e k else 0) ks (map (\<lambda>j. j < m) [0 ..< length ks]) =
      map ?e (take m ks) @ replicate (length ks - m) 0" by simp
  have "weighted_sum (length q) (map (\<lambda>e. e / z) (map ?e (take m ks)) @ replicate (length ks - m) 0) (take m vs @ drop m vs) =
      weighted_sum (length q) (map (\<lambda>e. e / z) (map ?e (take m ks))) (take m vs)" for z
    using assms by (intro weighted_sum_zeros) simp
  then show ?thesis by (simp add: sdpa_def attend1_def es sum_list_replicate)
qed

section \<open>Shared heads\<close>

lemma concat_replicate_nth: "h < g * length xs \<Longrightarrow> concat (map (replicate g) xs) ! h = xs ! (h div g)"
proof (induction xs arbitrary: h)
  case (Cons x xs)
  show ?case
  proof (cases "h < g")
    case False
    then have "h div g = Suc ((h - g) div g)" using Cons.prems by (cases "g = 0") (simp_all add: le_div_geq)
    then show ?thesis using Cons.IH [of "h - g"] False Cons.prems by (simp add: nth_append)
  qed (simp add: nth_append)
qed simp

lemma repeat_kv_heads_ok:
  assumes "0 < nkv" and "nq mod nkv = 0"
  obtains x' where "repeat_kv_heads nkv nq x = Inr x'" and "length x' = length x"
    and "\<And>j h. j < length x \<Longrightarrow> length (x ! j) = nkv \<Longrightarrow> h < nq \<Longrightarrow> x' ! j ! h = x ! j ! (h div (nq div nkv))"
proof (cases "nq = nkv")
  case True
  then show ?thesis using assms that [of x] by (simp add: repeat_kv_heads_def)
next
  case False
  let ?x = "map (\<lambda>heads. concat (map (replicate (nq div nkv)) heads)) x"
  have "h < (nq div nkv) * nkv" if "h < nq" for h using that assms by (metis div_mult_mod_eq add.right_neutral)
  then have "?x ! j ! h = x ! j ! (h div (nq div nkv))" if "j < length x" "length (x ! j) = nkv" "h < nq" for j h
    using that by (simp add: concat_replicate_nth)
  then show ?thesis using False assms by (intro that [of ?x]) (simp_all add: repeat_kv_heads_def)
qed

text \<open>The tail of a sequence, over all its keys and values, gets what causal attention gives it.\<close>

lemma torch_attention_exact:
  assumes "0 < nkv" and "nq mod nkv = 0" and "length k = length q" and "length v = length q" and "c \<le> length q"
    and "\<And>ks. ks \<in> set k \<union> set v \<Longrightarrow> length ks = nkv"
  shows "torch_attention_for_request nm nq nkv (drop c q) k v c sc = Inr (drop c (causal_attention nm sc nq nkv q k v))"
proof -
  obtain k' where k': "repeat_kv_heads nkv nq k = Inr k'" "length k' = length k"
    and kh: "\<And>j h. j < length k \<Longrightarrow> length (k ! j) = nkv \<Longrightarrow> h < nq \<Longrightarrow> k' ! j ! h = k ! j ! (h div (nq div nkv))"
    using repeat_kv_heads_ok [OF assms(1,2)] by metis
  obtain v' where v': "repeat_kv_heads nkv nq v = Inr v'" "length v' = length v"
    and vh: "\<And>j h. j < length v \<Longrightarrow> length (v ! j) = nkv \<Longrightarrow> h < nq \<Longrightarrow> v' ! j ! h = v ! j ! (h div (nq div nkv))"
    using repeat_kv_heads_ok [OF assms(1,2)] by metis
  have head: "sdpa nm sc x (map (\<lambda>ks. ks ! h) k') (map (\<lambda>vs. vs ! h) v') (map (\<lambda>j. j \<le> c + i) [0 ..< length k]) =
      attend1 nm sc x (map (\<lambda>ks. ks ! (h div (nq div nkv))) (take (c + i + 1) k))
        (map (\<lambda>vs. vs ! (h div (nq div nkv))) (take (c + i + 1) v))" if "h < nq" "c + i < length q" for h i x
  proof -
    have K: "map (\<lambda>ks. ks ! h) k' = map (\<lambda>ks. ks ! (h div (nq div nkv))) k"
      using k'(2) kh that assms by (auto intro!: nth_equalityI)
    have V: "map (\<lambda>vs. vs ! h) v' = map (\<lambda>vs. vs ! (h div (nq div nkv))) v"
      using v'(2) vh that assms by (auto intro!: nth_equalityI)
    have "(\<lambda>j. j \<le> c + i) = (\<lambda>j. j < c + i + 1)" by auto
    then show ?thesis using that assms sdpa_masked [of "c + i + 1" "map (\<lambda>ks. ks ! (h div (nq div nkv))) k"
        "map (\<lambda>vs. vs ! (h div (nq div nkv))) v" nm sc x] by (simp add: K V take_map)
  qed
  have "map (\<lambda>i. map (\<lambda>h. sdpa nm sc (drop c q ! i ! h) (map (\<lambda>ks. ks ! h) k') (map (\<lambda>vs. vs ! h) v')
        (map (\<lambda>j. j \<le> c + i) [0 ..< length k])) [0 ..< nq]) [0 ..< length (drop c q)] =
      drop c (causal_attention nm sc nq nkv q k v)"
    using head by (auto simp: causal_attention_def Let_def intro!: nth_equalityI)
  then show ?thesis using assms by (simp add: torch_attention_for_request_def k'(1) v'(1) Let_def)
qed

section \<open>The projection\<close>

definition normed :: "numerics \<Rightarrow> (vec \<times> rat) option \<Rightarrow> mat \<Rightarrow> mat" where
  "normed nm nw x = (case nw of None \<Rightarrow> x | Some (w, eps) \<Rightarrow> map (rmsnorm_cpu nm w eps) x)"

lemma norm_heads_native: "\<not> use_flashinfer kn \<Longrightarrow> norm_heads kn nm nw x = Inr (map (normed nm nw) x)"
  by (cases nw) (auto simp: norm_heads_def normed_def [abs_def] rmsnorm_forward_def map_idI intro!: res_map_total)

definition project_row ::
  "numerics \<Rightarrow> attn_layer \<Rightarrow> nat \<times> vec \<Rightarrow> (mat \<times> mat \<times> mat) res" where
  "project_row nm al pr = (case pr of (p, row) \<Rightarrow>
     let d = al_head_dim al; nq = al_num_qo_heads al; nkv = al_num_kv_heads al; cache = ro_cos_sin (al_rotary al);
         half = ro_rotary_dim (al_rotary al) div 2 in
     if length row \<noteq> nq * d + nkv * d + nkv * d then Inl RuntimeError
     else if p \<ge> length cache then Inl IndexError
     else
       let c = take half (cache ! p) @ take half (cache ! p); s = drop half (cache ! p) @ drop half (cache ! p)
       in Inr (map (rope_neox_cpu c s) (normed nm (al_q_norm al) (split_heads nq d (take (nq * d) row))),
           map (rope_neox_cpu c s) (normed nm (al_k_norm al) (split_heads nkv d (slice (nq * d) (nq * d + nkv * d) row))),
           split_heads nkv d (drop (nq * d + nkv * d) row)))"

lemma attn_project_rows:
  assumes "\<not> use_flashinfer kn" and "length ps = length xs"
  shows "attn_project kn nm al ps xs = Inr (q, k, v) \<longleftrightarrow> (\<exists>ys. res_map (project_row nm al) (zip ps xs) = Inr ys \<and>
    q = map fst ys \<and> k = map (\<lambda>y. fst (snd y)) ys \<and> v = map (\<lambda>y. snd (snd y)) ys)"
  using assms(2)
proof (induction ps xs arbitrary: q k v rule: list_induct2)
  case Nil
  then show ?case using assms(1)
    by (auto simp: attn_project_def norm_heads_native rotary_forward_def cos_sin_full_from_cache_def)
next
  case (Cons p ps x xs)
  let ?f = "attn_project kn nm al"
  have step: "?f (p # ps) (x # xs) = Inr (q, k, v) \<longleftrightarrow> (\<exists>y q' k' v'. project_row nm al (p, x) = Inr y \<and>
      ?f ps xs = Inr (q', k', v') \<and> q = fst y # q' \<and> k = fst (snd y) # k' \<and> v = snd (snd y) # v')"
    using assms(1)
    by (auto simp: attn_project_def norm_heads_native rotary_forward_def cos_sin_full_from_cache_def project_row_def
        Let_def rbind_eq_Inr)
  show ?case unfolding step Cons.IH by (auto simp: rbind_eq_Inr)
qed

text \<open>What the projection gives, as one list of triples.\<close>

definition project :: "kernels \<Rightarrow> numerics \<Rightarrow> attn_layer \<Rightarrow> (nat \<times> vec) list \<Rightarrow> (mat \<times> mat \<times> mat) list res" where
  "project kn nm al zs = rbind (attn_project kn nm al (map fst zs) (map snd zs)) (\<lambda>(q, k, v). Inr (zip q (zip k v)))"

lemma zip_projections: "zip (map f ys) (zip (map g ys) (map h ys)) = map (\<lambda>y. (f y, g y, h y)) ys"
  by (induction ys) auto

lemma project_native: "\<not> use_flashinfer kn \<Longrightarrow> project kn nm al zs = Inr ys \<longleftrightarrow> res_map (project_row nm al) zs = Inr ys"
  using attn_project_rows [of kn "map fst zs" "map snd zs"]
  by (fastforce simp: project_def rbind_eq_Inr zip_projections zip_map_fst_snd)

lemma rowwise_project: "\<not> use_flashinfer kn \<Longrightarrow> rowwise (project kn nm al)"
  unfolding rowwise_def using project_native by blast

lemma attn_project_iff:
  assumes "\<not> use_flashinfer kn" and "length ps = length xs"
  shows "attn_project kn nm al ps xs = Inr (q, k, v) \<longleftrightarrow>
    project kn nm al (zip ps xs) = Inr (zip q (zip k v)) \<and> length q = length xs \<and> length k = length xs \<and> length v = length xs"
  (is "?l \<longleftrightarrow> ?r")
proof
  assume ?l
  then obtain ys where "res_map (project_row nm al) (zip ps xs) = Inr ys"
    "q = map fst ys" "k = map (\<lambda>y. fst (snd y)) ys" "v = map (\<lambda>y. snd (snd y)) ys"
    using attn_project_rows [OF assms] by blast
  then show ?r using project_native [OF assms(1)] length_res_map assms(2) by (fastforce simp: zip_projections)
next
  assume r: ?r
  then have "res_map (project_row nm al) (zip ps xs) = Inr (zip q (zip k v))" using project_native [OF assms(1)] by blast
  moreover have "q = map fst (zip q (zip k v))" "k = map (\<lambda>y. fst (snd y)) (zip q (zip k v))"
    "v = map (\<lambda>y. snd (snd y)) (zip q (zip k v))" using r by (auto intro!: nth_equalityI)
  ultimately show ?l using attn_project_rows [OF assms] by blast
qed

lemma attn_project_lengths:
  "\<not> use_flashinfer kn \<Longrightarrow> length ps = length xs \<Longrightarrow> attn_project kn nm al ps xs = Inr (q, k, v) \<Longrightarrow>
    length q = length xs \<and> length k = length xs \<and> length v = length xs"
  using attn_project_iff by blast

lemma attn_project_heads:
  assumes "\<not> use_flashinfer kn" and "length ps = length xs" and "attn_project kn nm al ps xs = Inr (q, k, v)"
  shows "\<forall>ks\<in>set k \<union> set v. length ks = al_num_kv_heads al"
proof -
  obtain ys where ys: "res_map (project_row nm al) (zip ps xs) = Inr ys"
    "k = map (\<lambda>y. fst (snd y)) ys" "v = map (\<lambda>y. snd (snd y)) ys"
    using attn_project_rows [OF assms(1,2)] assms(3) by blast
  have "length (fst (snd y)) = al_num_kv_heads al \<and> length (snd (snd y)) = al_num_kv_heads al" if y: "y \<in> set ys" for y
  proof -
    obtain z where "project_row nm al z = Inr y" using res_map_in [OF ys(1) y] by blast
    then show ?thesis
      by (auto simp: project_row_def Let_def split_heads_def normed_def split: prod.splits if_splits option.splits)
  qed
  then show ?thesis using ys by auto
qed

end
