(* ===== verification/PagedAttn.thy ===== *)
theory PagedAttn
  imports AttnExact
begin

text \<open>
  The pool through the page table: storing the new keys and values of a batch and reading back those of each whole
  sequence, and the attention layer on one rank over a batch of tails.
\<close>

section \<open>Reading and writing slots\<close>

lemma index_select_iff:
  "index_select xs locs = Inr ys \<longleftrightarrow>
     (\<forall>s\<in>set locs. 0 \<le> s \<and> s < int (length xs)) \<and> ys = map (\<lambda>s. xs ! nat s) locs"
proof (induction locs arbitrary: ys)
  case (Cons s locs)
  then show ?case by (auto simp: index_select_def rbind_eq_Inr)
qed (auto simp: index_select_def)

lemma index_select_append:
  "index_select xs (as @ bs) = Inr zs \<longleftrightarrow>
     (\<exists>ys ys'. index_select xs as = Inr ys \<and> index_select xs bs = Inr ys' \<and> zs = ys @ ys')"
  unfolding index_select_def by (rule res_map_append)

definition copy_at :: "slot \<times> 'a \<Rightarrow> 'a list \<Rightarrow> 'a list res" where
  "copy_at = (\<lambda>(i, x) xs. if 0 \<le> i \<and> i < int (length xs) then Inr (xs[nat i := x]) else Inl IndexError)"

lemma copies_ok:
  assumes "\<forall>s\<in>set locs. 0 \<le> s \<and> s < int (length xs)" and "distinct locs" and "length src = length locs"
  shows "\<exists>ys. res_fold copy_at (zip locs src) xs = Inr ys \<and> length ys = length xs \<and>
    map (\<lambda>s. ys ! nat s) locs = src \<and> (\<forall>j. int j \<notin> set locs \<longrightarrow> ys ! j = xs ! j)"
  using assms
proof (induction locs arbitrary: xs src)
  case (Cons s locs)
  then obtain x src' where src: "src = x # src'" by (cases src) auto
  have s: "0 \<le> s" "s < int (length xs)" "s \<notin> set locs" using Cons.prems by auto
  from Cons.IH [of "xs[nat s := x]" src'] Cons.prems src obtain ys where
    ys: "res_fold copy_at (zip locs src') (xs[nat s := x]) = Inr ys" "length ys = length xs"
    "map (\<lambda>s. ys ! nat s) locs = src'" and same: "\<forall>j. int j \<notin> set locs \<longrightarrow> ys ! j = xs[nat s := x] ! j" by auto
  have "res_fold copy_at (zip (s # locs) src) xs = Inr ys" using ys(1) s by (simp add: src copy_at_def)
  moreover have "map (\<lambda>s. ys ! nat s) (s # locs) = src" using same s ys(3) src by simp
  moreover have "ys ! j = xs ! j" if j: "int j \<notin> set (s # locs)" for j
  proof -
    have "nat s \<noteq> j" using j s(1) by auto
    then show ?thesis using same j by simp
  qed
  ultimately show ?case using ys(2) by blast
qed simp

lemma index_copy_ok:
  assumes "\<forall>s\<in>set locs. 0 \<le> s \<and> s < int (length xs)" and "distinct locs" and "length src = length locs"
  obtains ys where "index_copy locs src xs = Inr ys" and "length ys = length xs" and "index_select ys locs = Inr src"
    and "\<And>S zs. set S \<inter> set locs = {} \<Longrightarrow> index_select xs S = Inr zs \<Longrightarrow> index_select ys S = Inr zs"
proof -
  obtain ys where ys: "res_fold copy_at (zip locs src) xs = Inr ys" "length ys = length xs"
    "map (\<lambda>s. ys ! nat s) locs = src" "\<forall>j. int j \<notin> set locs \<longrightarrow> ys ! j = xs ! j"
    using copies_ok [OF assms] by blast
  show ?thesis
  proof (rule that)
    show "index_copy locs src xs = Inr ys" using ys(1) assms(3) by (simp add: index_copy_def copy_at_def)
    show "index_select ys locs = Inr src" using ys(2,3) assms(1) by (simp add: index_select_iff)
    show "index_select ys S = Inr zs" if S: "set S \<inter> set locs = {}" "index_select xs S = Inr zs" for S zs
    proof -
      have "ys ! nat s = xs ! nat s" if s: "s \<in> set S" for s
      proof -
        have "0 \<le> s" "s \<notin> set locs" using s S by (auto simp: index_select_iff)
        then show ?thesis using ys(4) by simp
      qed
      then show ?thesis using S ys(2) by (auto simp: index_select_iff)
    qed
  qed (fact ys(2))
qed

section \<open>What the pool holds\<close>

definition kv_at :: "kv_pool \<Rightarrow> nat \<Rightarrow> slot list \<Rightarrow> mat list \<Rightarrow> mat list \<Rightarrow> bool" where
  "kv_at p l S k v \<longleftrightarrow> index_select (kp_k p ! l) S = Inr k \<and> index_select (kp_v p ! l) S = Inr v"

definition pool_ok :: "nat \<Rightarrow> nat \<Rightarrow> kv_pool \<Rightarrow> bool" where
  "pool_ok L N p \<longleftrightarrow> length (kp_k p) = L \<and> length (kp_v p) = L \<and> (\<forall>xs\<in>set (kp_k p) \<union> set (kp_v p). length xs = N)"

lemma pool_ok_layer: "pool_ok L N p \<Longrightarrow> l < L \<Longrightarrow> length (kp_k p ! l) = N \<and> length (kp_v p ! l) = N"
  by (auto simp: pool_ok_def)

lemma store_kv_ok:
  assumes "pool_ok L N p" and "l < L" and "\<forall>s\<in>set locs. 0 \<le> s \<and> s < int N" and "distinct locs"
    and "length k = length locs" and "length v = length locs"
  obtains p' where "store_kv k v locs l p = Inr p'" and "pool_ok L N p'" and "kv_at p' l locs k v"
    and "\<And>l' S k v. l' \<noteq> l \<or> set S \<inter> set locs = {} \<Longrightarrow> kv_at p l' S k v \<Longrightarrow> kv_at p' l' S k v"
proof -
  have len: "length (kp_k p ! l) = N" "length (kp_v p ! l) = N" and l: "l < length (kp_k p)" "l < length (kp_v p)"
    using assms(1,2) pool_ok_layer by (auto simp: pool_ok_def)
  obtain kc where kc: "index_copy locs k (kp_k p ! l) = Inr kc" "length kc = N" "index_select kc locs = Inr k"
    and kf: "\<And>S zs. set S \<inter> set locs = {} \<Longrightarrow> index_select (kp_k p ! l) S = Inr zs \<Longrightarrow> index_select kc S = Inr zs"
    using index_copy_ok [of locs "kp_k p ! l" k] assms len by metis
  obtain vc where vc: "index_copy locs v (kp_v p ! l) = Inr vc" "length vc = N" "index_select vc locs = Inr v"
    and vf: "\<And>S zs. set S \<inter> set locs = {} \<Longrightarrow> index_select (kp_v p ! l) S = Inr zs \<Longrightarrow> index_select vc S = Inr zs"
    using index_copy_ok [of locs "kp_v p ! l" v] assms len by metis
  let ?p = "p\<lparr>kp_k := (kp_k p)[l := kc], kp_v := (kp_v p)[l := vc]\<rparr>"
  show ?thesis
  proof (rule that)
    show "store_kv k v locs l p = Inr ?p" using kc(1) vc(1) l by (simp add: store_kv_def k_cache_def v_cache_def)
    show "pool_ok L N ?p" using assms(1) kc(2) vc(2) by (auto simp: pool_ok_def dest!: set_update_subset_insert [THEN subsetD])
    show "kv_at ?p l locs k v" using kc(3) vc(3) l by (simp add: kv_at_def)
    show "kv_at ?p l' S k v" if "l' \<noteq> l \<or> set S \<inter> set locs = {}" "kv_at p l' S k v" for l' S k v
      using that kf vf l by (cases "l' = l") (auto simp: kv_at_def)
  qed
qed

section \<open>The loop over the requests\<close>

text \<open>Where the tokens of a request are: the start of its row of the page table.\<close>

definition row_slots :: "slot list list \<Rightarrow> heap \<Rightarrow> rid \<Rightarrow> slot list" where
  "row_slots table hp r = take (r_device_len (hp ! r)) (table ! r_table_idx (hp ! r))"

definition cached :: "heap \<Rightarrow> rid \<Rightarrow> nat" where
  "cached hp r = r_cached_len (hp ! r)"

definition row_ok :: "slot list list \<Rightarrow> heap \<Rightarrow> rid \<Rightarrow> bool" where
  "row_ok table hp r \<longleftrightarrow> r_table_idx (hp ! r) < length table \<and> cached hp r < r_device_len (hp ! r) \<and>
     r_device_len (hp ! r) \<le> length (table ! r_table_idx (hp ! r))"

lemma attend_requests_exact:
  assumes "0 < nkv" and "nq mod nkv = 0"
    and "\<And>r. r \<in> set rs \<Longrightarrow> row_ok table hp r \<and> length (q r) = r_device_len (hp ! r) \<and>
       length (k r) = r_device_len (hp ! r) \<and> length (v r) = r_device_len (hp ! r) \<and>
       index_select kf (row_slots table hp r) = Inr (k r) \<and> index_select vf (row_slots table hp r) = Inr (v r) \<and>
       (\<forall>ks\<in>set (k r) \<union> set (v r). length ks = nkv)"
  shows "attend_requests nm sc nq nkv kf vf table hp rs (pre @ tails (cached hp) q rs) (length pre) =
    Inr (tails (cached hp) (\<lambda>r. causal_attention nm sc nq nkv (q r) (k r) (v r)) rs,
      length (pre @ tails (cached hp) q rs))"
  using assms(3)
proof (induction rs arbitrary: pre)
  case (Cons r rs)
  let ?d = "drop (cached hp r) (q r)"
  have r: "row_ok table hp r" "length (q r) = r_device_len (hp ! r)" "length (k r) = length (q r)" "length (v r) = length (q r)"
    "index_select kf (row_slots table hp r) = Inr (k r)" "index_select vf (row_slots table hp r) = Inr (v r)"
    "\<And>ks. ks \<in> set (k r) \<union> set (v r) \<Longrightarrow> length ks = nkv" using Cons.prems by auto
  have n: "q_len hp r = length ?d" using r(1,2) by (simp add: q_len_def row_ok_def cached_def)
  have "slice (length pre) (length pre + q_len hp r) (pre @ ?d @ tails (cached hp) q rs) = ?d" by (simp add: n slice_def)
  moreover have "table_slice table (r_table_idx (hp ! r)) 0 (r_device_len (hp ! r)) = Inr (row_slots table hp r)"
    using r(1) by (simp add: table_slice_def row_slots_def row_ok_def)
  moreover have "torch_attention_for_request nm nq nkv ?d (k r) (v r) (r_cached_len (hp ! r)) sc =
      Inr (drop (cached hp r) (causal_attention nm sc nq nkv (q r) (k r) (v r)))"
    using torch_attention_exact [OF assms(1,2) r(3,4) _ r(7), of "cached hp r" nm sc] r(1,2)
    by (simp add: cached_def row_ok_def)
  moreover have "attend_requests nm sc nq nkv kf vf table hp rs ((pre @ ?d) @ tails (cached hp) q rs) (length (pre @ ?d)) =
      Inr (tails (cached hp) (\<lambda>r. causal_attention nm sc nq nkv (q r) (k r) (v r)) rs,
        length ((pre @ ?d) @ tails (cached hp) q rs))"
    using Cons.prems by (intro Cons.IH) auto
  ultimately show ?case using r(5,6) n by simp
qed simp

section \<open>The layer on one rank\<close>

lemma tails_select:
  assumes "\<And>r. r \<in> set rs \<Longrightarrow> length (X r) = length (S r)"
  shows "index_select xs (tails c S rs) = Inr (tails c X rs) \<longleftrightarrow> (\<forall>r\<in>set rs. index_select xs (drop (c r) (S r)) = Inr (drop (c r) (X r)))"
  using assms
proof (induction rs)
  case (Cons r rs)
  have "length zs = length locs" if "index_select xs locs = Inr zs" for locs and zs :: "'b list"
    using that by (simp add: index_select_iff)
  note len = this
  show ?case
  proof
    assume "index_select xs (tails c S (r # rs)) = Inr (tails c X (r # rs))"
    then obtain a b where "index_select xs (drop (c r) (S r)) = Inr a" "index_select xs (tails c S rs) = Inr b"
      "a @ b = drop (c r) (X r) @ tails c X rs" by (auto simp: index_select_append)
    moreover from this have "length a = length (drop (c r) (X r))" using len Cons.prems by simp
    ultimately show "\<forall>r\<in>set (r # rs). index_select xs (drop (c r) (S r)) = Inr (drop (c r) (X r))"
      using Cons by auto
  next
    assume "\<forall>r\<in>set (r # rs). index_select xs (drop (c r) (S r)) = Inr (drop (c r) (X r))"
    then show "index_select xs (tails c S (r # rs)) = Inr (tails c X (r # rs))"
      using Cons by (auto simp: index_select_append)
  qed
qed (simp add: index_select_def)

lemma index_select_join:
  "index_select xs (take n S) = Inr (take n X) \<Longrightarrow> index_select xs (drop n S) = Inr (drop n X) \<Longrightarrow> index_select xs S = Inr X"
  using index_select_append [of xs "take n S" "drop n S" X] by fastforce

text \<open>The slots of a batch: new ones are distinct, in the pool, and none of them holds a cached token of the batch.\<close>

definition slots_ok :: "nat \<Rightarrow> slot list list \<Rightarrow> heap \<Rightarrow> rid list \<Rightarrow> bool" where
  "slots_ok N table hp rs \<longleftrightarrow>
     (let locs = tails (cached hp) (row_slots table hp) rs in
      distinct locs \<and> (\<forall>s\<in>set locs. 0 \<le> s \<and> s < int N) \<and>
      (\<forall>r\<in>set rs. row_ok table hp r \<and> set (take (cached hp r) (row_slots table hp r)) \<inter> set locs = {}))"

lemma torch_native_exact:
  fixes rs :: "rid list" and table :: "slot list list" and hp :: heap
  defines "locs \<equiv> tails (cached hp) (row_slots table hp) rs"
  assumes "0 < nkv" and "nq mod nkv = 0" and "rs \<noteq> []" and "slots_ok N table hp rs" and "pool_ok L N p" and "l < L"
    and "\<And>r. r \<in> set rs \<Longrightarrow> length (q r) = r_device_len (hp ! r) \<and> length (k r) = r_device_len (hp ! r) \<and>
       length (v r) = r_device_len (hp ! r) \<and> (\<forall>ks\<in>set (k r) \<union> set (v r). length ks = nkv) \<and>
       kv_at p l (take (cached hp r) (row_slots table hp r)) (take (cached hp r) (k r)) (take (cached hp r) (v r))"
  obtains p' where "torch_native_forward nm sc nq nkv table hp rs locs (tails (cached hp) q rs) (tails (cached hp) k rs)
      (tails (cached hp) v rs) l p = Inr (tails (cached hp) (\<lambda>r. causal_attention nm sc nq nkv (q r) (k r) (v r)) rs, p')"
    and "pool_ok L N p'" and "\<And>r. r \<in> set rs \<Longrightarrow> kv_at p' l (row_slots table hp r) (k r) (v r)"
    and "\<And>l' S k v. l' \<noteq> l \<or> set S \<inter> set locs = {} \<Longrightarrow> kv_at p l' S k v \<Longrightarrow> kv_at p' l' S k v"
proof -
  have s: "distinct locs" "\<forall>s\<in>set locs. 0 \<le> s \<and> s < int N"
    and row: "\<And>r. r \<in> set rs \<Longrightarrow> row_ok table hp r \<and> set (take (cached hp r) (row_slots table hp r)) \<inter> set locs = {}"
    using assms(5) by (auto simp: slots_ok_def Let_def locs_def)
  have len: "length (row_slots table hp r) = r_device_len (hp ! r)" if "r \<in> set rs" for r
    using row [OF that] by (simp add: row_slots_def row_ok_def)
  have "length (tails (cached hp) k rs) = length locs" "length (tails (cached hp) v rs) = length locs"
    using assms(8) len by (auto simp: length_tails locs_def intro!: arg_cong [where f = sum_list])
  then obtain p' where p': "store_kv (tails (cached hp) k rs) (tails (cached hp) v rs) locs l p = Inr p'" "pool_ok L N p'"
    and new: "kv_at p' l locs (tails (cached hp) k rs) (tails (cached hp) v rs)"
    and frame: "\<And>l' S k v. l' \<noteq> l \<or> set S \<inter> set locs = {} \<Longrightarrow> kv_at p l' S k v \<Longrightarrow> kv_at p' l' S k v"
    using store_kv_ok [OF assms(6,7) s(2,1)] by blast
  have whole: "kv_at p' l (row_slots table hp r) (k r) (v r)" if r: "r \<in> set rs" for r
  proof -
    have "kv_at p' l (take (cached hp r) (row_slots table hp r)) (take (cached hp r) (k r)) (take (cached hp r) (v r))"
      using frame row [OF r] assms(8) [OF r] by blast
    moreover have "kv_at p' l (drop (cached hp r) (row_slots table hp r)) (drop (cached hp r) (k r)) (drop (cached hp r) (v r))"
      using new r assms(8) len unfolding locs_def kv_at_def by (simp add: tails_select)
    ultimately show ?thesis unfolding kv_at_def using index_select_join by blast
  qed
  have "attend_requests nm sc nq nkv (kp_k p' ! l) (kp_v p' ! l) table hp rs ([] @ tails (cached hp) q rs) (length ([] :: mat list)) =
      Inr (tails (cached hp) (\<lambda>r. causal_attention nm sc nq nkv (q r) (k r) (v r)) rs, length ([] @ tails (cached hp) q rs))"
    by (rule attend_requests_exact [OF assms(2,3)]) (use row assms(8) whole in \<open>auto simp: kv_at_def\<close>)
  moreover have "k_cache p' l = Inr (kp_k p' ! l)" "v_cache p' l = Inr (kp_v p' ! l)"
    using p'(2) assms(7) by (auto simp: k_cache_def v_cache_def pool_ok_def)
  ultimately have "torch_native_forward nm sc nq nkv table hp rs locs (tails (cached hp) q rs) (tails (cached hp) k rs)
      (tails (cached hp) v rs) l p = Inr (tails (cached hp) (\<lambda>r. causal_attention nm sc nq nkv (q r) (k r) (v r)) rs, p')"
    using p'(1) assms(4) by (simp add: torch_native_forward_def)
  then show ?thesis using that p'(2) whole frame by blast
qed

end
