(* ===== verification/DecoderExact.thy ===== *)
theory DecoderExact
  imports PagedAttn
begin

text \<open>
  The decoder on whole sequences, without pages, batches or a cache, and the proof that a batch of tails run
  against the pool gives its rows: over the ranks of one attention block, one layer, and all layers.
\<close>

section \<open>The reference decoder\<close>

definition ref_qkv :: "kernels \<Rightarrow> numerics \<Rightarrow> attn_weights \<Rightarrow> mat \<Rightarrow> (mat list \<times> mat list \<times> mat list) list res" where
  "ref_qkv kn nm w xs =
     res_map (attn_project kn nm (at_layer w) [0 ..< length xs]) (col_forward (at_qkv w) (at_qkv_bias w) xs)"

definition rank_attention :: "numerics \<Rightarrow> rat \<Rightarrow> attn_weights \<Rightarrow> mat list \<times> mat list \<times> mat list \<Rightarrow> mat" where
  "rank_attention nm sc w qkv = (case qkv of (q, k, v) \<Rightarrow>
     map concat (causal_attention nm sc (al_num_qo_heads (at_layer w)) (al_num_kv_heads (at_layer w)) q k v))"

definition attn_out :: "numerics \<Rightarrow> rat \<Rightarrow> attn_weights \<Rightarrow> (mat list \<times> mat list \<times> mat list) list \<Rightarrow> mat" where
  "attn_out nm sc w qkvs = row_forward (at_o w) None (map (rank_attention nm sc w) qkvs)"

definition layer_input :: "kernels \<Rightarrow> numerics \<Rightarrow> layer_weights \<Rightarrow> mat \<times> mat option \<Rightarrow> (mat \<times> mat) res" where
  "layer_input kn nm w st = rmsnorm_fused_forward kn nm (fst (ly_input_norm w)) (snd (ly_input_norm w)) (fst st) (snd st)"

definition ref_layer :: "kernels \<Rightarrow> numerics \<Rightarrow> rat \<Rightarrow> layer_weights \<Rightarrow> mat \<times> mat option \<Rightarrow> (mat \<times> mat option) res" where
  "ref_layer kn nm sc w st =
     rbind (layer_input kn nm w st) (\<lambda>(x, residual).
     rbind (ref_qkv kn nm (ly_attn w) x) (\<lambda>qkvs.
     rbind (rmsnorm_fused_forward kn nm (fst (ly_post_norm w)) (snd (ly_post_norm w)) (attn_out nm sc (ly_attn w) qkvs)
              (Some residual)) (\<lambda>(x, residual).
     rbind (mlp_forward kn nm (ly_mlp w) x) (\<lambda>x. Inr (x, Some residual)))))"

text \<open>The keys and values of every layer, on every rank.\<close>

fun ref_kvs :: "kernels \<Rightarrow> numerics \<Rightarrow> rat \<Rightarrow> layer_weights list \<Rightarrow> mat \<times> mat option \<Rightarrow>
    (mat list \<times> mat list \<times> mat list) list list res" where
  "ref_kvs kn nm sc [] st = Inr []"
| "ref_kvs kn nm sc (w # ws) st =
     rbind (rbind (layer_input kn nm w st) (\<lambda>(x, _). ref_qkv kn nm (ly_attn w) x)) (\<lambda>qkvs.
     rbind (ref_layer kn nm sc w st) (\<lambda>st.
     rbind (ref_kvs kn nm sc ws st) (\<lambda>qs. Inr (qkvs # qs))))"

definition ref_model :: "kernels \<Rightarrow> numerics \<Rightarrow> rat \<Rightarrow> model_weights \<Rightarrow> tok list \<Rightarrow> mat res" where
  "ref_model kn nm sc w ids =
     rbind (embedding_forward (md_vocabs w) (md_embed w) ids) (\<lambda>x.
     rbind (res_fold (ref_layer kn nm sc) (md_layers w) (x, None)) (\<lambda>(x, residual).
     rbind (rmsnorm_fused_forward kn nm (fst (md_norm w)) (snd (md_norm w)) x residual) (\<lambda>(x, _). Inr x)))"

section \<open>The residual stream\<close>

definition summed :: "bool \<Rightarrow> mat \<Rightarrow> mat \<Rightarrow> mat" where
  "summed first x r = (if first then x else map2 vadd x r)"

definition residual_of :: "bool \<Rightarrow> mat \<Rightarrow> mat option" where
  "residual_of first r = (if first then None else Some r)"

lemma fused_native:
  "\<not> use_flashinfer kn \<Longrightarrow> rmsnorm_fused_forward kn nm w e x (residual_of first r) =
     Inr (map (rmsnorm_cpu nm w e) (summed first x r), summed first x r)"
  "\<not> use_flashinfer kn \<Longrightarrow> rmsnorm_fused_forward kn nm w e x (Some r) =
     Inr (map (rmsnorm_cpu nm w e) (summed False x r), summed False x r)"
  by (simp_all add: rmsnorm_fused_forward_def residual_of_def summed_def Let_def)

lemma length_summed: "length r = length x \<Longrightarrow> length (summed first x r) = length x"
  by (simp add: summed_def)

lemma summed_tails:
  "(\<And>i. i \<in> set rs \<Longrightarrow> length (R i) = length (X i)) \<Longrightarrow>
    summed first (tails c X rs) (tails c R rs) = tails c (\<lambda>i. summed first (X i) (R i)) rs"
  by (simp add: summed_def tails_zip tails_map)

lemma summed_take: "summed first (take n x) (take n r) = take n (summed first x r)"
  by (simp add: summed_def take_zip take_map)

section \<open>Over the ranks\<close>

lemma res_map_iff_nth:
  "res_map f xs = Inr ys \<longleftrightarrow> length ys = length xs \<and> (\<forall>i<length xs. f (xs ! i) = Inr (ys ! i))"
proof (induction xs arbitrary: ys)
  case (Cons x xs)
  show ?case
    by (cases ys) (auto simp: rbind_eq_Inr Cons.IH less_Suc_eq_0_disj)
qed auto

lemma nth_col_forward: "i < length Ws \<Longrightarrow> col_forward Ws bs xs ! i = linear (Ws ! i) (map_option (\<lambda>bs. bs ! i) bs) xs"
  by (simp add: col_forward_def)

lemma length_col_forward [simp]: "length (col_forward Ws bs xs) = length Ws"
  by (simp add: col_forward_def)

lemma row_forward_tails:
  assumes "Ws \<noteq> []" and "length ks = length Ws" and "\<And>r k. r \<in> set rs \<Longrightarrow> k \<in> set ks \<Longrightarrow> length (X k r) = n r"
  shows "row_forward Ws b (map (\<lambda>k. tails c (X k) rs) ks) = tails c (\<lambda>r. row_forward Ws b (map (\<lambda>k. X k r) ks)) rs"
proof -
  let ?m = "sum_list (map (\<lambda>r. n r - c r) rs)"
  have "row_forward Ws b (map (\<lambda>k. tails c (X k) rs) ks) =
      map (row_sum Ws b) (by_token ?m (map (\<lambda>k. tails c (X k) rs) ks))"
    using assms by (intro row_forward_rows) (auto simp: length_tails intro!: arg_cong [where f = sum_list])
  also have "by_token ?m (map (\<lambda>k. tails c (X k) rs) ks) = tails c (\<lambda>r. by_token (n r) (map (\<lambda>k. X k r) ks)) rs"
    using assms(3) by (rule by_token_tails)
  also have "map (row_sum Ws b) \<dots> = tails c (\<lambda>r. row_forward Ws b (map (\<lambda>k. X k r) ks)) rs"
    unfolding tails_map using assms by (intro tails_cong) (auto intro!: row_forward_rows [symmetric])
  finally show ?thesis .
qed

lemma row_forward_take:
  assumes "Ws \<noteq> []" and "length xss = length Ws" and "\<And>xs. xs \<in> set xss \<Longrightarrow> length xs = n" and "m \<le> n"
  shows "row_forward Ws b (map (take m) xss) = take m (row_forward Ws b xss)"
proof -
  have "row_forward Ws b (map (take m) xss) = map (row_sum Ws b) (by_token m (map (take m) xss))"
    using assms by (intro row_forward_rows) auto
  also have "by_token m (map (take m) xss) = take m (by_token n xss)" using assms(3,4) by (rule by_token_map)
  also have "map (row_sum Ws b) \<dots> = take m (row_forward Ws b xss)"
    using assms by (simp add: take_map row_forward_rows)
  finally show ?thesis .
qed

definition take3 :: "nat \<Rightarrow> 'a list \<times> 'b list \<times> 'c list \<Rightarrow> 'a list \<times> 'b list \<times> 'c list" where
  "take3 n = (\<lambda>(q, k, v). (take n q, take n k, take n v))"

definition kvs_at :: "kv_pool list \<Rightarrow> nat \<Rightarrow> slot list \<Rightarrow> (mat list \<times> mat list \<times> mat list) list \<Rightarrow> bool" where
  "kvs_at pools l S qkvs \<longleftrightarrow> length qkvs = length pools \<and>
     (\<forall>i<length pools. kv_at (pools ! i) l S (fst (snd (qkvs ! i))) (snd (snd (qkvs ! i))))"

text \<open>The weights of an attention block fit the group and its heads.\<close>

definition attn_ok :: "nat \<Rightarrow> nat \<Rightarrow> attn_weights \<Rightarrow> bool" where
  "attn_ok ranks L w \<longleftrightarrow> 0 < ranks \<and> length (at_qkv w) = ranks \<and> length (at_o w) = ranks \<and>
     0 < al_num_kv_heads (at_layer w) \<and> al_num_qo_heads (at_layer w) mod al_num_kv_heads (at_layer w) = 0 \<and>
     al_layer_id (at_layer w) < L"

lemma ref_qkv_nth:
  "ref_qkv kn nm w xs = Inr qkvs \<longleftrightarrow> length qkvs = length (at_qkv w) \<and> (\<forall>i<length (at_qkv w).
     attn_project kn nm (at_layer w) [0 ..< length xs]
       (linear (at_qkv w ! i) (map_option (\<lambda>bs. bs ! i) (at_qkv_bias w)) xs) = Inr (qkvs ! i))"
  by (auto simp: ref_qkv_def res_map_iff_nth nth_col_forward)

lemma ref_qkv_lengths:
  assumes "\<not> use_flashinfer kn" and "ref_qkv kn nm w xs = Inr qkvs" and "qkv \<in> set qkvs"
  shows "length (fst qkv) = length xs \<and> length (fst (snd qkv)) = length xs \<and> length (snd (snd qkv)) = length xs \<and>
    (\<forall>ks\<in>set (fst (snd qkv)) \<union> set (snd (snd qkv)). length ks = al_num_kv_heads (at_layer w))"
proof -
  obtain i where i: "i < length qkvs" "qkv = qkvs ! i" using assms(3) by (auto simp: in_set_conv_nth)
  let ?X = "linear (at_qkv w ! i) (map_option (\<lambda>bs. bs ! i) (at_qkv_bias w)) xs"
  obtain q k v where qkv: "qkv = (q, k, v)" by (cases qkv)
  have p: "attn_project kn nm (at_layer w) [0 ..< length xs] ?X = Inr (q, k, v)"
    using assms(2) i by (simp add: ref_qkv_nth flip: qkv)
  have l: "length [0 ..< length xs] = length ?X" by (simp add: linear_def)
  show ?thesis using attn_project_lengths [OF assms(1) l p] attn_project_heads [OF assms(1) l p] by (simp add: qkv linear_def)
qed

lemma length_attn_out:
  assumes "\<not> use_flashinfer kn" and "attn_ok ranks L w" and "ref_qkv kn nm w xs = Inr qkvs"
  shows "length (attn_out nm sc w qkvs) = length xs"
proof -
  have "length qkvs = length (at_o w)" "at_o w \<noteq> []" using assms(2,3) by (auto simp: attn_ok_def ref_qkv_nth)
  moreover have "length ys = length xs" if "ys \<in> set (map (rank_attention nm sc w) qkvs)" for ys
    using that ref_qkv_lengths [OF assms(1,3)] by (fastforce simp: rank_attention_def split: prod.splits)
  ultimately show ?thesis
    using row_forward_rows [of "at_o w" "map (rank_attention nm sc w) qkvs" "length xs" None] by (simp add: attn_out_def)
qed

text \<open>Positions and slots as the scheduler fills them in.\<close>

definition batch_ok :: "slot list list \<Rightarrow> heap \<Rightarrow> batch \<Rightarrow> rid list \<Rightarrow> bool" where
  "batch_ok table hp b rs \<longleftrightarrow> rs \<noteq> [] \<and> b_padded_reqs b = Some rs \<and>
     b_positions b = Some (tails (cached hp) (\<lambda>r. [0 ..< r_device_len (hp ! r)]) rs) \<and>
     b_out_loc b = Some (tails (cached hp) (row_slots table hp) rs)"

lemma attn_layer_exact:
  assumes "\<not> use_flashinfer kn" and "batch_ok table hp b rs" and "slots_ok N table hp rs" and "pool_ok L N p"
    and "0 < al_num_kv_heads al" and "al_num_qo_heads al mod al_num_kv_heads al = 0" and "al_layer_id al < L"
    and "\<And>r. r \<in> set rs \<Longrightarrow> length (Y r) = r_device_len (hp ! r) \<and>
       attn_project kn nm al [0 ..< r_device_len (hp ! r)] (Y r) = Inr (q r, k r, v r) \<and>
       kv_at p (al_layer_id al) (take (cached hp r) (row_slots table hp r)) (take (cached hp r) (k r)) (take (cached hp r) (v r))"
  obtains p' where "attn_layer_forward kn nm sc al table hp b (tails (cached hp) Y rs) p =
      Inr (tails (cached hp) (\<lambda>r. map concat (causal_attention nm sc (al_num_qo_heads al) (al_num_kv_heads al) (q r) (k r) (v r))) rs, p')"
    and "pool_ok L N p'" and "\<And>r. r \<in> set rs \<Longrightarrow> kv_at p' (al_layer_id al) (row_slots table hp r) (k r) (v r)"
    and "\<And>l' S k v. l' \<noteq> al_layer_id al \<or> set S \<inter> set (tails (cached hp) (row_slots table hp) rs) = {} \<Longrightarrow>
      kv_at p l' S k v \<Longrightarrow> kv_at p' l' S k v"
proof -
  let ?c = "cached hp" and ?P = "\<lambda>r. [0 ..< r_device_len (hp ! r)]"
  have rs: "rs \<noteq> []" using assms(2) by (simp add: batch_ok_def)
  have lens: "length (q r) = r_device_len (hp ! r) \<and> length (k r) = r_device_len (hp ! r) \<and> length (v r) = r_device_len (hp ! r) \<and>
      (\<forall>ks\<in>set (k r) \<union> set (v r). length ks = al_num_kv_heads al)" if r: "r \<in> set rs" for r
  proof -
    have l: "length (?P r) = length (Y r)" and p: "attn_project kn nm al (?P r) (Y r) = Inr (q r, k r, v r)"
      using assms(8) [OF r] by auto
    show ?thesis using attn_project_lengths [OF assms(1) l p] attn_project_heads [OF assms(1) l p] assms(8) [OF r] by simp
  qed
  have each: "project kn nm al (zip (?P r) (Y r)) = Inr (zip (q r) (zip (k r) (v r)))" if "r \<in> set rs" for r
    using assms(8) [OF that] attn_project_iff [OF assms(1), of "?P r" "Y r"] by simp
  have "project kn nm al (tails ?c (\<lambda>r. zip (?P r) (Y r)) rs) = Inr (tails ?c (\<lambda>r. zip (q r) (zip (k r) (v r))) rs)"
    by (rule rowwise_tails [OF rowwise_project [OF assms(1)] each rs])
  then have "project kn nm al (zip (tails ?c ?P rs) (tails ?c Y rs)) = Inr (zip (tails ?c q rs) (zip (tails ?c k rs) (tails ?c v rs)))"
    using assms(8) lens by (simp add: tails_zip)
  moreover have "length (tails ?c ?P rs) = length (tails ?c Y rs)" "length (tails ?c q rs) = length (tails ?c Y rs)"
    "length (tails ?c k rs) = length (tails ?c Y rs)" "length (tails ?c v rs) = length (tails ?c Y rs)"
    using assms(8) lens by (auto simp: length_tails intro!: arg_cong [where f = sum_list])
  ultimately have proj: "attn_project kn nm al (tails ?c ?P rs) (tails ?c Y rs) = Inr (tails ?c q rs, tails ?c k rs, tails ?c v rs)"
    using attn_project_iff [OF assms(1)] by blast
  have "length (q r) = r_device_len (hp ! r) \<and> length (k r) = r_device_len (hp ! r) \<and> length (v r) = r_device_len (hp ! r) \<and>
      (\<forall>ks\<in>set (k r) \<union> set (v r). length ks = al_num_kv_heads al) \<and>
      kv_at p (al_layer_id al) (take (?c r) (row_slots table hp r)) (take (?c r) (k r)) (take (?c r) (v r))" if "r \<in> set rs" for r
    using lens [OF that] assms(8) [OF that] by blast
  from torch_native_exact [OF assms(5,6) rs assms(3,4,7) this, where nm = nm and sc = sc]
  obtain p' where p': "torch_native_forward nm sc (al_num_qo_heads al) (al_num_kv_heads al) table hp rs
      (tails ?c (row_slots table hp) rs) (tails ?c q rs) (tails ?c k rs) (tails ?c v rs) (al_layer_id al) p =
      Inr (tails ?c (\<lambda>r. causal_attention nm sc (al_num_qo_heads al) (al_num_kv_heads al) (q r) (k r) (v r)) rs, p')"
    "pool_ok L N p'" "\<And>r. r \<in> set rs \<Longrightarrow> kv_at p' (al_layer_id al) (row_slots table hp r) (k r) (v r)"
    "\<And>l' S k v. l' \<noteq> al_layer_id al \<or> set S \<inter> set (tails ?c (row_slots table hp) rs) = {} \<Longrightarrow> kv_at p l' S k v \<Longrightarrow> kv_at p' l' S k v"
    by blast
  show ?thesis
  proof (rule that)
    show "attn_layer_forward kn nm sc al table hp b (tails ?c Y rs) p =
        Inr (tails ?c (\<lambda>r. map concat (causal_attention nm sc (al_num_qo_heads al) (al_num_kv_heads al) (q r) (k r) (v r))) rs, p')"
      using assms(2) proj p'(1) by (simp add: attn_layer_forward_def batch_ok_def tails_map)
  qed (use p' in blast)+
qed

end
