(* ===== verification/PagedModel.thy ===== *)
theory PagedModel
  imports DecoderExact
begin

text \<open>
  The whole model over a batch of tails against the pools of all ranks: the attention block, a layer, all
  layers, and the output head. The main result is that the batch gets what the reference decoder gives its sequences, and that the
  pools then hold the keys and values of all their tokens.
\<close>

section \<open>The attention block on all ranks\<close>

lemma res_map_choice:
  assumes "\<And>i. i < length xs \<Longrightarrow> \<exists>y. f (xs ! i) = Inr y \<and> P i y"
  obtains ys where "res_map f xs = Inr ys" and "length ys = length xs" and "\<And>i. i < length xs \<Longrightarrow> P i (ys ! i)"
proof -
  obtain g where g: "\<And>i. i < length xs \<Longrightarrow> f (xs ! i) = Inr (g i) \<and> P i (g i)" using assms by metis
  show ?thesis using g by (intro that [of "map g [0 ..< length xs]"]) (auto simp: res_map_iff_nth)
qed

definition pools_ok :: "nat \<Rightarrow> nat \<Rightarrow> nat \<Rightarrow> kv_pool list \<Rightarrow> bool" where
  "pools_ok ranks L N pools \<longleftrightarrow> length pools = ranks \<and> (\<forall>p\<in>set pools. pool_ok L N p)"

lemma rope_attn_exact:
  fixes rs :: "rid list" and table :: "slot list list" and hp :: heap and w :: attn_weights
  defines "lid \<equiv> al_layer_id (at_layer w)"
  assumes "\<not> use_flashinfer kn" and "batch_ok table hp b rs" and "slots_ok N table hp rs" and "pools_ok ranks L N pools"
    and "attn_ok ranks L w"
    and "\<And>r. r \<in> set rs \<Longrightarrow> length (X r) = r_device_len (hp ! r) \<and> ref_qkv kn nm w (X r) = Inr (Q r) \<and>
       kvs_at pools lid (take (cached hp r) (row_slots table hp r)) (map (take3 (cached hp r)) (Q r))"
  obtains pools' where "rope_attn_forward kn nm sc w table hp b (tails (cached hp) X rs) pools =
      Inr (tails (cached hp) (\<lambda>r. attn_out nm sc w (Q r)) rs, pools')"
    and "pools_ok ranks L N pools'" and "\<And>r. r \<in> set rs \<Longrightarrow> kvs_at pools' lid (row_slots table hp r) (Q r)"
    and "\<And>l' S Q. l' \<noteq> lid \<or> set S \<inter> set (tails (cached hp) (row_slots table hp) rs) = {} \<Longrightarrow>
      kvs_at pools l' S Q \<Longrightarrow> kvs_at pools' l' S Q"
proof -
  let ?c = "cached hp" and ?al = "at_layer w"
  let ?W = "\<lambda>i. linear (at_qkv w ! i) (map_option (\<lambda>bs. bs ! i) (at_qkv_bias w))"
  let ?O = "\<lambda>i r. rank_attention nm sc w (Q r ! i)"
  let ?zs = "zip (col_forward (at_qkv w) (at_qkv_bias w) (tails ?c X rs)) pools"
  let ?f = "\<lambda>(qkv, p). attn_layer_forward kn nm sc ?al table hp b qkv p"
  let ?P = "\<lambda>i op. fst op = tails ?c (?O i) rs \<and> pool_ok L N (snd op) \<and>
      (\<forall>r\<in>set rs. kv_at (snd op) lid (row_slots table hp r) (fst (snd (Q r ! i))) (snd (snd (Q r ! i)))) \<and>
      (\<forall>l' S k v. l' \<noteq> lid \<or> set S \<inter> set (tails ?c (row_slots table hp) rs) = {} \<longrightarrow> kv_at (pools ! i) l' S k v \<longrightarrow> kv_at (snd op) l' S k v)"
  have n: "length (at_qkv w) = ranks" "length (at_o w) = ranks" "length pools = ranks" "0 < ranks"
    using assms(5,6) by (auto simp: attn_ok_def pools_ok_def)
  have lenQ: "length (Q r) = ranks" if "r \<in> set rs" for r using assms(7) [OF that] n(1) by (simp add: ref_qkv_nth)
  have rank: "\<exists>op. ?f (?zs ! i) = Inr op \<and> ?P i op" if i: "i < length ?zs" for i
  proof -
    have i': "i < ranks" "i < length (at_qkv w)" using i n by auto
    have z: "?zs ! i = (tails ?c (\<lambda>r. ?W i (X r)) rs, pools ! i)"
      using i' n by (simp add: nth_col_forward linear_def tails_map)
    have each: "length (?W i (X r)) = r_device_len (hp ! r) \<and>
        attn_project kn nm ?al [0 ..< r_device_len (hp ! r)] (?W i (X r)) =
          Inr (fst (Q r ! i), fst (snd (Q r ! i)), snd (snd (Q r ! i))) \<and>
        kv_at (pools ! i) (al_layer_id ?al) (take (?c r) (row_slots table hp r)) (take (?c r) (fst (snd (Q r ! i))))
          (take (?c r) (snd (snd (Q r ! i))))" if r: "r \<in> set rs" for r
      using assms(7) [OF r] i' n lenQ [OF r]
      by (auto simp: ref_qkv_nth kvs_at_def take3_def linear_def case_prod_unfold lid_def)
    have al: "pool_ok L N (pools ! i)" "0 < al_num_kv_heads ?al" "al_num_qo_heads ?al mod al_num_kv_heads ?al = 0" "al_layer_id ?al < L"
      using assms(5,6) i' n by (auto simp: attn_ok_def pools_ok_def)
    show ?thesis
    proof (rule attn_layer_exact [OF assms(2-4) al each])
      fix p' assume "attn_layer_forward kn nm sc ?al table hp b (tails ?c (\<lambda>r. ?W i (X r)) rs) (pools ! i) =
          Inr (tails ?c (\<lambda>r. map concat (causal_attention nm sc (al_num_qo_heads ?al) (al_num_kv_heads ?al)
            (fst (Q r ! i)) (fst (snd (Q r ! i))) (snd (snd (Q r ! i))))) rs, p')"
        "pool_ok L N p'" "\<And>r. r \<in> set rs \<Longrightarrow> kv_at p' (al_layer_id ?al) (row_slots table hp r) (fst (snd (Q r ! i))) (snd (snd (Q r ! i)))"
        "\<And>l' S k v. l' \<noteq> al_layer_id ?al \<or> set S \<inter> set (tails ?c (row_slots table hp) rs) = {} \<Longrightarrow>
          kv_at (pools ! i) l' S k v \<Longrightarrow> kv_at p' l' S k v"
      then show ?thesis unfolding z lid_def rank_attention_def case_prod_unfold by (intro exI [of _ "(_, p')"]) auto
    qed
  qed
  obtain os where os: "res_map ?f ?zs = Inr os" "length os = length ?zs" "\<And>i. i < length ?zs \<Longrightarrow> ?P i (os ! i)"
    using res_map_choice [of ?zs ?f ?P, OF rank] by blast
  have len: "length os = ranks" using os(2) n by simp
  have P: "?P i (os ! i)" if "i < ranks" for i using os(3) that n by simp
  have fsts: "map fst os = map (\<lambda>i. tails ?c (?O i) rs) [0 ..< ranks]" using P len by (intro nth_equalityI) auto
  have "row_forward (at_o w) None (map fst os) = tails ?c (\<lambda>r. row_forward (at_o w) None (map (\<lambda>i. ?O i r) [0 ..< ranks])) rs"
    unfolding fsts
  proof (rule row_forward_tails [where n = "\<lambda>r. r_device_len (hp ! r)"])
    fix r i assume r: "r \<in> set rs" and "i \<in> set [0 ..< ranks]"
    then have "Q r ! i \<in> set (Q r)" using lenQ by auto
    moreover have "ref_qkv kn nm w (X r) = Inr (Q r)" "length (X r) = r_device_len (hp ! r)" using assms(7) [OF r] by auto
    ultimately have "length (fst (Q r ! i)) = r_device_len (hp ! r)" using ref_qkv_lengths [OF assms(2)] by metis
    then show "length (?O i r) = r_device_len (hp ! r)" by (simp add: rank_attention_def case_prod_unfold)
  qed (use n in auto)
  also have "\<dots> = tails ?c (\<lambda>r. attn_out nm sc w (Q r)) rs"
  proof (rule tails_cong)
    fix r assume "r \<in> set rs"
    then have "map (\<lambda>i. ?O i r) [0 ..< ranks] = map (rank_attention nm sc w) (Q r)" using lenQ by (intro nth_equalityI) auto
    then show "row_forward (at_o w) None (map (\<lambda>i. ?O i r) [0 ..< ranks]) = attn_out nm sc w (Q r)" by (simp add: attn_out_def)
  qed
  finally have out: "row_forward (at_o w) None (map fst os) = tails ?c (\<lambda>r. attn_out nm sc w (Q r)) rs" .
  show ?thesis
  proof (rule that [of "map snd os"])
    show "rope_attn_forward kn nm sc w table hp b (tails ?c X rs) pools = Inr (tails ?c (\<lambda>r. attn_out nm sc w (Q r)) rs, map snd os)"
      using os(1) out by (simp add: rope_attn_forward_def)
    show "pools_ok ranks L N (map snd os)" using P len by (auto simp: pools_ok_def in_set_conv_nth) (metis snd_conv)
    show "kvs_at (map snd os) lid (row_slots table hp r) (Q r)" if "r \<in> set rs" for r
      using that P len lenQ by (auto simp: kvs_at_def)
    show "kvs_at (map snd os) l' S Q'" if "l' \<noteq> lid \<or> set S \<inter> set (tails ?c (row_slots table hp) rs) = {}" "kvs_at pools l' S Q'" for l' S Q'
      using that P len n by (auto simp: kvs_at_def)
  qed
qed

section \<open>A layer\<close>

definition layer_ok :: "nat \<Rightarrow> nat \<Rightarrow> layer_weights \<Rightarrow> bool" where
  "layer_ok ranks L w \<longleftrightarrow> attn_ok ranks L (ly_attn w) \<and>
     (case ly_mlp w of GatedMLP gu down a \<Rightarrow> down \<noteq> [] \<and> length gu = length down
      | MoEMLP g w1s w2s k ren \<Rightarrow> w1s \<noteq> [] \<and> length w1s = length w2s)"

text \<open>One layer on a whole sequence, in the native case.\<close>

lemma ref_layer_native:
  assumes "\<not> use_flashinfer kn"
  shows "ref_layer kn nm sc w (x, residual_of first r) = Inr st \<longleftrightarrow>
    (\<exists>Q y. let h = summed first x r in
       ref_qkv kn nm (ly_attn w) (map (rmsnorm_cpu nm (fst (ly_input_norm w)) (snd (ly_input_norm w))) h) = Inr Q \<and>
       (let h2 = summed False (attn_out nm sc (ly_attn w) Q) h in
        mlp_forward kn nm (ly_mlp w) (map (rmsnorm_cpu nm (fst (ly_post_norm w)) (snd (ly_post_norm w))) h2) = Inr y \<and>
        st = (y, Some h2)))"
  using assms by (auto simp: ref_layer_def layer_input_def fused_native rbind_eq_Inr Let_def)

definition input_rows :: "numerics \<Rightarrow> layer_weights \<Rightarrow> bool \<Rightarrow> mat \<Rightarrow> mat \<Rightarrow> mat" where
  "input_rows nm w first x r = map (rmsnorm_cpu nm (fst (ly_input_norm w)) (snd (ly_input_norm w))) (summed first x r)"

lemma decoder_layer_exact:
  fixes rs :: "rid list" and table :: "slot list list" and hp :: heap and w :: layer_weights
  defines "lid \<equiv> al_layer_id (at_layer (ly_attn w))"
  assumes "\<not> use_flashinfer kn" and "batch_ok table hp b rs" and "slots_ok N table hp rs" and "pools_ok ranks L N pools"
    and "layer_ok ranks L w"
    and "\<And>r. r \<in> set rs \<Longrightarrow> length (X r) = r_device_len (hp ! r) \<and> length (R r) = r_device_len (hp ! r) \<and>
       ref_qkv kn nm (ly_attn w) (input_rows nm w first (X r) (R r)) = Inr (Q r) \<and>
       ref_layer kn nm sc w (X r, residual_of first (R r)) = Inr (X' r, Some (R' r)) \<and>
       kvs_at pools lid (take (cached hp r) (row_slots table hp r)) (map (take3 (cached hp r)) (Q r))"
  obtains pools' where "decoder_layer_forward kn nm sc table hp b w
      ((tails (cached hp) X rs, residual_of first (tails (cached hp) R rs)), pools) =
      Inr ((tails (cached hp) X' rs, Some (tails (cached hp) R' rs)), pools')"
    and "pools_ok ranks L N pools'" and "\<And>r. r \<in> set rs \<Longrightarrow> kvs_at pools' lid (row_slots table hp r) (Q r)"
    and "\<And>l' S Q. l' \<noteq> lid \<or> set S \<inter> set (tails (cached hp) (row_slots table hp) rs) = {} \<Longrightarrow>
      kvs_at pools l' S Q \<Longrightarrow> kvs_at pools' l' S Q"
    and "\<And>r. r \<in> set rs \<Longrightarrow> length (X' r) = r_device_len (hp ! r) \<and> length (R' r) = r_device_len (hp ! r)"
proof -
  let ?c = "cached hp" and ?S = "\<lambda>r. summed first (X r) (R r)" and ?a = "ly_attn w"
  let ?A = "\<lambda>r. input_rows nm w first (X r) (R r)" and ?B = "\<lambda>r. attn_out nm sc ?a (Q r)"
  let ?H = "\<lambda>r. summed False (?B r) (?S r)"
  let ?M = "\<lambda>r. map (rmsnorm_cpu nm (fst (ly_post_norm w)) (snd (ly_post_norm w))) (?H r)"
  have rs: "rs \<noteq> []" using assms(3) by (simp add: batch_ok_def)
  have ok: "attn_ok ranks L ?a" and mlp: "rowwise (mlp_forward kn nm (ly_mlp w))"
    using assms(6) rowwise_mlp by (auto simp: layer_ok_def)
  have A: "length (?A r) = r_device_len (hp ! r)" "length (?S r) = r_device_len (hp ! r)" if "r \<in> set rs" for r
    using assms(7) [OF that] by (simp_all add: input_rows_def length_summed)
  have B: "length (?B r) = r_device_len (hp ! r)" if "r \<in> set rs" for r
    using assms(7) [OF that] A [OF that] length_attn_out [OF assms(2) ok, of nm "?A r" "Q r" sc] by simp
  have M: "mlp_forward kn nm (ly_mlp w) (?M r) = Inr (X' r) \<and> R' r = ?H r" if r: "r \<in> set rs" for r
  proof -
    have q: "ref_qkv kn nm ?a (?A r) = Inr (Q r)" and l: "ref_layer kn nm sc w (X r, residual_of first (R r)) = Inr (X' r, Some (R' r))"
      using assms(7) [OF r] by auto
    show ?thesis using l q unfolding ref_layer_native [OF assms(2)] by (auto simp: Let_def input_rows_def)
  qed
  have "length (?A r) = r_device_len (hp ! r) \<and> ref_qkv kn nm ?a (?A r) = Inr (Q r) \<and>
      kvs_at pools lid (take (?c r) (row_slots table hp r)) (map (take3 (?c r)) (Q r))" if "r \<in> set rs" for r
    using assms(7) [OF that] A [OF that] by blast
  from rope_attn_exact [OF assms(2-5) ok, folded lid_def, OF this, where sc = sc]
  obtain pools' where attn: "rope_attn_forward kn nm sc ?a table hp b (tails ?c ?A rs) pools = Inr (tails ?c ?B rs, pools')"
    "pools_ok ranks L N pools'" "\<And>r. r \<in> set rs \<Longrightarrow> kvs_at pools' lid (row_slots table hp r) (Q r)"
    "\<And>l' S Q. l' \<noteq> lid \<or> set S \<inter> set (tails ?c (row_slots table hp) rs) = {} \<Longrightarrow> kvs_at pools l' S Q \<Longrightarrow> kvs_at pools' l' S Q"
    by blast
  have s1: "summed first (tails ?c X rs) (tails ?c R rs) = tails ?c ?S rs"
    using assms(7) by (intro summed_tails) simp
  have s2: "summed False (tails ?c ?B rs) (tails ?c ?S rs) = tails ?c ?H rs"
    using A B by (intro summed_tails) simp
  have "mlp_forward kn nm (ly_mlp w) (tails ?c ?M rs) = Inr (tails ?c X' rs)"
    using M by (intro rowwise_tails [OF mlp _ rs]) blast
  then have m: "mlp_forward kn nm (ly_mlp w) (map (rmsnorm_cpu nm (fst (ly_post_norm w)) (snd (ly_post_norm w))) (tails ?c ?H rs)) =
      Inr (tails ?c X' rs)" by (simp add: tails_map)
  have "map (rmsnorm_cpu nm (fst (ly_input_norm w)) (snd (ly_input_norm w))) (tails ?c ?S rs) = tails ?c ?A rs"
    by (simp add: tails_map input_rows_def)
  then have "decoder_layer_forward kn nm sc table hp b w ((tails ?c X rs, residual_of first (tails ?c R rs)), pools) =
      Inr ((tails ?c X' rs, Some (tails ?c ?H rs)), pools')"
    using assms(2) attn(1) s1 s2 m by (simp add: decoder_layer_forward_def fused_native)
  moreover have "tails ?c ?H rs = tails ?c R' rs" using M by (intro tails_cong) simp
  ultimately have run: "decoder_layer_forward kn nm sc table hp b w ((tails ?c X rs, residual_of first (tails ?c R rs)), pools) =
      Inr ((tails ?c X' rs, Some (tails ?c R' rs)), pools')" by simp
  have "length (X' r) = r_device_len (hp ! r) \<and> length (R' r) = r_device_len (hp ! r)" if "r \<in> set rs" for r
    using M [OF that] rowwise_length [OF mlp] A [OF that] B [OF that] by (auto simp: length_summed)
  then show ?thesis using that run attn(2-4) by blast
qed

section \<open>All layers\<close>

text \<open>The layers are numbered in order.\<close>

definition layers_ok :: "nat \<Rightarrow> nat \<Rightarrow> nat \<Rightarrow> layer_weights list \<Rightarrow> bool" where
  "layers_ok ranks L l0 ws \<longleftrightarrow>
     (\<forall>j<length ws. layer_ok ranks L (ws ! j) \<and> al_layer_id (at_layer (ly_attn (ws ! j))) = l0 + j)"

lemma layers_ok_Cons:
  "layers_ok ranks L l0 (w # ws) \<longleftrightarrow>
     layer_ok ranks L w \<and> al_layer_id (at_layer (ly_attn w)) = l0 \<and> layers_ok ranks L (Suc l0) ws"
  by (auto simp: layers_ok_def less_Suc_eq_0_disj)

lemma ref_kvs_Cons:
  assumes "\<not> use_flashinfer kn"
  shows "ref_kvs kn nm sc (w # ws) (x, residual_of first r) = Inr Qs \<longleftrightarrow> (\<exists>Q x' r' Qs'.
     ref_qkv kn nm (ly_attn w) (input_rows nm w first x r) = Inr Q \<and>
     ref_layer kn nm sc w (x, residual_of first r) = Inr (x', Some r') \<and>
     ref_kvs kn nm sc ws (x', residual_of False r') = Inr Qs' \<and> Qs = Q # Qs')"
proof -
  have "\<exists>x' r'. st = (x', Some r')" if "ref_layer kn nm sc w (x, residual_of first r) = Inr st" for st
    using that unfolding ref_layer_native [OF assms] by (auto simp: Let_def)
  moreover have "layer_input kn nm w (x, residual_of first r) = Inr (input_rows nm w first x r, summed first x r)"
    using assms by (simp add: layer_input_def fused_native input_rows_def)
  moreover have "residual_of False r' = Some r'" for r' by (simp add: residual_of_def)
  ultimately show ?thesis by (auto simp: rbind_eq_Inr)
qed

lemma layers_exact:
  assumes "\<not> use_flashinfer kn" and "batch_ok table hp b rs" and "slots_ok N table hp rs" and "layers_ok ranks L l0 ws"
    and "pools_ok ranks L N pools"
    and "\<And>r. r \<in> set rs \<Longrightarrow> length (X r) = r_device_len (hp ! r) \<and> length (R r) = r_device_len (hp ! r) \<and>
       ref_kvs kn nm sc ws (X r, residual_of first (R r)) = Inr (Qs r) \<and>
       res_fold (ref_layer kn nm sc) ws (X r, residual_of first (R r)) = Inr (X' r, residual_of (first \<and> ws = []) (R' r)) \<and>
       (\<forall>j<length ws. kvs_at pools (l0 + j) (take (cached hp r) (row_slots table hp r)) (map (take3 (cached hp r)) (Qs r ! j)))"
  shows "\<exists>pools'. res_fold (decoder_layer_forward kn nm sc table hp b) ws
        ((tails (cached hp) X rs, residual_of first (tails (cached hp) R rs)), pools) =
        Inr ((tails (cached hp) X' rs, residual_of (first \<and> ws = []) (tails (cached hp) R' rs)), pools') \<and>
      pools_ok ranks L N pools' \<and> (\<forall>r\<in>set rs. \<forall>j<length ws. kvs_at pools' (l0 + j) (row_slots table hp r) (Qs r ! j)) \<and>
      (\<forall>l' S Q. l' \<notin> {l0 ..< l0 + length ws} \<or> set S \<inter> set (tails (cached hp) (row_slots table hp) rs) = {} \<longrightarrow>
        kvs_at pools l' S Q \<longrightarrow> kvs_at pools' l' S Q) \<and>
      (\<forall>r\<in>set rs. length (X' r) = r_device_len (hp ! r) \<and> (first \<and> ws = [] \<or> length (R' r) = r_device_len (hp ! r)))"
  using assms(4-6)
proof (induction ws arbitrary: l0 pools X R first Qs)
  case Nil
  have "X r = X' r \<and> (first \<or> R r = R' r)" if "r \<in> set rs" for r using Nil.prems(3) [OF that] by (auto simp: residual_of_def split: if_splits)
  then have "tails (cached hp) X rs = tails (cached hp) X' rs" "first \<or> tails (cached hp) R rs = tails (cached hp) R' rs"
    by (auto intro!: tails_cong)
  moreover have "length (X' r) = r_device_len (hp ! r) \<and> (first \<or> length (R' r) = r_device_len (hp ! r))" if "r \<in> set rs" for r
    using Nil.prems(3) [OF that] by (auto simp: residual_of_def split: if_splits)
  ultimately show ?case using Nil.prems by (auto simp: residual_of_def)
next
  case (Cons w ws)
  let ?c = "cached hp" and ?locs = "tails (cached hp) (row_slots table hp) rs"
  have w: "layer_ok ranks L w" "al_layer_id (at_layer (ly_attn w)) = l0" "layers_ok ranks L (Suc l0) ws"
    using Cons.prems(1) by (simp_all add: layers_ok_Cons)
  have "\<exists>Q x' r' Qs'. ref_qkv kn nm (ly_attn w) (input_rows nm w first (X r) (R r)) = Inr Q \<and>
      ref_layer kn nm sc w (X r, residual_of first (R r)) = Inr (x', Some r') \<and>
      ref_kvs kn nm sc ws (x', residual_of False r') = Inr Qs' \<and> Qs r = Q # Qs'" if "r \<in> set rs" for r
    using Cons.prems(3) [OF that] unfolding ref_kvs_Cons [OF assms(1)] by blast
  then obtain Q X1 R1 Qs1 where one: "\<And>r. r \<in> set rs \<Longrightarrow>
      ref_qkv kn nm (ly_attn w) (input_rows nm w first (X r) (R r)) = Inr (Q r) \<and>
      ref_layer kn nm sc w (X r, residual_of first (R r)) = Inr (X1 r, Some (R1 r)) \<and>
      ref_kvs kn nm sc ws (X1 r, residual_of False (R1 r)) = Inr (Qs1 r) \<and> Qs r = Q r # Qs1 r"
    by metis
  have "length (X r) = r_device_len (hp ! r) \<and> length (R r) = r_device_len (hp ! r) \<and>
      ref_qkv kn nm (ly_attn w) (input_rows nm w first (X r) (R r)) = Inr (Q r) \<and>
      ref_layer kn nm sc w (X r, residual_of first (R r)) = Inr (X1 r, Some (R1 r)) \<and>
      kvs_at pools (al_layer_id (at_layer (ly_attn w))) (take (?c r) (row_slots table hp r)) (map (take3 (?c r)) (Q r))"
    if "r \<in> set rs" for r using Cons.prems(3) [OF that] one [OF that] w(2) by auto
  from decoder_layer_exact [OF assms(1-3) Cons.prems(2) w(1) this]
  obtain pools1 where p1: "decoder_layer_forward kn nm sc table hp b w ((tails ?c X rs, residual_of first (tails ?c R rs)), pools) =
      Inr ((tails ?c X1 rs, Some (tails ?c R1 rs)), pools1)" "pools_ok ranks L N pools1"
    and at1: "\<And>r. r \<in> set rs \<Longrightarrow> kvs_at pools1 l0 (row_slots table hp r) (Q r)"
    and fr1: "\<And>l' S Q. l' \<noteq> l0 \<or> set S \<inter> set ?locs = {} \<Longrightarrow> kvs_at pools l' S Q \<Longrightarrow> kvs_at pools1 l' S Q"
    and len1: "\<And>r. r \<in> set rs \<Longrightarrow> length (X1 r) = r_device_len (hp ! r) \<and> length (R1 r) = r_device_len (hp ! r)"
    unfolding w(2) by blast
  have "length (X1 r) = r_device_len (hp ! r) \<and> length (R1 r) = r_device_len (hp ! r) \<and>
      ref_kvs kn nm sc ws (X1 r, residual_of False (R1 r)) = Inr (Qs1 r) \<and>
      res_fold (ref_layer kn nm sc) ws (X1 r, residual_of False (R1 r)) = Inr (X' r, residual_of (False \<and> ws = []) (R' r)) \<and>
      (\<forall>j<length ws. kvs_at pools1 (Suc l0 + j) (take (?c r) (row_slots table hp r)) (map (take3 (?c r)) (Qs1 r ! j)))"
    if r: "r \<in> set rs" for r
  proof -
    have "kvs_at pools (l0 + Suc j) (take (?c r) (row_slots table hp r)) (map (take3 (?c r)) (Qs r ! Suc j))" if "j < length ws" for j
      using Cons.prems(3) [OF r] that by auto
    then show ?thesis using Cons.prems(3) [OF r] one [OF r] len1 [OF r] fr1 by (simp add: residual_of_def)
  qed
  from Cons.IH [OF w(3) p1(2) this] obtain pools' where
    p': "res_fold (decoder_layer_forward kn nm sc table hp b) ws ((tails ?c X1 rs, residual_of False (tails ?c R1 rs)), pools1) =
      Inr ((tails ?c X' rs, residual_of False (tails ?c R' rs)), pools')" "pools_ok ranks L N pools'"
    and at': "\<forall>r\<in>set rs. \<forall>j<length ws. kvs_at pools' (Suc l0 + j) (row_slots table hp r) (Qs1 r ! j)"
    and fr': "\<forall>l' S Q. l' \<notin> {Suc l0 ..< Suc l0 + length ws} \<or> set S \<inter> set ?locs = {} \<longrightarrow> kvs_at pools1 l' S Q \<longrightarrow> kvs_at pools' l' S Q"
    and len': "\<forall>r\<in>set rs. length (X' r) = r_device_len (hp ! r) \<and> length (R' r) = r_device_len (hp ! r)"
    by auto
  have "kvs_at pools' (l0 + j) (row_slots table hp r) (Qs r ! j)" if r: "r \<in> set rs" and j: "j < length (w # ws)" for r j
  proof (cases j)
    case 0
    then show ?thesis using at1 [OF r] fr' one [OF r] by simp
  next
    case (Suc i)
    then show ?thesis using at' r j one [OF r] by auto
  qed
  moreover have "kvs_at pools' l' S Q" if "l' \<notin> {l0 ..< l0 + length (w # ws)} \<or> set S \<inter> set ?locs = {}" "kvs_at pools l' S Q" for l' S Q
    using that fr1 fr' by auto
  moreover have "res_fold (decoder_layer_forward kn nm sc table hp b) (w # ws) ((tails ?c X rs, residual_of first (tails ?c R rs)), pools) =
      Inr ((tails ?c X' rs, residual_of (first \<and> w # ws = []) (tails ?c R' rs)), pools')"
    using p1(1) p'(1) by (simp add: residual_of_def)
  ultimately show ?case using p'(2) len' by blast
qed

end
