(* ===== verification/ModelProps.thy ===== *)
theory ModelProps
  imports PagedModel
begin

text \<open>
  Causality of the reference decoder, so that what is cached for a prefix serves every sequence that starts
  with it, and the correctness of a forward step over a batch.
\<close>

section \<open>Causality\<close>

lemma zip_upt_take: "length xs = n \<Longrightarrow> zip [0 ..< length (take c xs)] (take c xs) = take c (zip [0 ..< n] xs)"
  by (rule nth_equalityI) auto

lemma ref_qkv_take:
  assumes "\<not> use_flashinfer kn" and "ref_qkv kn nm w xs = Inr Q"
  shows "ref_qkv kn nm w (take c xs) = Inr (map (take3 c) Q)"
  unfolding ref_qkv_nth
proof (intro conjI allI impI)
  show "length (map (take3 c) Q) = length (at_qkv w)" using assms(2) by (simp add: ref_qkv_nth)
  fix i assume i: "i < length (at_qkv w)"
  let ?W = "linear (at_qkv w ! i) (map_option (\<lambda>bs. bs ! i) (at_qkv_bias w))"
  obtain q k v where Q: "Q ! i = (q, k, v)" by (cases "Q ! i")
  have len: "length (?W xs) = length xs" and W: "?W (take c xs) = take c (?W xs)" by (simp_all add: linear_def take_map)
  have "attn_project kn nm (at_layer w) [0 ..< length xs] (?W xs) = Inr (q, k, v)"
    using assms(2) i Q by (simp add: ref_qkv_nth)
  then have p: "project kn nm (at_layer w) (zip [0 ..< length xs] (?W xs)) = Inr (zip q (zip k v))"
    "length q = length xs" "length k = length xs" "length v = length xs"
    using attn_project_iff [OF assms(1), of "[0 ..< length xs]" "?W xs"] len by auto
  have "project kn nm (at_layer w) (zip [0 ..< length (take c xs)] (take c (?W xs))) =
      Inr (zip (take c q) (zip (take c k) (take c v)))"
    using rowwise_take [OF rowwise_project [OF assms(1)] p(1), of c] zip_upt_take [OF len, of c] len by (simp add: take_zip)
  then have "attn_project kn nm (at_layer w) [0 ..< length (take c xs)] (take c (?W xs)) = Inr (take c q, take c k, take c v)"
    using attn_project_iff [OF assms(1), of "[0 ..< length (take c xs)]" "take c (?W xs)"] len p(2-4) by simp
  then show "attn_project kn nm (at_layer w) [0 ..< length (take c xs)] (?W (take c xs)) = Inr (map (take3 c) Q ! i)"
    using i Q assms(2) by (simp add: W take3_def ref_qkv_nth)
qed

lemma attn_out_take:
  assumes "\<not> use_flashinfer kn" and "attn_ok ranks L w" and "ref_qkv kn nm w xs = Inr Q"
  shows "attn_out nm sc w (map (take3 c) Q) = take c (attn_out nm sc w Q)"
proof -
  let ?a = "rank_attention nm sc w"
  have rank: "?a (take3 c qkv) = take c (?a qkv)" for qkv
    by (cases qkv) (simp add: rank_attention_def take3_def causal_attention_take take_map)
  have len: "length ys = length xs" if "ys \<in> set (map ?a Q)" for ys
    using that ref_qkv_lengths [OF assms(1,3)] by (fastforce simp: rank_attention_def split: prod.splits)
  have Q: "at_o w \<noteq> []" "length (map ?a Q) = length (at_o w)" using assms(2,3) by (auto simp: attn_ok_def ref_qkv_nth)
  have "row_forward (at_o w) None (map (take c) (map ?a Q)) = take c (row_forward (at_o w) None (map ?a Q))"
  proof (cases "c \<le> length xs")
    case True
    show ?thesis by (rule row_forward_take [OF Q len True])
  next
    case False
    then have e: "map (take c) (map ?a Q) = map ?a Q" using len by (intro map_idI) auto
    have "length (row_forward (at_o w) None (map ?a Q)) = length xs"
      using row_forward_rows [OF Q len] by simp
    then show ?thesis unfolding e using False by simp
  qed
  then show ?thesis by (simp add: attn_out_def comp_def rank)
qed

lemma input_rows_take: "input_rows nm w first (take c x) (take c r) = take c (input_rows nm w first x r)"
  by (simp add: input_rows_def summed_take take_map)

lemma ref_layer_take:
  assumes "\<not> use_flashinfer kn" and "layer_ok ranks L w"
    and "ref_layer kn nm sc w (x, residual_of first r) = Inr (y, Some h)"
  shows "ref_layer kn nm sc w (take c x, residual_of first (take c r)) = Inr (take c y, Some (take c h))"
proof -
  have ok: "attn_ok ranks L (ly_attn w)" and mlp: "rowwise (mlp_forward kn nm (ly_mlp w))"
    using assms(2) rowwise_mlp by (auto simp: layer_ok_def)
  obtain Q where Q: "ref_qkv kn nm (ly_attn w) (input_rows nm w first x r) = Inr Q"
    and h: "h = summed False (attn_out nm sc (ly_attn w) Q) (summed first x r)"
    and y: "mlp_forward kn nm (ly_mlp w) (map (rmsnorm_cpu nm (fst (ly_post_norm w)) (snd (ly_post_norm w))) h) = Inr y"
    using assms(3) unfolding ref_layer_native [OF assms(1)] by (auto simp: Let_def input_rows_def)
  have "ref_qkv kn nm (ly_attn w) (input_rows nm w first (take c x) (take c r)) = Inr (map (take3 c) Q)"
    using ref_qkv_take [OF assms(1) Q, of c] by (simp add: input_rows_take)
  note Q' = this [unfolded input_rows_def]
  show ?thesis unfolding ref_layer_native [OF assms(1)] Let_def
    by (rule exI [of _ "map (take3 c) Q"], rule exI [of _ "take c y"])
      (use Q' rowwise_take [OF mlp y, of c] in \<open>simp add: attn_out_take [OF assms(1) ok Q] summed_take h take_map\<close>)
qed

lemma ref_kvs_take:
  assumes "\<not> use_flashinfer kn" and "layers_ok ranks L l0 ws" and "ref_kvs kn nm sc ws (x, residual_of first r) = Inr Qs"
  shows "ref_kvs kn nm sc ws (take c x, residual_of first (take c r)) = Inr (map (map (take3 c)) Qs)"
  using assms(2,3)
proof (induction ws arbitrary: l0 x r first Qs)
  case (Cons w ws)
  then obtain Q x' r' Qs' where one: "ref_qkv kn nm (ly_attn w) (input_rows nm w first x r) = Inr Q"
    "ref_layer kn nm sc w (x, residual_of first r) = Inr (x', Some r')"
    "ref_kvs kn nm sc ws (x', residual_of False r') = Inr Qs'" "Qs = Q # Qs'"
    unfolding ref_kvs_Cons [OF assms(1)] by blast
  have w: "layer_ok ranks L w" "layers_ok ranks L (Suc l0) ws" using Cons.prems(1) by (simp_all add: layers_ok_Cons)
  show ?case
    unfolding ref_kvs_Cons [OF assms(1)]
    using ref_qkv_take [OF assms(1) one(1), of c] ref_layer_take [OF assms(1) w(1) one(2), of c] Cons.IH [OF w(2) one(3)] one(4)
    by (auto simp: input_rows_take)
qed simp

lemma ref_kvs_exists:
  assumes "\<not> use_flashinfer kn" and "res_fold (ref_layer kn nm sc) ws (x, residual_of first r) = Inr st"
  shows "\<exists>Qs. ref_kvs kn nm sc ws (x, residual_of first r) = Inr Qs \<and> length Qs = length ws"
  using assms(2)
proof (induction ws arbitrary: x r first)
  case (Cons w ws)
  then obtain st1 where st1: "ref_layer kn nm sc w (x, residual_of first r) = Inr st1" "res_fold (ref_layer kn nm sc) ws st1 = Inr st"
    by (auto simp: rbind_eq_Inr)
  obtain Q y h where "ref_qkv kn nm (ly_attn w) (input_rows nm w first x r) = Inr Q" and h: "st1 = (y, Some h)"
    using st1(1) unfolding ref_layer_native [OF assms(1)] by (auto simp: Let_def input_rows_def)
  moreover obtain Qs where "ref_kvs kn nm sc ws (y, residual_of False h) = Inr Qs" "length Qs = length ws"
    using Cons.IH [of y False h] st1(2) h by (auto simp: residual_of_def)
  ultimately show ?case unfolding ref_kvs_Cons [OF assms(1)] using st1(1) by fastforce
qed simp

section \<open>What the pools hold for a sequence\<close>

definition holds_tokens ::
  "kernels \<Rightarrow> numerics \<Rightarrow> rat \<Rightarrow> model_weights \<Rightarrow> kv_pool list \<Rightarrow> slot list \<Rightarrow> tok list \<Rightarrow> bool" where
  "holds_tokens kn nm sc w pools S ids \<longleftrightarrow>
     (\<exists>x Qs. embedding_forward (md_vocabs w) (md_embed w) ids = Inr x \<and> ref_kvs kn nm sc (md_layers w) (x, None) = Inr Qs \<and>
        (\<forall>j<length (md_layers w). kvs_at pools j S (Qs ! j)))"

definition model_ok :: "nat \<Rightarrow> nat \<Rightarrow> model_weights \<Rightarrow> bool" where
  "model_ok ranks L w \<longleftrightarrow> md_vocabs w \<noteq> [] \<and> length (md_embed w) = length (md_vocabs w) \<and> layers_ok ranks L 0 (md_layers w)"

lemma holds_prefix:
  assumes "\<not> use_flashinfer kn" and "model_ok ranks L w"
    and "embedding_forward (md_vocabs w) (md_embed w) ids = Inr x" and "ref_kvs kn nm sc (md_layers w) (x, None) = Inr Qs"
    and "length Qs = length (md_layers w)"
  shows "holds_tokens kn nm sc w pools S (take c ids) \<longleftrightarrow> (\<forall>j<length (md_layers w). kvs_at pools j S (map (take3 c) (Qs ! j)))"
proof -
  have "embedding_forward (md_vocabs w) (md_embed w) (take c ids) = Inr (take c x)"
    using assms(2,3) by (intro rowwise_take [OF rowwise_embedding]) (auto simp: model_ok_def)
  moreover have "ref_kvs kn nm sc (md_layers w) (take c x, None) = Inr (map (map (take3 c)) Qs)"
    using ref_kvs_take [OF assms(1), of ranks L 0 "md_layers w" nm sc x True x Qs c] assms(2,4)
    by (simp add: model_ok_def residual_of_def)
  ultimately show ?thesis using assms(5) by (simp add: holds_tokens_def)
qed

text \<open>Nothing need be cached for the empty prefix.\<close>

lemma holds_empty:
  assumes "\<not> use_flashinfer kn" and "model_ok ranks L w" and "pools_ok ranks L N pools" and "ref_model kn nm sc w ids = Inr H"
  shows "holds_tokens kn nm sc w pools [] []"
proof -
  obtain x st where x: "embedding_forward (md_vocabs w) (md_embed w) ids = Inr x"
    and st: "res_fold (ref_layer kn nm sc) (md_layers w) (x, None) = Inr st"
    using assms(4) by (auto simp: ref_model_def rbind_eq_Inr)
  obtain Qs where Qs: "ref_kvs kn nm sc (md_layers w) (x, None) = Inr Qs" "length Qs = length (md_layers w)"
    using ref_kvs_exists [OF assms(1), of nm sc "md_layers w" x True x] st by (auto simp: residual_of_def)
  have "kvs_at pools j [] (map (take3 0) (Qs ! j))" if "j < length (md_layers w)" for j
  proof -
    have "length (Qs ! j) = ranks"
      using that Qs(1) assms(2) [unfolded model_ok_def]
    proof -
      have "length Q = ranks" if "layers_ok ranks L l0 ws" "ref_kvs kn nm sc ws (x, residual_of first r) = Inr Qs" "Q \<in> set Qs" for l0 ws x r first Qs Q
        using that
      proof (induction ws arbitrary: l0 x r first Qs)
        case (Cons w ws)
        then show ?case unfolding ref_kvs_Cons [OF assms(1)] layers_ok_Cons
          by (auto simp: ref_qkv_nth layer_ok_def attn_ok_def)
      qed simp
      from this [of 0 "md_layers w" x True x Qs "Qs ! j"] show ?thesis
        using that Qs assms(2) by (simp add: model_ok_def residual_of_def)
    qed
    then show ?thesis using assms(3) by (simp add: kvs_at_def kv_at_def pools_ok_def index_select_def take3_def case_prod_unfold)
  qed
  then show ?thesis using holds_prefix [OF assms(1,2) x Qs, of pools "[]" 0] by simp
qed

section \<open>The last token of every request\<close>

lemma last_indices:
  assumes "\<And>r. r \<in> set rs \<Longrightarrow> q_len hp r = length (X r) - c r \<and> c r < length (X r)"
  shows "res_map (py_index (pre @ tails c X rs)) (map (\<lambda>n. int n - 1) (prefix_sums (length pre) (map (q_len hp) rs))) =
    Inr (map (\<lambda>r. last (X r)) rs)"
  using assms
proof (induction rs arbitrary: pre)
  case (Cons r rs)
  let ?d = "drop (c r) (X r)"
  have r: "q_len hp r = length ?d" "?d \<noteq> []" "last ?d = last (X r)" using Cons.prems [of r] by (auto simp: last_drop)
  obtain ys where d: "?d = ys @ [last (X r)]" using r(2,3) by (metis append_butlast_last_id)
  have "py_index (pre @ ?d @ tails c X rs) (int (length pre + length ?d) - 1) = Inr (last ?d)"
    by (simp add: d py_index_def nth_append nat_add_distrib)
  moreover have "res_map (py_index ((pre @ ?d) @ tails c X rs)) (map (\<lambda>n. int n - 1) (prefix_sums (length (pre @ ?d)) (map (q_len hp) rs))) =
      Inr (map (\<lambda>r. last (X r)) rs)" using Cons.prems by (intro Cons.IH) auto
  ultimately show ?case by (simp add: r(1,3) del: length_drop)
qed simp

lemma tails_single:
  "(\<And>r. r \<in> set rs \<Longrightarrow> length (X r) = c r + 1) \<Longrightarrow> tails c X rs = map (\<lambda>r. last (X r)) rs"
proof (induction rs)
  case (Cons r rs)
  have "drop (c r) (X r) = [last (X r)]"
    using Cons.prems [of r] by (cases "X r" rule: rev_cases) auto
  then show ?case using Cons by simp
qed simp

lemma fold_residual:
  assumes "\<not> use_flashinfer kn" and "res_fold (ref_layer kn nm sc) ws (x, residual_of first r) = Inr st"
  shows "\<exists>x' r'. st = (x', residual_of (first \<and> ws = []) r')"
  using assms(2)
proof (induction ws arbitrary: x r first)
  case (Cons w ws)
  then obtain st1 where st1: "ref_layer kn nm sc w (x, residual_of first r) = Inr st1" "res_fold (ref_layer kn nm sc) ws st1 = Inr st"
    by (auto simp: rbind_eq_Inr)
  then obtain y h where "st1 = (y, residual_of False h)"
    unfolding ref_layer_native [OF assms(1)] by (auto simp: Let_def residual_of_def)
  then show ?case using Cons.IH [of y False h] st1(2) by simp
qed auto

text \<open>What the reference does to a sequence, in the form the batch follows it.\<close>

lemma ref_model_parts:
  assumes "\<not> use_flashinfer kn" and "model_ok ranks L w" and "ref_model kn nm sc w ids = Inr H"
  obtains x x' r' Qs where "embedding_forward (md_vocabs w) (md_embed w) ids = Inr x" and "length x = length ids"
    and "res_fold (ref_layer kn nm sc) (md_layers w) (x, residual_of True x) = Inr (x', residual_of (True \<and> md_layers w = []) r')"
    and "ref_kvs kn nm sc (md_layers w) (x, residual_of True x) = Inr Qs" and "length Qs = length (md_layers w)"
    and "H = map (rmsnorm_cpu nm (fst (md_norm w)) (snd (md_norm w))) (summed (md_layers w = []) x' r')"
proof -
  have none: "residual_of True x = None" for x by (simp add: residual_of_def)
  obtain x st where x: "embedding_forward (md_vocabs w) (md_embed w) ids = Inr x"
    and st: "res_fold (ref_layer kn nm sc) (md_layers w) (x, residual_of True x) = Inr st"
    and H: "\<exists>y. rmsnorm_fused_forward kn nm (fst (md_norm w)) (snd (md_norm w)) (fst st) (snd st) = Inr (H, y)"
    using assms(3) by (auto simp: ref_model_def rbind_eq_Inr none case_prod_unfold)
  obtain x' r' where st': "st = (x', residual_of (True \<and> md_layers w = []) r')" using fold_residual [OF assms(1) st] by blast
  moreover have "length x = length ids"
    using assms(2) x by (intro rowwise_length [OF rowwise_embedding]) (auto simp: model_ok_def)
  moreover obtain Qs where "ref_kvs kn nm sc (md_layers w) (x, residual_of True x) = Inr Qs" "length Qs = length (md_layers w)"
    using ref_kvs_exists [OF assms(1) st] by blast
  ultimately show ?thesis using that x st H fused_native(1) [OF assms(1)] by auto
qed

section \<open>A forward step is exact\<close>

text \<open>
  C2: paged, batched and incremental inference computes the model. Take a batch in which every request
  has a cached prefix that the pools of all ranks hold (in whatever slots, shared with other requests or not) and some new
  tokens in slots of its own. Then the forward pass returns the logits of the last hidden row the plain causal decoder
  gives each whole sequence; afterwards the pools hold every token of the batch, and still every sequence whose slots were not
  written. Applied step by step from empty prefixes, prefilling in chunks, decoding and sharing
  prefixes change nothing about what is computed.
\<close>

theorem paged_forward_exact:
  fixes rs :: "rid list" and table :: "slot list list" and hp :: heap
  defines "locs \<equiv> tails (cached hp) (row_slots table hp) rs"
  assumes "\<not> use_flashinfer kn" and "model_ok ranks L w" and "pools_ok ranks L N pools"
    and "batch_ok table hp b rs" and "slots_ok N table hp rs" and "b_reqs b = rs"
    and "b_input_ids b = Some (tails (cached hp) ids rs)"
    and "\<forall>r\<in>set rs. length (ids r) = r_device_len (hp ! r) \<and> ref_model kn nm sc w (ids r) = Inr (H r) \<and>
       holds_tokens kn nm sc w pools (take (cached hp r) (row_slots table hp r)) (take (cached hp r) (ids r))"
    and "is_prefill b \<or> (\<forall>r\<in>set rs. r_device_len (hp ! r) = cached hp r + 1)"
  shows "\<exists>pools'. causal_lm_forward kn nm sc w table hp b pools =
      Inr (lm_head_forward (length rs) (md_num_embeddings w) (head_weight w) None (map (\<lambda>r. last (H r)) rs), pools') \<and>
    pools_ok ranks L N pools' \<and> (\<forall>r\<in>set rs. holds_tokens kn nm sc w pools' (row_slots table hp r) (ids r)) \<and>
    (\<forall>S xs. set S \<inter> set locs = {} \<longrightarrow> holds_tokens kn nm sc w pools S xs \<longrightarrow> holds_tokens kn nm sc w pools' S xs)"
proof -
  let ?c = "cached hp" and ?n = "\<lambda>r. r_device_len (hp ! r)" and ?ws = "md_layers w"
  let ?emb = "embedding_forward (md_vocabs w) (md_embed w)"
  let ?norm = "map (rmsnorm_cpu nm (fst (md_norm w)) (snd (md_norm w)))"
  have rs: "rs \<noteq> []" using assms(5) by (simp add: batch_ok_def)
  have emb: "rowwise ?emb" using assms(3) by (intro rowwise_embedding) (auto simp: model_ok_def)
  have lo: "layers_ok ranks L 0 ?ws" using assms(3) by (simp add: model_ok_def)
  have "\<exists>x x' r' Qs. ?emb (ids r) = Inr x \<and> length x = ?n r \<and>
      res_fold (ref_layer kn nm sc) ?ws (x, residual_of True x) = Inr (x', residual_of (True \<and> ?ws = []) r') \<and>
      ref_kvs kn nm sc ?ws (x, residual_of True x) = Inr Qs \<and> length Qs = length ?ws \<and> H r = ?norm (summed (?ws = []) x' r')"
    if "r \<in> set rs" for r using assms(9) that by (metis ref_model_parts [OF assms(2,3)])
  then obtain X X' R' Qs where seq: "\<And>r. r \<in> set rs \<Longrightarrow> ?emb (ids r) = Inr (X r) \<and> length (X r) = ?n r \<and>
      res_fold (ref_layer kn nm sc) ?ws (X r, residual_of True (X r)) = Inr (X' r, residual_of (True \<and> ?ws = []) (R' r)) \<and>
      ref_kvs kn nm sc ?ws (X r, residual_of True (X r)) = Inr (Qs r) \<and> length (Qs r) = length ?ws \<and>
      H r = ?norm (summed (?ws = []) (X' r) (R' r))" by metis
  have holds: "holds_tokens kn nm sc w ps S (take n (ids r)) \<longleftrightarrow> (\<forall>j<length ?ws. kvs_at ps j S (map (take3 n) (Qs r ! j)))"
    if "r \<in> set rs" for ps S n r
    using seq [OF that] by (intro holds_prefix [OF assms(2,3)]) (auto simp: residual_of_def)
  have row: "row_ok table hp r" if "r \<in> set rs" for r using assms(6) that by (simp add: slots_ok_def Let_def)
  have "length (X r) = ?n r \<and> length (X r) = ?n r \<and> ref_kvs kn nm sc ?ws (X r, residual_of True (X r)) = Inr (Qs r) \<and>
      res_fold (ref_layer kn nm sc) ?ws (X r, residual_of True (X r)) = Inr (X' r, residual_of (True \<and> ?ws = []) (R' r)) \<and>
      (\<forall>j<length ?ws. kvs_at pools (0 + j) (take (?c r) (row_slots table hp r)) (map (take3 (?c r)) (Qs r ! j)))"
    if r: "r \<in> set rs" for r using seq [OF r] holds [OF r] assms(9) r by auto
  from layers_exact [OF assms(2,5,6) lo assms(4) this]
  obtain pools' where run: "res_fold (decoder_layer_forward kn nm sc table hp b) ?ws ((tails ?c X rs, residual_of True (tails ?c X rs)), pools) =
      Inr ((tails ?c X' rs, residual_of (True \<and> ?ws = []) (tails ?c R' rs)), pools')" and ok: "pools_ok ranks L N pools'"
    and at: "\<forall>r\<in>set rs. \<forall>j<length ?ws. kvs_at pools' (0 + j) (row_slots table hp r) (Qs r ! j)"
    and frame: "\<forall>l' S Q. l' \<notin> {0 ..< 0 + length ?ws} \<or> set S \<inter> set locs = {} \<longrightarrow> kvs_at pools l' S Q \<longrightarrow> kvs_at pools' l' S Q"
    and len: "\<forall>r\<in>set rs. length (X' r) = ?n r \<and> (True \<and> ?ws = [] \<or> length (R' r) = ?n r)"
    unfolding locs_def by blast
  have "?emb (tails ?c ids rs) = Inr (tails ?c X rs)" using seq by (intro rowwise_tails [OF emb _ rs]) blast
  moreover have "?norm (summed (?ws = []) (tails ?c X' rs) (tails ?c R' rs)) = tails ?c H rs"
  proof -
    have "summed (?ws = []) (tails ?c X' rs) (tails ?c R' rs) = tails ?c (\<lambda>r. summed (?ws = []) (X' r) (R' r)) rs"
    proof (cases "?ws = []")
      case False
      then show ?thesis using len by (intro summed_tails) auto
    qed (simp add: summed_def)
    then show ?thesis using seq by (auto simp: tails_map intro!: tails_cong)
  qed
  ultimately have out: "model_forward kn nm sc w table hp b (tails ?c ids rs) pools = Inr (tails ?c H rs, pools')"
    using run fused_native(1) [OF assms(2)] by (simp add: model_forward_def residual_of_def)
  have H: "length (H r) = ?n r" "q_len hp r = length (H r) - ?c r \<and> ?c r < length (H r)" if r: "r \<in> set rs" for r
  proof -
    show "length (H r) = ?n r" using seq [OF r] len r by (cases "?ws = []") (auto simp: summed_def)
    then show "q_len hp r = length (H r) - ?c r \<and> ?c r < length (H r)"
      using row [OF r] by (simp add: q_len_def row_ok_def cached_def)
  qed
  have "select_last (is_prefill b) (torch_native_get_last_indices (torch_native_prepare_metadata hp rs) (length rs)) (tails ?c H rs) =
      Inr (map (\<lambda>r. last (H r)) rs)"
  proof (cases "is_prefill b")
    case True
    then show ?thesis using last_indices [of rs hp H ?c "[]"] H
      by (simp add: select_last_def torch_native_get_last_indices_def torch_native_prepare_metadata_def)
  next
    case False
    then show ?thesis using tails_single [of rs H ?c] H assms(10) by (simp add: select_last_def)
  qed
  then have "causal_lm_forward kn nm sc w table hp b pools =
      Inr (lm_head_forward (length rs) (md_num_embeddings w) (head_weight w) None (map (\<lambda>r. last (H r)) rs), pools')"
    using out assms(5,7,8) by (simp add: causal_lm_forward_def batch_ok_def batch_size_def)
  moreover have "holds_tokens kn nm sc w pools' (row_slots table hp r) (ids r)" if r: "r \<in> set rs" for r
    using at seq [OF r] r by (auto simp: holds_tokens_def residual_of_def)
  moreover have "holds_tokens kn nm sc w pools' S xs" if "set S \<inter> set locs = {}" "holds_tokens kn nm sc w pools S xs" for S xs
    using that frame unfolding holds_tokens_def by blast
  ultimately show ?thesis using ok by blast
qed

section \<open>The batches the scheduler prepares\<close>

lemma gather_append:
  assumes "length is = length ps"
  shows "gather t (is @ js, ps @ qs) = Inr zs \<longleftrightarrow> (\<exists>xs ys. gather t (is, ps) = Inr xs \<and> gather t (js, qs) = Inr ys \<and> zs = xs @ ys)"
  using assms by (simp add: gather_def zip_append res_map_append)

lemma gather_row:
  assumes "gather t (replicate (n - c) i, [c ..< n]) = Inr xs" and "c < n"
  shows "i < length t \<and> n \<le> length (t ! i) \<and> xs = drop c (take n (t ! i))"
proof -
  have z: "zip (replicate (n - c) i) [c ..< n] = map (\<lambda>p. (i, p)) [c ..< n]" by (auto intro!: nth_equalityI)
  have cells: "\<forall>j<n - c. i < length t \<and> c + j < length (t ! i) \<and> xs ! j = t ! i ! (c + j)" and len: "length xs = n - c"
    using assms(1) unfolding gather_def fst_conv snd_conv z by (auto simp: res_map_iff_nth split: if_splits)
  have "n - 1 < length (t ! i)" "i < length t" using cells [THEN spec, of "n - 1 - c"] assms(2) by auto
  moreover have "xs = drop c (take n (t ! i))"
    using cells len calculation assms(2) by (intro nth_equalityI) auto
  ultimately show ?thesis by simp
qed

lemma gather_tails:
  assumes "gather t (make_input_rows hp rs, make_positions hp rs) = Inr xs" and "\<And>r. r \<in> set rs \<Longrightarrow> cached hp r < r_device_len (hp ! r)"
  shows "xs = tails (cached hp) (row_slots t hp) rs \<and> (\<forall>r\<in>set rs. row_ok t hp r)"
  using assms
proof (induction rs arbitrary: xs)
  case Nil
  then show ?case by (simp add: gather_def make_input_rows_def make_positions_def)
next
  case (Cons r rs)
  let ?c = "r_cached_len (hp ! r)" and ?n = "r_device_len (hp ! r)" and ?i = "r_table_idx (hp ! r)"
  have "gather t (replicate (?n - ?c) ?i @ make_input_rows hp rs, [?c ..< ?n] @ make_positions hp rs) = Inr xs"
    using Cons.prems(1) by (simp add: make_input_rows_def make_positions_def)
  then obtain ys zs where parts: "gather t (replicate (?n - ?c) ?i, [?c ..< ?n]) = Inr ys"
    "gather t (make_input_rows hp rs, make_positions hp rs) = Inr zs" "xs = ys @ zs"
    by (auto simp: gather_append)
  then show ?case using gather_row [OF parts(1)] Cons.IH [OF parts(2)] Cons.prems(2)
    by (auto simp: row_slots_def row_ok_def cached_def)
qed

lemma make_positions_tails: "make_positions hp rs = tails (cached hp) (\<lambda>r. [0 ..< r_device_len (hp ! r)]) rs"
  by (induction rs) (simp_all add: make_positions_def cached_def)

text \<open>
  C21: what the scheduler prepares is what the model wants. When the batch is prepared, its positions and slots are
  those of the new tokens of each request, in order, every row of the page table is wide enough, and the token ids read
  for the forward pass are the ids the token pool has at the same places.
\<close>

theorem prepared_batch_fits:
  assumes "prepare_body d s b = Inr fi" and "b_padded_reqs b = Some rs" and "rs \<noteq> []"
    and "\<forall>r\<in>set rs. r_cached_len (s_heap s ! r) < r_device_len (s_heap s ! r)"
    and "gather (tm_token_pool (s_tm s)) (fi_input fi) = Inr input_ids"
  shows "batch_ok (cm_table (s_cm s)) (s_heap s) (fi_batch fi) rs \<and>
    (\<forall>r\<in>set rs. row_ok (cm_table (s_cm s)) (s_heap s) r) \<and> b_reqs (fi_batch fi) = b_reqs b \<and>
    input_ids = tails (cached (s_heap s)) (\<lambda>r. take (r_device_len (s_heap s ! r)) (tm_token_pool (s_tm s) ! r_table_idx (s_heap s ! r))) rs"
proof -
  let ?hp = "s_heap s"
  have c: "cached ?hp r < r_device_len (?hp ! r)" if "r \<in> set rs" for r using assms(4) that by (simp add: cached_def)
  obtain out_loc where out: "gather (cm_table (s_cm s)) (make_input_rows ?hp rs, make_positions ?hp rs) = Inr out_loc"
    and fi: "fi_input fi = (make_input_rows ?hp rs, make_positions ?hp rs)" "b_reqs (fi_batch fi) = b_reqs b"
      "b_padded_reqs (fi_batch fi) = Some rs" "b_positions (fi_batch fi) = Some (make_positions ?hp rs)"
      "b_out_loc (fi_batch fi) = Some out_loc"
    using assms(1,2) by (auto simp: prepare_body_def Let_def rbind_eq_Inr)
  note slots = gather_tails [OF out c]
  have "input_ids = tails (cached ?hp) (row_slots (tm_token_pool (s_tm s)) ?hp) rs"
    using gather_tails [OF assms(5) [unfolded fi] c] by simp
  then show ?thesis using slots fi assms(3) by (simp add: batch_ok_def make_positions_tails row_slots_def [abs_def])
qed

text \<open>A small model on one rank: two dimensions, one head, one layer, three tokens in the vocabulary.\<close>

definition demo_numerics :: numerics where
  "demo_numerics = \<lparr>nm_exp = (\<lambda>x. 1 + x * x), nm_rsqrt = (\<lambda>x. 1), nm_cos = (\<lambda>x. 1), nm_sin = (\<lambda>x. 0),
     nm_pow = (\<lambda>b e. 1), nm_log = (\<lambda>x. 1), nm_pi = 3, nm_act = (\<lambda>a x. x), nm_softmax = (\<lambda>v. v), nm_topk = (\<lambda>k v. (v, []))\<rparr>"

definition demo_kernels :: kernels where
  "demo_kernels = \<lparr>kn_device = ''cuda'', kn_metax = True, kn_rmsnorm = None, kn_fused_add_rmsnorm = None,
     kn_silu_and_mul = None, kn_gelu_and_mul = None, kn_apply_rope = None\<rparr>"

definition demo_attn :: attn_layer where
  "demo_attn = \<lparr>al_layer_id = 0, al_head_dim = 2, al_num_qo_heads = 1, al_num_kv_heads = 1,
     al_rotary = \<lparr>ro_head_size = 2, ro_rotary_dim = 2, ro_cos_sin = [[1, 0], [0, 1], [- 1, 0]],
       ro_device = \<lparr>td_type = ''cuda'', td_index = Some 0\<rparr>\<rparr>, al_q_norm = None, al_k_norm = None\<rparr>"

definition demo_model :: model_weights where
  "demo_model = \<lparr>md_vocabs = [new_vocab 0 1 3], md_embed = [[[1, 0], [0, 1], [1, 1]]],
     md_layers = [\<lparr>ly_attn = \<lparr>at_qkv = [[[1, 0], [0, 1], [1, 1], [0, 1], [2, 0], [0, 3]]], at_qkv_bias = None,
         at_layer = demo_attn, at_o = [[[1, 0], [0, 1]]]\<rparr>,
       ly_mlp = GatedMLP [[[1, 0], [0, 1]]] [[[1], [2]]] Silu, ly_input_norm = ([1, 1], 0), ly_post_norm = ([1, 1], 0)\<rparr>],
     md_norm = ([1, 1], 0), md_num_embeddings = 3, md_lm_head = None\<rparr>"

definition chunk_pools :: "kv_pool list" where
  "chunk_pools = [\<lparr>kp_local_kv_heads = 1, kp_head_dim = 2, kp_num_layers = 1,
     kp_k = [replicate 5 [[9, 9]]], kp_v = [replicate 5 [[9, 9]]]\<rparr>]"

text \<open>One request that prefills two tokens and then decodes a third.\<close>

definition chunk_req :: "nat \<Rightarrow> nat \<Rightarrow> req" where
  "chunk_req c n = \<lparr>r_class = PlainReq, r_input_ids = take n [2, 0, 1], r_table_idx = 0, r_cached_len = c, r_device_len = n,
     r_max_device_len = 4, r_output_len = 2, r_uid = 7, r_sampling = default_sampling_params, r_handle = NaiveHandle\<rparr>"

definition demo_batch :: "phase \<Rightarrow> tok list \<Rightarrow> nat list \<Rightarrow> slot list \<Rightarrow> batch" where
  "demo_batch ph ids ps locs = \<lparr>b_reqs = [0], b_phase = ph, b_padded_reqs = Some [0], b_input_ids = Some ids,
     b_positions = Some ps, b_out_loc = Some locs\<rparr>"

lemmas demo_defs = batch_ok_def slots_ok_def row_ok_def row_slots_def cached_def chunk_req_def demo_batch_def

lemma demo_model_ok:
  "\<not> use_flashinfer demo_kernels" "model_ok 1 1 demo_model" "pools_ok 1 1 5 chunk_pools"
  by (simp_all add: use_flashinfer_def demo_kernels_def model_ok_def layers_ok_def layer_ok_def attn_ok_def demo_model_def
      demo_attn_def pools_ok_def pool_ok_def chunk_pools_def)

theorem paged_forward_exact_witness:
  "\<exists>pools1 pools2 x y.
     causal_lm_forward demo_kernels demo_numerics 1 demo_model [[4, 2, 0]] [chunk_req 0 2] (demo_batch Prefill [2, 0] [0, 1] [4, 2])
       chunk_pools = Inr (x, pools1) \<and>
     causal_lm_forward demo_kernels demo_numerics 1 demo_model [[4, 2, 0]] [chunk_req 2 3] (demo_batch Decode [1] [2] [0])
       pools1 = Inr (y, pools2) \<and>
     rbind (ref_model demo_kernels demo_numerics 1 demo_model [2, 0, 1]) (\<lambda>H. Inr (lm_head_forward 1 3 (md_embed demo_model) None [last H])) = Inr y"
proof -
  let ?ref = "ref_model demo_kernels demo_numerics 1 demo_model"
  have "case ?ref [2, 0] of Inl _ \<Rightarrow> False | Inr _ \<Rightarrow> True" by code_simp
  then obtain H where H: "?ref [2, 0] = Inr H" by (auto split: sum.splits)
  have "case ?ref [2, 0, 1] of Inl _ \<Rightarrow> False | Inr _ \<Rightarrow> True" by code_simp
  then obtain G where G: "?ref [2, 0, 1] = Inr G" by (auto split: sum.splits)
  have head: "md_num_embeddings demo_model = 3" "head_weight demo_model = md_embed demo_model"
    by (simp_all add: demo_model_def head_weight_def)
  let ?t = "[[4, 2, 0]] :: slot list list"
  have b1: "batch_ok ?t [chunk_req 0 2] (demo_batch Prefill [2, 0] [0, 1] [4, 2]) [0]" "slots_ok 5 ?t [chunk_req 0 2] [0]"
    "b_reqs (demo_batch Prefill [2, 0] [0, 1] [4, 2]) = [0]"
    "b_input_ids (demo_batch Prefill [2, 0] [0, 1] [4, 2]) = Some (tails (cached [chunk_req 0 2]) (\<lambda>_. [2, 0]) [0])"
    by (simp_all add: demo_defs upt_rec)
  have b2: "batch_ok ?t [chunk_req 2 3] (demo_batch Decode [1] [2] [0]) [0]" "slots_ok 5 ?t [chunk_req 2 3] [0]"
    "b_reqs (demo_batch Decode [1] [2] [0]) = [0]"
    "b_input_ids (demo_batch Decode [1] [2] [0]) = Some (tails (cached [chunk_req 2 3]) (\<lambda>_. [2, 0, 1]) [0])"
    by (simp_all add: demo_defs upt_rec)
  have "holds_tokens demo_kernels demo_numerics 1 demo_model chunk_pools [] []" by (rule holds_empty [OF demo_model_ok H])
  then have r1: "\<forall>r\<in>set [0]. length [2, 0 :: tok] = r_device_len ([chunk_req 0 2] ! r) \<and> ?ref [2, 0] = Inr H \<and>
      holds_tokens demo_kernels demo_numerics 1 demo_model chunk_pools (take (cached [chunk_req 0 2] r) (row_slots ?t [chunk_req 0 2] r))
        (take (cached [chunk_req 0 2] r) [2, 0])" using H by (simp add: demo_defs)
  have "is_prefill (demo_batch Prefill [2, 0] [0, 1] [4, 2]) \<or> (\<forall>r\<in>set [0]. r_device_len ([chunk_req 0 2] ! r) = cached [chunk_req 0 2] r + 1)"
    by (simp add: is_prefill_def demo_batch_def)
  from paged_forward_exact [OF demo_model_ok b1 r1 this]
  obtain pools1 where one: "causal_lm_forward demo_kernels demo_numerics 1 demo_model ?t [chunk_req 0 2]
      (demo_batch Prefill [2, 0] [0, 1] [4, 2]) chunk_pools = Inr (lm_head_forward (length [0 :: rid]) 3 (md_embed demo_model) None (map (\<lambda>r. last H) [0 :: rid]), pools1)"
    "pools_ok 1 1 5 pools1" "\<forall>r\<in>set [0]. holds_tokens demo_kernels demo_numerics 1 demo_model pools1 (row_slots ?t [chunk_req 0 2] r) [2, 0]"
    unfolding head by blast
  have r2: "\<forall>r\<in>set [0]. length [2, 0, 1 :: tok] = r_device_len ([chunk_req 2 3] ! r) \<and> ?ref [2, 0, 1] = Inr G \<and>
      holds_tokens demo_kernels demo_numerics 1 demo_model pools1 (take (cached [chunk_req 2 3] r) (row_slots ?t [chunk_req 2 3] r))
        (take (cached [chunk_req 2 3] r) [2, 0, 1])" using G one(3) by (simp add: demo_defs)
  have "is_prefill (demo_batch Decode [1] [2] [0]) \<or> (\<forall>r\<in>set [0]. r_device_len ([chunk_req 2 3] ! r) = cached [chunk_req 2 3] r + 1)"
    by (simp add: demo_defs)
  from paged_forward_exact [OF demo_model_ok(1,2) one(2) b2 r2 this]
  obtain pools2 where two: "causal_lm_forward demo_kernels demo_numerics 1 demo_model ?t [chunk_req 2 3]
      (demo_batch Decode [1] [2] [0]) pools1 = Inr (lm_head_forward (length [0 :: rid]) 3 (md_embed demo_model) None (map (\<lambda>r. last G) [0 :: rid]), pools2)"
    unfolding head by blast
  show ?thesis using one(1) two G by simp
qed

text \<open>The scheduler state those batches come from.\<close>

definition chunk_device :: "nat device" where
  "chunk_device = \<lparr>d_run = (\<lambda>b c. Inr []), d_samp = (\<lambda>a l. Inr ([], [])), d_attn = (\<lambda>b. Inr ()), d_vocab = 3, d_on_stream = True\<rparr>"

definition chunk_sched :: "unit sched" where
  "chunk_sched = \<lparr>s_cm = \<lparr>cm_free = [], cm_cache = (), cm_num_pages = 5, cm_page_size = 1, cm_table = [[4, 2, 0]], cm_lazy = None\<rparr>,
     s_tm = \<lparr>tm_free = [], tm_token_pool = [[2, 0, 1]]\<rparr>,
     s_engine = \<lparr>es_ctx = \<lparr>ctx_page_size = 1, ctx_batch = None\<rparr>, es_heap = [chunk_req 2 3]\<rparr>,
     s_graph = new_graph_runner (Some []) (Some 0) 0 0, s_pending = [], s_running = [0], s_finished = [], s_inflight = [],
     s_deferred = [], s_acks = [], s_eos = 9, s_prefill_budget = 8, s_max_seq_len = 3, s_sent = []\<rparr>"

theorem prepared_batch_fits_witness:
  "\<exists>fi. prepare_body chunk_device chunk_sched ((new_batch [0] Decode)\<lparr>b_padded_reqs := Some [0]\<rparr>) = Inr fi \<and>
     batch_ok [[4, 2, 0]] [chunk_req 2 3] (fi_batch fi) [0] \<and> b_out_loc (fi_batch fi) = Some [0] \<and> fi_input fi = ([0], [2])"
proof -
  let ?b = "(new_batch [0] Decode)\<lparr>b_padded_reqs := Some [0]\<rparr>"
  have "case prepare_body chunk_device chunk_sched ?b of Inl _ \<Rightarrow> False | Inr fi \<Rightarrow> b_out_loc (fi_batch fi) = Some [0] \<and> fi_input fi = ([0], [2])"
    by code_simp
  then obtain fi where fi: "prepare_body chunk_device chunk_sched ?b = Inr fi" "b_out_loc (fi_batch fi) = Some [0]" "fi_input fi = ([0], [2])"
    by (auto split: sum.splits)
  have b: "b_padded_reqs ?b = Some [0]" "[0 :: rid] \<noteq> []" by simp_all
  have r: "\<forall>r\<in>set [0]. r_cached_len (s_heap chunk_sched ! r) < r_device_len (s_heap chunk_sched ! r)" by code_simp
  have "gather (tm_token_pool (s_tm chunk_sched)) (fi_input fi) = Inr [1]" unfolding fi(3) by code_simp
  from prepared_batch_fits [OF fi(1) b r this] fi show ?thesis by (auto simp: chunk_sched_def)
qed

end
