(* ===== verification/Device.thy ===== *)
theory Device
  imports SchedIO PyText Engine
begin

text \<open>
  \<^verbatim>\<open>utils/device.py\<close>, \<^verbatim>\<open>utils/platform.py\<close>, \<^verbatim>\<open>utils/arch.py\<close>, \<^verbatim>\<open>utils/device_runtime.py\<close>, and \<^verbatim>\<open>distributed/\<close>: which device and
  platform a process runs on, the calls made to the vendor's runtime, and how a rank joins its group. A call to the
  vendor's \<^verbatim>\<open>torch.cuda\<close> or \<^verbatim>\<open>torch.distributed\<close> is recorded in a list; what it answers is a parameter.
\<close>

section \<open>The device type\<close>

text \<open>
  What the host answers: whether \<^verbatim>\<open>torch\<close> can be imported, what \<^verbatim>\<open>torch.cuda.is_available\<close> does, the version
  strings and the environment.
\<close>

record host =
  ho_torch :: bool
  ho_is_available :: "bool res"
  ho_torch_version :: string
  ho_cuda_version :: "string option"
  ho_capability :: "nat \<times> nat"
  ho_environ :: "string \<Rightarrow> string option"

definition probe_cuda :: "host \<Rightarrow> bool" where
  "probe_cuda h = (if \<not> ho_torch h then False else case ho_is_available h of Inl _ \<Rightarrow> False | Inr b \<Rightarrow> b)"

text \<open>\<^verbatim>\<open>functools.cache\<close>: the first answer is kept, an exception is not.\<close>

record probe_cache =
  pr_cuda :: "bool option"
  pr_device :: "string option"
  pr_capability :: "(nat \<times> nat) option option"
  pr_platform :: "(string option \<times> string) list"

definition is_cuda_available :: "host \<Rightarrow> probe_cache \<Rightarrow> bool \<times> probe_cache" where
  "is_cuda_available h pr = (case pr_cuda pr of
      Some b \<Rightarrow> (b, pr)
    | None \<Rightarrow> let b = probe_cuda h in (b, pr\<lparr>pr_cuda := Some b\<rparr>))"

definition get_device_type :: "host \<Rightarrow> probe_cache \<Rightarrow> string \<times> probe_cache" where
  "get_device_type h pr = (case pr_device pr of
      Some d \<Rightarrow> (d, pr)
    | None \<Rightarrow> let (b, pr) = is_cuda_available h pr; d = (if b then ''cuda'' else ''cpu'')
              in (d, pr\<lparr>pr_device := Some d\<rparr>))"

definition get_torch_cuda_version :: "host \<Rightarrow> probe_cache \<Rightarrow> (nat \<times> nat) option \<times> probe_cache" where
  "get_torch_cuda_version h pr = (case pr_capability pr of
      Some v \<Rightarrow> (v, pr)
    | None \<Rightarrow>
        let (b, pr) = is_cuda_available h pr;
            v = (if \<not> b then None else if ho_cuda_version h \<in> {None, Some []} then None else Some (ho_capability h))
        in (v, pr\<lparr>pr_capability := Some v\<rparr>))"

definition is_arch_supported :: "host \<Rightarrow> nat \<Rightarrow> nat \<Rightarrow> probe_cache \<Rightarrow> bool \<times> probe_cache" where
  "is_arch_supported h major minor pr = (case get_torch_cuda_version h pr of
      (None, pr) \<Rightarrow> (False, pr)
    | (Some (a, b), pr) \<Rightarrow> (a > major \<or> a = major \<and> b \<ge> minor, pr))"

section \<open>The platform\<close>

definition probe_metax :: "host \<Rightarrow> bool" where
  "probe_metax h =
     (let getenv = ho_environ h; marked = (\<lambda>s. contains ''maca'' s \<or> contains ''metax'' s) in
      if getenv ''MACA_PATH'' \<notin> {None, Some []} then True
      else
        let value = (\<lambda>name. case getenv name of None \<Rightarrow> [] | Some v \<Rightarrow> v);
            path_markers = lower (join '' '' (map value [''CUDA_HOME'', ''CUDA_PATH'', ''CUCC_PATH'', ''MACA_CLANG_PATH''])) in
        if marked path_markers then True
        else if \<not> ho_torch h then False
        else
          let version_markers = lower (join '' '' [ho_torch_version h,
                (case ho_cuda_version h of None \<Rightarrow> ''None'' | Some v \<Rightarrow> v)])
          in marked version_markers)"

definition get_accelerator_platform :: "host \<Rightarrow> string option \<Rightarrow> probe_cache \<Rightarrow> string res \<times> probe_cache" where
  "get_accelerator_platform h device_type pr = (case map_of (pr_platform pr) device_type of
      Some p \<Rightarrow> (Inr p, pr)
    | None \<Rightarrow>
        let keep = (\<lambda>p pr. (Inr p, pr\<lparr>pr_platform := (device_type, p) # pr_platform pr\<rparr>));
            override = lower (strip (case ho_environ h ''MINISGL_PLATFORM'' of None \<Rightarrow> [] | Some v \<Rightarrow> v)) in
        if override \<noteq> [] then
          (if override \<notin> set [''nvidia'', ''metax'', ''cpu''] then (Inl ValueError, pr) else keep override pr)
        else
          let (resolved, pr) = (case device_type of Some d \<Rightarrow> (d, pr) | None \<Rightarrow> get_device_type h pr) in
          if resolved = ''cpu'' then keep ''cpu'' pr
          else keep (if probe_metax h then ''metax'' else ''nvidia'') pr)"

definition is_metax_platform :: "host \<Rightarrow> probe_cache \<Rightarrow> bool res \<times> probe_cache" where
  "is_metax_platform h pr = (case get_accelerator_platform h None pr of
      (Inl e, pr) \<Rightarrow> (Inl e, pr) | (Inr p, pr) \<Rightarrow> (Inr (p = ''metax''), pr))"

section \<open>Streams, events and memory\<close>

text \<open>A stream or event is the number of the call that created it; stream 0 is the default.\<close>

datatype vendor_call =
    NewStream | SetStream "nat option" | Synchronize | NewEvent | RecordEvent nat "nat option"
  | EmptyCache | ResetPeak | MemGetInfo string | SetDevice int
  | InitProcessGroup string | NewGroup string | InitPyNccl int

definition fresh :: "vendor_call list \<Rightarrow> nat" where
  "fresh calls = Suc (length calls)"

fun current_of :: "vendor_call list \<Rightarrow> nat" where
  "current_of [] = 0"
| "current_of (SetStream (Some n) # calls) = n"
| "current_of (_ # calls) = current_of calls"

text \<open>The calls are listed latest first. An unknown device type raises before any call.\<close>

definition dispatch ::
  "string \<Rightarrow> (vendor_call list \<Rightarrow> ('a \<times> vendor_call list) res) \<Rightarrow> 'a res \<Rightarrow> vendor_call list \<Rightarrow> ('a \<times> vendor_call list) res" where
  "dispatch device_type on_cuda on_cpu calls =
     (if device_type = ''cuda'' then on_cuda calls
      else if device_type = ''cpu'' then rbind on_cpu (\<lambda>x. Inr (x, calls))
      else Inl ValueError)"

definition create_stream :: "string \<Rightarrow> vendor_call list \<Rightarrow> (nat option \<times> vendor_call list) res" where
  "create_stream dt = dispatch dt (\<lambda>calls. Inr (Some (fresh calls), NewStream # calls)) (Inr None)"

definition set_stream :: "string \<Rightarrow> nat option \<Rightarrow> vendor_call list \<Rightarrow> (unit \<times> vendor_call list) res" where
  "set_stream dt stream = dispatch dt (\<lambda>calls. Inr ((), SetStream stream # calls)) (Inr ())"

definition current_stream :: "string \<Rightarrow> vendor_call list \<Rightarrow> (nat option \<times> vendor_call list) res" where
  "current_stream dt = dispatch dt (\<lambda>calls. Inr (Some (current_of calls), calls)) (Inr None)"

definition synchronize_device :: "string \<Rightarrow> vendor_call list \<Rightarrow> (unit \<times> vendor_call list) res" where
  "synchronize_device dt = dispatch dt (\<lambda>calls. Inr ((), Synchronize # calls)) (Inr ())"

definition create_event :: "string \<Rightarrow> vendor_call list \<Rightarrow> (nat option \<times> vendor_call list) res" where
  "create_event dt = dispatch dt (\<lambda>calls. Inr (Some (fresh calls), NewEvent # calls)) (Inr None)"

definition record_event :: "string \<Rightarrow> nat option \<Rightarrow> nat option \<Rightarrow> vendor_call list \<Rightarrow> (unit \<times> vendor_call list) res" where
  "record_event dt event stream = dispatch dt (\<lambda>calls. case event of
      None \<Rightarrow> Inl AttributeError | Some e \<Rightarrow> Inr ((), RecordEvent e stream # calls)) (Inr ())"

definition empty_device_cache :: "string \<Rightarrow> vendor_call list \<Rightarrow> (unit \<times> vendor_call list) res" where
  "empty_device_cache dt = dispatch dt (\<lambda>calls. Inr ((), EmptyCache # calls)) (Inr ())"

definition reset_peak_memory_stats :: "string \<Rightarrow> vendor_call list \<Rightarrow> (unit \<times> vendor_call list) res" where
  "reset_peak_memory_stats dt = dispatch dt (\<lambda>calls. Inr ((), ResetPeak # calls)) (Inr ())"

definition get_free_memory_bytes ::
  "(string \<Rightarrow> int \<times> int) \<Rightarrow> string \<Rightarrow> string \<Rightarrow> vendor_call list \<Rightarrow> (int \<times> vendor_call list) res" where
  "get_free_memory_bytes mem_get_info dt dev =
     dispatch dt (\<lambda>calls. Inr (fst (mem_get_info dev), MemGetInfo dev # calls)) (Inl NotImplementedError)"

text \<open>The context manager that binds a stream for a block and binds the previous one again, however the block ends.\<close>

datatype stream_ctx = CudaStream "nat option" | NullContext

definition stream_context :: "string \<Rightarrow> nat option \<Rightarrow> vendor_call list \<Rightarrow> (stream_ctx \<times> vendor_call list) res" where
  "stream_context dt stream = dispatch dt (\<lambda>calls. Inr (CudaStream stream, calls)) (Inr NullContext)"

definition with_stream ::
  "stream_ctx \<Rightarrow> (vendor_call list \<Rightarrow> 'a res \<times> vendor_call list) \<Rightarrow> vendor_call list \<Rightarrow> 'a res \<times> vendor_call list" where
  "with_stream sctx body calls = (case sctx of
      NullContext \<Rightarrow> body calls
    | CudaStream None \<Rightarrow> body calls
    | CudaStream (Some n) \<Rightarrow>
        let previous = current_of calls; (r, calls) = body (SetStream (Some n) # calls)
        in (r, SetStream (Some previous) # calls))"

section \<open>Joining a group\<close>

definition device_to_backend :: "(string \<times> string) list" where
  "device_to_backend = [(''cuda'', ''nccl''), (''cpu'', ''gloo'')]"

definition get_distributed_backend :: "host \<Rightarrow> string option \<Rightarrow> probe_cache \<Rightarrow> string res \<times> probe_cache" where
  "get_distributed_backend h device_type pr =
     (let (resolved, pr) = (case device_type of Some d \<Rightarrow> (d, pr) | None \<Rightarrow> get_device_type h pr) in
      (case map_of device_to_backend resolved of None \<Rightarrow> Inl ValueError | Some b \<Rightarrow> Inr b, pr))"

definition bind_local_device :: "string \<Rightarrow> int \<Rightarrow> vendor_call list \<Rightarrow> (string \<times> vendor_call list) res" where
  "bind_local_device dt local_rank =
     dispatch dt (\<lambda>calls. Inr (''cuda:'' @ show_int local_rank, SetDevice local_rank # calls)) (Inr ''cpu'')"




section \<open>Collectives\<close>

text \<open>The plugins of the communicator; the last one registered is used.\<close>

datatype comm_plugin = TorchDistributed | PyNccl int

definition enable_pynccl_distributed ::
  "int \<Rightarrow> dist_info \<Rightarrow> int \<Rightarrow> comm_plugin list \<Rightarrow> vendor_call list \<Rightarrow> comm_plugin list \<times> vendor_call list" where
  "enable_pynccl_distributed max_buffer tp max_bytes plugins calls =
     (if di_size tp = 1 then (plugins, calls)
      else let max_size_bytes = min max_bytes max_buffer in (plugins @ [PyNccl max_size_bytes], InitPyNccl max_size_bytes # calls))"

definition destroy_distributed :: "comm_plugin list \<Rightarrow> comm_plugin list" where
  "destroy_distributed plugins = []"

text \<open>
  A collective over all ranks at once: \<open>xs\<close> has one entry per rank. \<open>add\<close> is the sum of two tensors.
\<close>

definition comm_all_reduce :: "('a \<Rightarrow> 'a \<Rightarrow> 'a) \<Rightarrow> comm_plugin list \<Rightarrow> 'a list \<Rightarrow> 'a list res" where
  "comm_all_reduce add plugins xs =
     (if plugins = [] then Inl IndexError
      else case last plugins of
          TorchDistributed \<Rightarrow> if length xs = 1 then Inr xs else Inr (replicate (length xs) (foldl add (hd xs) (tl xs)))
        | PyNccl _ \<Rightarrow> Inr (replicate (length xs) (foldl add (hd xs) (tl xs))))"

definition comm_all_gather :: "comm_plugin list \<Rightarrow> 'a list list \<Rightarrow> 'a list list res" where
  "comm_all_gather plugins xs =
     (if plugins = [] then Inl IndexError
      else case last plugins of
          TorchDistributed \<Rightarrow> if length xs = 1 then Inr xs else Inr (replicate (length xs) (concat xs))
        | PyNccl _ \<Rightarrow> Inr (replicate (length xs) (concat xs)))"

section \<open>The engine's part\<close>

text \<open>The group an engine joins, and the sidecar group it gets for messages on the host.\<close>

definition init_communication ::
  "host \<Rightarrow> string \<Rightarrow> string \<Rightarrow> dist_info \<Rightarrow> bool \<Rightarrow> int \<Rightarrow> int \<Rightarrow> comm_plugin list \<Rightarrow> probe_cache \<Rightarrow> vendor_call list \<Rightarrow>
   (bool \<times> comm_plugin list \<times> vendor_call list) res" where
  "init_communication h platform device_type tp use_pynccl max_buffer max_bytes plugins pr calls =
     (if platform = ''metax'' \<and> di_size tp = 1 then Inr (False, plugins, calls)
      else if di_size tp = 1 \<or> use_pynccl then
        (let calls = InitProcessGroup ''gloo'' # calls;
             (plugins, calls) = enable_pynccl_distributed max_buffer tp max_bytes plugins calls
         in Inr (True, plugins, calls))
      else
        rbind (fst (get_distributed_backend h (Some device_type) pr)) (\<lambda>accel_backend.
        Inr (True, plugins, NewGroup ''gloo'' # InitProcessGroup accel_backend # calls)))"

text \<open>Measuring the free memory: the calls that come before the ranks compare what they have.\<close>

definition measure_memory ::
  "(string \<Rightarrow> int \<times> int) \<Rightarrow> string \<Rightarrow> string \<Rightarrow> bool \<Rightarrow> int list \<Rightarrow> vendor_call list \<Rightarrow> ((int \<times> int) \<times> vendor_call list) res" where
  "measure_memory mem_get_info device_type dev has_group others calls =
     rbind (synchronize_device device_type calls) (\<lambda>(_, calls).
     rbind (empty_device_cache device_type calls) (\<lambda>(_, calls).
     rbind (reset_peak_memory_stats device_type calls) (\<lambda>(_, calls).
     rbind (get_free_memory_bytes mem_get_info device_type dev calls) (\<lambda>(free_memory, calls).
     rbind (sync_get_memory has_group free_memory others) (\<lambda>mm. Inr (mm, calls))))))"

section \<open>What these guarantee\<close>

lemma dispatch_cpu: "dispatch ''cpu'' f g calls = rbind g (\<lambda>x. Inr (x, calls))"
  by (simp add: dispatch_def)

lemma dispatch_unknown: "dt \<notin> {''cuda'', ''cpu''} \<Longrightarrow> dispatch dt f g calls = Inl ValueError"
  by (simp add: dispatch_def)

lemmas runtime_defs = create_stream_def set_stream_def current_stream_def synchronize_device_def create_event_def
  record_event_def empty_device_cache_def reset_peak_memory_stats_def get_free_memory_bytes_def stream_context_def bind_local_device_def

text \<open>A block under a stream runs with that stream current and leaves the current stream as it was, whatever it does.\<close>

lemma with_stream_restores:
  assumes "stream_context ''cuda'' (Some n) calls = Inr (sctx, calls')" and "with_stream sctx body calls' = (r, calls'')"
  shows "current_of calls'' = current_of calls" and "\<exists>calls'. body (SetStream (Some n) # calls) = (r, calls') \<and> current_of (SetStream (Some n) # calls) = n"
  using assms by (auto simp: stream_context_def dispatch_def with_stream_def Let_def split: prod.splits)

lemma cached_device_stable:
  "get_device_type h pr = (d, pr') \<Longrightarrow> get_device_type h' pr' = (d, pr')"
  by (auto simp: get_device_type_def Let_def split: option.splits prod.splits)




text \<open>All ranks end a collective with the same value.\<close>

lemma comm_all_gather_same:
  "comm_all_gather plugins xs = Inr ys \<Longrightarrow> xs \<noteq> [] \<Longrightarrow> ys = replicate (length xs) (concat xs)"
  by (cases xs) (auto simp: comm_all_gather_def split: comm_plugin.splits if_splits)

end
